(* ===== verification/Prelude.thy ===== *)
theory Prelude
  imports Main "HOL-Library.Word"
begin

text \<open>
  What every component of the model shares: the ways in which a kernel routine can fail to
  return (\<open>halt\<close>), the result type \<open>'a res\<close> of a routine that may not return, its sequencing
  \<open>andThen\<close>, the total-correctness predicate \<open>ok\<close> with the collection \<open>wp\<close> of the
  routines' specifications, the machine integers, and generic lemmas on lists.

  The code is C without exceptions. A routine does not return when it calls \<open>PANIC()\<close>
  (the emulator's ROM stops the machine; \<open>adderrbuf\<close> in \<open>devices/terminal.c\<close> prints
  its message and panics), when it dereferences a NULL or wild pointer or indexes an array out of
  its bounds (both undefined in C), or when a loop does not end.
\<close>

section \<open>Results\<close>

datatype halt =
    Panic string      \<comment> \<open>\<open>adderrbuf(msg)\<close>, or \<open>PANIC()\<close> with no message\<close>
  | NullDeref         \<comment> \<open>access through a NULL pointer\<close>
  | WildPointer       \<comment> \<open>access through a pointer to no object of the expected type\<close>
  | OutOfBounds       \<comment> \<open>array index out of range\<close>
  | Halted            \<comment> \<open>\<open>HALT()\<close>\<close>
  | DivByZero         \<comment> \<open>integer division by zero\<close>
  | Diverge           \<comment> \<open>a loop that never ends\<close>

type_synonym 'a res = "halt + 'a"

type_synonym u32 = "32 word"

definition andThen :: "'a res \<Rightarrow> ('a \<Rightarrow> 'b res) \<Rightarrow> 'b res" where
  "andThen m f = (case m of Inl e \<Rightarrow> Inl e | Inr x \<Rightarrow> f x)"

definition ok :: "'a res \<Rightarrow> ('a \<Rightarrow> bool) \<Rightarrow> bool" where
  "ok m Q \<longleftrightarrow> (case m of Inl e \<Rightarrow> False | Inr x \<Rightarrow> Q x)"

definition deref :: "'a option \<Rightarrow> 'a res" where
  "deref p = (case p of None \<Rightarrow> Inl NullDeref | Some x \<Rightarrow> Inr x)"

definition returned :: "'a res option \<Rightarrow> 'a res" where
  "returned r = (case r of None \<Rightarrow> Inl Diverge | Some m \<Rightarrow> m)"

named_theorems wp \<open>total-correctness specifications of the model's routines\<close>

lemma andThen_simps [simp]:
  "andThen (Inl e) f = Inl e"
  "andThen (Inr x) f = f x"
  by (simp_all add: andThen_def)

lemma andThen_assoc: "andThen (andThen m f) g = andThen m (\<lambda>x. andThen (f x) g)"
  by (cases m) simp_all

lemma andThen_eq_Inr:
  "andThen m f = Inr y \<longleftrightarrow> (\<exists>x. m = Inr x \<and> f x = Inr y)"
  by (cases m) simp_all

text \<open>The early return of a loop body.\<close>

lemma andThen_return [simp]:
  "(case andThen m (\<lambda>s. Inr (r, s)) of
      Inl e \<Rightarrow> Inl e | Inr (r, t) \<Rightarrow> Inr (Some r, t)) = andThen m (\<lambda>s. Inr (Some r, s))"
  by (cases m) simp_all

lemma deref_simps [simp]:
  "deref None = Inl NullDeref"
  "deref (Some x) = Inr x"
  by (simp_all add: deref_def)

lemma returned_simps [simp]:
  "returned None = Inl Diverge"
  "returned (Some m) = m"
  by (simp_all add: returned_def)

lemma ok_simps [simp]:
  "ok (Inl e) Q = False"
  "ok (Inr x) Q = Q x"
  by (simp_all add: ok_def)

lemma ok_andThen [simp]: "ok (andThen m f) Q = ok m (\<lambda>x. ok (f x) Q)"
  by (cases m) simp_all

lemma ok_case_prod: "ok (case x of (a, b) \<Rightarrow> f a b) Q = (case x of (a, b) \<Rightarrow> ok (f a b) Q)"
  by (simp split: prod.split)

lemma ok_mono: "ok m P \<Longrightarrow> (\<And>x. P x \<Longrightarrow> Q x) \<Longrightarrow> ok m Q"
  by (cases m) simp_all

lemma ok_iff: "ok m Q \<longleftrightarrow> (\<exists>x. m = Inr x \<and> Q x)"
  by (cases m) simp_all

lemma ok_conj: "ok m P \<Longrightarrow> ok m Q \<Longrightarrow> ok m (\<lambda>x. P x \<and> Q x)"
  by (cases m) simp_all

lemma ok_Inr_D: "ok m Q \<Longrightarrow> m = Inr x \<Longrightarrow> Q x"
  by simp

section \<open>Lists\<close>

lemma find_append:
  "List.find P (xs @ ys) = (case List.find P xs of None \<Rightarrow> List.find P ys | Some x \<Rightarrow> Some x)"
  by (induction xs) auto

lemma find_SomeD: "List.find P xs = Some x \<Longrightarrow> x \<in> set xs \<and> P x"
  by (induction xs) (auto split: if_splits)

lemma find_eq_split:
  "List.find P xs = Some x \<Longrightarrow>
    \<exists>ys zs. xs = ys @ x # zs \<and> P x \<and> (\<forall>y\<in>set ys. \<not> P y)"
  by (induction xs) (auto split: if_splits intro: exI [of _ "[]"], metis append_Cons set_ConsD)

lemma remove1_split: "x \<notin> set ys \<Longrightarrow> remove1 x (ys @ x # zs) = ys @ zs"
  by (simp add: remove1_append)

lemma distinct_remove1_set: "distinct xs \<Longrightarrow> set (remove1 x xs) = set xs - {x}"
  by simp

lemma find_map: "List.find P (map f xs) = map_option f (List.find (\<lambda>x. P (f x)) xs)"
  by (induction xs) auto

lemma find_eq_mem: "List.find (\<lambda>y. y = x) xs = (if x \<in> set xs then Some x else None)"
  by (induction xs) auto

lemma count_list_distinct: "distinct xs \<Longrightarrow> count_list xs x = of_bool (x \<in> set xs)"
  by (induction xs) auto

section \<open>Machine integers\<close>

lemma unat_word_of_nat: "m < 2 ^ 32 \<Longrightarrow> unat (word_of_nat m :: u32) = m"
  by (simp add: unat_of_nat take_bit_nat_eq_self)

end
