(* ===== verification/Listx.thy ===== *)
theory Listx
  imports Prelude
begin

text \<open>
  The intrusive circular lists of \<open>include/utils/listx.h\<close> at pointer level.

  A \<open>struct list_head\<close> lives inside another object: in a PCB (\<open>p_next\<close>, \<open>p_child\<close>,
  \<open>p_sib\<close>), in a semaphore descriptor (\<open>s_next\<close>, \<open>s_procQ\<close>) or in a global
  (the sentinels). Its address is a value of \<open>lh\<close>, whose constructor says which member of
  which object it is; \<open>container_of\<close> is the inverse of the constructor. The memory
  \<open>list_mem\<close> has the two members of every \<open>struct list_head\<close>; a pointer is an
  \<open>lh option\<close>, with \<open>None\<close> for NULL, which is also the content of static storage
  before it is initialised.

  After the operations come the representation predicate \<open>dll\<close> (a well-formed ring with the
  given elements) and \<open>rings\<close> (a family of disjoint rings linked through the same member),
  and what every operation does to them.
\<close>

section \<open>Addresses and memory\<close>

text \<open>The objects of type \<open>pcb_t\<close>: the entries of \<open>pcbFree_table\<close> and \<open>idle_proc\<close>.\<close>

datatype pcb = Pcb nat | Idle_proc

datatype lh =
    P_next pcb | P_child pcb | P_sib pcb
  | S_next nat | S_procQ nat
  | PcbFree_h | SemdFree_h | Semd_h | Ready_queue
  | Proc_list nat   \<comment> \<open>a caller's own list head, such as the tests' \<open>qa\<close>\<close>

record list_mem =
  lh_next :: "lh \<Rightarrow> lh option"
  lh_prev :: "lh \<Rightarrow> lh option"

text \<open>\<open>container_of(ptr, pcb_t, member)\<close> and \<open>container_of(ptr, semd_t, s_next)\<close>.\<close>

fun container_of_p_next :: "lh \<Rightarrow> pcb res" where
  "container_of_p_next (P_next p) = Inr p"
| "container_of_p_next _ = Inl WildPointer"

fun container_of_p_child :: "lh \<Rightarrow> pcb res" where
  "container_of_p_child (P_child p) = Inr p"
| "container_of_p_child _ = Inl WildPointer"

fun container_of_p_sib :: "lh \<Rightarrow> pcb res" where
  "container_of_p_sib (P_sib p) = Inr p"
| "container_of_p_sib _ = Inl WildPointer"

fun container_of_s_next :: "lh \<Rightarrow> nat res" where
  "container_of_s_next (S_next i) = Inr i"
| "container_of_s_next _ = Inl WildPointer"

section \<open>Operations\<close>

definition INIT_LIST_HEAD :: "lh \<Rightarrow> 'a list_mem_scheme \<Rightarrow> 'a list_mem_scheme" where
  "INIT_LIST_HEAD l s =
     s\<lparr>lh_next := (lh_next s)(l := Some l), lh_prev := (lh_prev s)(l := Some l)\<rparr>"

text \<open>The members of the list heads, written one at a time as the code does.\<close>

definition set_next :: "lh \<Rightarrow> lh option \<Rightarrow> 'a list_mem_scheme \<Rightarrow> 'a list_mem_scheme" where
  "set_next l v s = s\<lparr>lh_next := (lh_next s)(l := v)\<rparr>"

definition set_prev :: "lh \<Rightarrow> lh option \<Rightarrow> 'a list_mem_scheme \<Rightarrow> 'a list_mem_scheme" where
  "set_prev l v s = s\<lparr>lh_prev := (lh_prev s)(l := v)\<rparr>"

text \<open>\<open>__list_add(new, prev, next)\<close> and \<open>__list_del(prev, next)\<close>.\<close>

definition do_list_add ::
  "lh \<Rightarrow> lh option \<Rightarrow> lh option \<Rightarrow> 'a list_mem_scheme \<Rightarrow> 'a list_mem_scheme res" where
  "do_list_add new prev nxt s =
     andThen (deref nxt) (\<lambda>n.
     andThen (deref prev) (\<lambda>p.
     Inr (set_next p (Some new)
         (set_prev new (Some p)
         (set_next new (Some n)
         (set_prev n (Some new) s))))))"

definition list_add :: "lh \<Rightarrow> lh \<Rightarrow> 'a list_mem_scheme \<Rightarrow> 'a list_mem_scheme res" where
  "list_add new head s = do_list_add new (Some head) (lh_next s head) s"

definition list_add_tail :: "lh \<Rightarrow> lh \<Rightarrow> 'a list_mem_scheme \<Rightarrow> 'a list_mem_scheme res" where
  "list_add_tail new head s = do_list_add new (lh_prev s head) (Some head) s"

definition do_list_del ::
  "lh option \<Rightarrow> lh option \<Rightarrow> 'a list_mem_scheme \<Rightarrow> 'a list_mem_scheme res" where
  "do_list_del prev nxt s =
     andThen (deref nxt) (\<lambda>n.
     andThen (deref prev) (\<lambda>p.
     Inr (set_next p (Some n) (set_prev n (Some p) s))))"

definition list_del :: "lh \<Rightarrow> 'a list_mem_scheme \<Rightarrow> 'a list_mem_scheme res" where
  "list_del entry s = do_list_del (lh_prev s entry) (lh_next s entry) s"

definition list_is_last :: "lh \<Rightarrow> lh \<Rightarrow> 'a list_mem_scheme \<Rightarrow> bool" where
  "list_is_last l head s \<longleftrightarrow> lh_next s l = Some head"

definition list_empty :: "lh \<Rightarrow> 'a list_mem_scheme \<Rightarrow> bool" where
  "list_empty head s \<longleftrightarrow> lh_next s head = Some head"

definition list_next :: "lh \<Rightarrow> 'a list_mem_scheme \<Rightarrow> lh option" where
  "list_next current s = (if list_empty current s then None else lh_next s current)"

definition list_prev :: "lh \<Rightarrow> 'a list_mem_scheme \<Rightarrow> lh option" where
  "list_prev current s = (if list_empty current s then None else lh_prev s current)"

text \<open>
  \<open>list_for_each\<close> and \<open>list_for_each_entry\<close>: the loop follows \<open>next\<close> until it meets
  the sentinel. The body gets the current list head (its \<open>container_of\<close> is the body's first
  act) and returns the new memory, with \<open>Some r\<close> when it leaves the loop by \<open>return\<close> or
  \<open>None\<close> to go on. On a damaged ring the loop may never meet the sentinel, so it is a
  \<open>partial_function\<close>; \<open>returned\<close> makes that a \<open>Diverge\<close>.
\<close>

type_synonym ('r, 'a) loop_body =
  "lh \<Rightarrow> 'a list_mem_scheme \<Rightarrow> ('r option \<times> 'a list_mem_scheme) res"

partial_function (option) for_each ::
  "('r, 'a) loop_body \<Rightarrow> lh \<Rightarrow> lh option \<Rightarrow> 'a list_mem_scheme \<Rightarrow>
     ('r option \<times> 'a list_mem_scheme) res option" where
  "for_each body head pos s =
     (case pos of
        None \<Rightarrow> Some (Inl NullDeref)
      | Some l \<Rightarrow>
          if l = head then Some (Inr (None, s))
          else (case body l s of
                  Inl e \<Rightarrow> Some (Inl e)
                | Inr (Some r, s') \<Rightarrow> Some (Inr (Some r, s'))
                | Inr (None, s') \<Rightarrow> for_each body head (lh_next s' l) s'))"

definition list_for_each_entry ::
  "('r, 'a) loop_body \<Rightarrow> lh \<Rightarrow> 'a list_mem_scheme \<Rightarrow>
     ('r option \<times> 'a list_mem_scheme) res" where
  "list_for_each_entry body head s = returned (for_each body head (lh_next s head) s)"

text \<open>\<open>list_for_each_prev\<close> and \<open>list_for_each_entry_reverse\<close>: the same loops along \<open>prev\<close>.\<close>

partial_function (option) for_each_prev ::
  "('r, 'a) loop_body \<Rightarrow> lh \<Rightarrow> lh option \<Rightarrow> 'a list_mem_scheme \<Rightarrow>
     ('r option \<times> 'a list_mem_scheme) res option" where
  "for_each_prev body head pos s =
     (case pos of
        None \<Rightarrow> Some (Inl NullDeref)
      | Some l \<Rightarrow>
          if l = head then Some (Inr (None, s))
          else (case body l s of
                  Inl e \<Rightarrow> Some (Inl e)
                | Inr (Some r, s') \<Rightarrow> Some (Inr (Some r, s'))
                | Inr (None, s') \<Rightarrow> for_each_prev body head (lh_prev s' l) s'))"

definition list_for_each_entry_reverse ::
  "('r, 'a) loop_body \<Rightarrow> lh \<Rightarrow> 'a list_mem_scheme \<Rightarrow>
     ('r option \<times> 'a list_mem_scheme) res" where
  "list_for_each_entry_reverse body head s = returned (for_each_prev body head (lh_prev s head) s)"

section \<open>Paths and rings\<close>

text \<open>\<open>links n a xs b\<close>: from \<open>a\<close>, following \<open>n\<close>, through exactly \<open>xs\<close>, to \<open>b\<close>.\<close>

fun links :: "(lh \<Rightarrow> lh option) \<Rightarrow> lh \<Rightarrow> lh list \<Rightarrow> lh \<Rightarrow> bool" where
  "links n a [] b \<longleftrightarrow> n a = Some b"
| "links n a (x # xs) b \<longleftrightarrow> n a = Some x \<and> links n x xs b"

definition dll :: "'a list_mem_scheme \<Rightarrow> lh \<Rightarrow> lh list \<Rightarrow> bool" where
  "dll s h xs \<longleftrightarrow>
     links (lh_next s) h xs h \<and> links (lh_prev s) h (rev xs) h \<and> distinct (h # xs)"

lemma links_append:
  "links n a (xs @ y # ys) b \<longleftrightarrow> links n a xs y \<and> links n y ys b"
  by (induction xs arbitrary: a) auto

lemma links_cong:
  "(\<And>x. x \<in> set (a # xs) \<Longrightarrow> n x = m x) \<Longrightarrow> links n a xs b = links m a xs b"
  by (induction xs arbitrary: a) auto

lemma links_upd [simp]:
  "c \<notin> set (a # xs) \<Longrightarrow> links (n(c := v)) a xs b = links n a xs b"
  by (rule links_cong) auto

lemma links_upd_first:
  "a \<notin> set (x # xs) \<Longrightarrow> links (n(a := Some x)) a (x # xs) b = links n x xs b"
  by simp

lemma links_target_unique: "links n a xs b \<Longrightarrow> links n a xs c \<Longrightarrow> b = c"
  by (induction xs arbitrary: a) auto

lemma links_snoc: "links n a (xs @ [y]) b \<longleftrightarrow> links n a xs y \<and> n y = Some b"
  by (simp add: links_append)

text \<open>The last cell before \<open>b\<close> on the path points to \<open>b\<close>; redirecting it redirects the path.\<close>

lemma links_last: "links n a xs b \<Longrightarrow> n (last (a # xs)) = Some b"
  by (induction xs arbitrary: a) auto

lemma links_redirect:
  "distinct (a # xs) \<Longrightarrow> links n a xs b \<Longrightarrow> links (n(last (a # xs) := Some c)) a xs c"
proof (induction xs arbitrary: a)
  case Nil
  then show ?case by simp
next
  case (Cons x xs)
  then have "a \<noteq> last (x # xs)"
    by (metis distinct.simps(2) last_in_set list.distinct(1))
  with Cons show ?case by simp
qed

lemma dll_cong:
  assumes "\<And>x. x \<in> set (h # xs) \<Longrightarrow> lh_next s x = lh_next t x"
    and "\<And>x. x \<in> set (h # xs) \<Longrightarrow> lh_prev s x = lh_prev t x"
  shows "dll s h xs = dll t h xs"
proof -
  have "links (lh_next s) h xs h = links (lh_next t) h xs h"
    by (rule links_cong) (rule assms(1))
  moreover have "links (lh_prev s) h (rev xs) h = links (lh_prev t) h (rev xs) h"
    by (rule links_cong) (simp add: assms(2))
  ultimately show ?thesis by (simp add: dll_def)
qed

lemma dll_Nil: "dll s h [] \<longleftrightarrow> lh_next s h = Some h \<and> lh_prev s h = Some h"
  by (simp add: dll_def)

lemma dll_distinct: "dll s h xs \<Longrightarrow> distinct (h # xs)"
  by (simp add: dll_def)

lemma dll_next_head: "dll s h xs \<Longrightarrow> lh_next s h = Some (hd (xs @ [h]))"
  by (cases xs) (auto simp: dll_def)

lemma dll_prev_head: "dll s h xs \<Longrightarrow> lh_prev s h = Some (last (h # xs))"
  by (cases xs rule: rev_cases) (auto simp: dll_def)

lemma dll_next_mid:
  "dll s h (xs @ x # ys) \<Longrightarrow> lh_next s x = Some (hd (ys @ [h]))"
  by (cases ys) (auto simp: dll_def links_append)

lemma dll_prev_mid:
  "dll s h (xs @ x # ys) \<Longrightarrow> lh_prev s x = Some (last (h # xs))"
  by (cases xs rule: rev_cases) (auto simp: dll_def links_append)

lemma dll_empty_iff: "dll s h xs \<Longrightarrow> list_empty h s \<longleftrightarrow> xs = []"
  by (cases xs) (auto simp: dll_def list_empty_def)

lemma dll_list_next:
  "dll s h xs \<Longrightarrow> list_next h s = (case xs of [] \<Rightarrow> None | x # _ \<Rightarrow> Some x)"
  by (cases xs) (auto simp: dll_empty_iff list_next_def dll_next_head)

lemma dll_init: "dll (INIT_LIST_HEAD h s) h []"
  by (simp add: dll_Nil INIT_LIST_HEAD_def)


section \<open>What the operations do to a ring\<close>

text \<open>\<open>links_only F s t\<close>: \<open>t\<close> is \<open>s\<close> but for the two pointers of the cells in \<open>F\<close>.\<close>

definition links_only :: "lh set \<Rightarrow> 'a list_mem_scheme \<Rightarrow> 'a list_mem_scheme \<Rightarrow> bool" where
  "links_only F s t \<longleftrightarrow>
     list_mem.more t = list_mem.more s \<and>
     (\<forall>x. x \<notin> F \<longrightarrow> lh_next t x = lh_next s x \<and> lh_prev t x = lh_prev s x)"

lemma links_only_refl [simp]: "links_only F s s"
  by (simp add: links_only_def)

lemma links_only_trans: "links_only F s t \<Longrightarrow> links_only F t u \<Longrightarrow> links_only F s u"
  by (simp add: links_only_def)

lemma links_only_mono: "links_only F s t \<Longrightarrow> F \<subseteq> G \<Longrightarrow> links_only G s t"
  by (auto simp: links_only_def)

lemma links_only_more: "links_only F s t \<Longrightarrow> list_mem.more t = list_mem.more s"
  by (simp add: links_only_def)

lemma links_only_frame:
  "links_only F s t \<Longrightarrow> x \<notin> F \<Longrightarrow> lh_next t x = lh_next s x"
  "links_only F s t \<Longrightarrow> x \<notin> F \<Longrightarrow> lh_prev t x = lh_prev s x"
  by (auto simp: links_only_def)

lemma links_only_dll:
  "links_only F s t \<Longrightarrow> set (h # xs) \<inter> F = {} \<Longrightarrow> dll t h xs = dll s h xs"
  by (rule dll_cong) (auto simp: links_only_def disjoint_iff)

lemma links_only_INIT: "l \<in> F \<Longrightarrow> links_only F s (INIT_LIST_HEAD l s)"
  by (auto simp: links_only_def INIT_LIST_HEAD_def)

lemma links_only_set_next: "l \<in> F \<Longrightarrow> links_only F s (set_next l v s)"
  by (auto simp: links_only_def set_next_def)

lemma links_only_set_prev: "l \<in> F \<Longrightarrow> links_only F s (set_prev l v s)"
  by (auto simp: links_only_def set_prev_def)

lemma links_insert:
  assumes "distinct (h # xs @ ys)" and "new \<notin> set (h # xs @ ys)" and "links n h (xs @ ys) h"
  shows "links (n(new := Some (hd (ys @ [h])), last (h # xs) := Some new)) h (xs @ new # ys) h"
proof -
  let ?p = "last (h # xs)"
  let ?n' = "n(new := Some (hd (ys @ [h])), ?p := Some new)"
  have p: "?p \<in> set (h # xs)" by (rule last_in_set) simp
  have "links n h xs (hd (ys @ [h]))"
    using assms(3) by (cases ys) (auto simp: links_append)
  then have "links (n(?p := Some new)) h xs new"
    using assms(1) by (intro links_redirect) auto
  then have "links ?n' h xs new"
    using assms(2) p by (subst fun_upd_twist) auto
  moreover have "links ?n' new ys h"
  proof (cases ys)
    case Nil
    then show ?thesis using p assms(2) by auto
  next
    case (Cons y zs)
    then have "links n y zs h" using assms(3) by (simp add: links_append)
    moreover have "?p \<notin> set (y # zs)" "new \<notin> set (y # zs)" "?p \<noteq> new"
      using assms(1,2) p Cons by auto
    ultimately show ?thesis using Cons by simp
  qed
  ultimately show ?thesis by (simp add: links_append)
qed

lemma links_delete:
  assumes "distinct (h # xs @ x # ys)" and "links n h (xs @ x # ys) h"
  shows "links (n(last (h # xs) := Some (hd (ys @ [h])))) h (xs @ ys) h"
proof -
  let ?p = "last (h # xs)"
  let ?m = "n(?p := Some (hd (ys @ [h])))"
  have p: "?p \<in> set (h # xs)" by (rule last_in_set) simp
  have "links n h xs x" and xy: "links n x ys h"
    using assms(2) by (simp_all add: links_append)
  then have xs: "links ?m h xs (hd (ys @ [h]))"
    using assms(1) by (intro links_redirect) auto
  show ?thesis
  proof (cases ys)
    case Nil
    then show ?thesis using xs by simp
  next
    case (Cons y zs)
    then have "links n y zs h" using xy by simp
    moreover have "?p \<notin> set (y # zs)" using assms(1) p Cons by auto
    ultimately have "links ?m y zs h" by simp
    then show ?thesis using xs Cons by (simp add: links_append)
  qed
qed

lemma last_rev_hd: "last (h # rev ys) = hd (ys @ [h])"
  by (cases ys) auto

lemma hd_rev_last: "hd (rev xs @ [h]) = last (h # xs)"
  by (cases xs rule: rev_cases) auto

text \<open>\<open>__list_add\<close> between two neighbours of a ring, and \<open>list_del\<close> of one of its elements.\<close>

lemma do_list_add_dll:
  assumes "dll s h (xs @ ys)" and "new \<notin> set (h # xs @ ys)"
  shows "ok (do_list_add new (Some (last (h # xs))) (Some (hd (ys @ [h]))) s)
    (\<lambda>t. dll t h (xs @ new # ys) \<and> links_only (insert new (set (h # xs @ ys))) s t)"
proof -
  let ?p = "last (h # xs)" and ?n = "hd (ys @ [h])"
  have p: "?p \<in> set (h # xs)" by (rule last_in_set) simp
  have n: "?n \<in> set (h # ys)" by (cases ys) auto
  have d: "distinct (h # xs @ ys)" using assms(1) by (rule dll_distinct)
  have dr: "distinct (h # rev ys @ rev xs)" and nr: "new \<notin> set (h # rev ys @ rev xs)"
    using d assms(2) by auto
  have "links (lh_next s) h (xs @ ys) h" and "links (lh_prev s) h (rev ys @ rev xs) h"
    using assms(1) by (simp_all add: dll_def)
  note nxt = links_insert [OF d assms(2) this(1)] and prv = links_insert [OF dr nr this(2)]
  have "new \<noteq> ?n" using n assms(2) by auto
  then have prv': "links ((lh_prev s)(?n := Some new, new := Some ?p)) h (rev (xs @ new # ys)) h"
    using prv by (simp add: last_rev_hd hd_rev_last fun_upd_twist del: last.simps)
  from nxt prv' d assms(2) p n show ?thesis
    by (auto simp: do_list_add_def dll_def set_next_def set_prev_def links_only_def
        simp del: last.simps)
qed

lemma list_del_dll:
  assumes "dll s h (xs @ x # ys)"
  shows "ok (list_del x s)
    (\<lambda>t. dll t h (xs @ ys) \<and> links_only (set (h # xs @ ys)) s t)"
proof -
  let ?p = "last (h # xs)" and ?n = "hd (ys @ [h])"
  have p: "?p \<in> set (h # xs)" by (rule last_in_set) simp
  have n: "?n \<in> set (h # ys)" by (cases ys) auto
  have d: "distinct (h # xs @ x # ys)" using assms by (rule dll_distinct)
  then have dr: "distinct (h # rev ys @ x # rev xs)" by auto
  have "links (lh_next s) h (xs @ x # ys) h" and "links (lh_prev s) h (rev ys @ x # rev xs) h"
    using assms by (simp_all add: dll_def)
  note nxt = links_delete [OF d this(1)] and prv = links_delete [OF dr this(2)]
  have "lh_next s x = Some ?n" "lh_prev s x = Some ?p"
    using assms by (rule dll_next_mid, rule dll_prev_mid)
  then show ?thesis
    using nxt prv d p n
    by (auto simp: list_del_def do_list_del_def dll_def set_next_def set_prev_def
        links_only_def last_rev_hd hd_rev_last simp del: last.simps)
qed

lemma list_add_dll:
  assumes "dll s h xs" and "new \<notin> set (h # xs)"
  shows "ok (list_add new h s)
    (\<lambda>t. dll t h (new # xs) \<and> links_only (insert new (set (h # xs))) s t)"
  using do_list_add_dll [of s h "[]" xs new] assms dll_next_head [OF assms(1)]
  by (simp add: list_add_def)

lemma list_add_tail_dll:
  assumes "dll s h xs" and "new \<notin> set (h # xs)"
  shows "ok (list_add_tail new h s)
    (\<lambda>t. dll t h (xs @ [new]) \<and> links_only (insert new (set (h # xs))) s t)"
  using do_list_add_dll [of s h xs "[]" new] assms dll_prev_head [OF assms(1)]
  by (simp add: list_add_tail_def del: last.simps)

section \<open>Loops over a ring\<close>

text \<open>
  The loop over a ring whose body looks at the element only, until it finds one that makes it
  leave: it behaves as \<open>List.find\<close> on the ring's elements.
\<close>

lemma for_each_search:
  assumes "links (lh_next s) a xs h" and "h \<notin> set xs"
    and "\<And>x. x \<in> set xs \<Longrightarrow> \<not> P x \<Longrightarrow> body x s = Inr (None, s)"
    and "\<And>x. x \<in> set xs \<Longrightarrow> P x \<Longrightarrow>
      body x s = (case F x of Inl e \<Rightarrow> Inl e | Inr (r, t) \<Rightarrow> Inr (Some r, t))"
  shows "for_each body h (lh_next s a) s =
    Some (case List.find P xs of
        None \<Rightarrow> Inr (None, s)
      | Some x \<Rightarrow> (case F x of Inl e \<Rightarrow> Inl e | Inr (r, t) \<Rightarrow> Inr (Some r, t)))"
  using assms
proof (induction xs arbitrary: a)
  case Nil
  then show ?case by (simp add: for_each.simps)
next
  case (Cons x xs)
  then have a: "lh_next s a = Some x" and "x \<noteq> h" by auto
  show ?case
  proof (cases "P x")
    case True
    have "body x s = (case F x of Inl e \<Rightarrow> Inl e | Inr (r, t) \<Rightarrow> Inr (Some r, t))"
      using Cons.prems(4) True by simp
    then show ?thesis
      using a \<open>x \<noteq> h\<close> True
      by (subst for_each.simps) (auto split: sum.splits prod.splits)
  next
    case False
    then have "body x s = Inr (None, s)" using Cons.prems(3) by simp
    moreover have "for_each body h (lh_next s x) s =
      Some (case List.find P xs of
        None \<Rightarrow> Inr (None, s)
      | Some x \<Rightarrow> (case F x of Inl e \<Rightarrow> Inl e | Inr (r, t) \<Rightarrow> Inr (Some r, t)))"
      using Cons.prems by (intro Cons.IH) auto
    ultimately show ?thesis
      using a \<open>x \<noteq> h\<close> False by (subst for_each.simps) simp
  qed
qed

lemma list_for_each_search:
  assumes "dll s h xs"
    and "\<And>x. x \<in> set xs \<Longrightarrow> \<not> P x \<Longrightarrow> body x s = Inr (None, s)"
    and "\<And>x. x \<in> set xs \<Longrightarrow> P x \<Longrightarrow>
      body x s = (case F x of Inl e \<Rightarrow> Inl e | Inr (r, t) \<Rightarrow> Inr (Some r, t))"
  shows "list_for_each_entry body h s =
    (case List.find P xs of
        None \<Rightarrow> Inr (None, s)
      | Some x \<Rightarrow> (case F x of Inl e \<Rightarrow> Inl e | Inr (r, t) \<Rightarrow> Inr (Some r, t)))"
proof -
  have "links (lh_next s) h xs h" "h \<notin> set xs"
    using assms(1) by (auto simp: dll_def)
  then have "for_each body h (lh_next s h) s =
    Some (case List.find P xs of
        None \<Rightarrow> Inr (None, s)
      | Some x \<Rightarrow> (case F x of Inl e \<Rightarrow> Inl e | Inr (r, t) \<Rightarrow> Inr (Some r, t)))"
    using assms(2,3) by (intro for_each_search)
  then show ?thesis by (simp add: list_for_each_entry_def)
qed

text \<open>The loop whose body changes the elements and not the links: a fold.\<close>

lemma for_each_map:
  assumes "links (lh_next s) a xs h" and "h \<notin> set xs"
    and "\<And>x t. x \<in> set xs \<Longrightarrow> lh_next t = lh_next s \<Longrightarrow>
      body x t = Inr (None, f x t) \<and> lh_next (f x t) = lh_next s"
  shows "for_each body h (lh_next s a) s = Some (Inr (None, fold f xs s))"
  using assms
proof (induction xs arbitrary: a s)
  case Nil
  then show ?case by (simp add: for_each.simps)
next
  case (Cons x xs)
  let ?s = "f x s"
  have a: "lh_next s a = Some x" and "x \<noteq> h" using Cons.prems by auto
  have b: "body x s = Inr (None, ?s)" and l: "lh_next ?s = lh_next s"
    using Cons.prems(3) [of x s] by auto
  have "for_each body h (lh_next ?s x) ?s = Some (Inr (None, fold f xs ?s))"
    using Cons.prems l by (intro Cons.IH) auto
  then show ?case using a \<open>x \<noteq> h\<close> b by (subst for_each.simps) simp
qed

lemma list_for_each_map:
  assumes "dll s h xs"
    and "\<And>x t. x \<in> set xs \<Longrightarrow> lh_next t = lh_next s \<Longrightarrow>
      body x t = Inr (None, f x t) \<and> lh_next (f x t) = lh_next s"
  shows "list_for_each_entry body h s = Inr (None, fold f xs s)"
proof -
  have "for_each body h (lh_next s h) s = Some (Inr (None, fold f xs s))"
    using assms by (intro for_each_map) (auto simp: dll_def)
  then show ?thesis by (simp add: list_for_each_entry_def)
qed

text \<open>Backwards, the elements are visited in the reverse order.\<close>

lemma for_each_prev_map:
  assumes "links (lh_prev s) a xs h" and "h \<notin> set xs"
    and "\<And>x t. x \<in> set xs \<Longrightarrow> lh_prev t = lh_prev s \<Longrightarrow>
      body x t = Inr (None, f x t) \<and> lh_prev (f x t) = lh_prev s"
  shows "for_each_prev body h (lh_prev s a) s = Some (Inr (None, fold f xs s))"
  using assms
proof (induction xs arbitrary: a s)
  case Nil
  then show ?case by (simp add: for_each_prev.simps)
next
  case (Cons x xs)
  let ?s = "f x s"
  have a: "lh_prev s a = Some x" and "x \<noteq> h" using Cons.prems by auto
  have b: "body x s = Inr (None, ?s)" and l: "lh_prev ?s = lh_prev s"
    using Cons.prems(3) [of x s] by auto
  have "for_each_prev body h (lh_prev ?s x) ?s = Some (Inr (None, fold f xs ?s))"
    using Cons.prems l by (intro Cons.IH) auto
  then show ?case using a \<open>x \<noteq> h\<close> b by (subst for_each_prev.simps) simp
qed

lemma list_for_each_reverse_map:
  assumes "dll s h xs"
    and "\<And>x t. x \<in> set xs \<Longrightarrow> lh_prev t = lh_prev s \<Longrightarrow>
      body x t = Inr (None, f x t) \<and> lh_prev (f x t) = lh_prev s"
  shows "list_for_each_entry_reverse body h s = Inr (None, fold f (rev xs) s)"
proof -
  have "for_each_prev body h (lh_prev s h) s = Some (Inr (None, fold f (rev xs) s))"
    using assms by (intro for_each_prev_map) (auto simp: dll_def)
  then show ?thesis by (simp add: list_for_each_entry_reverse_def)
qed

text \<open>
  The loop whose body keeps the links: an invariant \<open>I ys t\<close> of the elements \<open>ys\<close> already passed and the memory
  \<open>t\<close> holds at its end for all of them.
\<close>

lemma for_each_inv:
  assumes "links (lh_next s) a zs h" and "h \<notin> set zs" and "I ys s"
    and "\<And>x ys ws t. zs' = ys @ x # ws \<Longrightarrow> I ys t \<Longrightarrow>
      ok (body x t) (\<lambda>(r, u). r = None \<and> lh_next u = lh_next t \<and> I (ys @ [x]) u)"
    and "zs' = ys @ zs"
  shows "ok (returned (for_each body h (lh_next s a) s)) (\<lambda>(r, t). r = None \<and> lh_next t = lh_next s \<and> I zs' t)"
  using assms
proof (induction zs arbitrary: a s ys)
  case Nil
  then show ?case by (simp add: for_each.simps)
next
  case (Cons x zs)
  have a: "lh_next s a = Some x" and "x \<noteq> h" using Cons.prems by auto
  obtain u where u: "body x s = Inr (None, u)" "lh_next u = lh_next s" "I (ys @ [x]) u"
    using Cons.prems(4) [OF Cons.prems(5,3)] by (auto simp: ok_iff)
  have "ok (returned (for_each body h (lh_next u x) u)) (\<lambda>(r, t). r = None \<and> lh_next t = lh_next u \<and> I zs' t)"
  proof (rule Cons.IH [of u x "ys @ [x]"])
    show "ok (body y t) (\<lambda>(r, v). r = None \<and> lh_next v = lh_next t \<and> I (ys' @ [y]) v)"
      if "zs' = ys' @ y # ws" "I ys' t" for y ys' ws t
      using that by (rule Cons.prems(4))
  qed (use Cons.prems u in simp_all)
  then show ?case using a \<open>x \<noteq> h\<close> u by (subst for_each.simps) simp
qed

lemma list_for_each_inv:
  assumes "dll s h xs" and "I [] s"
    and "\<And>x ys ws t. xs = ys @ x # ws \<Longrightarrow> I ys t \<Longrightarrow>
      ok (body x t) (\<lambda>(r, u). r = None \<and> lh_next u = lh_next t \<and> I (ys @ [x]) u)"
  shows "ok (list_for_each_entry body h s) (\<lambda>(r, t). r = None \<and> lh_next t = lh_next s \<and> I xs t)"
  unfolding list_for_each_entry_def
proof (rule for_each_inv [where ys = "[]" and zs = xs])
  show "links (lh_next s) h xs h" "h \<notin> set xs" using assms(1) by (auto simp: dll_def)
  show "ok (body x t) (\<lambda>(r, u). r = None \<and> lh_next u = lh_next t \<and> I (ys @ [x]) u)"
    if "xs = ys @ x # ws" "I ys t" for x ys ws t
    using that by (rule assms(3))
qed (simp_all add: assms(2))


section \<open>Families of disjoint rings\<close>

text \<open>
  The rings linked through one member (all PCB queues through \<open>p_next\<close>, both descriptor
  lists through \<open>s_next\<close>) hold disjoint sets of objects: an object has one such member.
  \<open>rings s elt K Q\<close> says that every sentinel \<open>h\<close> of \<open>K\<close> heads a ring with the objects
  \<open>Q h\<close>, whose list heads are \<open>elt x\<close>. The locale fixes a member \<open>elt\<close> and the
  sentinels \<open>H\<close> its rings may have; its lemmas are what the routines of
  \<open>pcb.c\<close> and \<open>asl.c\<close> rely on.
\<close>

definition rings ::
  "'a list_mem_scheme \<Rightarrow> ('e \<Rightarrow> lh) \<Rightarrow> lh set \<Rightarrow> (lh \<Rightarrow> 'e list) \<Rightarrow> bool" where
  "rings s elt K Q \<longleftrightarrow>
     (\<forall>h\<in>K. dll s h (map elt (Q h))) \<and>
     (\<forall>h\<in>K. \<forall>k\<in>K. \<forall>x. x \<in> set (Q h) \<longrightarrow> x \<in> set (Q k) \<longrightarrow> h = k)"

definition members :: "lh set \<Rightarrow> (lh \<Rightarrow> 'e list) \<Rightarrow> 'e set" where
  "members K Q = (\<Union>h\<in>K. set (Q h))"

lemma rings_dll: "rings s elt K Q \<Longrightarrow> h \<in> K \<Longrightarrow> dll s h (map elt (Q h))"
  by (simp add: rings_def)

lemma rings_cong:
  "lh_next t = lh_next s \<Longrightarrow> lh_prev t = lh_prev s \<Longrightarrow> rings t elt K Q = rings s elt K Q"
  by (auto simp: rings_def dll_def)

lemma rings_subset: "rings s elt K Q \<Longrightarrow> L \<subseteq> K \<Longrightarrow> rings s elt L Q"
  unfolding rings_def by blast

lemma rings_others:
  "rings s elt K Q \<Longrightarrow> h \<in> K \<Longrightarrow> set (Q h) \<inter> members (K - {h}) Q = {}"
  unfolding rings_def members_def by blast

lemma rings_disjoint:
  "rings s elt K Q \<Longrightarrow> h \<in> K \<Longrightarrow> k \<in> K \<Longrightarrow> x \<in> set (Q h) \<Longrightarrow> x \<in> set (Q k) \<Longrightarrow> h = k"
  by (auto simp: rings_def)

lemma rings_distinct: "rings s elt K Q \<Longrightarrow> h \<in> K \<Longrightarrow> distinct (Q h)"
  by (auto simp: rings_def dll_def distinct_map)

lemma rings_Q_cong:
  "(\<And>h. h \<in> K \<Longrightarrow> Q h = R h) \<Longrightarrow> rings s elt K Q = rings s elt K R"
  by (auto simp: rings_def)

lemma rings_frame_members:
  assumes "links_only F s t" and "F \<inter> (K \<union> elt ` members K Q) = {}"
  shows "rings t elt K Q = rings s elt K Q"
proof -
  have "dll t h (map elt (Q h)) = dll s h (map elt (Q h))" if "h \<in> K" for h
    using assms that by (intro links_only_dll) (auto simp: members_def)
  then show ?thesis by (simp add: rings_def)
qed

lemma rings_frame:
  "links_only F s t \<Longrightarrow> F \<inter> (K \<union> range elt) = {} \<Longrightarrow> rings t elt K Q = rings s elt K Q"
  by (rule rings_frame_members) auto

lemma members_upd:
  "h \<in> K \<Longrightarrow> members K (Q(h := xs)) = members (K - {h}) Q \<union> set xs"
  by (auto simp: members_def split: if_splits)

lemma members_memI: "h \<in> K \<Longrightarrow> x \<in> set (Q h) \<Longrightarrow> x \<in> members K Q"
  by (auto simp: members_def)

lemma rings_empty_iff:
  "rings s elt K Q \<Longrightarrow> h \<in> K \<Longrightarrow> list_empty h s \<longleftrightarrow> Q h = []"
  using dll_empty_iff [of s h "map elt (Q h)"] by (simp add: rings_def)

lemma rings_list_next:
  "rings s elt K Q \<Longrightarrow> h \<in> K \<Longrightarrow>
    list_next h s = (case Q h of [] \<Rightarrow> None | x # _ \<Rightarrow> Some (elt x))"
  using dll_list_next [of s h "map elt (Q h)"] by (auto simp: rings_def split: list.splits)

definition family_cells :: "('e \<Rightarrow> lh) \<Rightarrow> lh set \<Rightarrow> lh set" where
  "family_cells elt H = H \<union> range elt"

locale list_family =
  fixes elt :: "'e \<Rightarrow> lh"
    and H :: "lh set"
  assumes inj_elt: "elt x = elt y \<Longrightarrow> x = y"
    and elt_head: "elt x \<notin> H"
begin

lemma elt_eq [simp]: "elt x = elt y \<longleftrightarrow> x = y"
  by (auto dest: inj_elt)

lemma elt_in_image [simp]: "elt x \<in> elt ` A \<longleftrightarrow> x \<in> A"
  by auto

lemma rings_update:
  assumes "rings s elt K Q" and "K \<subseteq> H" and "h \<in> K" and "dll t h (map elt ys)"
    and "links_only F s t" and "F \<subseteq> insert h (elt ` (set (Q h) \<union> set ys))"
    and "set ys \<inter> members (K - {h}) Q = {}"
  shows "rings t elt K (Q(h := ys)) \<and> links_only (family_cells elt H) s t"
proof -
  have "dll t k (map elt (Q k))" if k: "k \<in> K" "k \<noteq> h" for k
  proof -
    have "set (Q k) \<inter> set (Q h) = {}" and "set (Q k) \<inter> set ys = {}"
      using assms(3,7) k rings_disjoint [OF assms(1)] by (fastforce simp: members_def)+
    moreover have "k \<notin> elt ` A" for A
      using k(1) assms(2) elt_head by auto
    moreover have "h \<notin> elt ` A" for A
      using assms(2,3) elt_head by auto
    ultimately have "set (k # map elt (Q k)) \<inter> F = {}"
      using assms(6) k(2) by fastforce
    then have "dll t k (map elt (Q k)) = dll s k (map elt (Q k))"
      by (rule links_only_dll [OF assms(5)])
    then show ?thesis using assms(1) k by (simp add: rings_def)
  qed
  moreover have "links_only (family_cells elt H) s t"
    using assms(2,3,6) by (intro links_only_mono [OF assms(5)]) (auto simp: family_cells_def)
  ultimately show ?thesis
    using assms(1,4,7) by (auto simp: rings_def members_def)
qed

lemma do_list_add_rings:
  assumes "rings s elt K Q" and "K \<subseteq> H" and "h \<in> K" and "Q h = xs @ ys" and "x \<notin> members K Q"
  shows "ok (do_list_add (elt x) (Some (last (h # map elt xs))) (Some (hd (map elt ys @ [h]))) s)
    (\<lambda>t. rings t elt K (Q(h := xs @ x # ys)) \<and> links_only (family_cells elt H) s t)"
proof -
  have "dll s h (map elt xs @ map elt ys)"
    using rings_dll [OF assms(1,3)] assms(4) by simp
  moreover have "elt x \<notin> set (h # map elt xs @ map elt ys)"
    using assms(2-5) elt_head [of x] by (auto simp: members_def)
  ultimately have "ok (do_list_add (elt x) (Some (last (h # map elt xs)))
        (Some (hd (map elt ys @ [h]))) s)
      (\<lambda>t. dll t h (map elt (xs @ x # ys)) \<and>
        links_only (insert (elt x) (set (h # map elt xs @ map elt ys))) s t)"
    using do_list_add_dll [of s h "map elt xs" "map elt ys" "elt x"] by simp
  moreover have "insert (elt x) (set (h # map elt xs @ map elt ys))
      \<subseteq> insert h (elt ` (set (Q h) \<union> set (xs @ x # ys)))"
    by auto
  moreover have "set (xs @ x # ys) \<inter> members (K - {h}) Q = {}"
    using rings_others [OF assms(1,3)] assms(4,5) by (auto simp: members_def)
  ultimately show ?thesis
    using rings_update [OF assms(1-3)] by (elim ok_mono) blast
qed

lemma list_add_rings:
  assumes "rings s elt K Q" and "K \<subseteq> H" and "h \<in> K" and "x \<notin> members K Q"
  shows "ok (list_add (elt x) h s)
    (\<lambda>t. rings t elt K (Q(h := x # Q h)) \<and> links_only (family_cells elt H) s t)"
  using do_list_add_rings [OF assms(1-3) _ assms(4), of "[]" "Q h"]
    dll_next_head [OF rings_dll [OF assms(1,3)]]
  by (simp add: list_add_def)

lemma list_add_tail_rings:
  assumes "rings s elt K Q" and "K \<subseteq> H" and "h \<in> K" and "x \<notin> members K Q"
  shows "ok (list_add_tail (elt x) h s)
    (\<lambda>t. rings t elt K (Q(h := Q h @ [x])) \<and> links_only (family_cells elt H) s t)"
  using do_list_add_rings [OF assms(1-3) _ assms(4), of "Q h" "[]"]
    dll_prev_head [OF rings_dll [OF assms(1,3)]]
  by (simp add: list_add_tail_def del: last.simps)

lemma list_del_rings:
  assumes "rings s elt K Q" and "K \<subseteq> H" and "h \<in> K" and "x \<in> set (Q h)"
  shows "ok (list_del (elt x) s)
    (\<lambda>t. rings t elt K (Q(h := remove1 x (Q h))) \<and> links_only (family_cells elt H) s t)"
proof -
  obtain xs ys where q: "Q h = xs @ x # ys" and "x \<notin> set xs"
    using assms(4) by (meson split_list_first)
  then have r: "remove1 x (Q h) = xs @ ys" by (simp add: remove1_append)
  have "ok (list_del (elt x) s)
      (\<lambda>t. dll t h (map elt (xs @ ys)) \<and> links_only (set (h # map elt xs @ map elt ys)) s t)"
    using list_del_dll [of s h "map elt xs" "elt x" "map elt ys"] rings_dll [OF assms(1,3)] q
    by simp
  moreover have "set (h # map elt xs @ map elt ys) \<subseteq> insert h (elt ` (set (Q h) \<union> set (xs @ ys)))"
    by auto
  moreover have "set (xs @ ys) \<inter> members (K - {h}) Q = {}"
    using rings_others [OF assms(1,3)] q by auto
  ultimately show ?thesis
    unfolding r using rings_update [OF assms(1-3)] by (elim ok_mono) blast
qed

lemma INIT_LIST_HEAD_rings:
  assumes "rings s elt (K - {h}) Q" and "K \<subseteq> H" and "h \<in> K"
  shows "rings (INIT_LIST_HEAD h s) elt K (Q(h := []))"
proof -
  let ?t = "INIT_LIST_HEAD h s"
  have "dll ?t k (map elt (Q k))" if k: "k \<in> K" "k \<noteq> h" for k
  proof -
    have "set (k # map elt (Q k)) \<inter> {h} = {}"
      using k assms(2,3) elt_head by auto
    then have "dll ?t k (map elt (Q k)) = dll s k (map elt (Q k))"
      using links_only_dll [OF links_only_INIT [of h "{h}" s]] by simp
    then show ?thesis using assms(1) k by (simp add: rings_def)
  qed
  then show ?thesis using assms(1) by (auto simp: rings_def dll_init)
qed

lemma INIT_LIST_HEAD_cells: "h \<in> H \<Longrightarrow> links_only (family_cells elt H) s (INIT_LIST_HEAD h s)"
  by (rule links_only_INIT) (simp add: family_cells_def)

end

end
