(* ===== verification/System.thy ===== *)
theory System
  imports Prelude
begin

text \<open>
  The system layer: \<open>include/core/system/system.h\<close>, \<open>src/core/system/system.c\<close>,
  \<open>system_arm.c\<close>, \<open>system_mps.c\<close> and \<open>set_bits\<close> of \<open>src/utils/utils.c\<close>.

  The kernel is built for one of two machines. A processor state is a value of
  \<open>state_t\<close>, whose constructor is the build's target, and every function of the layer
  dispatches on it as the build system picks \<open>system_arm.c\<close> or \<open>system_mps.c\<close>. The
  registers are those that the two files name; the MIPS general purpose registers that the kernel
  does not name are \<open>reg_other\<close>.

  The emulators' headers (\<open>arch.h\<close>, \<open>uARMconst.h\<close>, \<open>cp0.h\<close>, \<open>libuarm.h\<close>,
  \<open>libumps.h\<close>) are not part of the repository: their constants and macros are the fields of
  the record \<open>hw\<close>, an argument of every definition that uses one of them. What the kernel
  relies on about them is stated where it is used.
\<close>

unbundle bit_operations_syntax

section \<open>Processor states\<close>

datatype target = TARGET_UARM | TARGET_UMPS

record arm_state =
  arm_a1 :: u32
  arm_a2 :: u32
  arm_a3 :: u32
  arm_a4 :: u32
  arm_v1 :: u32
  arm_v2 :: u32
  arm_v3 :: u32
  arm_v4 :: u32
  arm_v5 :: u32
  arm_v6 :: u32
  arm_sl :: u32
  arm_fp :: u32
  arm_ip :: u32
  arm_sp :: u32
  arm_lr :: u32
  arm_pc :: u32
  arm_cpsr :: u32
  arm_CP15_Control :: u32
  arm_CP15_EntryHi :: u32
  arm_CP15_Cause :: u32
  arm_TOD_Hi :: u32
  arm_TOD_Low :: u32

datatype mps_reg =
    reg_v0 | reg_a0 | reg_a1 | reg_a2 | reg_a3 | reg_t9 | reg_sp | reg_other nat

record mps_state =
  mps_entry_hi :: u32
  mps_cause :: u32
  mps_status :: u32
  mps_pc_epc :: u32
  mps_gpr :: "mps_reg \<Rightarrow> u32"
  mps_hi :: u32
  mps_lo :: u32

datatype state_t = Uarm arm_state | Umps mps_state

fun target_of :: "state_t \<Rightarrow> target" where
  "target_of (Uarm _) = TARGET_UARM"
| "target_of (Umps _) = TARGET_UMPS"

text \<open>Static storage before any write: every register is 0.\<close>

definition arm_zero :: arm_state where
  "arm_zero =
     \<lparr>arm_a1 = 0, arm_a2 = 0, arm_a3 = 0, arm_a4 = 0, arm_v1 = 0, arm_v2 = 0, arm_v3 = 0,
      arm_v4 = 0, arm_v5 = 0, arm_v6 = 0, arm_sl = 0, arm_fp = 0, arm_ip = 0, arm_sp = 0,
      arm_lr = 0, arm_pc = 0, arm_cpsr = 0, arm_CP15_Control = 0, arm_CP15_EntryHi = 0,
      arm_CP15_Cause = 0, arm_TOD_Hi = 0, arm_TOD_Low = 0\<rparr>"

definition mps_zero :: mps_state where
  "mps_zero =
     \<lparr>mps_entry_hi = 0, mps_cause = 0, mps_status = 0, mps_pc_epc = 0, mps_gpr = (\<lambda>_. 0),
      mps_hi = 0, mps_lo = 0\<rparr>"

fun zero_state :: "target \<Rightarrow> state_t" where
  "zero_state TARGET_UARM = Uarm arm_zero"
| "zero_state TARGET_UMPS = Umps mps_zero"

section \<open>The emulators' constants and macros\<close>

record hw =
  \<comment> \<open>uARM: \<open>uARMconst.h\<close>\<close>
  CP15_ENABLE_VM :: "u32 \<Rightarrow> u32"
  CP15_DISABLE_VM :: "u32 \<Rightarrow> u32"
  STATUS_CLEAR_MODE :: u32
  STATUS_SYS_MODE :: u32
  STATUS_USER_MODE :: u32
  STATUS_ENABLE_INT :: "u32 \<Rightarrow> u32"
  STATUS_DISABLE_INT :: "u32 \<Rightarrow> u32"
  STATUS_ENABLE_TIMER :: "u32 \<Rightarrow> u32"
  STATUS_DISABLE_TIMER :: "u32 \<Rightarrow> u32"
  CAUSE_IP_GET :: "u32 \<Rightarrow> nat \<Rightarrow> u32"
  CAUSE_EXCCODE_GET :: "u32 \<Rightarrow> u32"
  EXC_BREAKPOINT :: u32
  EXC_SYSCALL :: u32
  \<comment> \<open>uMPS: \<open>cp0.h\<close>\<close>
  STATUS_KUc :: u32
  STATUS_KUp :: u32
  STATUS_IEp :: u32
  STATUS_VMp :: u32
  STATUS_VMc :: u32
  STATUS_VMc_BIT :: nat
  STATUS_IEc_BIT :: nat
  STATUS_IM_MASK :: u32
  STATUS_IM :: "nat \<Rightarrow> u32"
  CAUSE_IP :: "nat \<Rightarrow> u32"
  CAUSE_IP_BIT :: "nat \<Rightarrow> nat"
  CAUSE_GET_EXCCODE :: "u32 \<Rightarrow> u32"
  EXC_BP :: u32
  EXC_SYS :: u32
  \<comment> \<open>both: \<open>arch.h\<close>\<close>
  WORD_SIZE :: u32
  RAM_TOP :: u32
  FRAME_SIZE :: u32
  TIME_SCALE :: u32      \<comment> \<open>\<open>*(unsigned int*)BUS_REG_TIME_SCALE\<close>\<close>
  IL_TIMER :: nat
  IL_TERMINAL :: nat
  N_IL :: nat
  N_EXT_IL :: nat
  N_DEV_PER_IL :: nat

section \<open>Bits\<close>

definition set_bits :: "u32 \<Rightarrow> u32 \<Rightarrow> u32 \<Rightarrow> u32" where
  "set_bits original msk v = (original AND NOT msk) OR v"

section \<open>Both targets\<close>

definition arm_reset_state :: "arm_state \<Rightarrow> arm_state" where
  "arm_reset_state s =
     s\<lparr>arm_a1 := 0, arm_a2 := 0, arm_a3 := 0, arm_a4 := 0,
       arm_CP15_Cause := 0, arm_CP15_Control := 0, arm_cpsr := 0,
       arm_TOD_Hi := 0, arm_TOD_Low := 0,
       arm_fp := 0, arm_lr := 0, arm_pc := 0, arm_sp := 0, arm_sl := 0, arm_ip := 0,
       arm_v1 := 0, arm_v2 := 0, arm_v3 := 0, arm_v4 := 0, arm_v5 := 0, arm_v6 := 0,
       arm_CP15_EntryHi := 0\<rparr>"

definition mps_reset_state :: "mps_state \<Rightarrow> mps_state" where
  "mps_reset_state s =
     s\<lparr>mps_pc_epc := 0, mps_hi := 0, mps_entry_hi := 0, mps_cause := 0, mps_status := 0,
       mps_lo := 0, mps_gpr := (\<lambda>_. 0)\<rparr>"

fun reset_state :: "state_t \<Rightarrow> state_t" where
  "reset_state (Uarm s) = Uarm (arm_reset_state s)"
| "reset_state (Umps s) = Umps (mps_reset_state s)"

definition arm_set_pc :: "arm_state \<Rightarrow> u32 \<Rightarrow> arm_state" where
  "arm_set_pc s ptr = s\<lparr>arm_pc := ptr\<rparr>"

definition mps_set_pc :: "mps_state \<Rightarrow> u32 \<Rightarrow> mps_state" where
  "mps_set_pc s ptr = s\<lparr>mps_pc_epc := ptr, mps_gpr := (mps_gpr s)(reg_t9 := ptr)\<rparr>"

fun set_pc :: "state_t \<Rightarrow> u32 \<Rightarrow> state_t" where
  "set_pc (Uarm s) ptr = Uarm (arm_set_pc s ptr)"
| "set_pc (Umps s) ptr = Umps (mps_set_pc s ptr)"

definition arm_set_sp :: "arm_state \<Rightarrow> u32 \<Rightarrow> arm_state" where
  "arm_set_sp s sp_val = s\<lparr>arm_sp := sp_val\<rparr>"

definition mps_set_sp :: "mps_state \<Rightarrow> u32 \<Rightarrow> mps_state" where
  "mps_set_sp s sp_val = s\<lparr>mps_gpr := (mps_gpr s)(reg_sp := sp_val)\<rparr>"

fun set_sp :: "state_t \<Rightarrow> u32 \<Rightarrow> state_t" where
  "set_sp (Uarm s) v = Uarm (arm_set_sp s v)"
| "set_sp (Umps s) v = Umps (mps_set_sp s v)"

definition arm_set_virtual_mem :: "hw \<Rightarrow> arm_state \<Rightarrow> u32 \<Rightarrow> arm_state" where
  "arm_set_virtual_mem w s on =
     (if on \<noteq> 0 then s\<lparr>arm_CP15_Control := CP15_ENABLE_VM w (arm_CP15_Control s)\<rparr>
      else s\<lparr>arm_CP15_Control := CP15_DISABLE_VM w (arm_CP15_Control s)\<rparr>)"

definition mps_set_virtual_mem :: "hw \<Rightarrow> mps_state \<Rightarrow> u32 \<Rightarrow> mps_state" where
  "mps_set_virtual_mem w s on =
     s\<lparr>mps_status := set_bits (mps_status s) (STATUS_VMc w) (push_bit (STATUS_VMc_BIT w) on)\<rparr>"

fun set_virtual_mem :: "hw \<Rightarrow> state_t \<Rightarrow> u32 \<Rightarrow> state_t" where
  "set_virtual_mem w (Uarm s) on = Uarm (arm_set_virtual_mem w s on)"
| "set_virtual_mem w (Umps s) on = Umps (mps_set_virtual_mem w s on)"

definition arm_set_kernel_mode :: "hw \<Rightarrow> arm_state \<Rightarrow> u32 \<Rightarrow> arm_state" where
  "arm_set_kernel_mode w s on =
     (if on \<noteq> 0
      then s\<lparr>arm_cpsr := set_bits (arm_cpsr s) (NOT (STATUS_CLEAR_MODE w)) (STATUS_SYS_MODE w)\<rparr>
      else s\<lparr>arm_cpsr := set_bits (arm_cpsr s) (NOT (STATUS_CLEAR_MODE w)) (STATUS_USER_MODE w)\<rparr>)"

definition mps_set_kernel_mode :: "hw \<Rightarrow> mps_state \<Rightarrow> u32 \<Rightarrow> mps_state" where
  "mps_set_kernel_mode w s on =
     (if on \<noteq> 0 then s\<lparr>mps_status := mps_status s AND NOT (STATUS_KUc w)\<rparr>
      else s\<lparr>mps_status := mps_status s OR NOT (STATUS_KUc w)\<rparr>)"

fun set_kernel_mode :: "hw \<Rightarrow> state_t \<Rightarrow> u32 \<Rightarrow> state_t" where
  "set_kernel_mode w (Uarm s) on = Uarm (arm_set_kernel_mode w s on)"
| "set_kernel_mode w (Umps s) on = Umps (mps_set_kernel_mode w s on)"

definition arm_set_other_interrupts :: "hw \<Rightarrow> arm_state \<Rightarrow> u32 \<Rightarrow> arm_state" where
  "arm_set_other_interrupts w s on =
     (if on \<noteq> 0 then s\<lparr>arm_cpsr := STATUS_ENABLE_INT w (arm_cpsr s)\<rparr>
      else s\<lparr>arm_cpsr := STATUS_DISABLE_INT w (arm_cpsr s)\<rparr>)"

definition mps_set_other_interrupts :: "hw \<Rightarrow> mps_state \<Rightarrow> u32 \<Rightarrow> mps_state" where
  "mps_set_other_interrupts w s on =
     (if on \<noteq> 0
      then s\<lparr>mps_status := mps_status s OR (STATUS_IM_MASK w AND NOT (STATUS_IM w (IL_TIMER w)))
              OR push_bit (STATUS_IEc_BIT w) 1\<rparr>
      else s\<lparr>mps_status := mps_status s AND NOT (STATUS_IM_MASK w AND NOT (STATUS_IM w (IL_TIMER w)))\<rparr>)"

fun set_other_interrupts :: "hw \<Rightarrow> state_t \<Rightarrow> u32 \<Rightarrow> state_t" where
  "set_other_interrupts w (Uarm s) on = Uarm (arm_set_other_interrupts w s on)"
| "set_other_interrupts w (Umps s) on = Umps (mps_set_other_interrupts w s on)"

definition arm_set_interval_timer_interrupts :: "hw \<Rightarrow> arm_state \<Rightarrow> u32 \<Rightarrow> arm_state" where
  "arm_set_interval_timer_interrupts w s on =
     (if on \<noteq> 0 then s\<lparr>arm_cpsr := STATUS_ENABLE_TIMER w (arm_cpsr s)\<rparr>
      else s\<lparr>arm_cpsr := STATUS_DISABLE_TIMER w (arm_cpsr s)\<rparr>)"

definition mps_set_interval_timer_interrupts :: "hw \<Rightarrow> mps_state \<Rightarrow> u32 \<Rightarrow> mps_state" where
  "mps_set_interval_timer_interrupts w s on =
     (if on \<noteq> 0
      then s\<lparr>mps_status := mps_status s OR STATUS_IM w (IL_TIMER w)
              OR push_bit (STATUS_IEc_BIT w) 1\<rparr>
      else s\<lparr>mps_status := mps_status s AND NOT (STATUS_IM w (IL_TIMER w))\<rparr>)"

fun set_interval_timer_interrupts :: "hw \<Rightarrow> state_t \<Rightarrow> u32 \<Rightarrow> state_t" where
  "set_interval_timer_interrupts w (Uarm s) on = Uarm (arm_set_interval_timer_interrupts w s on)"
| "set_interval_timer_interrupts w (Umps s) on = Umps (mps_set_interval_timer_interrupts w s on)"

text \<open>\<open>is_interrupt_pending(line)\<close>; \<open>cause\<close> is what \<open>getCAUSE()\<close> reads.\<close>

fun is_interrupt_pending :: "hw \<Rightarrow> target \<Rightarrow> u32 \<Rightarrow> nat \<Rightarrow> u32" where
  "is_interrupt_pending w TARGET_UARM cause line = CAUSE_IP_GET w cause line"
| "is_interrupt_pending w TARGET_UMPS cause line =
     drop_bit (CAUSE_IP_BIT w line) (cause AND CAUSE_IP w line)"

datatype exc_code = E_BP | E_SYS | E_OTHER

definition arm_get_exccode :: "hw \<Rightarrow> arm_state \<Rightarrow> exc_code" where
  "arm_get_exccode w s =
     (let val = CAUSE_EXCCODE_GET w (arm_CP15_Cause s)
      in if val = EXC_BREAKPOINT w then E_BP
         else if val = EXC_SYSCALL w then E_SYS else E_OTHER)"

definition mps_get_exccode :: "hw \<Rightarrow> mps_state \<Rightarrow> exc_code" where
  "mps_get_exccode w s =
     (let val = CAUSE_GET_EXCCODE w (mps_cause s)
      in if val = EXC_BP w then E_BP else if val = EXC_SYS w then E_SYS else E_OTHER)"

fun get_exccode :: "hw \<Rightarrow> state_t \<Rightarrow> exc_code" where
  "get_exccode w (Uarm s) = arm_get_exccode w s"
| "get_exccode w (Umps s) = mps_get_exccode w s"

section \<open>System calls: number, arguments, return register\<close>

fun SYSCALL_N :: "state_t \<Rightarrow> u32" where
  "SYSCALL_N (Umps s) = mps_gpr s reg_a0"
| "SYSCALL_N (Uarm s) = arm_a1 s"

fun SYSCALL_ARG1 :: "state_t \<Rightarrow> u32" where
  "SYSCALL_ARG1 (Umps s) = mps_gpr s reg_a1"
| "SYSCALL_ARG1 (Uarm s) = arm_a2 s"

fun SYSCALL_ARG2 :: "state_t \<Rightarrow> u32" where
  "SYSCALL_ARG2 (Umps s) = mps_gpr s reg_a2"
| "SYSCALL_ARG2 (Uarm s) = arm_a3 s"

fun SYSCALL_ARG3 :: "state_t \<Rightarrow> u32" where
  "SYSCALL_ARG3 (Umps s) = mps_gpr s reg_a3"
| "SYSCALL_ARG3 (Uarm s) = arm_a4 s"

fun SYSCALL_RET_REG :: "state_t \<Rightarrow> u32" where
  "SYSCALL_RET_REG (Umps s) = mps_gpr s reg_v0"
| "SYSCALL_RET_REG (Uarm s) = arm_a1 s"

fun set_SYSCALL_RET_REG :: "u32 \<Rightarrow> state_t \<Rightarrow> state_t" where
  "set_SYSCALL_RET_REG v (Umps s) = Umps (s\<lparr>mps_gpr := (mps_gpr s)(reg_v0 := v)\<rparr>)"
| "set_SYSCALL_RET_REG v (Uarm s) = Uarm (s\<lparr>arm_a1 := v\<rparr>)"

section \<open>\<open>system.c\<close>\<close>

definition init_new_area :: "hw \<Rightarrow> state_t \<Rightarrow> u32 \<Rightarrow> state_t" where
  "init_new_area w area handler =
     (let area = set_kernel_mode w area 1;
          area = set_virtual_mem w area 0;
          area = set_interval_timer_interrupts w area 0;
          area = set_other_interrupts w area 0;
          area = set_sp area (RAM_TOP w)
      in set_pc area handler)"

definition clock_ticks_per_period :: "hw \<Rightarrow> u32 \<Rightarrow> u32" where
  "clock_ticks_per_period w microseconds = TIME_SCALE w * microseconds"

section \<open>Lemmas\<close>

lemma bit_set_bits:
  "bit (set_bits a m v) n \<longleftrightarrow> bit v n \<or> (bit a n \<and> \<not> bit m n)"
  by (cases "n < 32") (auto simp: set_bits_def bit_simps dest: bit_imp_le_length)

lemma arm_reset_state_zero: "arm_reset_state s = arm_zero"
  by (simp add: arm_reset_state_def arm_zero_def)

lemma mps_reset_state_zero: "mps_reset_state s = mps_zero"
  by (simp add: mps_reset_state_def mps_zero_def)

lemma reset_state_zero: "reset_state s = zero_state (target_of s)"
  by (cases s) (simp_all add: arm_reset_state_zero mps_reset_state_zero)

lemma target_of_zero_state [simp]: "target_of (zero_state t) = t"
  by (cases t) simp_all

lemma target_of_ops [simp]:
  "target_of (reset_state s) = target_of s"
  "target_of (set_pc s a) = target_of s"
  "target_of (set_sp s a) = target_of s"
  "target_of (set_virtual_mem w s a) = target_of s"
  "target_of (set_kernel_mode w s a) = target_of s"
  "target_of (set_other_interrupts w s a) = target_of s"
  "target_of (set_interval_timer_interrupts w s a) = target_of s"
  "target_of (set_SYSCALL_RET_REG a s) = target_of s"
  by (cases s; simp)+

lemma SYSCALL_set_RET [simp]:
  "SYSCALL_RET_REG (set_SYSCALL_RET_REG v s) = v"
  "SYSCALL_ARG1 (set_SYSCALL_RET_REG v s) = SYSCALL_ARG1 s"
  "SYSCALL_ARG2 (set_SYSCALL_RET_REG v s) = SYSCALL_ARG2 s"
  "SYSCALL_ARG3 (set_SYSCALL_RET_REG v s) = SYSCALL_ARG3 s"
  by (cases s; simp)+

end
