(* ===== verification/Pcb.thy ===== *)
theory Pcb
  imports Listx System
begin

text \<open>
  Process control blocks and process queues: the first half of \<open>src/core/processes/pcb.c\<close>
  and the types of \<open>include/core/processes/pcb.h\<close>. (The process tree is in
  \<open>Pcb_Tree\<close>.)

  The list heads inside a PCB (\<open>p_next\<close>, \<open>p_child\<close>, \<open>p_sib\<close>) are cells of the
  memory of \<open>Listx\<close>; the other members are the record \<open>pcb_t\<close>. A \<open>pcb_t *\<close> is a
  \<open>pcb option\<close>. A value of C's \<open>int\<close> is a 32-bit word read by \<open>sint\<close>. The
  allocator and the queues are specified over the family of rings linked through \<open>p_next\<close>:
  \<open>q_insert\<close> is what \<open>insertProcQ\<close> does to the list of processes of a queue.
\<close>

section \<open>Types\<close>

definition MAXPROC :: nat where
  "MAXPROC = 20"

text \<open>
  Pointers to \<open>int\<close>: an integer of a process at some address, or the semaphore
  \<open>w_for_cmd_sem\<close> of the waiting list of a device (type and instance). A \<open>pcb_t **\<close>
  stored in \<open>dev_w_list\<close> is the address of the member \<open>w_for_res\<close> of such a list. A
  \<open>state_t *\<close> of a process is its address.
\<close>

datatype int_ptr = User_int u32 | Dev_sem nat nat

type_synonym c_int = "32 word"

record pcb_t =
  p_parent :: "pcb option"
  p_s :: state_t
  priority :: c_int
  original_priority :: c_int
  p_semkey :: "int_ptr option"
  dev_w_list :: "(nat \<times> nat) option"
  kernel_timer :: u32
  user_timer :: u32
  tod_cache :: u32
  tod_at_start :: u32
  spec_areas :: "nat \<Rightarrow> u32 option"

record pcb_mem = list_mem +
  pcbs :: "pcb \<Rightarrow> pcb_t"

definition upd_pcb :: "pcb \<Rightarrow> (pcb_t \<Rightarrow> pcb_t) \<Rightarrow> 'a pcb_mem_scheme \<Rightarrow> 'a pcb_mem_scheme" where
  "upd_pcb p f s = s\<lparr>pcbs := (pcbs s)(p := f (pcbs s p))\<rparr>"

text \<open>The priority of a process as C compares it.\<close>

definition prio :: "'a pcb_mem_scheme \<Rightarrow> pcb \<Rightarrow> int" where
  "prio s p = sint (priority (pcbs s p))"

section \<open>Allocation\<close>

definition freePcb :: "pcb \<Rightarrow> 'a pcb_mem_scheme \<Rightarrow> 'a pcb_mem_scheme res" where
  "freePcb p s = list_add (P_next p) PcbFree_h s"

text \<open>The loop of \<open>initPcbs\<close>: \<open>i\<close> from \<open>n - 1\<close> down to 0.\<close>

fun initPcbs_loop :: "nat \<Rightarrow> 'a pcb_mem_scheme \<Rightarrow> 'a pcb_mem_scheme res" where
  "initPcbs_loop 0 s = Inr s"
| "initPcbs_loop (Suc i) s = andThen (freePcb (Pcb i) s) (initPcbs_loop i)"

definition initPcbs :: "'a pcb_mem_scheme \<Rightarrow> 'a pcb_mem_scheme res" where
  "initPcbs s = initPcbs_loop MAXPROC (INIT_LIST_HEAD PcbFree_h s)"

definition allocPcb :: "'a pcb_mem_scheme \<Rightarrow> (pcb option \<times> 'a pcb_mem_scheme) res" where
  "allocPcb s =
     (if list_empty PcbFree_h s then Inr (None, s)
      else
        andThen (deref (list_next PcbFree_h s)) (\<lambda>first_list_head.
        andThen (list_del first_list_head s) (\<lambda>s.
        andThen (container_of_p_next first_list_head) (\<lambda>p.
        let s = upd_pcb p (\<lambda>c. c\<lparr>priority := 0, original_priority := 0,
                  p_semkey := None, p_parent := None\<rparr>) s;
            s = set_next (P_child p) None s;
            s = set_prev (P_child p) None s;
            s = upd_pcb p (\<lambda>c. c\<lparr>kernel_timer := 0, user_timer := 0,
                  tod_cache := 0, tod_at_start := 0\<rparr>) s;
            s = INIT_LIST_HEAD (P_next p) s;
            s = INIT_LIST_HEAD (P_sib p) s;
            s = upd_pcb p (\<lambda>c. c\<lparr>p_s := reset_state (p_s c)\<rparr>) s;
            s = upd_pcb p (\<lambda>c. c\<lparr>spec_areas := (\<lambda>_. None)\<rparr>) s
        in Inr (Some p, s)))))"

section \<open>Queues\<close>

definition mkEmptyProcQ :: "lh \<Rightarrow> 'a pcb_mem_scheme \<Rightarrow> 'a pcb_mem_scheme" where
  "mkEmptyProcQ head s = INIT_LIST_HEAD head s"

definition emptyProcQ :: "lh \<Rightarrow> 'a pcb_mem_scheme \<Rightarrow> bool" where
  "emptyProcQ head s = list_empty head s"

definition insertProcQ :: "lh \<Rightarrow> pcb \<Rightarrow> 'a pcb_mem_scheme \<Rightarrow> 'a pcb_mem_scheme res" where
  "insertProcQ head p s =
     andThen (list_for_each_entry (\<lambda>l s.
         andThen (container_of_p_next l) (\<lambda>target_pcb.
         if sint (priority (pcbs s p)) > sint (priority (pcbs s target_pcb))
         then andThen (do_list_add (P_next p) (lh_prev s (P_next target_pcb))
                        (Some (P_next target_pcb)) s) (\<lambda>s. Inr (Some (), s))
         else Inr (None, s))) head s)
       (\<lambda>(r, s). case r of Some _ \<Rightarrow> Inr s | None \<Rightarrow> list_add_tail (P_next p) head s)"

definition headProcQ :: "lh \<Rightarrow> 'a pcb_mem_scheme \<Rightarrow> pcb option res" where
  "headProcQ head s =
     (if \<not> list_empty head s
      then andThen (deref (list_next head s)) (\<lambda>next_head.
           andThen (container_of_p_next next_head) (\<lambda>p. Inr (Some p)))
      else Inr None)"

definition removeProcQ :: "lh \<Rightarrow> 'a pcb_mem_scheme \<Rightarrow> (pcb option \<times> 'a pcb_mem_scheme) res" where
  "removeProcQ head s =
     (if list_empty head s then Inr (None, s)
      else andThen (deref (list_next head s)) (\<lambda>first_head.
           andThen (container_of_p_next first_head) (\<lambda>request_pcb.
           andThen (list_del first_head s) (\<lambda>s. Inr (Some request_pcb, s)))))"

definition outProcQ ::
  "lh \<Rightarrow> pcb \<Rightarrow> 'a pcb_mem_scheme \<Rightarrow> (pcb option \<times> 'a pcb_mem_scheme) res" where
  "outProcQ head p s =
     list_for_each_entry (\<lambda>l s.
       andThen (container_of_p_next l) (\<lambda>target_pcb.
       if target_pcb = p
       then andThen (list_del (P_next p) s) (\<lambda>s. Inr (Some target_pcb, s))
       else Inr (None, s))) head s"

text \<open>\<open>p - pcbFree_table\<close>: a difference of pointers into the table.\<close>

fun get_pcb_index :: "pcb \<Rightarrow> u32 res" where
  "get_pcb_index (Pcb i) = Inr (word_of_nat i)"
| "get_pcb_index Idle_proc = Inl WildPointer"

section \<open>Priority queues as lists\<close>

fun q_insert :: "('e \<Rightarrow> int) \<Rightarrow> 'e \<Rightarrow> 'e list \<Rightarrow> 'e list" where
  "q_insert pr p [] = [p]"
| "q_insert pr p (t # q) = (if pr p > pr t then p # t # q else t # q_insert pr p q)"

text \<open>A queue in decreasing order of priority.\<close>

definition by_prio :: "('e \<Rightarrow> int) \<Rightarrow> 'e list \<Rightarrow> bool" where
  "by_prio pr q \<longleftrightarrow> sorted_wrt (\<lambda>x y. pr x \<ge> pr y) q"

lemma by_prio_Nil [simp]: "by_prio pr []"
  by (simp add: by_prio_def)

lemma by_prio_Cons: "by_prio pr (x # q) \<longleftrightarrow> (\<forall>y\<in>set q. pr y \<le> pr x) \<and> by_prio pr q"
  by (auto simp: by_prio_def)

lemma set_q_insert [simp]: "set (q_insert pr p q) = insert p (set q)"
  by (induction q) auto

lemma length_q_insert [simp]: "length (q_insert pr p q) = Suc (length q)"
  by (induction q) auto

lemma distinct_q_insert [simp]: "distinct (q_insert pr p q) \<longleftrightarrow> p \<notin> set q \<and> distinct q"
  by (induction q) auto

lemma q_insert_not_Nil [simp]: "q_insert pr p q \<noteq> []"
  by (cases q) auto

lemma by_prio_q_insert: "by_prio pr q \<Longrightarrow> by_prio pr (q_insert pr p q)"
  by (induction q) (auto simp: by_prio_Cons)

lemma q_insert_split:
  "q_insert pr p q =
    takeWhile (\<lambda>t. \<not> pr p > pr t) q @ p # dropWhile (\<lambda>t. \<not> pr p > pr t) q"
  by (induction q) auto

lemma q_insert_find:
  "q_insert pr p q =
    (case List.find (\<lambda>t. pr p > pr t) q of None \<Rightarrow> q @ [p]
     | Some t \<Rightarrow> takeWhile (\<lambda>t. \<not> pr p > pr t) q @ p # dropWhile (\<lambda>t. \<not> pr p > pr t) q)"
  by (induction q) (auto split: option.splits)

lemma q_insert_cong:
  "(\<And>x. x \<in> insert p (set q) \<Longrightarrow> f x = g x) \<Longrightarrow> q_insert f p q = q_insert g p q"
  by (induction q) auto

lemma remove1_q_insert: "p \<notin> set q \<Longrightarrow> remove1 p (q_insert pr p q) = q"
  by (induction q) auto

text \<open>Among processes of one priority the order of arrival is kept.\<close>

lemma q_insert_fifo:
  "by_prio pr q \<Longrightarrow>
    filter (\<lambda>x. pr x = k) (q_insert pr p q) =
    filter (\<lambda>x. pr x = k) q @ (if pr p = k then [p] else [])"
proof (induction q)
  case Nil
  then show ?case by simp
next
  case (Cons t q)
  then have "\<forall>y\<in>set q. pr y \<le> pr t" and "by_prio pr q" by (auto simp: by_prio_Cons)
  then have "filter (\<lambda>x. pr x = k) (t # q) = []" if "pr p > pr t" "pr p = k"
    using that by (auto simp: filter_empty_conv)
  with Cons \<open>by_prio pr q\<close> show ?case by auto
qed

text \<open>The first of the list that is smaller than \<open>p\<close> splits it where \<open>p\<close> goes.\<close>

lemma find_takeWhile_split:
  "List.find P q = Some t \<Longrightarrow>
    \<exists>ys. q = takeWhile (\<lambda>x. \<not> P x) q @ t # ys \<and> dropWhile (\<lambda>x. \<not> P x) q = t # ys"
  by (induction q) (auto split: if_splits)

section \<open>The family of process queues\<close>

definition proc_heads :: "lh set" where
  "proc_heads = {PcbFree_h, Ready_queue} \<union> range S_procQ \<union> range Proc_list"

interpretation procq: list_family P_next proc_heads
  by unfold_locales (auto simp: proc_heads_def)

lemma proc_headsI [simp, intro]:
  "PcbFree_h \<in> proc_heads" "Ready_queue \<in> proc_heads"
  "S_procQ i \<in> proc_heads" "Proc_list n \<in> proc_heads"
  by (auto simp: proc_heads_def)

abbreviation proc_cells :: "lh set" where
  "proc_cells \<equiv> family_cells P_next proc_heads"

lemma proc_cells_iff [simp]:
  "P_next p \<in> proc_cells" "h \<in> proc_heads \<Longrightarrow> h \<in> proc_cells"
  "P_child p \<notin> proc_cells" "P_sib p \<notin> proc_cells"
  "S_next i \<notin> proc_cells" "SemdFree_h \<notin> proc_cells" "Semd_h \<notin> proc_cells"
  by (auto simp: family_cells_def proc_heads_def)

lemma pcb_mem_more:
  "list_mem.more t = list_mem.more s \<Longrightarrow> pcbs t = pcbs s \<and> pcb_mem.more t = pcb_mem.more s"
  by (cases s; cases t) simp

lemma pcbs_links_only: "links_only F s t \<Longrightarrow> pcbs t = pcbs s"
  by (auto simp: links_only_def dest: pcb_mem_more)

lemma prio_links_only: "links_only F s t \<Longrightarrow> prio t = prio s"
  by (simp add: prio_def pcbs_links_only fun_eq_iff)

lemma lh_upd_pcb [simp]:
  "lh_next (upd_pcb p f s) = lh_next s" "lh_prev (upd_pcb p f s) = lh_prev s"
  "pcbs (upd_pcb p f s) q = (if q = p then f (pcbs s p) else pcbs s q)"
  by (simp_all add: upd_pcb_def)

lemma rings_upd_pcb [simp]: "rings (upd_pcb p f s) elt K Q = rings s elt K Q"
  by (rule rings_cong) simp_all

section \<open>Specifications\<close>

lemma freePcb_spec [wp]:
  assumes "rings s P_next K Q" and "K \<subseteq> proc_heads" and "PcbFree_h \<in> K" and "p \<notin> members K Q"
  shows "ok (freePcb p s)
    (\<lambda>t. rings t P_next K (Q(PcbFree_h := p # Q PcbFree_h)) \<and> links_only proc_cells s t)"
  unfolding freePcb_def by (rule procq.list_add_rings [OF assms])

lemma emptyProcQ_iff:
  "rings s P_next K Q \<Longrightarrow> h \<in> K \<Longrightarrow> emptyProcQ h s \<longleftrightarrow> Q h = []"
  unfolding emptyProcQ_def by (rule rings_empty_iff)

lemma headProcQ_eq:
  assumes "rings s P_next K Q" and "h \<in> K"
  shows "headProcQ h s = Inr (case Q h of [] \<Rightarrow> None | p # _ \<Rightarrow> Some p)"
  using rings_empty_iff [OF assms] rings_list_next [OF assms]
  by (simp add: headProcQ_def split: list.splits)

lemma removeProcQ_Nil:
  "rings s P_next K Q \<Longrightarrow> h \<in> K \<Longrightarrow> Q h = [] \<Longrightarrow> removeProcQ h s = Inr (None, s)"
  by (simp add: removeProcQ_def rings_empty_iff)

lemma removeProcQ_Cons [wp]:
  assumes "rings s P_next K Q" and "K \<subseteq> proc_heads" and "h \<in> K" and "Q h = p # q"
  shows "ok (removeProcQ h s)
    (\<lambda>(r, t). r = Some p \<and> rings t P_next K (Q(h := q)) \<and> links_only proc_cells s t)"
proof -
  have "ok (list_del (P_next p) s)
      (\<lambda>t. rings t P_next K (Q(h := remove1 p (Q h))) \<and> links_only proc_cells s t)"
    by (rule procq.list_del_rings [OF assms(1-3)]) (simp add: assms(4))
  then show ?thesis
    using rings_empty_iff [OF assms(1,3)] rings_list_next [OF assms(1,3)] assms(4)
    by (simp add: removeProcQ_def)
qed

lemma outProcQ_spec [wp]:
  assumes "rings s P_next K Q" and "K \<subseteq> proc_heads" and "h \<in> K"
  shows "ok (outProcQ h p s)
    (\<lambda>(r, t). r = (if p \<in> set (Q h) then Some p else None) \<and>
      rings t P_next K (Q(h := remove1 p (Q h))) \<and> links_only proc_cells s t)"
proof -
  let ?F = "\<lambda>l. andThen (list_del (P_next p) s) (\<lambda>s. Inr (p, s))"
  have eq: "outProcQ h p s =
    (case List.find (\<lambda>l. l = P_next p) (map P_next (Q h)) of
        None \<Rightarrow> Inr (None, s)
      | Some x \<Rightarrow> (case ?F x of Inl e \<Rightarrow> Inl e | Inr (r, t) \<Rightarrow> Inr (Some r, t)))"
    unfolding outProcQ_def
    by (rule list_for_each_search [OF rings_dll [OF assms(1,3)]])
      (auto split: sum.splits simp: andThen_def)
  show ?thesis
  proof (cases "p \<in> set (Q h)")
    case True
    have "ok (list_del (P_next p) s)
        (\<lambda>t. rings t P_next K (Q(h := remove1 p (Q h))) \<and> links_only proc_cells s t)"
      by (rule procq.list_del_rings [OF assms True])
    then show ?thesis using True
      by (cases "list_del (P_next p) s") (simp_all add: eq find_eq_mem)
  next
    case False
    then show ?thesis
      using assms(1) by (auto simp add: eq find_eq_mem remove1_idem)
  qed
qed


lemma insertProcQ_spec [wp]:
  assumes "rings s P_next K Q" and "K \<subseteq> proc_heads" and "h \<in> K" and "p \<notin> members K Q"
  shows "ok (insertProcQ h p s)
    (\<lambda>t. rings t P_next K (Q(h := q_insert (prio s) p (Q h))) \<and> links_only proc_cells s t)"
proof -
  let ?lt = "\<lambda>t. prio s p > prio s t"
  let ?P = "\<lambda>l. \<exists>t. l = P_next t \<and> ?lt t"
  let ?F = "\<lambda>l. andThen (do_list_add (P_next p) (lh_prev s l) (Some l) s) (\<lambda>s. Inr ((), s))"
  have find: "List.find ?P (map P_next (Q h)) = map_option P_next (List.find ?lt (Q h))"
    by (simp add: find_map)
  let ?body = "\<lambda>l s. andThen (container_of_p_next l) (\<lambda>target_pcb.
      if sint (priority (pcbs s p)) > sint (priority (pcbs s target_pcb))
      then andThen (do_list_add (P_next p) (lh_prev s (P_next target_pcb))
                     (Some (P_next target_pcb)) s) (\<lambda>s. Inr (Some (), s))
      else Inr (None, s))"
  have "list_for_each_entry ?body h s =
    (case List.find ?P (map P_next (Q h)) of
        None \<Rightarrow> Inr (None, s)
      | Some x \<Rightarrow> (case ?F x of Inl e \<Rightarrow> Inl e | Inr (r, t) \<Rightarrow> Inr (Some r, t)))"
    by (rule list_for_each_search [OF rings_dll [OF assms(1,3)]]) (auto simp: prio_def)
  then have eq: "insertProcQ h p s =
    andThen (case List.find ?lt (Q h) of
        None \<Rightarrow> Inr (None, s)
      | Some t \<Rightarrow> andThen (do_list_add (P_next p) (lh_prev s (P_next t)) (Some (P_next t)) s)
          (\<lambda>s. Inr (Some (), s)))
      (\<lambda>(r, s). case r of Some _ \<Rightarrow> Inr s | None \<Rightarrow> list_add_tail (P_next p) h s)"
    unfolding insertProcQ_def find by (cases "List.find ?lt (Q h)") simp_all
  show ?thesis
  proof (cases "List.find ?lt (Q h)")
    case None
    then have "q_insert (prio s) p (Q h) = Q h @ [p]" by (simp add: q_insert_find)
    then show ?thesis
      using procq.list_add_tail_rings [OF assms] None by (simp add: eq)
  next
    case (Some t)
    define xs where "xs = takeWhile (\<lambda>x. \<not> ?lt x) (Q h)"
    obtain ys where q: "Q h = xs @ t # ys" and d: "dropWhile (\<lambda>x. \<not> ?lt x) (Q h) = t # ys"
      unfolding xs_def using find_takeWhile_split [OF Some] by blast
    have ins: "q_insert (prio s) p (Q h) = xs @ p # t # ys"
      using q_insert_split [of "prio s" p "Q h"] d by (simp add: xs_def)
    have "dll s h (map P_next xs @ P_next t # map P_next ys)"
      using rings_dll [OF assms(1,3)] by (simp add: q)
    then have "lh_prev s (P_next t) = Some (last (h # map P_next xs))"
      by (rule dll_prev_mid)
    then have "ok (do_list_add (P_next p) (lh_prev s (P_next t)) (Some (P_next t)) s)
      (\<lambda>u. rings u P_next K (Q(h := xs @ p # t # ys)) \<and> links_only proc_cells s u)"
      using procq.do_list_add_rings [OF assms(1-3) q assms(4)] by simp
    then show ?thesis
      unfolding ins
      by (cases "do_list_add (P_next p) (lh_prev s (P_next t)) (Some (P_next t)) s")
        (simp_all add: eq Some)
  qed
qed

text \<open>\<open>pcb_only F P s t\<close>: only the list heads in \<open>F\<close> and the PCBs in \<open>P\<close> differ.\<close>

definition pcb_only ::
  "lh set \<Rightarrow> pcb set \<Rightarrow> 'a pcb_mem_scheme \<Rightarrow> 'a pcb_mem_scheme \<Rightarrow> bool" where
  "pcb_only F P s t \<longleftrightarrow>
     pcb_mem.more t = pcb_mem.more s \<and>
     (\<forall>x. x \<notin> F \<longrightarrow> lh_next t x = lh_next s x \<and> lh_prev t x = lh_prev s x) \<and>
     (\<forall>q. q \<notin> P \<longrightarrow> pcbs t q = pcbs s q)"

lemma pcb_only_refl [simp]: "pcb_only F P s s"
  by (simp add: pcb_only_def)

lemma links_only_pcb_only: "links_only F s t \<Longrightarrow> pcb_only F P s t"
  by (auto simp: pcb_only_def links_only_def dest: pcb_mem_more)

lemma pcb_only_trans: "pcb_only F P s t \<Longrightarrow> pcb_only F P t u \<Longrightarrow> pcb_only F P s u"
  by (simp add: pcb_only_def)

lemma pcb_only_mono:
  "pcb_only F P s t \<Longrightarrow> F \<subseteq> G \<Longrightarrow> P \<subseteq> R \<Longrightarrow> pcb_only G R s t"
  by (auto simp: pcb_only_def)

lemma pcb_only_upd: "p \<in> P \<Longrightarrow> pcb_only F P s (upd_pcb p f s)"
  by (auto simp: pcb_only_def upd_pcb_def)

text \<open>A PCB fresh from \<open>allocPcb\<close>: the members that it does not set keep their value.\<close>

definition fresh_pcb :: "pcb_t \<Rightarrow> pcb_t" where
  "fresh_pcb c = c\<lparr>priority := 0, original_priority := 0, p_semkey := None, p_parent := None,
     kernel_timer := 0, user_timer := 0, tod_cache := 0, tod_at_start := 0,
     p_s := reset_state (p_s c), spec_areas := (\<lambda>_. None)\<rparr>"

lemma allocPcb_Nil:
  "rings s P_next K Q \<Longrightarrow> PcbFree_h \<in> K \<Longrightarrow> Q PcbFree_h = [] \<Longrightarrow> allocPcb s = Inr (None, s)"
  by (simp add: allocPcb_def rings_empty_iff)

lemma allocPcb_Cons [wp]:
  assumes "rings s P_next K Q" and "K \<subseteq> proc_heads" and "PcbFree_h \<in> K" and "Q PcbFree_h = p # q"
  shows "ok (allocPcb s)
    (\<lambda>(r, t). r = Some p \<and> rings t P_next K (Q(PcbFree_h := q)) \<and>
      pcbs t = (pcbs s)(p := fresh_pcb (pcbs s p)) \<and>
      lh_next t (P_child p) = None \<and> lh_prev t (P_child p) = None \<and>
      lh_next t (P_sib p) = Some (P_sib p) \<and> lh_prev t (P_sib p) = Some (P_sib p) \<and>
      pcb_only (proc_cells \<union> {P_child p, P_sib p}) {p} s t)"
proof -
  let ?Q = "Q(PcbFree_h := q)"
  have "distinct (Q PcbFree_h)" by (rule rings_distinct [OF assms(1,3)])
  then have p: "p \<notin> members K ?Q"
    using assms(4) rings_others [OF assms(1,3)] by (auto simp: members_upd [OF assms(3)])
  have del: "ok (list_del (P_next p) s)
      (\<lambda>t. rings t P_next K ?Q \<and> links_only proc_cells s t)"
    using procq.list_del_rings [OF assms(1-3), of p] assms(4) by simp
  have init: "rings (INIT_LIST_HEAD (P_next p) t) P_next K ?Q = rings t P_next K ?Q" for t
    using p assms(2) procq.elt_head
    by (intro rings_frame_members [OF links_only_INIT [of _ "{P_next p}"]]) auto
  have sib: "rings (INIT_LIST_HEAD (P_sib p) t) P_next K ?Q = rings t P_next K ?Q" for t
    using assms(2) by (intro rings_frame [OF links_only_INIT [of _ "{P_sib p}"]])
      (auto simp: proc_heads_def)
  have nxt: "rings (set_next (P_child p) v t) P_next K ?Q = rings t P_next K ?Q" for t v
    using assms(2) by (intro rings_frame [OF links_only_set_next [of _ "{P_child p}"]])
      (auto simp: proc_heads_def)
  have prv: "rings (set_prev (P_child p) v t) P_next K ?Q = rings t P_next K ?Q" for t v
    using assms(2) by (intro rings_frame [OF links_only_set_prev [of _ "{P_child p}"]])
      (auto simp: proc_heads_def)
  obtain t where t: "list_del (P_next p) s = Inr t" "rings t P_next K ?Q" "links_only proc_cells s t"
    using del by (auto simp: ok_iff)
  note pcbs = pcbs_links_only [OF t(3)]
  have more: "pcb_mem.more t = pcb_mem.more s"
    using t(3) by (auto simp: links_only_def dest: pcb_mem_more)
  show ?thesis
    using rings_empty_iff [OF assms(1,3)] rings_list_next [OF assms(1,3)] assms(4) t(2)
      links_only_frame [OF t(3)]
    by (simp add: allocPcb_def t(1) Let_def init sib nxt prv)
      (simp add: INIT_LIST_HEAD_def set_next_def set_prev_def upd_pcb_def pcbs fresh_pcb_def
        fun_eq_iff pcb_only_def more)
qed

lemma initPcbs_loop_spec:
  assumes "rings s P_next K Q" and "K \<subseteq> proc_heads" and "PcbFree_h \<in> K"
    and "\<And>i. i < n \<Longrightarrow> Pcb i \<notin> members K Q"
  shows "ok (initPcbs_loop n s)
    (\<lambda>t. rings t P_next K (Q(PcbFree_h := map Pcb [0..<n] @ Q PcbFree_h)) \<and>
      links_only proc_cells s t)"
  using assms
proof (induction n arbitrary: s Q)
  case 0
  then show ?case by simp
next
  case (Suc n)
  let ?Q = "Q(PcbFree_h := Pcb n # Q PcbFree_h)"
  have "ok (freePcb (Pcb n) s) (\<lambda>t. rings t P_next K ?Q \<and> links_only proc_cells s t)"
    using Suc.prems by (intro freePcb_spec) auto
  then obtain t where t: "freePcb (Pcb n) s = Inr t" "rings t P_next K ?Q" "links_only proc_cells s t"
    by (auto simp: ok_iff)
  have "ok (initPcbs_loop n t)
    (\<lambda>u. rings u P_next K (?Q(PcbFree_h := map Pcb [0..<n] @ ?Q PcbFree_h)) \<and>
      links_only proc_cells t u)"
    using Suc.prems by (intro Suc.IH [OF t(2)]) (auto simp: members_upd members_def)
  then show ?case
    by (simp add: t(1)) (elim ok_mono, auto intro: links_only_trans [OF t(3)] simp: fun_upd_def)
qed

lemma initPcbs_spec [wp]:
  assumes "rings s P_next (K - {PcbFree_h}) Q" and "K \<subseteq> proc_heads" and "PcbFree_h \<in> K"
    and "\<And>i. i < MAXPROC \<Longrightarrow> Pcb i \<notin> members (K - {PcbFree_h}) Q"
  shows "ok (initPcbs s)
    (\<lambda>t. rings t P_next K (Q(PcbFree_h := map Pcb [0..<MAXPROC])) \<and> links_only proc_cells s t)"
proof -
  let ?s = "INIT_LIST_HEAD PcbFree_h s" and ?Q = "Q(PcbFree_h := [])"
  have "rings ?s P_next K ?Q" by (rule procq.INIT_LIST_HEAD_rings [OF assms(1-3)])
  moreover have "Pcb i \<notin> members K ?Q" if "i < MAXPROC" for i
    using assms(3,4) that by (simp add: members_upd)
  ultimately have "ok (initPcbs_loop MAXPROC ?s)
    (\<lambda>t. rings t P_next K (?Q(PcbFree_h := map Pcb [0..<MAXPROC] @ ?Q PcbFree_h)) \<and>
      links_only proc_cells ?s t)"
    using assms(2,3) by (intro initPcbs_loop_spec)
  then show ?thesis
    unfolding initPcbs_def
    by (elim ok_mono) (auto intro: links_only_trans procq.INIT_LIST_HEAD_cells)
qed

end
