(* ===== verification/Pcb_Tree.thy ===== *)
theory Pcb_Tree
  imports Pcb
begin

text \<open>
  The process tree: the second half of \<open>src/core/processes/pcb.c\<close>.

  A process points to its first child through \<open>p_child.next\<close> (NULL without children), and
  the first child's \<open>p_sib\<close> is the sentinel of the ring of its siblings. \<open>node_rep s p cs\<close>
  says that the memory holds \<open>cs\<close> as the children of \<open>p\<close>, and \<open>tree_rep s A kids\<close>
  that it does so for every process of \<open>A\<close>. The operations are specified on \<open>kids\<close>.
\<close>

section \<open>Operations\<close>

definition emptyChild :: "pcb \<Rightarrow> 'a pcb_mem_scheme \<Rightarrow> bool" where
  "emptyChild this s \<longleftrightarrow> lh_next s (P_child this) = None"

definition insertChild ::
  "pcb option \<Rightarrow> pcb option \<Rightarrow> 'a pcb_mem_scheme \<Rightarrow> 'a pcb_mem_scheme res" where
  "insertChild prnt p s =
     (case (p, prnt) of
        (Some p, Some prnt) \<Rightarrow>
          let s = upd_pcb p (\<lambda>c. c\<lparr>p_parent := Some prnt\<rparr>) s in
          if emptyChild prnt s then
            let s = set_next (P_child prnt) (Some (P_child p)) s;
                s = set_prev (P_child p) (Some (P_child prnt)) s;
                s = set_next (P_sib p) None s
            in Inr (INIT_LIST_HEAD (P_sib p) s)
          else
            andThen (deref (list_next (P_child prnt) s)) (\<lambda>first_child_head.
            andThen (container_of_p_child first_child_head) (\<lambda>first_child_pcb.
            andThen (list_add_tail (P_sib p) (P_sib first_child_pcb) s) (\<lambda>s.
            Inr (set_next (P_child p) None s))))
      | _ \<Rightarrow> Inl (Panic ''ERROR: insertChild() received invalid pointers''))"

definition removeChild :: "pcb \<Rightarrow> 'a pcb_mem_scheme \<Rightarrow> (pcb option \<times> 'a pcb_mem_scheme) res" where
  "removeChild p s =
     (if emptyChild p s then Inr (None, s)
      else
        andThen (deref (lh_next s (P_child p))) (\<lambda>first_child_head.
        andThen (container_of_p_child first_child_head) (\<lambda>first_child_pcb.
        let s = upd_pcb first_child_pcb (\<lambda>c. c\<lparr>p_parent := None\<rparr>) s;
            s = set_prev (P_child first_child_pcb) None s in
        if \<not> list_empty (P_sib first_child_pcb) s then
          andThen (deref (list_next (P_sib first_child_pcb) s)) (\<lambda>next_sibling_head.
          andThen (container_of_p_sib next_sibling_head) (\<lambda>first_sibling_pcb.
          let s = set_next (P_child p) (Some (P_child first_sibling_pcb)) s;
              s = set_prev (P_child first_sibling_pcb) (Some (P_child p)) s in
          andThen (list_del (P_sib first_child_pcb) s) (\<lambda>s.
          Inr (Some first_child_pcb, s))))
        else Inr (Some first_child_pcb, set_next (P_child p) None s))))"

definition outChild :: "pcb \<Rightarrow> 'a pcb_mem_scheme \<Rightarrow> (pcb option \<times> 'a pcb_mem_scheme) res" where
  "outChild p s =
     (case p_parent (pcbs s p) of
        None \<Rightarrow> Inr (None, s)
      | Some parent_pcb \<Rightarrow>
          if \<not> emptyChild parent_pcb s then
            andThen (deref (lh_next s (P_child parent_pcb))) (\<lambda>first_child_head.
            andThen (container_of_p_child first_child_head) (\<lambda>first_child_pcb.
            if first_child_pcb = p then removeChild parent_pcb s
            else andThen (list_del (P_sib p) s) (\<lambda>s. Inr (Some p, s))))
          else Inl (Panic ''ERROR: outChild() couldn't find the received p, something must be broken with the tree structure''))"

definition nextSibling :: "pcb \<Rightarrow> pcb \<Rightarrow> 'a pcb_mem_scheme \<Rightarrow> pcb option res" where
  "nextSibling target_sibling first_sibling s =
     (if lh_next s (P_sib target_sibling) = Some (P_sib first_sibling) then Inr None
      else andThen (deref (lh_next s (P_sib target_sibling))) (\<lambda>l.
           andThen (container_of_p_sib l) (\<lambda>q. Inr (Some q))))"

section \<open>Representation\<close>

definition node_rep :: "'a pcb_mem_scheme \<Rightarrow> pcb \<Rightarrow> pcb list \<Rightarrow> bool" where
  "node_rep s p cs \<longleftrightarrow>
     (case cs of
        [] \<Rightarrow> lh_next s (P_child p) = None
      | c # ds \<Rightarrow> lh_next s (P_child p) = Some (P_child c) \<and> dll s (P_sib c) (map P_sib ds)) \<and>
     (\<forall>x\<in>set cs. p_parent (pcbs s x) = Some p) \<and> p \<notin> set cs"

text \<open>
  \<open>tree_rep\<close> is about the lists of children of the processes of \<open>A\<close> and the parents of their members. It says nothing about \<open>p_parent\<close> of a process
  that is in no such list: the code leaves an old value there, which the lemmas on the operations give
  separately.
\<close>

definition tree_rep :: "'a pcb_mem_scheme \<Rightarrow> pcb set \<Rightarrow> (pcb \<Rightarrow> pcb list) \<Rightarrow> bool" where
  "tree_rep s A kids \<longleftrightarrow> (\<forall>p\<in>A. node_rep s p (kids p) \<and> set (kids p) \<subseteq> A)"

definition tree_cells :: "lh set" where
  "tree_cells = range P_child \<union> range P_sib"

lemma tree_cells_iff [simp]:
  "P_child p \<in> tree_cells" "P_sib p \<in> tree_cells"
  "P_next p \<notin> tree_cells" "S_next i \<notin> tree_cells" "S_procQ i \<notin> tree_cells"
  "PcbFree_h \<notin> tree_cells" "SemdFree_h \<notin> tree_cells" "Semd_h \<notin> tree_cells"
  "Ready_queue \<notin> tree_cells" "Proc_list n \<notin> tree_cells"
  by (auto simp: tree_cells_def)

lemma not_tree_cells:
  "x \<notin> tree_cells \<Longrightarrow> x \<notin> P_sib ` S \<and> x \<notin> P_child ` S \<and> x \<noteq> P_child p \<and> x \<noteq> P_sib p"
  by auto

lemma tree_proc_cells: "tree_cells \<inter> (proc_heads \<union> range P_next) = {}"
  by (auto simp: tree_cells_def proc_heads_def)

lemma node_rep_Nil: "node_rep s p [] \<longleftrightarrow> emptyChild p s"
  by (simp add: node_rep_def emptyChild_def)

lemma node_rep_Cons:
  "node_rep s p (c # cs) \<longleftrightarrow>
    lh_next s (P_child p) = Some (P_child c) \<and> dll s (P_sib c) (map P_sib cs) \<and>
    (\<forall>x\<in>set (c # cs). p_parent (pcbs s x) = Some p) \<and> p \<notin> set (c # cs)"
  by (simp add: node_rep_def)

lemma node_rep_empty_iff: "node_rep s p cs \<Longrightarrow> emptyChild p s \<longleftrightarrow> cs = []"
  by (cases cs) (auto simp: node_rep_def emptyChild_def)

lemma node_rep_distinct: "node_rep s p cs \<Longrightarrow> distinct cs"
  by (cases cs) (auto simp: node_rep_def distinct_map dest!: dll_distinct)

lemma node_rep_cong:
  assumes "lh_next t (P_child p) = lh_next s (P_child p)"
    and "\<And>x. x \<in> set cs \<Longrightarrow> lh_next t (P_sib x) = lh_next s (P_sib x)"
    and "\<And>x. x \<in> set cs \<Longrightarrow> lh_prev t (P_sib x) = lh_prev s (P_sib x)"
    and "\<And>x. x \<in> set cs \<Longrightarrow> p_parent (pcbs t x) = p_parent (pcbs s x)"
  shows "node_rep t p cs = node_rep s p cs"
proof (cases cs)
  case Nil
  then show ?thesis using assms(1) by (simp add: node_rep_def)
next
  case (Cons c ds)
  have "dll t (P_sib c) (map P_sib ds) = dll s (P_sib c) (map P_sib ds)"
    using assms(2,3) Cons by (intro dll_cong) auto
  then show ?thesis using assms Cons by (simp add: node_rep_def)
qed

lemma tree_rep_node: "tree_rep s A kids \<Longrightarrow> p \<in> A \<Longrightarrow> node_rep s p (kids p)"
  by (simp add: tree_rep_def)

lemma tree_rep_parent:
  "tree_rep s A kids \<Longrightarrow> p \<in> A \<Longrightarrow> x \<in> set (kids p) \<Longrightarrow> p_parent (pcbs s x) = Some p"
  by (auto simp: tree_rep_def node_rep_def)

lemma tree_rep_unique:
  "tree_rep s A kids \<Longrightarrow> p \<in> A \<Longrightarrow> q \<in> A \<Longrightarrow> x \<in> set (kids p) \<Longrightarrow> x \<in> set (kids q) \<Longrightarrow> p = q"
  using tree_rep_parent [of s A kids p x] tree_rep_parent [of s A kids q x] by simp

lemma tree_rep_update:
  assumes "tree_rep s A kids" and "node_rep t p ys" and "set ys \<subseteq> A"
    and "\<And>q. q \<in> A \<Longrightarrow> q \<noteq> p \<Longrightarrow> node_rep t q (kids q) = node_rep s q (kids q)"
  shows "tree_rep t A (kids(p := ys))"
  using assms by (auto simp: tree_rep_def)

lemma dll_rotate: "dll s h (x # xs) \<Longrightarrow> dll s x (xs @ [h])"
  by (auto simp: dll_def links_append)

lemma list_del_head_dll:
  assumes "dll s h (x # xs)"
  shows "ok (list_del h s) (\<lambda>t. dll t x xs \<and> links_only (set (x # xs)) s t)"
  using list_del_dll [of s x xs h "[]"] dll_rotate [OF assms] by simp

section \<open>Specifications\<close>

lemma insertChild_NULL:
  "prnt = None \<or> p = None \<Longrightarrow>
    insertChild prnt p s = Inl (Panic ''ERROR: insertChild() received invalid pointers'')"
  by (auto simp: insertChild_def split: option.split)

lemma insertChild_spec [wp]:
  assumes tree: "tree_rep s A kids" and A: "prnt \<in> A" "p \<in> A" and "p \<noteq> prnt"
    and root: "\<And>q. q \<in> A \<Longrightarrow> p \<notin> set (kids q)" and leaf: "kids p = []"
  shows "ok (insertChild (Some prnt) (Some p) s)
    (\<lambda>t. tree_rep t A (kids(prnt := kids prnt @ [p])) \<and> pcb_only tree_cells {p} s t \<and>
      pcbs t p = (pcbs s p)\<lparr>p_parent := Some prnt\<rparr>)"
proof -
  let ?u = "upd_pcb p (\<lambda>c. c\<lparr>p_parent := Some prnt\<rparr>) s"
  have node: "node_rep s q (kids q)" if "q \<in> A" for q
    using tree that by (rule tree_rep_node)
  have up: "node_rep ?u q (kids q) = node_rep s q (kids q)" if "q \<in> A" for q
    using root [OF that] by (intro node_rep_cong) auto
  have e: "emptyChild prnt ?u \<longleftrightarrow> kids prnt = []"
    using node_rep_empty_iff [of ?u prnt "kids prnt"] up node A by simp
  have pleaf: "lh_next s (P_child p) = None"
    using node [OF A(2)] leaf by (simp add: node_rep_def)
  show ?thesis
  proof (cases "kids prnt")
    case Nil
    define t where "t = INIT_LIST_HEAD (P_sib p) (set_next (P_sib p) None
      (set_prev (P_child p) (Some (P_child prnt))
      (set_next (P_child prnt) (Some (P_child p)) ?u)))"
    have run: "insertChild (Some prnt) (Some p) s = Inr t"
      using e Nil by (simp add: insertChild_def Let_def t_def)
    have t: "lh_next t = (lh_next s)(P_child prnt := Some (P_child p), P_sib p := Some (P_sib p))"
      "lh_prev t = (lh_prev s)(P_child p := Some (P_child prnt), P_sib p := Some (P_sib p))"
      "pcbs t = pcbs ?u" "pcb_mem.more t = pcb_mem.more s"
      by (simp_all add: t_def INIT_LIST_HEAD_def set_next_def set_prev_def upd_pcb_def fun_eq_iff)
    have "tree_rep t A (kids(prnt := [p]))"
    proof (rule tree_rep_update [OF tree])
      show "node_rep t prnt [p]"
        using \<open>p \<noteq> prnt\<close> by (simp add: node_rep_def t dll_Nil)
      show "node_rep t q (kids q) = node_rep s q (kids q)" if "q \<in> A" "q \<noteq> prnt" for q
        using that root [OF that(1)] by (intro node_rep_cong) (auto simp: t)
    qed (use A in simp)
    then show ?thesis
      using Nil by (simp add: run) (auto simp: pcb_only_def t)
  next
    case (Cons c cs)
    have nc: "node_rep ?u prnt (c # cs)"
      using up [OF A(1)] node [OF A(1)] Cons by simp
    then have d: "dll ?u (P_sib c) (map P_sib cs)" and nx: "lh_next ?u (P_child prnt) = Some (P_child c)"
      and "c \<noteq> prnt"
      by (auto simp: node_rep_Cons)
    have "p \<notin> set (c # cs)" using root [OF A(1)] Cons by simp
    then have "P_sib p \<notin> set (P_sib c # map P_sib cs)" by auto
    from list_add_tail_dll [OF d this] obtain v where
      v: "list_add_tail (P_sib p) (P_sib c) ?u = Inr v"
        "dll v (P_sib c) (map P_sib (cs @ [p]))"
        and vl: "links_only (insert (P_sib p) (P_sib ` set (c # cs))) ?u v"
      by (auto simp: ok_iff)
    let ?t = "set_next (P_child p) None v"
    have run: "insertChild (Some prnt) (Some p) s = Inr ?t"
      using e Cons nx \<open>c \<noteq> prnt\<close> v(1)
      by (simp add: insertChild_def list_next_def list_empty_def)
    have pv: "pcbs v = pcbs ?u" and mv: "pcb_mem.more v = pcb_mem.more s"
      using vl by (auto simp: links_only_def upd_pcb_def dest!: pcb_mem_more)
    note fr = links_only_frame [OF vl]
    have "tree_rep ?t A (kids(prnt := kids prnt @ [p]))"
    proof (rule tree_rep_update [OF tree])
      have "dll ?t (P_sib c) (map P_sib (cs @ [p]))"
        using v(2) by (subst dll_cong [of _ _ ?t v]) (auto simp: set_next_def)
      moreover have "p_parent (pcbs ?t x) = Some prnt" if "x \<in> set (c # cs @ [p])" for x
        using nc that pv by (auto simp: node_rep_Cons set_next_def)
      ultimately show "node_rep ?t prnt (kids prnt @ [p])"
        using nc nx Cons \<open>p \<noteq> prnt\<close> fr(1) [of "P_child prnt"]
        by (auto simp: node_rep_Cons set_next_def)
      show "node_rep ?t q (kids q) = node_rep s q (kids q)" if q: "q \<in> A" "q \<noteq> prnt" for q
      proof -
        have "x \<notin> set (c # cs)" if "x \<in> set (kids q)" for x
          using tree_rep_unique [OF tree q(1) A(1) that] q(2) Cons by auto
        moreover have "p \<notin> set (kids q)" using root q by blast
        ultimately have sib: "P_sib x \<notin> insert (P_sib p) (P_sib ` set (c # cs))"
          if "x \<in> set (kids q)" for x
          using that by auto
        show ?thesis
          using \<open>p \<notin> set (kids q)\<close> pleaf fr [of "P_child q"] fr [OF sib]
          by (intro node_rep_cong) (auto simp: set_next_def pv)
      qed
    qed (use A tree in \<open>auto simp: tree_rep_def\<close>)
    moreover have "pcb_only tree_cells {p} s ?t"
    proof -
      have "links_only tree_cells ?u v"
        by (rule links_only_mono [OF vl]) auto
      then have "pcb_only tree_cells {p} ?u ?t"
        using links_only_set_next [of "P_child p" tree_cells v None]
        by (intro links_only_pcb_only) (auto intro: links_only_trans)
      then show ?thesis by (rule pcb_only_trans [OF pcb_only_upd, rotated]) simp
    qed
    ultimately show ?thesis by (simp add: run) (simp add: set_next_def pv)
  qed
qed


lemma removeChild_Nil:
  "node_rep s p [] \<Longrightarrow> removeChild p s = Inr (None, s)"
  by (simp add: removeChild_def node_rep_Nil)

text \<open>\<open>removeChild\<close> on the node alone: the first child leaves, the second takes its place.\<close>

lemma removeChild_node:
  assumes "node_rep s p (c # cs)"
  shows "ok (removeChild p s)
    (\<lambda>(r, t). r = Some c \<and> node_rep t p cs \<and>
      (\<forall>x. x \<notin> P_sib ` set cs \<longrightarrow> x \<noteq> P_child p \<longrightarrow> lh_next t x = lh_next s x) \<and>
      (\<forall>x. x \<notin> P_sib ` set cs \<longrightarrow> x \<notin> P_child ` set (c # cs) \<longrightarrow> lh_prev t x = lh_prev s x) \<and>
      pcbs t = (pcbs s)(c := (pcbs s c)\<lparr>p_parent := None\<rparr>) \<and>
      pcb_mem.more t = pcb_mem.more s)"
proof -
  let ?u = "set_prev (P_child c) None (upd_pcb c (\<lambda>d. d\<lparr>p_parent := None\<rparr>) s)"
  have nx: "lh_next s (P_child p) = Some (P_child c)" and d: "dll s (P_sib c) (map P_sib cs)"
    and par: "\<And>x. x \<in> set (c # cs) \<Longrightarrow> p_parent (pcbs s x) = Some p" and "p \<notin> set (c # cs)"
    using assms by (auto simp: node_rep_Cons)
  have "c \<notin> set cs" using dll_distinct [OF d] by auto
  have u: "lh_next ?u = lh_next s" "lh_prev ?u = (lh_prev s)(P_child c := None)"
    "pcbs ?u = (pcbs s)(c := (pcbs s c)\<lparr>p_parent := None\<rparr>)" "pcb_mem.more ?u = pcb_mem.more s"
    by (simp_all add: set_prev_def upd_pcb_def)
  have du: "dll ?u (P_sib c) (map P_sib cs)"
    using d by (subst dll_cong [of _ _ ?u s]) (auto simp: u)
  show ?thesis
  proof (cases cs)
    case Nil
    then have "removeChild p s = Inr (Some c, set_next (P_child p) None ?u)"
      using nx dll_empty_iff [OF du] by (simp add: removeChild_def emptyChild_def Let_def)
    then show ?thesis using Nil u by (simp add: node_rep_def set_next_def)
  next
    case (Cons d ds)
    let ?v = "set_prev (P_child d) (Some (P_child p)) (set_next (P_child p) (Some (P_child d)) ?u)"
    have v: "lh_next ?v = (lh_next s)(P_child p := Some (P_child d))"
      "lh_prev ?v = (lh_prev s)(P_child c := None, P_child d := Some (P_child p))"
      "pcbs ?v = pcbs ?u" "pcb_mem.more ?v = pcb_mem.more s"
      by (simp_all add: set_prev_def set_next_def upd_pcb_def)
    have "dll ?v (P_sib c) (map P_sib (d # ds))"
      using d Cons by (subst dll_cong [of _ _ ?v s]) (auto simp: v)
    then obtain t where t: "list_del (P_sib c) ?v = Inr t" "dll t (P_sib d) (map P_sib ds)"
        and tl: "links_only (P_sib ` set (d # ds)) ?v t"
      using list_del_head_dll [of ?v "P_sib c" "P_sib d" "map P_sib ds"] by (auto simp: ok_iff)
    have run: "removeChild p s = Inr (Some c, t)"
      using nx dll_empty_iff [OF du] dll_list_next [OF du] Cons t(1)
      by (simp add: removeChild_def emptyChild_def Let_def)
    have tp: "pcbs t = pcbs ?v" "pcb_mem.more t = pcb_mem.more s"
      using tl v(4) by (auto simp: links_only_def dest!: pcb_mem_more)
    note fr = links_only_frame [OF tl]
    have "node_rep t p cs"
      using t(2) Cons par \<open>p \<notin> set (c # cs)\<close> \<open>c \<notin> set cs\<close> fr(1) [of "P_child p"]
      by (auto simp: node_rep_Cons tp v u)
    then show ?thesis
      using Cons fr by (auto simp: run tp v u)
  qed
qed

lemma removeChild_Cons [wp]:
  assumes tree: "tree_rep s A kids" and A: "p \<in> A" and kids: "kids p = c # cs"
  shows "ok (removeChild p s)
    (\<lambda>(r, t). r = Some c \<and> tree_rep t A (kids(p := cs)) \<and> pcb_only tree_cells {c} s t \<and>
      pcbs t c = (pcbs s c)\<lparr>p_parent := None\<rparr>)"
proof -
  have node: "node_rep s p (c # cs)" using tree_rep_node [OF tree A] kids by simp
  then have "distinct (c # cs)" by (rule node_rep_distinct)
  have other: "x \<notin> set (c # cs)" if "q \<in> A" "q \<noteq> p" "x \<in> set (kids q)" for q x
    using tree_rep_unique [OF tree that(1) A that(3)] that(2) kids by auto
  have "set (c # cs) \<subseteq> A" using tree A kids by (fastforce simp: tree_rep_def)
  show ?thesis
  proof (rule ok_mono [OF removeChild_node [OF node]], clarify)
    fix r t
    assume t: "node_rep t p cs"
      and n: "\<forall>x. x \<notin> P_sib ` set cs \<longrightarrow> x \<noteq> P_child p \<longrightarrow> lh_next t x = lh_next s x"
      and v: "\<forall>x. x \<notin> P_sib ` set cs \<longrightarrow> x \<notin> P_child ` set (c # cs) \<longrightarrow> lh_prev t x = lh_prev s x"
      and p: "pcbs t = (pcbs s)(c := (pcbs s c)\<lparr>p_parent := None\<rparr>)"
      and m: "pcb_mem.more t = pcb_mem.more s"
    have "node_rep t q (kids q) = node_rep s q (kids q)" if q: "q \<in> A" "q \<noteq> p" for q
    proof (rule node_rep_cong)
      show "lh_next t (P_child q) = lh_next s (P_child q)" using n q by auto
      fix x assume "x \<in> set (kids q)"
      then have "x \<notin> set (c # cs)" by (rule other [OF q])
      then show "lh_next t (P_sib x) = lh_next s (P_sib x)"
        and "lh_prev t (P_sib x) = lh_prev s (P_sib x)"
        and "p_parent (pcbs t x) = p_parent (pcbs s x)"
        using n v p by auto
    qed
    then have "tree_rep t A (kids(p := cs))"
      using t \<open>set (c # cs) \<subseteq> A\<close> by (intro tree_rep_update [OF tree]) auto
    moreover have "pcb_only tree_cells {c} s t"
      using n v p m not_tree_cells by (simp add: pcb_only_def)
    ultimately show "Some c = Some c \<and> tree_rep t A (kids(p := cs)) \<and>
        pcb_only tree_cells {c} s t \<and> pcbs t c = (pcbs s c)\<lparr>p_parent := None\<rparr>"
      using p by simp
  qed
qed

lemma outChild_root: "p_parent (pcbs s p) = None \<Longrightarrow> outChild p s = Inr (None, s)"
  by (simp add: outChild_def)

text \<open>
  \<open>outChild\<close> makes \<open>p_parent\<close> NULL only for a first child: any other child keeps the pointer to its old parent.
\<close>

lemma outChild_spec [wp]:
  assumes tree: "tree_rep s A kids" and q: "q \<in> A" and p: "p \<in> set (kids q)"
  shows "ok (outChild p s)
    (\<lambda>(r, t). r = Some p \<and> tree_rep t A (kids(q := remove1 p (kids q))) \<and>
      pcb_only tree_cells {p} s t \<and>
      pcbs t p = (pcbs s p)\<lparr>p_parent := if hd (kids q) = p then None else Some q\<rparr>)"
proof -
  have par: "p_parent (pcbs s p) = Some q" using tree_rep_parent [OF tree q p] .
  obtain c cs where kids: "kids q = c # cs" using p by (cases "kids q") auto
  have node: "node_rep s q (c # cs)" using tree_rep_node [OF tree q] kids by simp
  then have ne: "\<not> emptyChild q s" and nx: "lh_next s (P_child q) = Some (P_child c)"
    and d: "dll s (P_sib c) (map P_sib cs)"
    by (auto simp: node_rep_Cons emptyChild_def)
  show ?thesis
  proof (cases "c = p")
    case True
    then have "outChild p s = removeChild q s"
      using par ne nx by (simp add: outChild_def)
    then show ?thesis
      using removeChild_Cons [OF tree q kids] True kids by (auto elim!: ok_mono)
  next
    case False
    then obtain xs ys where cs: "cs = xs @ p # ys" "p \<notin> set xs"
      using p kids by (auto dest: split_list_first)
    have "ok (list_del (P_sib p) s)
        (\<lambda>t. dll t (P_sib c) (map P_sib (xs @ ys)) \<and>
          links_only (set (P_sib c # map P_sib xs @ map P_sib ys)) s t)"
      using list_del_dll [of s "P_sib c" "map P_sib xs" "P_sib p" "map P_sib ys"] d cs(1) by simp
    then obtain t where t: "list_del (P_sib p) s = Inr t" "dll t (P_sib c) (map P_sib (xs @ ys))"
        and tl': "links_only (set (P_sib c # map P_sib xs @ map P_sib ys)) s t"
      by (auto simp: ok_iff)
    have tl: "links_only (P_sib ` set (kids q)) s t"
      using cs(1) kids by (intro links_only_mono [OF tl']) auto
    have run: "outChild p s = Inr (Some p, t)"
      using par ne nx False t(1) by (simp add: outChild_def)
    have rem: "remove1 p (kids q) = c # xs @ ys"
      using False cs kids by (simp add: remove1_append)
    have pt: "pcbs t = pcbs s" by (rule pcbs_links_only [OF tl])
    note fr = links_only_frame [OF tl]
    have "node_rep t q (c # xs @ ys)"
      using t(2) node cs(1) fr(1) [of "P_child q"] by (auto simp: node_rep_Cons pt)
    moreover have "node_rep t r (kids r) = node_rep s r (kids r)" if r: "r \<in> A" "r \<noteq> q" for r
    proof (rule node_rep_cong)
      show "lh_next t (P_child r) = lh_next s (P_child r)" using fr by auto
      fix x assume "x \<in> set (kids r)"
      then have "P_sib x \<notin> P_sib ` set (kids q)"
        using tree_rep_unique [OF tree r(1) q] r(2) by auto
      then show "lh_next t (P_sib x) = lh_next s (P_sib x)"
        and "lh_prev t (P_sib x) = lh_prev s (P_sib x)"
        and "p_parent (pcbs t x) = p_parent (pcbs s x)"
        using fr pt by auto
    qed
    moreover have "set (c # xs @ ys) \<subseteq> A"
      using tree q kids cs(1) by (fastforce simp: tree_rep_def)
    ultimately have "tree_rep t A (kids(q := remove1 p (kids q)))"
      unfolding rem by (intro tree_rep_update [OF tree])
    moreover have "pcb_only tree_cells {p} s t"
      using tl by (intro links_only_pcb_only [OF links_only_mono]) (auto simp: tree_cells_def)
    moreover have "pcbs t p = (pcbs s p)\<lparr>p_parent := if hd (kids q) = p then None else Some q\<rparr>"
      using par kids False by (simp add: pt)
    ultimately show ?thesis unfolding run ok_simps by blast
  qed
qed

lemma nextSibling_eq:
  assumes "node_rep s p (c # cs)" and "c # cs = xs @ x # ys"
  shows "nextSibling x c s = Inr (case ys of [] \<Rightarrow> None | y # _ \<Rightarrow> Some y)"
proof -
  have d: "dll s (P_sib c) (map P_sib cs)" using assms(1) by (simp add: node_rep_Cons)
  have "lh_next s (P_sib x) = Some (hd (map P_sib ys @ [P_sib c]))"
  proof (cases xs)
    case Nil
    then show ?thesis using dll_next_head [OF d] assms(2) by simp
  next
    case (Cons z zs)
    then show ?thesis
      using dll_next_mid [of s "P_sib c" "map P_sib zs" "P_sib x" "map P_sib ys"] d assms(2) by simp
  qed
  moreover have "c \<notin> set ys \<or> ys = []"
    using dll_distinct [OF d] assms(2) by (cases xs) auto
  ultimately show ?thesis by (cases ys) (auto simp: nextSibling_def)
qed

text \<open>The process queues do not see the tree, nor the tree the queues.\<close>

lemma rings_tree_frame:
  assumes "pcb_only tree_cells P s t" and "K \<subseteq> proc_heads"
  shows "rings t P_next K Q = rings s P_next K Q"
proof -
  have "dll t h (map P_next (Q h)) = dll s h (map P_next (Q h))" if "h \<in> K" for h
    using assms that tree_proc_cells
    by (intro dll_cong) (auto simp: pcb_only_def disjoint_iff)
  then show ?thesis by (simp add: rings_def)
qed

lemma tree_rep_frame:
  assumes "\<And>x. x \<in> tree_cells \<Longrightarrow> lh_next t x = lh_next s x"
    and "\<And>x. x \<in> tree_cells \<Longrightarrow> lh_prev t x = lh_prev s x"
    and "\<And>p x. p \<in> A \<Longrightarrow> x \<in> set (kids p) \<Longrightarrow> p_parent (pcbs t x) = p_parent (pcbs s x)"
  shows "tree_rep t A kids = tree_rep s A kids"
proof -
  have "node_rep t p (kids p) = node_rep s p (kids p)" if "p \<in> A" for p
    using assms(3) [OF that] by (intro node_rep_cong) (simp_all add: assms(1,2))
  then show ?thesis by (simp add: tree_rep_def)
qed

section \<open>Visiting order\<close>

text \<open>
  \<open>subtree k p xs\<close>: \<open>xs\<close> is the process \<open>p\<close> and its descendants in preorder, for the children
  \<open>k\<close>: the order in which \<open>outChildBlocked\<close> and \<open>recursive_remove_proc\<close> visit a tree.
\<close>

inductive subtree :: "(pcb \<Rightarrow> pcb list) \<Rightarrow> pcb \<Rightarrow> pcb list \<Rightarrow> bool"
  and forest :: "(pcb \<Rightarrow> pcb list) \<Rightarrow> pcb list \<Rightarrow> pcb list \<Rightarrow> bool" where
  subtree: "forest k (k p) xs \<Longrightarrow> subtree k p (p # xs)"
| forest_Nil: "forest k [] []"
| forest_Cons: "subtree k c xs \<Longrightarrow> forest k cs ys \<Longrightarrow> forest k (c # cs) (xs @ ys)"

inductive_cases subtreeE: "subtree k p xs"
inductive_cases forest_NilE: "forest k [] xs"
inductive_cases forest_ConsE: "forest k (c # cs) xs"

lemma forest_exists: "(\<And>c. c \<in> set cs \<Longrightarrow> \<exists>xs. subtree k c xs) \<Longrightarrow> \<exists>xs. forest k cs xs"
  by (induction cs) (auto intro: subtree_forest.intros)

lemma subtree_exists:
  assumes "wf ({(p, c). c \<in> set (k p)}\<inverse>)"
  shows "\<exists>xs. subtree k p xs"
  using assms
proof (induction p rule: wf_induct_rule)
  case (less p)
  then have "\<exists>xs. subtree k c xs" if "c \<in> set (k p)" for c using that by simp
  then obtain xs where "forest k (k p) xs" using forest_exists [of "k p" k] by blast
  then show ?case by (blast intro: subtree_forest.subtree)
qed

text \<open>The visited processes are the root and what is reachable from it.\<close>

lemma subtree_set:
  "subtree k p xs \<Longrightarrow> set xs = {(p, c). c \<in> set (k p)}\<^sup>* `` {p}"
  "forest k cs xs \<Longrightarrow> set xs = {(p, c). c \<in> set (k p)}\<^sup>* `` set cs"
proof (induction rule: subtree_forest.inducts)
  case (subtree k p xs)
  let ?r = "{(p, c). c \<in> set (k p)}"
  have "?r\<^sup>* `` {p} = insert p (?r\<^sup>* `` (?r `` {p}))"
    by (auto elim: converse_rtranclE intro: converse_rtrancl_into_rtrancl)
  moreover have "?r `` {p} = set (k p)" by auto
  ultimately show ?case using subtree by simp
qed auto

end
