(* ===== verification/Asl.thy ===== *)
theory Asl
  imports Pcb_Tree
begin

text \<open>
  The active semaphore list: \<open>src/core/processes/asl.c\<close>.

  A semaphore descriptor is its index in \<open>semd_table\<close>. A descriptor is either on the free
  list or on the ASL; the descriptor of a key is found by a linear search of the ASL, and
  \<open>s_procQ\<close> is the queue of the processes blocked on it. \<open>asl_inv\<close> is the invariant of
  the tables, \<open>waiting\<close> the queue of every key, and \<open>asl s K R W\<close> the view of a client: the
  queues other than the descriptors' are \<open>R\<close>, the processes blocked on each key are \<open>W\<close>.
  The routines are specified over \<open>R\<close> and \<open>W\<close>.
\<close>

section \<open>State and operations\<close>

record asl_mem = pcb_mem +
  s_key :: "nat \<Rightarrow> int_ptr option"

definition getSemd :: "int_ptr option \<Rightarrow> 'a asl_mem_scheme \<Rightarrow> nat option res" where
  "getSemd key s =
     andThen (list_for_each_entry (\<lambda>l s.
         andThen (container_of_s_next l) (\<lambda>semd.
         if s_key s semd = key then Inr (Some semd, s) else Inr (None, s))) Semd_h s)
       (\<lambda>(r, s). Inr r)"

text \<open>\<open>initASL\<close> and its loop over the descriptors still to be initialised.\<close>

fun initASL_loop :: "nat list \<Rightarrow> 'a asl_mem_scheme \<Rightarrow> 'a asl_mem_scheme res" where
  "initASL_loop [] s = Inr s"
| "initASL_loop (i # is) s =
     (let s = INIT_LIST_HEAD (S_next i) s;
          s = INIT_LIST_HEAD (S_procQ i) s
      in andThen (list_add (S_next i) SemdFree_h s) (initASL_loop is))"

definition initASL :: "'a asl_mem_scheme \<Rightarrow> 'a asl_mem_scheme res" where
  "initASL s =
     (let s = INIT_LIST_HEAD Semd_h s;
          s = INIT_LIST_HEAD SemdFree_h s
      in initASL_loop [0..<MAXPROC] s)"

definition retrieve_free_semd ::
  "int_ptr option \<Rightarrow> pcb \<Rightarrow> 'a asl_mem_scheme \<Rightarrow> (nat option \<times> 'a asl_mem_scheme) res" where
  "retrieve_free_semd key p s =
     (if list_empty SemdFree_h s then Inr (None, s)
      else
        andThen (deref (list_next SemdFree_h s)) (\<lambda>first_free_semd_head.
        andThen (list_del first_free_semd_head s) (\<lambda>s.
        andThen (list_add first_free_semd_head Semd_h s) (\<lambda>s.
        andThen (container_of_s_next first_free_semd_head) (\<lambda>target_semd.
        let s = s\<lparr>s_key := (s_key s)(target_semd := key)\<rparr>
        in Inr (Some target_semd, INIT_LIST_HEAD (S_procQ target_semd) s))))))"

text \<open>The first part of both insertions: the descriptor of the key, a new one if there is none.\<close>

definition getSemd_or_free ::
  "int_ptr option \<Rightarrow> pcb \<Rightarrow> 'a asl_mem_scheme \<Rightarrow> (nat option \<times> 'a asl_mem_scheme) res" where
  "getSemd_or_free key p s =
     andThen (getSemd key s) (\<lambda>target_semd.
     if target_semd = None then retrieve_free_semd key p s else Inr (target_semd, s))"

definition insertBlockedFifo ::
  "int_ptr option \<Rightarrow> pcb \<Rightarrow> 'a asl_mem_scheme \<Rightarrow> (bool \<times> 'a asl_mem_scheme) res" where
  "insertBlockedFifo key p s =
     andThen (getSemd_or_free key p s) (\<lambda>(target_semd, s).
     case target_semd of
       None \<Rightarrow> Inr (True, s)
     | Some i \<Rightarrow>
         andThen (list_add_tail (P_next p) (S_procQ i) s) (\<lambda>s.
         Inr (False, upd_pcb p (\<lambda>c. c\<lparr>p_semkey := key\<rparr>) s)))"

definition insertBlocked ::
  "int_ptr option \<Rightarrow> pcb \<Rightarrow> 'a asl_mem_scheme \<Rightarrow> (bool \<times> 'a asl_mem_scheme) res" where
  "insertBlocked key p s =
     andThen (getSemd_or_free key p s) (\<lambda>(target_semd, s).
     case target_semd of
       None \<Rightarrow> Inr (True, s)
     | Some i \<Rightarrow>
         let s = upd_pcb p (\<lambda>c. c\<lparr>p_semkey := key\<rparr>) s in
         andThen (insertProcQ (S_procQ i) p s) (\<lambda>s. Inr (False, s)))"

definition freeSemdIfEmpty :: "nat \<Rightarrow> 'a asl_mem_scheme \<Rightarrow> 'a asl_mem_scheme res" where
  "freeSemdIfEmpty target_semd s =
     (if list_empty (S_procQ target_semd) s
      then andThen (list_del (S_next target_semd) s) (list_add (S_next target_semd) SemdFree_h)
      else Inr s)"

definition removeBlocked ::
  "int_ptr option \<Rightarrow> 'a asl_mem_scheme \<Rightarrow> (pcb option \<times> 'a asl_mem_scheme) res" where
  "removeBlocked key s =
     andThen (getSemd key s) (\<lambda>target_semd.
     case target_semd of
       None \<Rightarrow> Inr (None, s)
     | Some i \<Rightarrow>
         andThen (removeProcQ (S_procQ i) s) (\<lambda>(target_pcb, s).
         case target_pcb of
           None \<Rightarrow> Inr (None, s)
         | Some q \<Rightarrow>
             let s = upd_pcb q (\<lambda>c. c\<lparr>p_semkey := None\<rparr>) s in
             andThen (freeSemdIfEmpty i s) (\<lambda>s. Inr (Some q, s))))"

definition outBlocked :: "pcb \<Rightarrow> 'a asl_mem_scheme \<Rightarrow> (pcb option \<times> 'a asl_mem_scheme) res" where
  "outBlocked p s =
     andThen (getSemd (p_semkey (pcbs s p)) s) (\<lambda>target_semd.
     case target_semd of
       None \<Rightarrow> Inr (None, s)
     | Some i \<Rightarrow>
         andThen (outProcQ (S_procQ i) p s) (\<lambda>(removed_pcb, s).
         let s = (case removed_pcb of None \<Rightarrow> s
                  | Some q \<Rightarrow> upd_pcb q (\<lambda>c. c\<lparr>p_semkey := None\<rparr>) s) in
         andThen (freeSemdIfEmpty i s) (\<lambda>s. Inr (removed_pcb, s))))"

definition headBlocked :: "int_ptr option \<Rightarrow> 'a asl_mem_scheme \<Rightarrow> pcb option res" where
  "headBlocked key s =
     andThen (getSemd key s) (\<lambda>target_semd.
     case target_semd of
       None \<Rightarrow> Inr None
     | Some i \<Rightarrow>
         if list_empty (S_procQ i) s then Inr None
         else andThen (deref (list_next (S_procQ i) s)) (\<lambda>l.
              andThen (container_of_p_next l) (\<lambda>q. Inr (Some q))))"

text \<open>
  \<open>outChildBlocked\<close> and its \<open>do .. while\<close> loop over the children: \<open>Visit p\<close> is the call,
  \<open>Siblings q first\<close> the loop at the child \<open>q\<close>.
\<close>

datatype tree_walk = Visit pcb | Siblings pcb pcb

partial_function (option) outChildBlocked_walk ::
  "tree_walk \<Rightarrow> 'a asl_mem_scheme \<Rightarrow> 'a asl_mem_scheme res option" where
  "outChildBlocked_walk m s =
     (case m of
        Visit p \<Rightarrow>
          (case outBlocked p s of
             Inl e \<Rightarrow> Some (Inl e)
           | Inr (_, s1) \<Rightarrow>
               if emptyChild p s1 then Some (Inr s1)
               else (case andThen (deref (list_next (P_child p) s1)) container_of_p_child of
                       Inl e \<Rightarrow> Some (Inl e)
                     | Inr first_pcb \<Rightarrow> outChildBlocked_walk (Siblings first_pcb first_pcb) s1))
      | Siblings target_pcb first_pcb \<Rightarrow>
          Option.bind (outChildBlocked_walk (Visit target_pcb) s) (\<lambda>r.
            case r of
              Inl e \<Rightarrow> Some (Inl e)
            | Inr s1 \<Rightarrow>
                (case nextSibling target_pcb first_pcb s1 of
                   Inl e \<Rightarrow> Some (Inl e)
                 | Inr None \<Rightarrow> Some (Inr s1)
                 | Inr (Some q) \<Rightarrow> outChildBlocked_walk (Siblings q first_pcb) s1)))"

definition outChildBlocked :: "pcb \<Rightarrow> 'a asl_mem_scheme \<Rightarrow> 'a asl_mem_scheme res" where
  "outChildBlocked p s = returned (outChildBlocked_walk (Visit p) s)"

section \<open>Representation\<close>

definition semd_heads :: "lh set" where
  "semd_heads = {SemdFree_h, Semd_h}"

interpretation semdl: list_family S_next semd_heads
  by unfold_locales (auto simp: semd_heads_def)

abbreviation semd_cells :: "lh set" where
  "semd_cells \<equiv> family_cells S_next semd_heads"

lemma semd_headsI [simp, intro]: "SemdFree_h \<in> semd_heads" "Semd_h \<in> semd_heads"
  by (auto simp: semd_heads_def)

lemma semd_cells_iff [simp]:
  "S_next i \<in> semd_cells" "SemdFree_h \<in> semd_cells" "Semd_h \<in> semd_cells"
  "P_next p \<notin> semd_cells" "P_child p \<notin> semd_cells" "P_sib p \<notin> semd_cells"
  "S_procQ i \<notin> semd_cells"
  by (auto simp: family_cells_def semd_heads_def)

lemma cells_disjoint:
  "semd_cells \<inter> (proc_heads \<union> range P_next) = {}"
  "proc_cells \<inter> (semd_heads \<union> range S_next) = {}"
  "semd_cells \<inter> tree_cells = {}"
  "proc_cells \<inter> tree_cells = {}"
  by (auto simp: family_cells_def semd_heads_def proc_heads_def tree_cells_def)

lemma semd_frame:
  assumes "links_only semd_cells s t" and "K \<subseteq> proc_heads"
  shows "rings t P_next K Q = rings s P_next K Q"
proof (rule rings_frame [OF assms(1)])
  show "semd_cells \<inter> (K \<union> range P_next) = {}" using cells_disjoint(1) assms(2) by blast
qed

lemmas proc_frame = rings_frame [OF _ cells_disjoint(2)]

definition asl_frame :: "'a asl_mem_scheme \<Rightarrow> 'a asl_mem_scheme \<Rightarrow> bool" where
  "asl_frame s t \<longleftrightarrow>
     asl_mem.more t = asl_mem.more s \<and>
     (\<forall>x\<in>tree_cells. lh_next t x = lh_next s x \<and> lh_prev t x = lh_prev s x)"

lemma asl_frame_refl [simp]: "asl_frame s s"
  by (simp add: asl_frame_def)

lemma asl_frame_trans: "asl_frame s t \<Longrightarrow> asl_frame t u \<Longrightarrow> asl_frame s u"
  by (simp add: asl_frame_def)

lemma asl_mem_more:
  "list_mem.more t = list_mem.more s \<Longrightarrow>
    pcbs t = pcbs s \<and> s_key t = s_key s \<and> asl_mem.more t = asl_mem.more s"
  by (cases s; cases t) simp

lemma links_only_asl:
  "links_only F s t \<Longrightarrow> pcbs t = pcbs s \<and> s_key t = s_key s \<and> asl_mem.more t = asl_mem.more s"
  by (auto simp: links_only_def dest: asl_mem_more)

lemma links_only_asl_frame: "links_only F s t \<Longrightarrow> F \<inter> tree_cells = {} \<Longrightarrow> asl_frame s t"
  using links_only_asl [of F s t] by (auto simp: asl_frame_def links_only_def disjoint_iff)

lemma asl_frame_upd [simp]:
  "asl_frame s (upd_pcb p f s)" "asl_frame s (s\<lparr>s_key := k\<rparr>)"
  by (simp_all add: asl_frame_def upd_pcb_def)

lemma s_key_upd_pcb [simp]:
  "s_key (upd_pcb p f s) = s_key s" "asl_mem.more (upd_pcb p f s) = asl_mem.more s"
  by (simp_all add: upd_pcb_def)

lemma rings_s_key [simp]: "rings (s\<lparr>s_key := k\<rparr>) elt K Q = rings s elt K Q"
  by (rule rings_cong) simp_all

text \<open>The family of the two descriptor lists.\<close>

definition semd_lists :: "nat list \<Rightarrow> nat list \<Rightarrow> lh \<Rightarrow> nat list" where
  "semd_lists fs acts h = (if h = Semd_h then acts else fs)"

lemma semd_lists_simps [simp]:
  "semd_lists fs acts Semd_h = acts" "semd_lists fs acts SemdFree_h = fs"
  by (simp_all add: semd_lists_def)

lemma semd_lists_cong:
  "SQ Semd_h = acts \<Longrightarrow> SQ SemdFree_h = fs \<Longrightarrow>
    rings s S_next semd_heads SQ = rings s S_next semd_heads (semd_lists fs acts)"
  by (rule rings_Q_cong) (auto simp: semd_heads_def)

text \<open>
  \<open>fs\<close> and \<open>acts\<close> are the free descriptors and the ASL. An active descriptor has a
  nonempty queue, except those of \<open>E\<close> in the middle of a routine.
\<close>

definition asl_inv ::
  "'a asl_mem_scheme \<Rightarrow> lh set \<Rightarrow> (lh \<Rightarrow> pcb list) \<Rightarrow> nat list \<Rightarrow> nat list \<Rightarrow> nat set \<Rightarrow> bool" where
  "asl_inv s K Q fs acts E \<longleftrightarrow>
     rings s P_next K Q \<and> K \<subseteq> proc_heads \<and> (\<forall>i. S_procQ i \<in> K \<longleftrightarrow> i < MAXPROC) \<and>
     rings s S_next semd_heads (semd_lists fs acts) \<and> set fs \<union> set acts = {..<MAXPROC} \<and>
     (\<forall>i\<in>set fs. Q (S_procQ i) = []) \<and> (\<forall>i\<in>set acts - E. Q (S_procQ i) \<noteq> []) \<and>
     inj_on (s_key s) (set acts) \<and>
     (\<forall>i\<in>set acts. \<forall>p\<in>set (Q (S_procQ i)). p_semkey (pcbs s p) = s_key s i)"

definition waiting ::
  "'a asl_mem_scheme \<Rightarrow> (lh \<Rightarrow> pcb list) \<Rightarrow> nat list \<Rightarrow> int_ptr option \<Rightarrow> pcb list" where
  "waiting s Q acts key =
     (case List.find (\<lambda>i. s_key s i = key) acts of None \<Rightarrow> [] | Some i \<Rightarrow> Q (S_procQ i))"

definition asl ::
  "'a asl_mem_scheme \<Rightarrow> lh set \<Rightarrow> (lh \<Rightarrow> pcb list) \<Rightarrow> (int_ptr option \<Rightarrow> pcb list) \<Rightarrow> bool" where
  "asl s K R W \<longleftrightarrow>
     (\<exists>Q fs acts. asl_inv s K Q fs acts {} \<and> (\<forall>h\<in>K - range S_procQ. Q h = R h) \<and>
        W = waiting s Q acts)"

lemma getSemd_eq:
  assumes "rings s S_next semd_heads SQ"
  shows "getSemd key s = Inr (List.find (\<lambda>i. s_key s i = key) (SQ Semd_h))"
proof -
  let ?P = "\<lambda>l. \<exists>i. l = S_next i \<and> s_key s i = key"
  let ?F = "\<lambda>l. andThen (container_of_s_next l) (\<lambda>i. Inr (i, s))"
  have find: "List.find ?P (map S_next (SQ Semd_h)) =
      map_option S_next (List.find (\<lambda>i. s_key s i = key) (SQ Semd_h))"
    by (simp add: find_map)
  have "list_for_each_entry (\<lambda>l s. andThen (container_of_s_next l) (\<lambda>semd.
         if s_key s semd = key then Inr (Some semd, s) else Inr (None, s))) Semd_h s =
    (case List.find ?P (map S_next (SQ Semd_h)) of
        None \<Rightarrow> Inr (None, s)
      | Some x \<Rightarrow> (case ?F x of Inl e \<Rightarrow> Inl e | Inr (r, t) \<Rightarrow> Inr (Some r, t)))"
    using rings_dll [OF assms semd_headsI(2)] by (rule list_for_each_search) auto
  then show ?thesis
    unfolding getSemd_def find by (simp split: option.split)
qed


section \<open>The tables\<close>

lemma asl_invD:
  assumes "asl_inv s K Q fs acts E"
  shows "rings s P_next K Q" "K \<subseteq> proc_heads" "S_procQ i \<in> K \<longleftrightarrow> i < MAXPROC"
    "rings s S_next semd_heads (semd_lists fs acts)" "set fs \<union> set acts = {..<MAXPROC}"
    "i \<in> set fs \<Longrightarrow> Q (S_procQ i) = []"
    "i \<in> set acts \<Longrightarrow> i \<notin> E \<Longrightarrow> Q (S_procQ i) \<noteq> []"
    "inj_on (s_key s) (set acts)"
    "i \<in> set acts \<Longrightarrow> p \<in> set (Q (S_procQ i)) \<Longrightarrow> p_semkey (pcbs s p) = s_key s i"
  using assms by (auto simp: asl_inv_def)

lemma asl_inv_disjoint:
  assumes "asl_inv s K Q fs acts E"
  shows "set fs \<inter> set acts = {}" "distinct fs" "distinct acts"
proof -
  note r = asl_invD(4) [OF assms]
  show "set fs \<inter> set acts = {}"
    using rings_disjoint [OF r, of SemdFree_h Semd_h] by auto
  show "distinct fs" "distinct acts"
    using rings_distinct [OF r, of SemdFree_h] rings_distinct [OF r, of Semd_h] by auto
qed

lemma asl_inv_active:
  "asl_inv s K Q fs acts E \<Longrightarrow> i \<in> set acts \<Longrightarrow> i < MAXPROC \<and> S_procQ i \<in> K"
  using asl_invD(3,5) by blast

lemma asl_inv_mono: "asl_inv s K Q fs acts E \<Longrightarrow> E \<subseteq> F \<Longrightarrow> asl_inv s K Q fs acts F"
  by (auto simp: asl_inv_def)

lemma find_inj:
  "inj_on f (set xs) \<Longrightarrow> i \<in> set xs \<Longrightarrow> List.find (\<lambda>j. f j = f i) xs = Some i"
  by (induction xs) (auto simp: inj_on_def)

lemma getSemd_inv:
  "asl_inv s K Q fs acts E \<Longrightarrow>
    getSemd key s = Inr (List.find (\<lambda>i. s_key s i = key) acts)"
  using getSemd_eq [OF asl_invD(4)] by simp

lemma waiting_active:
  assumes "asl_inv s K Q fs acts E" and "i \<in> set acts"
  shows "waiting s Q acts (s_key s i) = Q (S_procQ i)"
  using find_inj [OF asl_invD(8) [OF assms(1)] assms(2)] by (simp add: waiting_def)

lemma waiting_None:
  "List.find (\<lambda>i. s_key s i = key) acts = None \<Longrightarrow> waiting s Q acts key = []"
  by (simp add: waiting_def)

lemma waiting_mem:
  "p \<in> set (waiting s Q acts key) \<longleftrightarrow>
    (\<exists>i. List.find (\<lambda>i. s_key s i = key) acts = Some i \<and> p \<in> set (Q (S_procQ i)))"
  by (cases "List.find (\<lambda>i. s_key s i = key) acts") (simp_all add: waiting_def)

lemma waiting_upd:
  assumes "asl_inv s K Q fs acts E" and "i \<in> set acts"
  shows "waiting s (Q(S_procQ i := q)) acts = (waiting s Q acts)(s_key s i := q)"
proof
  fix key
  show "waiting s (Q(S_procQ i := q)) acts key = ((waiting s Q acts)(s_key s i := q)) key"
  proof (cases "key = s_key s i")
    case True
    then show ?thesis using find_inj [OF asl_invD(8) [OF assms(1)] assms(2)] by (simp add: waiting_def)
  next
    case False
    then show ?thesis by (auto simp: waiting_def split: option.splits dest: find_SomeD)
  qed
qed

lemma waiting_cong:
  "(\<And>i. i \<in> set acts \<Longrightarrow> s_key t i = s_key s i) \<Longrightarrow> waiting t Q acts = waiting s Q acts"
proof
  fix key assume *: "\<And>i. i \<in> set acts \<Longrightarrow> s_key t i = s_key s i"
  have "List.find (\<lambda>i. s_key t i = key) acts = List.find (\<lambda>i. s_key s i = key) acts"
    using * by (induction acts) auto
  then show "waiting t Q acts key = waiting s Q acts key" by (simp add: waiting_def)
qed

text \<open>Moving an active descriptor with an empty queue in or out of the ASL changes no queue.\<close>

lemma waiting_Cons_empty:
  assumes "List.find (\<lambda>i. s_key s i = s_key s f) acts = None" and "Q (S_procQ f) = []"
  shows "waiting s Q (f # acts) = waiting s Q acts"
  using assms by (auto simp: waiting_def fun_eq_iff)

lemma waiting_remove1_empty:
  assumes "asl_inv s K Q fs acts E" and "i \<in> set acts" and "Q (S_procQ i) = []"
  shows "waiting s Q (remove1 i acts) = waiting s Q acts"
proof
  fix key
  have d: "distinct acts" by (rule asl_inv_disjoint [OF assms(1)])
  obtain xs ys where a: "acts = xs @ i # ys" "i \<notin> set xs"
    using assms(2) by (meson split_list_first)
  have "s_key s j \<noteq> s_key s i" if "j \<in> set (xs @ ys)" for j
    using asl_invD(8) [OF assms(1)] that d a by (auto simp: inj_on_def)
  then have "List.find (\<lambda>j. s_key s j = s_key s i) (xs @ ys) = None"
    by (auto simp: find_None_iff)
  then show "waiting s Q (remove1 i acts) key = waiting s Q acts key"
    using a assms(3) by (auto simp: waiting_def remove1_append find_append split: option.splits)
qed

section \<open>Specifications over the tables\<close>

lemma retrieve_free_semd_spec:
  assumes inv: "asl_inv s K Q (f # fs) acts {}"
    and none: "List.find (\<lambda>i. s_key s i = key) acts = None"
  shows "ok (retrieve_free_semd key p s)
    (\<lambda>(r, t). r = Some f \<and> asl_inv t K Q fs (f # acts) {f} \<and> s_key t f = key \<and>
      waiting t Q (f # acts) = waiting s Q acts \<and> pcbs t = pcbs s \<and> asl_frame s t)"
proof -
  let ?SQ = "semd_lists (f # fs) acts"
  note R = asl_invD(4) [OF inv] and P = asl_invD(1) [OF inv] and K = asl_invD(2) [OF inv]
  have f: "f \<notin> set fs" "f \<notin> set acts" and fM: "f < MAXPROC"
    using asl_inv_disjoint [OF inv] asl_invD(5) [OF inv] by auto
  have Qf: "Q (S_procQ f) = []" using asl_invD(6) [OF inv] by simp
  have e: "\<not> list_empty SemdFree_h s" "list_next SemdFree_h s = Some (S_next f)"
    using rings_empty_iff [OF R] rings_list_next [OF R] by simp_all
  obtain a where a: "list_del (S_next f) s = Inr a" "links_only semd_cells s a"
      and a': "rings a S_next semd_heads ((semd_lists (f # fs) acts)(SemdFree_h := fs))"
    using semdl.list_del_rings [OF R subset_refl semd_headsI(1), of f] unfolding ok_iff by auto
  have aR: "rings a S_next semd_heads (semd_lists fs acts)"
    using a' by (subst (asm) semd_lists_cong [of _ acts fs]) simp_all
  have "f \<notin> members semd_heads (semd_lists fs acts)"
    using f by (auto simp: members_def semd_heads_def)
  then obtain b where b: "list_add (S_next f) Semd_h a = Inr b" "links_only semd_cells a b"
      and b': "rings b S_next semd_heads ((semd_lists fs acts)(Semd_h := f # acts))"
    using semdl.list_add_rings [OF aR subset_refl semd_headsI(2), of f] unfolding ok_iff by auto
  have bR: "rings b S_next semd_heads (semd_lists fs (f # acts))"
    using b' by (subst (asm) semd_lists_cong [of _ "f # acts" fs]) simp_all
  let ?c = "b\<lparr>s_key := (s_key b)(f := key)\<rparr>"
  let ?t = "INIT_LIST_HEAD (S_procQ f) ?c"
  have run: "retrieve_free_semd key p s = Inr (Some f, ?t)"
    using e a(1) b(1) by (simp add: retrieve_free_semd_def)
  have sb: "links_only semd_cells s b" by (rule links_only_trans [OF a(2) b(2)])
  have it: "links_only proc_cells ?c ?t" by (rule links_only_INIT) simp
  have keys: "s_key ?t = (s_key s)(f := key)" and pcbs: "pcbs ?t = pcbs s"
    using links_only_asl [OF sb] by (simp_all add: INIT_LIST_HEAD_def)
  have "rings ?c P_next K Q"
    using semd_frame [OF sb K] P by simp
  then have "rings ?t P_next K (Q(S_procQ f := []))"
    using fM asl_invD(3) [OF inv] by (intro procq.INIT_LIST_HEAD_rings [OF _ K])
      (auto intro: rings_subset)
  then have P': "rings ?t P_next K Q" using Qf by (simp add: fun_upd_idem)
  have R': "rings ?t S_next semd_heads (semd_lists fs (f # acts))"
    using proc_frame [OF it] bR by simp
  have nokey: "s_key s i \<noteq> key" if "i \<in> set acts" for i
    using none that by (auto simp: find_None_iff)
  have "asl_inv ?t K Q fs (f # acts) {f}"
    using P' R' inv f nokey unfolding asl_inv_def
    by (auto simp: keys pcbs Qf inj_on_def)
  moreover have "waiting ?t Q (f # acts) = waiting s Q acts"
  proof -
    have "waiting ?t Q (f # acts) = waiting ?t Q acts"
    proof (rule waiting_Cons_empty)
      show "List.find (\<lambda>i. s_key ?t i = s_key ?t f) acts = None"
        using nokey f(2) by (auto simp: find_None_iff keys)
    qed (rule Qf)
    also have "\<dots> = waiting s Q acts"
      by (rule waiting_cong) (use f(2) in \<open>auto simp: keys\<close>)
    finally show ?thesis .
  qed
  moreover have "asl_frame s ?t"
    by (rule asl_frame_trans [OF links_only_asl_frame [OF sb cells_disjoint(3)]
          asl_frame_trans [OF asl_frame_upd(2) links_only_asl_frame [OF it cells_disjoint(4)]]])
  ultimately show ?thesis by (simp add: run keys pcbs)
qed

lemma retrieve_free_semd_full:
  "asl_inv s K Q [] acts E \<Longrightarrow> retrieve_free_semd key p s = Inr (None, s)"
  using rings_empty_iff [OF asl_invD(4), of s K Q "[]" acts E SemdFree_h]
  by (simp add: retrieve_free_semd_def)

text \<open>The descriptor of a key, found or taken from the free list.\<close>

lemma getSemd_or_free_full:
  assumes "asl_inv s K Q [] acts {}" and "waiting s Q acts key = []"
  shows "getSemd_or_free key p s = Inr (None, s)"
proof -
  have "s_key s i \<noteq> key" if "i \<in> set acts" for i
    using assms(2) waiting_active [OF assms(1) that] asl_invD(7) [OF assms(1) that] by auto
  then have "List.find (\<lambda>i. s_key s i = key) acts = None"
    by (simp add: find_None_iff)
  then show ?thesis
    using assms(1) by (simp add: getSemd_or_free_def getSemd_inv retrieve_free_semd_full)
qed

lemma getSemd_or_free_spec:
  assumes inv: "asl_inv s K Q fs acts {}" and "waiting s Q acts key \<noteq> [] \<or> fs \<noteq> []"
  obtains i t fs' acts' where "getSemd_or_free key p s = Inr (Some i, t)"
    "asl_inv t K Q fs' acts' {i}" "i \<in> set acts'" "s_key t i = key"
    "waiting t Q acts' = waiting s Q acts" "pcbs t = pcbs s" "asl_frame s t"
proof (cases "List.find (\<lambda>i. s_key s i = key) acts")
  case (Some i)
  then have i: "i \<in> set acts" "s_key s i = key" by (auto dest: find_SomeD)
  have "getSemd_or_free key p s = Inr (Some i, s)"
    using Some by (simp add: getSemd_or_free_def getSemd_inv [OF inv])
  then show thesis using that [of i s fs acts] i asl_inv_mono [OF inv, of "{i}"] by simp
next
  case None
  then obtain f fs' where fs: "fs = f # fs'"
    using assms(2) by (cases fs) (auto simp: waiting_None)
  have run: "getSemd_or_free key p s = retrieve_free_semd key p s"
    using None by (simp add: getSemd_or_free_def getSemd_inv [OF inv])
  obtain t where "retrieve_free_semd key p s = Inr (Some f, t)"
      "asl_inv t K Q fs' (f # acts) {f} \<and> s_key t f = key \<and>
       waiting t Q (f # acts) = waiting s Q acts \<and> pcbs t = pcbs s \<and> asl_frame s t"
    using retrieve_free_semd_spec [OF inv [unfolded fs] None, of p] unfolding ok_iff by auto
  then show thesis using that [of f t fs' "f # acts"] run by simp
qed

text \<open>Adding a process to the queue of a descriptor.\<close>

lemma asl_inv_insert:
  assumes inv: "asl_inv s K Q fs acts {i}" and i: "i \<in> set acts" and p: "p \<notin> members K Q"
    and rings: "rings t P_next K (Q(S_procQ i := q))" and q: "set q = insert p (set (Q (S_procQ i)))"
    and sem: "rings t S_next semd_heads (semd_lists fs acts)" and key: "s_key t = s_key s"
    and pcbs: "pcbs t = (pcbs s)(p := (pcbs s p)\<lparr>p_semkey := s_key s i\<rparr>)"
  shows "asl_inv t K (Q(S_procQ i := q)) fs acts {} \<and>
    waiting t (Q(S_procQ i := q)) acts = (waiting s Q acts)(s_key s i := q)"
proof -
  have nf: "i \<notin> set fs" using asl_inv_disjoint(1) [OF inv] i by auto
  have "q \<noteq> []" using q by auto
  have "p \<notin> set (Q (S_procQ j))" if "j \<in> set acts" for j
    using p asl_inv_active [OF inv that] by (auto simp: members_def)
  then have "\<forall>j\<in>set acts. \<forall>x\<in>set ((Q(S_procQ i := q)) (S_procQ j)).
      p_semkey (pcbs t x) = s_key t j"
    using asl_invD(9) [OF inv] i q by (auto simp: key pcbs)
  moreover have "waiting t (Q(S_procQ i := q)) acts = waiting s (Q(S_procQ i := q)) acts"
    by (rule waiting_cong) (simp add: key)
  ultimately show ?thesis
    using inv rings sem nf \<open>q \<noteq> []\<close> waiting_upd [OF inv i]
    unfolding asl_inv_def by (auto simp: key)
qed

section \<open>The view of a client\<close>

text \<open>
  The heads of a client's own queues are those of \<open>K\<close> that are not a descriptor's.
\<close>

lemma aslE:
  assumes "asl s K R W"
  obtains Q fs acts where "asl_inv s K Q fs acts {}" "\<forall>h\<in>K - range S_procQ. Q h = R h"
    "W = waiting s Q acts"
  using assms by (auto simp: asl_def)

lemma aslI:
  "asl_inv s K Q fs acts {} \<Longrightarrow> (\<And>h. h \<in> K \<Longrightarrow> h \<notin> range S_procQ \<Longrightarrow> Q h = R h) \<Longrightarrow>
    asl s K R (waiting s Q acts)"
  unfolding asl_def by blast

definition own_members :: "lh set \<Rightarrow> (lh \<Rightarrow> pcb list) \<Rightarrow> pcb set" where
  "own_members K R = members (K - range S_procQ) R"

definition blocked :: "(int_ptr option \<Rightarrow> pcb list) \<Rightarrow> pcb set" where
  "blocked W = (\<Union>k. set (W k))"

lemma own_members_upd:
  "h \<in> K \<Longrightarrow> h \<notin> range S_procQ \<Longrightarrow>
    own_members K (R(h := q)) = members (K - range S_procQ - {h}) R \<union> set q"
  unfolding own_members_def by (rule members_upd) simp

lemma own_membersI: "h \<in> K \<Longrightarrow> h \<notin> range S_procQ \<Longrightarrow> x \<in> set (R h) \<Longrightarrow> x \<in> own_members K R"
  unfolding own_members_def by (rule members_memI) auto

lemma blocked_iff: "p \<in> blocked W \<longleftrightarrow> (\<exists>k. p \<in> set (W k))"
  by (simp add: blocked_def)

lemma asl_inv_blocked:
  assumes inv: "asl_inv s K Q fs acts {}"
  shows "blocked (waiting s Q acts) = (\<Union>i\<in>{..<MAXPROC}. set (Q (S_procQ i)))"
proof -
  have "(\<exists>k. p \<in> set (waiting s Q acts k)) \<longleftrightarrow> (\<exists>i\<in>set acts. p \<in> set (Q (S_procQ i)))" for p
  proof
    assume "\<exists>k. p \<in> set (waiting s Q acts k)"
    then show "\<exists>i\<in>set acts. p \<in> set (Q (S_procQ i))"
      by (auto simp: waiting_mem dest: find_SomeD)
  next
    assume "\<exists>i\<in>set acts. p \<in> set (Q (S_procQ i))"
    then show "\<exists>k. p \<in> set (waiting s Q acts k)" using waiting_active [OF inv] by metis
  qed
  moreover have "(\<exists>i\<in>set acts. p \<in> set (Q (S_procQ i))) \<longleftrightarrow>
      (\<exists>i\<in>{..<MAXPROC}. p \<in> set (Q (S_procQ i)))" for p
    using asl_invD(6) [OF inv] unfolding asl_invD(5) [OF inv, symmetric] by fastforce
  ultimately show ?thesis by (auto simp: blocked_iff)
qed

lemma asl_inv_members:
  assumes inv: "asl_inv s K Q fs acts {}" and R: "\<forall>h\<in>K - range S_procQ. Q h = R h"
  shows "members K Q = own_members K R \<union> blocked (waiting s Q acts)"
proof -
  have "K = (K - range S_procQ) \<union> S_procQ ` {..<MAXPROC}"
    using asl_invD(3) [OF inv] by auto
  then have "members K Q = members (K - range S_procQ) Q \<union> members (S_procQ ` {..<MAXPROC}) Q"
    unfolding members_def by (metis UN_Un)
  moreover have "members (K - range S_procQ) Q = own_members K R"
    using R by (auto simp: own_members_def members_def)
  ultimately show ?thesis using asl_inv_blocked [OF inv] by (auto simp: members_def)
qed

lemma asl_semkey: "asl s K R W \<Longrightarrow> p \<in> set (W key) \<Longrightarrow> p_semkey (pcbs s p) = key"
  by (erule aslE) (auto simp: waiting_mem dest!: find_SomeD asl_invD(9))

lemma asl_heads: "asl s K R W \<Longrightarrow> K \<subseteq> proc_heads"
  by (erule aslE) (rule asl_invD(2))

lemma asl_rings:
  assumes "asl s K R W"
  shows "rings s P_next (K - range S_procQ) R"
proof -
  obtain Q fs acts where inv: "asl_inv s K Q fs acts {}" and R: "\<forall>h\<in>K - range S_procQ. Q h = R h"
    using assms by (rule aslE)
  have "rings s P_next (K - range S_procQ) Q"
    using asl_invD(1) [OF inv] by (rule rings_subset) simp
  then show ?thesis using R by (subst (asm) rings_Q_cong [of _ _ R]) auto
qed

lemma asl_distinct: "asl s K R W \<Longrightarrow> distinct (W key)"
  by (erule aslE)
    (auto simp: waiting_def dest!: find_SomeD dest: asl_inv_active asl_invD(1) rings_distinct
      split: option.split)

lemma asl_disjoint_keys:
  "asl s K R W \<Longrightarrow> k \<noteq> l \<Longrightarrow> set (W k) \<inter> set (W l) = {}"
  by (auto dest: asl_semkey)

lemma asl_disjoint_own:
  assumes "asl s K R W"
  shows "own_members K R \<inter> blocked W = {}"
proof -
  obtain Q fs acts where inv: "asl_inv s K Q fs acts {}" and R: "\<forall>h\<in>K - range S_procQ. Q h = R h"
      and W: "W = waiting s Q acts"
    using assms by (rule aslE)
  have "set (Q h) \<inter> set (Q (S_procQ i)) = {}"
    if "h \<in> K - range S_procQ" and "i < MAXPROC" for h i
    using that rings_disjoint [OF asl_invD(1) [OF inv], of h "S_procQ i"] asl_invD(3) [OF inv]
    by blast
  then show ?thesis
    using R unfolding W asl_inv_blocked [OF inv] own_members_def members_def by fastforce
qed

text \<open>The ASL is full when every descriptor has a process waiting on its key.\<close>

definition asl_full :: "(int_ptr option \<Rightarrow> pcb list) \<Rightarrow> bool" where
  "asl_full W \<longleftrightarrow> card {k. W k \<noteq> []} = MAXPROC"

lemma waiting_keys:
  assumes inv: "asl_inv s K Q fs acts {}"
  shows "{k. waiting s Q acts k \<noteq> []} = s_key s ` set acts"
proof -
  have "waiting s Q acts k \<noteq> [] \<longleftrightarrow> k \<in> s_key s ` set acts" for k
  proof
    assume "waiting s Q acts k \<noteq> []"
    then show "k \<in> s_key s ` set acts"
      by (auto simp: waiting_def dest!: find_SomeD split: option.splits)
  next
    assume "k \<in> s_key s ` set acts"
    then show "waiting s Q acts k \<noteq> []"
      using waiting_active [OF inv] asl_invD(7) [OF inv] by auto
  qed
  then show ?thesis by blast
qed

lemma asl_full_iff:
  assumes inv: "asl_inv s K Q fs acts {}"
  shows "asl_full (waiting s Q acts) \<longleftrightarrow> fs = []"
proof -
  have d: "distinct fs" "distinct acts" "set fs \<inter> set acts = {}"
    by (rule asl_inv_disjoint [OF inv])+
  have "card (set fs \<union> set acts) = MAXPROC" unfolding asl_invD(5) [OF inv] by simp
  then have "length fs + length acts = MAXPROC"
    using d by (simp add: card_Un_disjoint distinct_card)
  moreover have "card {k. waiting s Q acts k \<noteq> []} = length acts"
    unfolding waiting_keys [OF inv] using asl_invD(8) [OF inv] d
    by (simp add: card_image distinct_card)
  ultimately show ?thesis by (auto simp: asl_full_def)
qed

section \<open>Specifications of the routines\<close>

text \<open>
  Both insertions: \<open>add\<close> links the process in the queue of the descriptor, which becomes
  \<open>ins q\<close>. The result is the view after it, with \<open>full\<close> the returned value.
\<close>

definition insert_result ::
  "int_ptr option \<Rightarrow> pcb \<Rightarrow> pcb list \<Rightarrow> lh set \<Rightarrow> (lh \<Rightarrow> pcb list) \<Rightarrow> (int_ptr option \<Rightarrow> pcb list) \<Rightarrow>
    'a asl_mem_scheme \<Rightarrow> bool \<Rightarrow> 'a asl_mem_scheme \<Rightarrow> bool" where
  "insert_result key p q K R W s full t \<longleftrightarrow>
     (if W key = [] \<and> asl_full W then full \<and> t = s
      else \<not> full \<and> asl t K R (W(key := q)) \<and> asl_frame s t \<and>
        pcbs t = (pcbs s)(p := (pcbs s p)\<lparr>p_semkey := key\<rparr>))"

lemma links_only_upd_pcb:
  "links_only F s t \<Longrightarrow> links_only F (upd_pcb p f s) (upd_pcb p f t)"
  by (cases s; cases t) (simp add: links_only_def upd_pcb_def)

lemma insert_resultI:
  assumes inv: "asl_inv u K Q fs acts {i}" and i: "i \<in> set acts" and key: "s_key u i = key"
    and R: "\<forall>h\<in>K - range S_procQ. Q h = R h" and p: "p \<notin> members K Q"
    and not_full: "\<not> (W key = [] \<and> asl_full W)" and W: "W = waiting u Q acts"
    and rings: "rings v P_next K (Q(S_procQ i := q))" and q: "set q = insert p (set (Q (S_procQ i)))"
    and links: "links_only proc_cells (upd_pcb p (\<lambda>c. c\<lparr>p_semkey := key\<rparr>) u) v"
    and s: "asl_frame s u" "pcbs u = pcbs s"
  shows "insert_result key p q K R W s False v"
proof -
  have sv: "rings v S_next semd_heads (semd_lists fs acts)"
    using asl_invD(4) [OF inv] proc_frame [OF links] by simp
  have kv: "s_key v = s_key u" and pv: "pcbs v = (pcbs u)(p := (pcbs u p)\<lparr>p_semkey := s_key u i\<rparr>)"
    using links_only_asl [OF links] key by (auto simp: upd_pcb_def)
  have fv: "asl_frame s v"
    by (rule asl_frame_trans [OF s(1) asl_frame_trans [OF asl_frame_upd(1)
          links_only_asl_frame [OF links cells_disjoint(4)]]])
  note new = asl_inv_insert [OF inv i p rings q sv kv pv]
  have "asl v K R (waiting v (Q(S_procQ i := q)) acts)"
    using new R by (intro aslI) auto
  then show ?thesis
    using new not_full fv pv key s W by (auto simp: insert_result_def)
qed

lemma insertBlocked_spec [wp]:
  assumes asl: "asl s K R W" and p: "p \<notin> own_members K R" "p \<notin> blocked W"
  shows "ok (insertBlocked key p s)
    (\<lambda>(full, t). insert_result key p (q_insert (prio s) p (W key)) K R W s full t)"
proof -
  let ?f = "\<lambda>c. c\<lparr>p_semkey := key\<rparr>"
  obtain Q fs acts where inv: "asl_inv s K Q fs acts {}" and R: "\<forall>h\<in>K - range S_procQ. Q h = R h"
      and W: "W = waiting s Q acts" using asl by (rule aslE)
  have pQ: "p \<notin> members K Q" using p asl_inv_members [OF inv R] W by simp
  show ?thesis
  proof (cases "W key = [] \<and> fs = []")
    case True
    then show ?thesis
      using inv W asl_full_iff [OF inv]
      by (simp add: insertBlocked_def getSemd_or_free_full insert_result_def)
  next
    case False
    then have ne: "waiting s Q acts key \<noteq> [] \<or> fs \<noteq> []" using W by simp
    obtain i u fs' acts' where run: "getSemd_or_free key p s = Inr (Some i, u)"
        and u: "asl_inv u K Q fs' acts' {i}" "i \<in> set acts'" "s_key u i = key"
          "waiting u Q acts' = waiting s Q acts" "pcbs u = pcbs s" "asl_frame s u"
      by (rule getSemd_or_free_spec [OF inv ne, where p = p])
    have WQ: "Q (S_procQ i) = W key" using waiting_active [OF u(1,2)] u(3,4) W by simp
    have pr: "prio (upd_pcb p ?f u) = prio s" using u(5) by (auto simp: prio_def)
    have K: "S_procQ i \<in> K" using asl_inv_active [OF u(1,2)] by simp
    have "ok (insertProcQ (S_procQ i) p (upd_pcb p ?f u))
        (\<lambda>t. rings t P_next K (Q(S_procQ i := q_insert (prio s) p (W key))) \<and>
          links_only proc_cells (upd_pcb p ?f u) t)"
      using insertProcQ_spec [of "upd_pcb p ?f u", OF _ asl_invD(2) [OF inv] K pQ]
        asl_invD(1) [OF u(1)] by (simp add: pr WQ)
    moreover have "insert_result key p (q_insert (prio s) p (W key)) K R W s False v"
      if "rings v P_next K (Q(S_procQ i := q_insert (prio s) p (W key)))"
        and "links_only proc_cells (upd_pcb p ?f u) v" for v
      using that False u R pQ asl_full_iff [OF inv] W WQ
      by (intro insert_resultI [OF u(1,2,3) R pQ]) auto
    ultimately show ?thesis
      by (auto simp: insertBlocked_def run Let_def elim!: ok_mono)
  qed
qed

lemma insertBlockedFifo_spec [wp]:
  assumes asl: "asl s K R W" and p: "p \<notin> own_members K R" "p \<notin> blocked W"
  shows "ok (insertBlockedFifo key p s)
    (\<lambda>(full, t). insert_result key p (W key @ [p]) K R W s full t)"
proof -
  let ?f = "\<lambda>c. c\<lparr>p_semkey := key\<rparr>"
  obtain Q fs acts where inv: "asl_inv s K Q fs acts {}" and R: "\<forall>h\<in>K - range S_procQ. Q h = R h"
      and W: "W = waiting s Q acts" using asl by (rule aslE)
  have pQ: "p \<notin> members K Q" using p asl_inv_members [OF inv R] W by simp
  show ?thesis
  proof (cases "W key = [] \<and> fs = []")
    case True
    then show ?thesis
      using inv W asl_full_iff [OF inv]
      by (simp add: insertBlockedFifo_def getSemd_or_free_full insert_result_def)
  next
    case False
    then have ne: "waiting s Q acts key \<noteq> [] \<or> fs \<noteq> []" using W by simp
    obtain i u fs' acts' where run: "getSemd_or_free key p s = Inr (Some i, u)"
        and u: "asl_inv u K Q fs' acts' {i}" "i \<in> set acts'" "s_key u i = key"
          "waiting u Q acts' = waiting s Q acts" "pcbs u = pcbs s" "asl_frame s u"
      by (rule getSemd_or_free_spec [OF inv ne, where p = p])
    have WQ: "Q (S_procQ i) = W key" using waiting_active [OF u(1,2)] u(3,4) W by simp
    have K: "S_procQ i \<in> K" using asl_inv_active [OF u(1,2)] by simp
    have "ok (list_add_tail (P_next p) (S_procQ i) u)
        (\<lambda>t. rings t P_next K (Q(S_procQ i := W key @ [p])) \<and> links_only proc_cells u t)"
      using procq.list_add_tail_rings [OF asl_invD(1) [OF u(1)] asl_invD(2) [OF inv] K pQ]
      by (simp add: WQ)
    moreover have "insert_result key p (W key @ [p]) K R W s False (upd_pcb p ?f v)"
      if "rings v P_next K (Q(S_procQ i := W key @ [p]))" and "links_only proc_cells u v" for v
      using that False u R pQ asl_full_iff [OF inv] W WQ links_only_upd_pcb [OF that(2)]
      by (intro insert_resultI [OF u(1,2,3) R pQ]) auto
    ultimately show ?thesis
      by (auto simp: insertBlockedFifo_def run elim!: ok_mono)
  qed
qed

lemma freeSemdIfEmpty_spec:
  assumes inv: "asl_inv s K Q fs acts {i}" and i: "i \<in> set acts"
  shows "ok (freeSemdIfEmpty i s)
    (\<lambda>t. (\<exists>fs' acts'. asl_inv t K Q fs' acts' {} \<and> waiting t Q acts' = waiting s Q acts) \<and>
      pcbs t = pcbs s \<and> asl_frame s t)"
proof (cases "Q (S_procQ i) = []")
  case False
  then have "asl_inv s K Q fs acts {}" using inv by (auto simp: asl_inv_def)
  moreover have "\<not> list_empty (S_procQ i) s"
    using rings_empty_iff [OF asl_invD(1) [OF inv]] asl_inv_active [OF inv i] False by simp
  ultimately show ?thesis by (auto simp: freeSemdIfEmpty_def)
next
  case True
  note R = asl_invD(4) [OF inv] and P = asl_invD(1) [OF inv] and K = asl_invD(2) [OF inv]
  have d: "distinct acts" "i \<notin> set fs" using asl_inv_disjoint [OF inv] i by auto
  have e: "list_empty (S_procQ i) s"
    using rings_empty_iff [OF P] asl_inv_active [OF inv i] True by simp
  obtain a where a: "list_del (S_next i) s = Inr a" "links_only semd_cells s a"
      and a': "rings a S_next semd_heads ((semd_lists fs acts)(Semd_h := remove1 i acts))"
    using semdl.list_del_rings [OF R subset_refl semd_headsI(2), of i] i unfolding ok_iff by auto
  have aR: "rings a S_next semd_heads (semd_lists fs (remove1 i acts))"
    using a' by (subst (asm) semd_lists_cong [of _ "remove1 i acts" fs]) simp_all
  have "i \<notin> members semd_heads (semd_lists fs (remove1 i acts))"
    using d by (auto simp: members_def semd_heads_def)
  then obtain t where t: "list_add (S_next i) SemdFree_h a = Inr t" "links_only semd_cells a t"
      and t': "rings t S_next semd_heads ((semd_lists fs (remove1 i acts))(SemdFree_h := i # fs))"
    using semdl.list_add_rings [OF aR subset_refl semd_headsI(1), of i] unfolding ok_iff by auto
  have tR: "rings t S_next semd_heads (semd_lists (i # fs) (remove1 i acts))"
    using t' by (subst (asm) semd_lists_cong [of _ "remove1 i acts" "i # fs"]) simp_all
  have st: "links_only semd_cells s t" by (rule links_only_trans [OF a(2) t(2)])
  have same: "pcbs t = pcbs s" "s_key t = s_key s" using links_only_asl [OF st] by auto
  have "asl_inv t K Q (i # fs) (remove1 i acts) {}"
    using inv tR semd_frame [OF st K] True i d unfolding asl_inv_def
    by (auto simp: same inj_on_def)
  moreover have "waiting t Q (remove1 i acts) = waiting s Q acts"
    using waiting_remove1_empty [OF inv i True] by (simp add: waiting_def same fun_eq_iff)
  ultimately have *: "\<exists>fs' acts'. asl_inv t K Q fs' acts' {} \<and> waiting t Q acts' = waiting s Q acts"
    by blast
  show ?thesis
    using * e a(1) t(1) same links_only_asl_frame [OF st cells_disjoint(3)]
    by (simp add: freeSemdIfEmpty_def)
qed

text \<open>Taking a process out of the queue of a descriptor.\<close>

lemma asl_inv_remove:
  assumes inv: "asl_inv s K Q fs acts {}" and i: "i \<in> set acts" and p: "p \<in> set (Q (S_procQ i))"
    and rings: "rings t P_next K (Q(S_procQ i := remove1 p (Q (S_procQ i))))"
    and links: "links_only proc_cells s t"
  shows "asl_inv (upd_pcb p (\<lambda>c. c\<lparr>p_semkey := None\<rparr>) t) K
      (Q(S_procQ i := remove1 p (Q (S_procQ i)))) fs acts {i}"
proof -
  have same: "pcbs t = pcbs s" "s_key t = s_key s" using links_only_asl [OF links] by auto
  have d: "distinct (Q (S_procQ i))"
    using rings_distinct [OF asl_invD(1) [OF inv]] asl_inv_active [OF inv i] by simp
  have "p \<notin> set (Q (S_procQ j))" if "j \<in> set acts" "j \<noteq> i" for j
    using rings_disjoint [OF asl_invD(1) [OF inv], of "S_procQ i" "S_procQ j" p]
      asl_inv_active [OF inv] i p that by auto
  then show ?thesis
    using inv rings proc_frame [OF links] i d unfolding asl_inv_def
    by (auto simp: same split: if_splits)
qed

text \<open>The result of taking \<open>p\<close> out of the queue of \<open>key\<close>.\<close>

definition remove_result ::
  "int_ptr option \<Rightarrow> pcb \<Rightarrow> lh set \<Rightarrow> (lh \<Rightarrow> pcb list) \<Rightarrow> (int_ptr option \<Rightarrow> pcb list) \<Rightarrow>
    'a asl_mem_scheme \<Rightarrow> 'a asl_mem_scheme \<Rightarrow> bool" where
  "remove_result key p K R W s t \<longleftrightarrow>
     asl t K R (W(key := remove1 p (W key))) \<and> asl_frame s t \<and>
     pcbs t = (pcbs s)(p := (pcbs s p)\<lparr>p_semkey := None\<rparr>)"

lemma remove_resultI:
  assumes inv: "asl_inv s K Q fs acts {}" and i: "i \<in> set acts" and key: "s_key s i = key"
    and R: "\<forall>h\<in>K - range S_procQ. Q h = R h" and p: "p \<in> set (Q (S_procQ i))"
    and rings: "rings t P_next K (Q(S_procQ i := remove1 p (Q (S_procQ i))))"
    and links: "links_only proc_cells s t"
  shows "ok (freeSemdIfEmpty i (upd_pcb p (\<lambda>c. c\<lparr>p_semkey := None\<rparr>) t))
    (\<lambda>v. remove_result key p K R (waiting s Q acts) s v)"
proof -
  let ?q = "remove1 p (Q (S_procQ i))" and ?u = "upd_pcb p (\<lambda>c. c\<lparr>p_semkey := None\<rparr>) t"
  let ?Q = "Q(S_procQ i := ?q)" and ?W = "waiting s Q acts"
  note inv' = asl_inv_remove [OF inv i p rings links]
  have same: "pcbs t = pcbs s" "s_key t = s_key s" using links_only_asl [OF links] by auto
  have "waiting ?u ?Q acts = waiting s ?Q acts" by (rule waiting_cong) (simp add: same)
  also have "\<dots> = ?W(key := ?q)" using waiting_upd [OF inv i] key by simp
  also have "\<dots> = ?W(key := remove1 p (?W key))" using waiting_active [OF inv i] key by simp
  finally have W: "waiting ?u ?Q acts = ?W(key := remove1 p (?W key))" .
  have su: "asl_frame s ?u"
    by (rule asl_frame_trans [OF links_only_asl_frame [OF links cells_disjoint(4)] asl_frame_upd(1)])
  have pu: "pcbs ?u = (pcbs s)(p := (pcbs s p)\<lparr>p_semkey := None\<rparr>)" by (simp add: upd_pcb_def same)
  have R': "\<And>h. h \<in> K \<Longrightarrow> h \<notin> range S_procQ \<Longrightarrow> ?Q h = R h" using R by auto
  show ?thesis
    using freeSemdIfEmpty_spec [OF inv' i]
  proof (rule ok_mono, elim conjE exE)
    fix v fs' acts'
    assume v: "asl_inv v K ?Q fs' acts' {}" "waiting v ?Q acts' = waiting ?u ?Q acts"
      and pv: "pcbs v = pcbs ?u" and fv: "asl_frame ?u v"
    have "asl v K R (waiting v ?Q acts')" by (rule aslI [OF v(1) R'])
    then show "remove_result key p K R ?W s v"
      using v(2) W pv pu asl_frame_trans [OF su fv] by (simp add: remove_result_def)
  qed
qed

lemma getSemd_waiting:
  assumes inv: "asl_inv s K Q fs acts {}"
  obtains "getSemd key s = Inr None" "waiting s Q acts key = []"
  | i where "getSemd key s = Inr (Some i)" "i \<in> set acts" "s_key s i = key" "S_procQ i \<in> K"
      "waiting s Q acts key = Q (S_procQ i)" "Q (S_procQ i) \<noteq> []"
proof (cases "List.find (\<lambda>i. s_key s i = key) acts")
  case None
  then show thesis using that(1) getSemd_inv [OF inv] by (simp add: waiting_def)
next
  case (Some i)
  then have "i \<in> set acts" "s_key s i = key" by (auto dest: find_SomeD)
  then show thesis
    using that(2) [of i] Some getSemd_inv [OF inv, of key] asl_inv_active [OF inv, of i]
      asl_invD(7) [OF inv, of i] by (simp add: waiting_def)
qed

lemma removeBlocked_spec [wp]:
  assumes asl: "asl s K R W"
  shows "ok (removeBlocked key s)
    (\<lambda>(r, t). case W key of
        [] \<Rightarrow> r = None \<and> t = s
      | p # q \<Rightarrow> r = Some p \<and> remove_result key p K R W s t)"
proof -
  obtain Q fs acts where inv: "asl_inv s K Q fs acts {}" and R: "\<forall>h\<in>K - range S_procQ. Q h = R h"
      and W: "W = waiting s Q acts" using asl by (rule aslE)
  show ?thesis
    using getSemd_waiting [OF inv, of key]
  proof cases
    case 1
    then show ?thesis by (simp add: removeBlocked_def W)
  next
    case (2 i)
    then obtain p q where pq: "Q (S_procQ i) = p # q" by (cases "Q (S_procQ i)") auto
    have "ok (removeProcQ (S_procQ i) s) (\<lambda>(r, t). r = Some p \<and>
        rings t P_next K (Q(S_procQ i := remove1 p (Q (S_procQ i)))) \<and> links_only proc_cells s t)"
      using removeProcQ_Cons [OF asl_invD(1,2) [OF inv] 2(4) pq] pq by simp
    then show ?thesis
      using 2 pq remove_resultI [OF inv 2(2,3) R, of p]
      by (fastforce simp: removeBlocked_def W Let_def elim!: ok_mono)
  qed
qed

lemma outBlocked_spec [wp]:
  assumes asl: "asl s K R W" and key: "key = p_semkey (pcbs s p)"
  shows "ok (outBlocked p s)
    (\<lambda>(r, t). if p \<in> set (W key) then r = Some p \<and> remove_result key p K R W s t
      else r = None \<and> asl t K R W \<and> asl_frame s t \<and> pcbs t = pcbs s)"
proof -
  obtain Q fs acts where inv: "asl_inv s K Q fs acts {}" and R: "\<forall>h\<in>K - range S_procQ. Q h = R h"
      and W: "W = waiting s Q acts" using asl by (rule aslE)
  show ?thesis
    using getSemd_waiting [OF inv, of key]
  proof cases
    case 1
    then show ?thesis using asl by (simp add: outBlocked_def W key)
  next
    case (2 i)
    note out = outProcQ_spec [OF asl_invD(1,2) [OF inv] 2(4), of p]
    show ?thesis
    proof (cases "p \<in> set (Q (S_procQ i))")
      case True
      then show ?thesis
        using out 2 key remove_resultI [OF inv 2(2,3) R True]
        by (fastforce simp: outBlocked_def W Let_def elim!: ok_mono)
    next
      case False
      have same: "freeSemdIfEmpty i v = Inr v \<and> asl v K R W \<and> asl_frame s v \<and> pcbs v = pcbs s"
        if r: "rings v P_next K Q" and l: "links_only proc_cells s v" for v
      proof -
        have eq: "pcbs v = pcbs s" "s_key v = s_key s" using links_only_asl [OF l] by auto
        have v: "asl_inv v K Q fs acts {}"
          using inv r proc_frame [OF l] unfolding asl_inv_def by (simp add: eq)
        have w: "waiting v Q acts = W" unfolding W by (rule waiting_cong) (simp add: eq)
        show ?thesis
          using aslI [OF v, of R] R w eq links_only_asl_frame [OF l cells_disjoint(4)]
            rings_empty_iff [OF r 2(4)] 2(6) by (simp add: freeSemdIfEmpty_def)
      qed
      have "ok (outProcQ (S_procQ i) p s) (\<lambda>(r, t). r = None \<and> rings t P_next K Q \<and>
          links_only proc_cells s t)"
        using out False by (simp add: remove1_idem)
      then show ?thesis
        using 2 key False W same by (fastforce simp: outBlocked_def elim!: ok_mono)
    qed
  qed
qed

lemma headBlocked_eq:
  assumes asl: "asl s K R W"
  shows "headBlocked key s = Inr (case W key of [] \<Rightarrow> None | p # q \<Rightarrow> Some p)"
proof -
  obtain Q fs acts where inv: "asl_inv s K Q fs acts {}" and W: "W = waiting s Q acts"
    using asl by (rule aslE)
  show ?thesis
    using getSemd_waiting [OF inv, of key]
  proof cases
    case 1
    then show ?thesis by (simp add: headBlocked_def W)
  next
    case (2 i)
    then show ?thesis
      using rings_empty_iff [OF asl_invD(1) [OF inv] 2(4)]
        rings_list_next [OF asl_invD(1) [OF inv] 2(4)]
      by (auto simp: headBlocked_def W split: list.split)
  qed
qed

text \<open>
  A process that is not blocked always finds a descriptor: there are as many descriptors as
  process control blocks, and every descriptor in use has a process waiting on it.
\<close>

lemma asl_not_full:
  assumes "blocked W \<subseteq> Pcb ` {..<MAXPROC} - {p}" and "p \<in> Pcb ` {..<MAXPROC}"
    and disj: "\<And>k l x. x \<in> set (W k) \<Longrightarrow> x \<in> set (W l) \<Longrightarrow> k = l"
  shows "\<not> asl_full W"
proof -
  let ?P = "Pcb ` {..<MAXPROC}"
  have fin: "finite (blocked W)" using finite_subset [OF assms(1)] by simp
  have inj: "inj_on (\<lambda>k. hd (W k)) {k. W k \<noteq> []}"
  proof (rule inj_onI)
    fix k l assume "k \<in> {k. W k \<noteq> []}" "l \<in> {k. W k \<noteq> []}" and eq: "hd (W k) = hd (W l)"
    then have "hd (W k) \<in> set (W k)" "hd (W l) \<in> set (W l)" by (blast intro: hd_in_set)+
    then show "k = l" using disj [of "hd (W k)" k l] eq by simp
  qed
  have "(\<lambda>k. hd (W k)) ` {k. W k \<noteq> []} \<subseteq> blocked W" unfolding blocked_def by (auto intro!: UN_I hd_in_set)
  then have "card {k. W k \<noteq> []} \<le> card (blocked W)"
    by (rule card_inj_on_le [OF inj _ fin])
  also have "\<dots> \<le> card (?P - {p})" by (rule card_mono [OF _ assms(1)]) simp
  also have "\<dots> < card ?P" by (rule card_Diff1_less [OF _ assms(2)]) simp
  also have "\<dots> = MAXPROC" by (subst card_image) (auto simp: inj_on_def)
  finally show ?thesis by (simp add: asl_full_def)
qed

subsection \<open>Initialisation\<close>

lemma initASL_loop_spec:
  assumes "rings s P_next (K \<union> S_procQ ` A) Q" and "K \<subseteq> proc_heads"
    and "rings s S_next semd_heads (semd_lists fs [])"
    and "distinct js" and "set js \<inter> set fs = {}" and "set js \<inter> A = {}"
    and "K \<inter> S_procQ ` set js = {}"
    and "\<And>i. i \<in> set js \<Longrightarrow> Q (S_procQ i) = []"
  shows "ok (initASL_loop js s) (\<lambda>t. rings t P_next (K \<union> S_procQ ` (A \<union> set js)) Q \<and>
    rings t S_next semd_heads (semd_lists (rev js @ fs) []) \<and>
    pcbs t = pcbs s \<and> s_key t = s_key s \<and> asl_frame s t)"
  using assms
proof (induction js arbitrary: s fs A)
  case Nil
  then show ?case by simp
next
  case (Cons i js)
  note P = Cons.prems(1) and K = Cons.prems(2) and S = Cons.prems(3)
  let ?a = "INIT_LIST_HEAD (S_next i) s" and ?b = "INIT_LIST_HEAD (S_procQ i) (INIT_LIST_HEAD (S_next i) s)"
  let ?K = "K \<union> S_procQ ` insert i A"
  have KA: "K \<union> S_procQ ` A \<subseteq> proc_heads" "?K \<subseteq> proc_heads" using K by auto
  have nm: "i \<notin> members semd_heads (semd_lists fs [])"
    using Cons.prems(5) by (auto simp: members_def semd_heads_def)
  have sa: "links_only semd_cells s ?a" by (rule links_only_INIT) simp
  have ab: "links_only proc_cells ?a ?b" by (rule links_only_INIT) simp
  have "rings ?a S_next semd_heads (semd_lists fs []) = rings s S_next semd_heads (semd_lists fs [])"
    using nm by (intro rings_frame_members [OF links_only_INIT [of "S_next i" "{S_next i}"]])
      (auto simp: semd_heads_def)
  then have bS: "rings ?b S_next semd_heads (semd_lists fs [])" using S proc_frame [OF ab] by simp
  have "rings ?a P_next (K \<union> S_procQ ` A) Q" using P semd_frame [OF sa KA(1)] by simp
  moreover have "?K - {S_procQ i} \<subseteq> K \<union> S_procQ ` A" by auto
  ultimately have "rings ?a P_next (?K - {S_procQ i}) Q" by (rule rings_subset)
  then have "rings ?b P_next ?K (Q(S_procQ i := []))"
    by (intro procq.INIT_LIST_HEAD_rings [OF _ KA(2)]) auto
  then have bP: "rings ?b P_next ?K Q" using Cons.prems(8) [of i] by (simp add: fun_upd_idem)
  obtain c where c: "list_add (S_next i) SemdFree_h ?b = Inr c" "links_only semd_cells ?b c"
      and c': "rings c S_next semd_heads ((semd_lists fs [])(SemdFree_h := i # fs))"
    using semdl.list_add_rings [OF bS subset_refl semd_headsI(1) nm] unfolding ok_iff by auto
  have cS: "rings c S_next semd_heads (semd_lists (i # fs) [])"
    using c' by (subst (asm) semd_lists_cong [of _ "[]" "i # fs"]) simp_all
  have cP: "rings c P_next ?K Q" using bP semd_frame [OF c(2) KA(2)] by simp
  have same: "pcbs c = pcbs s" "s_key c = s_key s"
    using links_only_asl [OF sa] links_only_asl [OF ab] links_only_asl [OF c(2)] by simp_all
  have frame: "asl_frame s c"
    by (rule asl_frame_trans [OF links_only_asl_frame [OF sa cells_disjoint(3)] asl_frame_trans
          [OF links_only_asl_frame [OF ab cells_disjoint(4)] links_only_asl_frame [OF c(2) cells_disjoint(3)]]])
  have "ok (initASL_loop js c) (\<lambda>t. rings t P_next (K \<union> S_procQ ` (insert i A \<union> set js)) Q \<and>
    rings t S_next semd_heads (semd_lists (rev js @ i # fs) []) \<and>
    pcbs t = pcbs c \<and> s_key t = s_key c \<and> asl_frame c t)"
    using Cons.prems by (intro Cons.IH [OF cP K cS]) auto
  then show ?case
    using c(1) asl_frame_trans [OF frame] by (auto simp: same elim!: ok_mono)
qed

lemma initASL_spec [wp]:
  assumes P: "rings s P_next K R" and K: "K \<subseteq> proc_heads" and own: "K \<inter> range S_procQ = {}"
  shows "ok (initASL s) (\<lambda>t. asl t (K \<union> S_procQ ` {..<MAXPROC}) R (\<lambda>_. []) \<and>
    pcbs t = pcbs s \<and> asl_frame s t)"
proof -
  let ?a = "INIT_LIST_HEAD Semd_h s" and ?b = "INIT_LIST_HEAD SemdFree_h (INIT_LIST_HEAD Semd_h s)"
  define Q where "Q h = (if h \<in> range S_procQ then [] else R h)" for h
  have sa: "links_only semd_cells s ?a" and ab: "links_only semd_cells ?a ?b"
    by (rule links_only_INIT, simp)+
  have "rings s S_next (semd_heads - {SemdFree_h} - {Semd_h}) (semd_lists [] [])"
    by (auto simp: rings_def semd_heads_def)
  then have "rings ?a S_next (semd_heads - {SemdFree_h}) ((semd_lists [] [])(Semd_h := []))"
    by (intro semdl.INIT_LIST_HEAD_rings) (auto simp: semd_heads_def insert_Diff_if)
  then have "rings ?b S_next semd_heads ((semd_lists [] [])(Semd_h := [], SemdFree_h := []))"
    by (rule semdl.INIT_LIST_HEAD_rings) auto
  then have bS: "rings ?b S_next semd_heads (semd_lists [] [])"
    by (subst (asm) semd_lists_cong [of _ "[]" "[]"]) simp_all
  have sb: "links_only semd_cells s ?b" by (rule links_only_trans [OF sa ab])
  have "rings s P_next K Q = rings s P_next K R"
    by (rule rings_Q_cong) (use own in \<open>auto simp: Q_def\<close>)
  then have bP: "rings ?b P_next (K \<union> S_procQ ` {}) Q" using P semd_frame [OF sb K] by simp
  have same: "pcbs ?b = pcbs s" using links_only_asl [OF sb] by simp
  have "ok (initASL_loop [0..<MAXPROC] ?b) (\<lambda>t.
      rings t P_next (K \<union> S_procQ ` ({} \<union> set [0..<MAXPROC])) Q \<and>
      rings t S_next semd_heads (semd_lists (rev [0..<MAXPROC] @ []) []) \<and>
      pcbs t = pcbs ?b \<and> s_key t = s_key ?b \<and> asl_frame ?b t)"
    using own by (intro initASL_loop_spec [OF bP K bS]) (auto simp: Q_def)
  moreover have "asl t (K \<union> S_procQ ` {..<MAXPROC}) R (\<lambda>_. [])"
    if "rings t P_next (K \<union> S_procQ ` {..<MAXPROC}) Q"
      and "rings t S_next semd_heads (semd_lists (rev [0..<MAXPROC]) [])" for t
  proof -
    have "asl_inv t (K \<union> S_procQ ` {..<MAXPROC}) Q (rev [0..<MAXPROC]) [] {}"
      using that K own by (auto simp: asl_inv_def Q_def)
    then have "asl t (K \<union> S_procQ ` {..<MAXPROC}) R (waiting t Q [])"
      by (rule aslI) (auto simp: Q_def)
    moreover have "waiting t Q [] = (\<lambda>_. [])" by (simp add: waiting_def fun_eq_iff)
    ultimately show ?thesis by simp
  qed
  ultimately show ?thesis
    unfolding initASL_def Let_def
    by (elim ok_mono) (auto simp: same lessThan_atLeast0
        intro: asl_frame_trans [OF links_only_asl_frame [OF sb cells_disjoint(3)]])
qed

section \<open>The client's own queues\<close>

text \<open>An update of one of the other queues leaves the ASL as it is.\<close>

lemma asl_own_queue:
  assumes asl: "asl s K R W" and h: "h \<in> K" "h \<notin> range S_procQ"
    and upd: "\<And>Q. rings s P_next K Q \<Longrightarrow> Q h = R h \<Longrightarrow> members K Q = own_members K R \<union> blocked W \<Longrightarrow>
      ok m (\<lambda>t. rings t P_next K (Q(h := q)) \<and> links_only proc_cells s t)"
  shows "ok m (\<lambda>t. asl t K (R(h := q)) W \<and> links_only proc_cells s t)"
proof -
  obtain Q fs acts where inv: "asl_inv s K Q fs acts {}" and R: "\<forall>h\<in>K - range S_procQ. Q h = R h"
      and W: "W = waiting s Q acts" using asl by (rule aslE)
  have "asl t K (R(h := q)) W"
    if r: "rings t P_next K (Q(h := q))" and l: "links_only proc_cells s t" for t
  proof -
    have same: "pcbs t = pcbs s" "s_key t = s_key s" using links_only_asl [OF l] by auto
    have nh: "(Q(h := q)) (S_procQ i) = Q (S_procQ i)" for i using h by auto
    have "asl_inv t K (Q(h := q)) fs acts {}"
      using inv r unfolding asl_inv_def same nh proc_frame [OF l] by blast
    then have "asl t K (R(h := q)) (waiting t (Q(h := q)) acts)"
      by (rule aslI) (use R in auto)
    moreover have "waiting t (Q(h := q)) acts = W"
      unfolding W waiting_def nh same ..
    ultimately show ?thesis by simp
  qed
  moreover have "ok m (\<lambda>t. rings t P_next K (Q(h := q)) \<and> links_only proc_cells s t)"
    using asl_inv_members [OF inv R] R h W by (intro upd asl_invD(1) [OF inv]) auto
  ultimately show ?thesis by (elim ok_mono) auto
qed

lemma insertProcQ_asl [wp]:
  assumes asl: "asl s K R W" and h: "h \<in> K" "h \<notin> range S_procQ"
    and p: "p \<notin> own_members K R" "p \<notin> blocked W"
  shows "ok (insertProcQ h p s)
    (\<lambda>t. asl t K (R(h := q_insert (prio s) p (R h))) W \<and> links_only proc_cells s t)"
proof (rule asl_own_queue [OF asl h])
  fix Q assume "rings s P_next K Q" "Q h = R h" "members K Q = own_members K R \<union> blocked W"
  then show "ok (insertProcQ h p s)
      (\<lambda>t. rings t P_next K (Q(h := q_insert (prio s) p (R h))) \<and> links_only proc_cells s t)"
    using insertProcQ_spec [of s K Q h p] asl_heads [OF asl] h p by simp
qed

lemma removeProcQ_asl [wp]:
  assumes asl: "asl s K R W" and h: "h \<in> K" "h \<notin> range S_procQ"
  shows "ok (removeProcQ h s) (\<lambda>(r, t). links_only proc_cells s t \<and>
    asl t K (R(h := tl (R h))) W \<and> r = (case R h of [] \<Rightarrow> None | p # _ \<Rightarrow> Some p))"
proof (cases "R h")
  case Nil
  then have "removeProcQ h s = Inr (None, s)"
    using removeProcQ_Nil [OF asl_rings [OF asl]] h by simp
  then show ?thesis using asl Nil by (simp add: fun_upd_idem)
next
  case (Cons p q)
  have "ok (andThen (removeProcQ h s) (\<lambda>(r, t). if r = Some p then Inr t else Inl Diverge))
      (\<lambda>t. asl t K (R(h := q)) W \<and> links_only proc_cells s t)"
  proof (rule asl_own_queue [OF asl h])
    fix Q assume Q: "rings s P_next K Q" "Q h = R h"
    have "ok (removeProcQ h s)
        (\<lambda>(r, t). r = Some p \<and> rings t P_next K (Q(h := q)) \<and> links_only proc_cells s t)"
      by (rule removeProcQ_Cons [OF Q(1) asl_heads [OF asl] h(1)]) (simp add: Q(2) Cons)
    then show "ok (andThen (removeProcQ h s) (\<lambda>(r, t). if r = Some p then Inr t else Inl Diverge))
      (\<lambda>t. rings t P_next K (Q(h := q)) \<and> links_only proc_cells s t)"
      by (auto elim!: ok_mono)
  qed
  then show ?thesis by (auto simp: Cons elim!: ok_mono split: if_splits)
qed

lemma outProcQ_asl [wp]:
  assumes asl: "asl s K R W" and h: "h \<in> K" "h \<notin> range S_procQ"
  shows "ok (outProcQ h p s) (\<lambda>(r, t). r = (if p \<in> set (R h) then Some p else None) \<and>
    asl t K (R(h := remove1 p (R h))) W \<and> links_only proc_cells s t)"
proof -
  let ?r = "if p \<in> set (R h) then Some p else None"
  have "ok (andThen (outProcQ h p s) (\<lambda>(r, t). if r = ?r then Inr t else Inl Diverge))
      (\<lambda>t. asl t K (R(h := remove1 p (R h))) W \<and> links_only proc_cells s t)"
  proof (rule asl_own_queue [OF asl h])
    fix Q assume Q: "rings s P_next K Q" "Q h = R h"
    show "ok (andThen (outProcQ h p s) (\<lambda>(r, t). if r = ?r then Inr t else Inl Diverge))
      (\<lambda>t. rings t P_next K (Q(h := remove1 p (R h))) \<and> links_only proc_cells s t)"
      using outProcQ_spec [OF Q(1) asl_heads [OF asl] h(1), of p] Q(2) by (auto elim!: ok_mono)
  qed
  then show ?thesis by (auto elim!: ok_mono split: if_splits)
qed

lemma headProcQ_asl:
  "asl s K R W \<Longrightarrow> h \<in> K \<Longrightarrow> h \<notin> range S_procQ \<Longrightarrow>
    headProcQ h s = Inr (case R h of [] \<Rightarrow> None | p # _ \<Rightarrow> Some p) \<and> list_empty h s = (R h = [])"
  using headProcQ_eq [OF asl_rings, of s K R W h] rings_empty_iff [OF asl_rings, of s K R W h]
  by (simp split: list.split)

lemma freePcb_asl [wp]:
  assumes asl: "asl s K R W" and h: "PcbFree_h \<in> K"
    and p: "p \<notin> own_members K R" "p \<notin> blocked W"
  shows "ok (freePcb p s)
    (\<lambda>t. asl t K (R(PcbFree_h := p # R PcbFree_h)) W \<and> links_only proc_cells s t)"
proof (rule asl_own_queue [OF asl h])
  fix Q assume "rings s P_next K Q" "Q PcbFree_h = R PcbFree_h"
    "members K Q = own_members K R \<union> blocked W"
  then show "ok (freePcb p s)
      (\<lambda>t. rings t P_next K (Q(PcbFree_h := p # R PcbFree_h)) \<and> links_only proc_cells s t)"
    using freePcb_spec [of s K Q p] asl_heads [OF asl] h p by simp
qed auto

text \<open>A new queue.\<close>

lemma INIT_LIST_HEAD_asl:
  assumes asl: "asl s K R W" and h: "h \<in> proc_heads" "h \<notin> range S_procQ"
  shows "asl (INIT_LIST_HEAD h s) (insert h K) (R(h := [])) W \<and>
    links_only proc_cells s (INIT_LIST_HEAD h s)"
proof -
  let ?t = "INIT_LIST_HEAD h s"
  obtain Q fs acts where inv: "asl_inv s K Q fs acts {}" and R: "\<forall>h\<in>K - range S_procQ. Q h = R h"
      and W: "W = waiting s Q acts" using asl by (rule aslE)
  have l: "links_only proc_cells s ?t" using h(1) by (rule procq.INIT_LIST_HEAD_cells)
  have same: "pcbs ?t = pcbs s" "s_key ?t = s_key s" using links_only_asl [OF l] by auto
  have nh: "(Q(h := [])) (S_procQ i) = Q (S_procQ i)" and nk: "S_procQ i \<in> insert h K \<longleftrightarrow> S_procQ i \<in> K" for i
    using h by auto
  have K: "insert h K \<subseteq> proc_heads" using asl_invD(2) [OF inv] h by simp
  have "rings s P_next (insert h K - {h}) Q" using asl_invD(1) [OF inv] by (rule rings_subset) auto
  then have r: "rings ?t P_next (insert h K) (Q(h := []))"
    by (rule procq.INIT_LIST_HEAD_rings [OF _ K]) simp
  have "asl_inv ?t (insert h K) (Q(h := [])) fs acts {}"
    using inv r K unfolding asl_inv_def same nh nk proc_frame [OF l] by blast
  then have "asl ?t (insert h K) (R(h := [])) (waiting ?t (Q(h := [])) acts)"
    by (rule aslI) (use R in auto)
  moreover have "waiting ?t (Q(h := [])) acts = W" unfolding W waiting_def nh same ..
  ultimately show ?thesis using l by simp
qed

text \<open>Changes outside of the queues.\<close>

definition same_queues :: "'a asl_mem_scheme \<Rightarrow> 'a asl_mem_scheme \<Rightarrow> bool" where
  "same_queues s t \<longleftrightarrow>
     (\<forall>x. x \<notin> tree_cells \<longrightarrow> lh_next t x = lh_next s x \<and> lh_prev t x = lh_prev s x) \<and>
     s_key t = s_key s"

lemma same_queues_rings:
  assumes same: "same_queues s t" and K: "K \<inter> tree_cells = {}" and elt: "\<And>x. elt x \<notin> tree_cells"
  shows "rings t elt K Q = rings s elt K Q"
proof -
  have "dll t h (map elt (Q h)) = dll s h (map elt (Q h))" if "h \<in> K" for h
    using same K elt that by (intro dll_cong) (auto simp: same_queues_def)
  then show ?thesis by (simp add: rings_def)
qed

lemma asl_same_queues:
  assumes asl: "asl s K R W" and same: "same_queues s t"
    and sem: "\<And>p. p \<in> blocked W \<Longrightarrow> p_semkey (pcbs t p) = p_semkey (pcbs s p)"
  shows "asl t K R W"
proof -
  obtain Q fs acts where inv: "asl_inv s K Q fs acts {}" and R: "\<forall>h\<in>K - range S_procQ. Q h = R h"
      and W: "W = waiting s Q acts" using asl by (rule aslE)
  have key: "s_key t = s_key s" using same by (simp add: same_queues_def)
  have P: "rings t P_next K Q = rings s P_next K Q"
    using asl_invD(2) [OF inv] by (intro same_queues_rings [OF same]) (auto simp: proc_heads_def)
  have S: "rings t S_next semd_heads (semd_lists fs acts) =
      rings s S_next semd_heads (semd_lists fs acts)"
    by (intro same_queues_rings [OF same]) (auto simp: semd_heads_def)
  have "p_semkey (pcbs t p) = p_semkey (pcbs s p)" if "i \<in> set acts" "p \<in> set (Q (S_procQ i))" for i p
    using that asl_inv_blocked [OF inv] asl_inv_active [OF inv that(1)] by (intro sem) (auto simp: W)
  then have "asl_inv t K Q fs acts {}"
    using inv unfolding asl_inv_def P S key by auto
  then have "asl t K R (waiting t Q acts)" by (rule aslI) (use R in auto)
  moreover have "waiting t Q acts = W" unfolding W by (rule waiting_cong) (simp add: key)
  ultimately show ?thesis by simp
qed

lemma pcb_only_same_queues: "pcb_only tree_cells P s t \<Longrightarrow> same_queues s t"
  by (cases s; cases t) (auto simp: pcb_only_def same_queues_def)

lemma same_queues_upd_pcb [simp]: "same_queues s (upd_pcb p f s)"
  by (simp add: same_queues_def)

lemma allocPcb_asl_Nil:
  "asl s K R W \<Longrightarrow> PcbFree_h \<in> K \<Longrightarrow> R PcbFree_h = [] \<Longrightarrow> allocPcb s = Inr (None, s)"
  using allocPcb_Nil [OF asl_rings, of s K R W] by auto

lemma allocPcb_asl [wp]:
  assumes asl: "asl s K R W" and h: "PcbFree_h \<in> K" and free: "R PcbFree_h = p # q"
  shows "ok (allocPcb s) (\<lambda>(r, t). r = Some p \<and> asl t K (R(PcbFree_h := q)) W \<and>
    pcbs t = (pcbs s)(p := fresh_pcb (pcbs s p)) \<and> lh_next t (P_child p) = None \<and>
    pcb_only (proc_cells \<union> {P_child p, P_sib p}) {p} s t)"
proof -
  obtain Q fs acts where inv: "asl_inv s K Q fs acts {}" and R: "\<forall>h\<in>K - range S_procQ. Q h = R h"
      and W: "W = waiting s Q acts" using asl by (rule aslE)
  have Q: "Q PcbFree_h = p # q" using R [rule_format, of PcbFree_h] h free by auto
  have nb: "p \<notin> blocked W"
    using asl_disjoint_own [OF asl] own_membersI [of PcbFree_h K p R] h free by auto
  have "asl t K (R(PcbFree_h := q)) W"
    if r: "rings t P_next K (Q(PcbFree_h := q))" and l: "pcb_only (proc_cells \<union> {P_child p, P_sib p}) {p} s t"
      for t
  proof -
    have key: "s_key t = s_key s" using l by (cases s; cases t) (simp add: pcb_only_def)
    have nh: "(Q(PcbFree_h := q)) (S_procQ i) = Q (S_procQ i)" for i by simp
    have S: "rings t S_next semd_heads (semd_lists fs acts) =
        rings s S_next semd_heads (semd_lists fs acts)"
      unfolding rings_def using l
      by (intro arg_cong2 [where f = "(\<and>)"] ball_cong dll_cong refl)
        (auto simp: pcb_only_def semd_heads_def family_cells_def proc_heads_def)
    have "p_semkey (pcbs t x) = p_semkey (pcbs s x)" if "i \<in> set acts" "x \<in> set (Q (S_procQ i))" for i x
      using that nb l asl_inv_blocked [OF inv] asl_inv_active [OF inv that(1)]
      by (auto simp: W pcb_only_def)
    then have "asl_inv t K (Q(PcbFree_h := q)) fs acts {}"
      using inv r unfolding asl_inv_def nh S key by auto
    then have "asl t K (R(PcbFree_h := q)) (waiting t (Q(PcbFree_h := q)) acts)"
      by (rule aslI) (use R in auto)
    moreover have "waiting t (Q(PcbFree_h := q)) acts = W" unfolding W waiting_def nh key ..
    ultimately show ?thesis by simp
  qed
  then show ?thesis
    using allocPcb_Cons [OF asl_invD(1,2) [OF inv] h Q] by (auto elim!: ok_mono)
qed

text \<open>The tree of a state in which only other things have changed.\<close>

lemma tree_rep_asl_frame:
  assumes "asl_frame s t" and "\<And>p. p_parent (pcbs t p) = p_parent (pcbs s p)"
  shows "tree_rep t A k = tree_rep s A k"
  using assms by (intro tree_rep_frame) (auto simp: asl_frame_def)

lemma links_only_frame_proc: "links_only proc_cells s t \<Longrightarrow> asl_frame s t"
  by (rule links_only_asl_frame [OF _ cells_disjoint(4)])

text \<open>An allocated PCB is a tree of its own.\<close>

lemma tree_rep_alloc:
  assumes T: "tree_rep s A k" and p: "p \<notin> A" and t: "pcbs t = (pcbs s)(p := c)" "lh_next t (P_child p) = None"
    and only: "pcb_only (proc_cells \<union> {P_child p, P_sib p}) {p} s t"
  shows "tree_rep t (insert p A) (k(p := []))"
proof -
  have fr: "lh_next t x = lh_next s x \<and> lh_prev t x = lh_prev s x"
    if "x \<in> tree_cells" "x \<noteq> P_child p" "x \<noteq> P_sib p" for x
    using only that cells_disjoint(4) by (auto simp: pcb_only_def)
  have "node_rep t x (k x) = node_rep s x (k x)" if x: "x \<in> A" for x
  proof -
    have "p \<notin> insert x (set (k x))" using T x p by (auto simp: tree_rep_def)
    then show ?thesis
      by (intro node_rep_cong) (auto simp: t(1) intro!: fr [THEN conjunct1] fr [THEN conjunct2])
  qed
  then show ?thesis using T p t(2) by (auto simp: tree_rep_def node_rep_Nil emptyChild_def)
qed

end
