(* ===== verification/Bus.thy ===== *)
theory Bus
  imports System
begin

text \<open>
  The memory-mapped bus: time of day, interval timer and device registers.

  The registers of the bus belong to the hardware: what the kernel reads at an address is decided
  by the machine, at the moment of the access. \<open>env w a n\<close> is the word that the \<open>n\<close>-th access
  of a run reads when it is a read of the address \<open>a\<close>, and \<open>cause_env\<close> is the same for the
  coprocessor register read by \<open>getCAUSE()\<close>. Both are parameters of every run, so a theorem
  about all boards is a theorem about every behaviour of the hardware. The words that the kernel
  writes are logged in \<open>bus_log\<close>, the latest first.

  The addresses and macros of \<open>arch.h\<close> are the fields of \<open>board\<close>; those of
  \<open>architecture.h\<close> and \<open>devices.h\<close> are definitions here and in \<open>Devices\<close>.
\<close>

section \<open>The board\<close>

record board = hw +
  board_target :: target
  env :: "u32 \<Rightarrow> nat \<Rightarrow> u32"
  cause_env :: "nat \<Rightarrow> u32"
  BUS_REG_TOD_LO :: u32
  BUS_REG_TIMER :: u32
  DEV_REG_START :: u32
  DEV_REG_SIZE :: u32
  DEV_REG_ADDR :: "nat \<Rightarrow> nat \<Rightarrow> u32"
  CDEV_BITMAP_ADDR :: "nat \<Rightarrow> u32"
  N_INTERRUPT_LINES :: nat
  IL_PRINTER :: nat

text \<open>
  \<open>terminals\<close> and \<open>printers\<close> are the members \<open>reg\<close> of the static arrays of the same names in
  \<open>terminal.c\<close> and \<open>printer.c\<close>.
\<close>

record bus =
  now :: nat
  bus_log :: "(u32 \<times> u32) list"
  terminals :: "nat \<Rightarrow> u32 option"
  printers :: "nat \<Rightarrow> u32 option"

definition bus_read :: "board \<Rightarrow> u32 \<Rightarrow> bus \<Rightarrow> u32 \<times> bus" where
  "bus_read w a b = (env w a (now b), b\<lparr>now := Suc (now b)\<rparr>)"

definition bus_write :: "u32 \<Rightarrow> u32 \<Rightarrow> bus \<Rightarrow> bus" where
  "bus_write a v b = b\<lparr>now := Suc (now b), bus_log := (a, v) # bus_log b\<rparr>"

text \<open>The macros \<open>TOD\<close> and \<open>INTERVAL_TIMER\<close> of \<open>system.h\<close>, and \<open>is_interrupt_pending\<close>
  with its read of the cause register.\<close>

definition TOD :: "board \<Rightarrow> bus \<Rightarrow> u32 \<times> bus" where
  "TOD w b = bus_read w (BUS_REG_TOD_LO w) b"

definition get_INTERVAL_TIMER :: "board \<Rightarrow> bus \<Rightarrow> u32 \<times> bus" where
  "get_INTERVAL_TIMER w b = bus_read w (BUS_REG_TIMER w) b"

definition set_INTERVAL_TIMER :: "board \<Rightarrow> u32 \<Rightarrow> bus \<Rightarrow> bus" where
  "set_INTERVAL_TIMER w v b = bus_write (BUS_REG_TIMER w) v b"

definition interrupt_pending :: "board \<Rightarrow> nat \<Rightarrow> bus \<Rightarrow> u32 \<times> bus" where
  "interrupt_pending w line b =
     (is_interrupt_pending (hw.truncate w) (board_target w) (cause_env w (now b)) line,
      b\<lparr>now := Suc (now b)\<rparr>)"

section \<open>Writes seen by the hardware\<close>

text \<open>\<open>writes_since b c ws\<close>: between \<open>b\<close> and \<open>c\<close> the kernel wrote \<open>ws\<close>, in this order.\<close>

definition writes_since :: "bus \<Rightarrow> bus \<Rightarrow> (u32 \<times> u32) list \<Rightarrow> bool" where
  "writes_since b c ws \<longleftrightarrow> bus_log c = rev ws @ bus_log b"

lemma bus_read_simps [simp]:
  "fst (bus_read w a b) = env w a (now b)"
  "now (snd (bus_read w a b)) = Suc (now b)"
  "bus_log (snd (bus_read w a b)) = bus_log b"
  by (simp_all add: bus_read_def)

lemma bus_write_simps [simp]:
  "now (bus_write a v b) = Suc (now b)"
  "bus_log (bus_write a v b) = (a, v) # bus_log b"
  by (simp_all add: bus_write_def)

lemma writes_since_refl [simp]: "writes_since b b []"
  by (simp add: writes_since_def)

lemma writes_since_trans:
  "writes_since b c xs \<Longrightarrow> writes_since c d ys \<Longrightarrow> writes_since b d (xs @ ys)"
  by (simp add: writes_since_def)

lemma writes_since_write [simp]: "writes_since b (bus_write a v b) [(a, v)]"
  by (simp add: writes_since_def)

lemma writes_since_read [simp]: "writes_since b (snd (bus_read w a b)) []"
  by (simp add: writes_since_def)

end
