(* ===== verification/Devices.thy ===== *)
theory Devices
  imports Bus "HOL-Library.Signed_Division"
begin

text \<open>
  External devices: \<open>src/devices/devices.c\<close> and \<open>include/devices/devices.h\<close>.

  An \<open>enum ext_dev_type\<close> is its number. A \<open>devreg_t *\<close> is an address; the four words of a
  device register are \<open>status\<close>, \<open>command\<close>, \<open>data0\<close>, \<open>data1\<close> in the view \<open>dtp\<close>, and
  \<open>recv_status\<close>, \<open>recv_command\<close>, \<open>transm_status\<close>, \<open>transm_command\<close> in the view
  \<open>term\<close> (the union \<open>devreg_t\<close> of the emulators' headers).
\<close>

section \<open>Types and constants\<close>

definition DISK :: nat where "DISK = 0"
definition TAPE :: nat where "TAPE = 1"
definition NETW :: nat where "NETW = 2"
definition PRIN :: nat where "PRIN = 3"
definition TERM_TX :: nat where "TERM_TX = 4"
definition TERM_RX :: nat where "TERM_RX = 5"

definition DEVICE_ST_READY :: u32 where "DEVICE_ST_READY = 1"
definition DEVICE_ST_BUSY :: u32 where "DEVICE_ST_BUSY = 3"
definition TERM_ST_DONE :: u32 where "TERM_ST_DONE = 5"
definition DEVICE_CMD_ACK :: u32 where "DEVICE_CMD_ACK = 1"
definition DEVICE_CMD_FUNC_SPECIFIC :: u32 where "DEVICE_CMD_FUNC_SPECIFIC = 2"
definition DEV_STATUS_MASK :: u32 where "DEV_STATUS_MASK = 255"
definition EXTRA_DEV_NUM :: nat where "EXTRA_DEV_NUM = 1"

lemmas dev_types = DISK_def TAPE_def NETW_def PRIN_def TERM_TX_def TERM_RX_def

lemmas dev_consts = DEVICE_ST_READY_def DEVICE_ST_BUSY_def TERM_ST_DONE_def DEVICE_CMD_ACK_def
  DEVICE_CMD_FUNC_SPECIFIC_def DEV_STATUS_MASK_def

text \<open>Offsets of the words of a device register.\<close>

definition reg_status :: "u32 \<Rightarrow> u32" where "reg_status r = r"
definition reg_command :: "u32 \<Rightarrow> u32" where "reg_command r = r + 4"
definition reg_data0 :: "u32 \<Rightarrow> u32" where "reg_data0 r = r + 8"
definition reg_transm_status :: "u32 \<Rightarrow> u32" where "reg_transm_status r = r + 8"
definition reg_transm_command :: "u32 \<Rightarrow> u32" where "reg_transm_command r = r + 12"

section \<open>Operations\<close>

text \<open>
  The macros \<open>GET_DEV_INSTANCE\<close> and \<open>GET_DEV_LINE\<close> on \<open>(int) dev_reg\<close>: C's signed
  division and remainder, the result read as an \<open>unsigned int\<close>.
\<close>

definition GET_DEV_INSTANCE :: "board \<Rightarrow> u32 \<Rightarrow> u32" where
  "GET_DEV_INSTANCE w reg =
     word_of_int (((sint (reg - DEV_REG_START w)) sdiv sint (DEV_REG_SIZE w)) smod int (N_DEV_PER_IL w))"

definition GET_DEV_LINE :: "board \<Rightarrow> u32 \<Rightarrow> u32" where
  "GET_DEV_LINE w reg =
     word_of_int (((sint (reg - DEV_REG_START w)) sdiv sint (DEV_REG_SIZE w)) sdiv int (N_DEV_PER_IL w)
        + int (N_INTERRUPT_LINES w - N_EXT_IL w))"

text \<open>Unsigned arithmetic on \<open>enum\<close> values: a line below the first external one wraps around.\<close>

definition get_ext_dev_type :: "board \<Rightarrow> u32 \<Rightarrow> u32 \<Rightarrow> u32" where
  "get_ext_dev_type w line subdev =
     (let t = line - word_of_nat (N_IL w - N_EXT_IL w)
      in if line = word_of_nat (IL_TERMINAL w) then t + subdev else t)"

definition get_ext_dev_line :: "nat \<Rightarrow> nat" where
  "get_ext_dev_line dev_type =
     (let l = (if dev_type = TERM_RX then TERM_TX else dev_type) in l + 3)"

definition send_command :: "nat \<Rightarrow> u32 \<Rightarrow> u32 \<Rightarrow> bus \<Rightarrow> bus" where
  "send_command ext_dev command dev_reg b =
     (if ext_dev \<noteq> TERM_TX then bus_write (reg_command dev_reg) command b
      else bus_write (reg_transm_command dev_reg) command b)"

definition get_status :: "board \<Rightarrow> nat \<Rightarrow> u32 \<Rightarrow> bus \<Rightarrow> u32 \<times> bus" where
  "get_status w dev_type dev_reg b =
     (if dev_type \<noteq> TERM_TX then bus_read w (reg_status dev_reg) b
      else bus_read w (reg_transm_status dev_reg) b)"

section \<open>The documented layout\<close>

text \<open>The device registers as the emulators' documentation lays them out.\<close>

definition documented :: "board \<Rightarrow> bool" where
  "documented w \<longleftrightarrow>
     DEV_REG_SIZE w = 16 \<and> N_DEV_PER_IL w = 8 \<and> N_INTERRUPT_LINES w = 8 \<and> N_IL w = 8 \<and>
     N_EXT_IL w = 5 \<and> IL_TERMINAL w = 7 \<and>
     (\<forall>l d. DEV_REG_ADDR w l d =
        DEV_REG_START w + word_of_nat (l - 3) * 128 + word_of_nat d * 16)"

end
