(* ===== verification/Scheduler.thy ===== *)
theory Scheduler
  imports Asl Devices
begin

text \<open>
  The scheduler: \<open>src/core/processes/scheduler.c\<close>.

  \<open>kern\<close> adds the scheduler's variables to the tables of the lower components, and the memory
  of the processes: words (\<open>user_word\<close>) and saved processor states (\<open>user_state\<close>) at an
  address. An \<open>int *\<close> or \<open>state_t *\<close> that a process passes is its address, 0 being NULL. The
  address of a PCB as a process sees it is \<open>pcb_addr\<close> of the memory layout \<open>layout\<close>, the
  argument of the operations that cast pointers.

  The states of the two devices' waiting list members are \<open>w_for_cmd_sem\<close> and
  \<open>w_for_res\<close>, by device type and instance. The read of \<open>TOD\<close> and of the other bus registers
  goes through the field \<open>bus\<close>. Debug output (\<open>DEBUG_LOG\<close>) is empty in the build modelled.
\<close>

section \<open>State\<close>

record kern = asl_mem +
  running_proc :: "pcb option"
  clock_ticks_per_time_slice :: u32
  w_for_cmd_sem :: "nat \<Rightarrow> nat \<Rightarrow> c_int"
  w_for_res :: "nat \<Rightarrow> nat \<Rightarrow> pcb option"
  user_word :: "u32 \<Rightarrow> u32"
  user_state :: "u32 \<Rightarrow> state_t"
  bus :: bus

record layout =
  pcb_addr :: "pcb \<Rightarrow> u32"
  pcb_at :: "u32 \<Rightarrow> pcb option"
  idle_entry :: u32      \<comment> \<open>the address of the function \<open>idle\<close>\<close>

record proc_init_data =
  method_ptr :: u32
  init_priority :: c_int
  vm_on :: u32
  km_on :: u32
  timer_int_on :: u32
  other_ints_on :: u32

definition PRIORITY_INC_PER_TIME_SLICE :: c_int where
  "PRIORITY_INC_PER_TIME_SLICE = 1"

text \<open>\<open>(int *) a\<close>, \<open>(state_t *) a\<close>.\<close>

definition int_at :: "u32 \<Rightarrow> int_ptr option" where
  "int_at a = (if a = 0 then None else Some (User_int a))"

text \<open>Loads and stores through an \<open>int *\<close>.\<close>

fun load_int :: "int_ptr option \<Rightarrow> 'a kern_scheme \<Rightarrow> c_int res" where
  "load_int None s = Inl NullDeref"
| "load_int (Some (User_int a)) s = Inr (user_word s a)"
| "load_int (Some (Dev_sem l d)) s = Inr (w_for_cmd_sem s l d)"

fun store_int :: "int_ptr option \<Rightarrow> c_int \<Rightarrow> 'a kern_scheme \<Rightarrow> 'a kern_scheme res" where
  "store_int None v s = Inl NullDeref"
| "store_int (Some (User_int a)) v s = Inr (s\<lparr>user_word := (user_word s)(a := v)\<rparr>)"
| "store_int (Some (Dev_sem l d)) v s =
     Inr (s\<lparr>w_for_cmd_sem := (w_for_cmd_sem s)(l := (w_for_cmd_sem s l)(d := v))\<rparr>)"

text \<open>A store through a \<open>state_t *\<close> of a process, and \<open>memcpy(dst, src, sizeof(state_t))\<close> from
  one: a NULL pointer is \<open>PANIC()\<close>.\<close>

definition load_state :: "u32 \<Rightarrow> 'a kern_scheme \<Rightarrow> state_t res" where
  "load_state a s = (if a = 0 then Inl (Panic '''') else Inr (user_state s a))"

text \<open>\<open>get_dev_w_list(dev_type, instance)\<close>: the list is named by its indices.\<close>

definition get_dev_w_list :: "board \<Rightarrow> nat \<Rightarrow> nat \<Rightarrow> (nat \<times> nat) res" where
  "get_dev_w_list w dev_type inst =
     (if dev_type < N_EXT_IL w + 1 \<and> inst < N_DEV_PER_IL w then Inr (dev_type, inst)
      else Inl OutOfBounds)"

definition set_w_for_res :: "nat \<times> nat \<Rightarrow> pcb option \<Rightarrow> 'a kern_scheme \<Rightarrow> 'a kern_scheme" where
  "set_w_for_res ld v s =
     (case ld of (l, d) \<Rightarrow> s\<lparr>w_for_res := (w_for_res s)(l := (w_for_res s l)(d := v))\<rparr>)"

section \<open>Timers\<close>

definition read_TOD :: "board \<Rightarrow> 'a kern_scheme \<Rightarrow> u32 \<times> 'a kern_scheme" where
  "read_TOD w s = (case TOD w (bus s) of (v, b) \<Rightarrow> (v, s\<lparr>bus := b\<rparr>))"

definition flush_user_time :: "board \<Rightarrow> pcb \<Rightarrow> 'a kern_scheme \<Rightarrow> 'a kern_scheme" where
  "flush_user_time w proc s =
     (let (cached_TOD, s) = read_TOD w s;
          s = upd_pcb proc (\<lambda>c. c\<lparr>user_timer := user_timer c + (cached_TOD - tod_cache c)\<rparr>) s
      in upd_pcb proc (\<lambda>c. c\<lparr>tod_cache := cached_TOD\<rparr>) s)"

definition flush_kernel_time :: "board \<Rightarrow> pcb \<Rightarrow> 'a kern_scheme \<Rightarrow> 'a kern_scheme" where
  "flush_kernel_time w proc s =
     (let (cached_TOD, s) = read_TOD w s;
          s = upd_pcb proc (\<lambda>c. c\<lparr>kernel_timer := kernel_timer c + (cached_TOD - tod_cache c)\<rparr>) s
      in upd_pcb proc (\<lambda>c. c\<lparr>tod_cache := cached_TOD\<rparr>) s)"

definition flush_reset_time :: "board \<Rightarrow> pcb \<Rightarrow> 'a kern_scheme \<Rightarrow> 'a kern_scheme" where
  "flush_reset_time w proc s =
     (let (t, s) = read_TOD w s in upd_pcb proc (\<lambda>c. c\<lparr>tod_cache := t\<rparr>) s)"

definition reset_int_timer :: "board \<Rightarrow> 'a kern_scheme \<Rightarrow> 'a kern_scheme" where
  "reset_int_timer w s = s\<lparr>bus := set_INTERVAL_TIMER w (clock_ticks_per_time_slice s) (bus s)\<rparr>"

fun get_proc_index :: "pcb \<Rightarrow> u32 res" where
  "get_proc_index Idle_proc = Inr (word_of_nat MAXPROC)"
| "get_proc_index (Pcb i) = get_pcb_index (Pcb i)"

section \<open>The running process\<close>

definition set_running_proc :: "pcb option \<Rightarrow> 'a kern_scheme \<Rightarrow> 'a kern_scheme" where
  "set_running_proc new_proc s =
     (case new_proc of
        Some p \<Rightarrow> s\<lparr>running_proc := Some p\<rparr>
      | None \<Rightarrow> s\<lparr>running_proc := Some Idle_proc\<rparr>)"

definition stop_running_proc :: "'a kern_scheme \<Rightarrow> 'a kern_scheme res" where
  "stop_running_proc s =
     (if running_proc s \<noteq> Some Idle_proc
      then andThen (deref (running_proc s)) (\<lambda>r.
           insertProcQ Ready_queue r
             (upd_pcb r (\<lambda>c. c\<lparr>priority := original_priority c\<rparr>) s))
      else Inr s)"

definition pop_running :: "'a kern_scheme \<Rightarrow> (pcb option \<times> 'a kern_scheme) res" where
  "pop_running s =
     (let prev_running = running_proc s in
      andThen (removeProcQ Ready_queue s) (\<lambda>(q, s).
      Inr (prev_running, set_running_proc q s)))"

text \<open>\<open>schedule_proc\<close> reads \<open>running_proc->priority\<close> before it compares with the idle process.\<close>

definition schedule_proc :: "pcb \<Rightarrow> 'a kern_scheme \<Rightarrow> 'a kern_scheme res" where
  "schedule_proc p s =
     andThen (deref (running_proc s)) (\<lambda>r.
     if sint (priority (pcbs s p)) > sint (priority (pcbs s r)) \<or> r = Idle_proc
     then andThen (stop_running_proc s) (\<lambda>s. Inr (set_running_proc (Some p) s))
     else insertProcQ Ready_queue p s)"

text \<open>
  The loops over a queue that raise the priority of every process in it.
\<close>

definition raise_priorities :: "lh \<Rightarrow> 'a kern_scheme \<Rightarrow> 'a kern_scheme res" where
  "raise_priorities h s =
     andThen (list_for_each_entry (\<lambda>l s.
         andThen (container_of_p_next l) (\<lambda>target_proc.
         Inr (None :: unit option,
              upd_pcb target_proc (\<lambda>c. c\<lparr>priority := priority c + PRIORITY_INC_PER_TIME_SLICE\<rparr>) s))) h s)
       (\<lambda>(_, s). Inr s)"

definition time_slice_callback :: "'a kern_scheme \<Rightarrow> 'a kern_scheme res" where
  "time_slice_callback s =
     andThen (raise_priorities Ready_queue s) (\<lambda>s.
     if \<not> list_empty Ready_queue s
     then
       andThen (deref (running_proc s)) (\<lambda>r.
       andThen (headProcQ Ready_queue s) (\<lambda>h.
       andThen (deref h) (\<lambda>h.
       if sint (priority (pcbs s r)) \<le> sint (priority (pcbs s h))
       then andThen (removeProcQ Ready_queue s) (\<lambda>(to_start, s).
            andThen (stop_running_proc s) (\<lambda>s.
            Inr (set_running_proc to_start s)))
       else Inr s)))
     else Inr s)"

section \<open>Semaphores\<close>

text \<open>\<open>p\<close> (passeren) and \<open>v\<close> (verhogen).\<close>

definition passeren :: "board \<Rightarrow> int_ptr option \<Rightarrow> 'a kern_scheme \<Rightarrow> 'a kern_scheme res" where
  "passeren w semaddr s =
     andThen (load_int semaddr s) (\<lambda>n.
     andThen (store_int semaddr (n - 1) s) (\<lambda>s.
     andThen (load_int semaddr s) (\<lambda>n.
     if sint n < 0
     then
       andThen (deref (running_proc s)) (\<lambda>r.
       let s = flush_kernel_time w r s in
       andThen (insertBlocked semaddr r s) (\<lambda>(full, s).
       if full then Inl (Panic ''No free SEMDs'')
       else
         andThen (removeProcQ Ready_queue s) (\<lambda>(q, s).
         let s = set_running_proc q s in
         andThen (load_int semaddr s) (\<lambda>n. store_int semaddr (n + 1) s))))
     else Inr s)))"

definition verhogen :: "int_ptr option \<Rightarrow> 'a kern_scheme \<Rightarrow> 'a kern_scheme res" where
  "verhogen semaddr s =
     andThen (load_int semaddr s) (\<lambda>n.
     andThen (store_int semaddr (n + 1) s) (\<lambda>s.
     andThen (removeBlocked semaddr s) (\<lambda>(dequeued_proc, s).
     case dequeued_proc of
       None \<Rightarrow> Inr s
     | Some p \<Rightarrow>
         let s = upd_pcb p (\<lambda>c. c\<lparr>priority := original_priority c\<rparr>) s in
         andThen (getSemd semaddr s) (\<lambda>sd.
         andThen (case sd of None \<Rightarrow> Inr s | Some i \<Rightarrow> raise_priorities (S_procQ i) s) (\<lambda>s.
         andThen (schedule_proc p s) (\<lambda>s.
         andThen (load_int semaddr s) (\<lambda>n. store_int semaddr (n - 1) s)))))))"

section \<open>Creation and termination\<close>

text \<open>
  \<open>cpid\<close> is the address where the new process' identifier, its PCB's address, is stored.
\<close>

definition create_process ::
  "layout \<Rightarrow> u32 \<Rightarrow> c_int \<Rightarrow> u32 \<Rightarrow> 'a kern_scheme \<Rightarrow> (c_int \<times> 'a kern_scheme) res" where
  "create_process ly st prio_arg cpid s =
     andThen (allocPcb s) (\<lambda>(p, s).
     case p of
       None \<Rightarrow> Inr (-1, s)
     | Some p \<Rightarrow>
         andThen (load_state st s) (\<lambda>st.
         let s = upd_pcb p (\<lambda>c. c\<lparr>p_s := st\<rparr>) s;
             s = upd_pcb p (\<lambda>c. c\<lparr>priority := prio_arg\<rparr>) s;
             s = upd_pcb p (\<lambda>c. c\<lparr>original_priority := prio_arg\<rparr>) s in
         andThen (insertChild (running_proc s) (Some p) s) (\<lambda>s.
         let s = (if cpid \<noteq> 0 then s\<lparr>user_word := (user_word s)(cpid := pcb_addr ly p)\<rparr> else s) in
         andThen (schedule_proc p s) (\<lambda>s. Inr (0, s)))))"

text \<open>
  The first part of \<open>recursive_remove_proc\<close>: take the process out of the structure it is on and
  free it.
\<close>

definition detach_proc :: "pcb \<Rightarrow> 'a kern_scheme \<Rightarrow> 'a kern_scheme res" where
  "detach_proc p s =
     andThen
       (if p_semkey (pcbs s p) \<noteq> None then outBlocked p s
        else case dev_w_list (pcbs s p) of
            Some ld \<Rightarrow> Inr (Some p, set_w_for_res ld None s)
          | None \<Rightarrow> outProcQ Ready_queue p s) (\<lambda>(to_be_freed, s).
     case to_be_freed of
       Some q \<Rightarrow> freePcb q s
     | None \<Rightarrow> Inl (Panic ''Error during recursive process removal, the given process isn't on the ready queue or in a semaphore queue.''))"

text \<open>
  \<open>recursive_remove_proc\<close>: \<open>Remove p\<close> is the call, \<open>Children p\<close> its loop over the children.
  The value is the returned integer.
\<close>

datatype removal = Remove pcb | Children pcb

partial_function (option) remove_walk ::
  "removal \<Rightarrow> 'a kern_scheme \<Rightarrow> (c_int \<times> 'a kern_scheme) res option" where
  "remove_walk m s =
     (case m of
        Remove p \<Rightarrow>
          (case detach_proc p s of
             Inl e \<Rightarrow> Some (Inl e)
           | Inr s1 \<Rightarrow> remove_walk (Children p) s1)
      | Children p \<Rightarrow>
          (case removeChild p s of
             Inl e \<Rightarrow> Some (Inl e)
           | Inr (None, s1) \<Rightarrow> Some (Inr (0, s1))
           | Inr (Some target_child, s1) \<Rightarrow>
               Option.bind (remove_walk (Remove target_child) s1) (\<lambda>r.
                 case r of
                   Inl e \<Rightarrow> Some (Inl e)
                 | Inr (ret, s2) \<Rightarrow>
                     if ret \<noteq> 0 then Some (Inr (-1, s2)) else remove_walk (Children p) s2)))"

definition recursive_remove_proc :: "pcb \<Rightarrow> 'a kern_scheme \<Rightarrow> (c_int \<times> 'a kern_scheme) res" where
  "recursive_remove_proc p s = returned (remove_walk (Remove p) s)"

definition terminate_proc :: "pcb option \<Rightarrow> 'a kern_scheme \<Rightarrow> (c_int \<times> 'a kern_scheme) res" where
  "terminate_proc target s =
     andThen (deref (if target = None then running_proc s else target)) (\<lambda>p.
     andThen (if p_parent (pcbs s p) \<noteq> None
              then andThen (outChild p s) (\<lambda>(_, s). Inr s) else Inr s) (\<lambda>s.
     andThen (deref (running_proc s)) (\<lambda>r.
     andThen (insertProcQ Ready_queue r s) (\<lambda>s.
     andThen (recursive_remove_proc p s) (\<lambda>(ret, s).
     andThen (outProcQ Ready_queue r s) (\<lambda>(retrieved_running_proc, s).
     if retrieved_running_proc = None
     then andThen (removeProcQ Ready_queue s) (\<lambda>(new_proc, s).
          Inr (ret, case new_proc of
                      Some q \<Rightarrow> set_running_proc (Some q) s
                    | None \<Rightarrow> set_running_proc (Some Idle_proc) s))
     else Inr (ret, s)))))))"

section \<open>Initialisation\<close>

definition get_free_pcb_else_panic :: "'a kern_scheme \<Rightarrow> (pcb \<times> 'a kern_scheme) res" where
  "get_free_pcb_else_panic s =
     andThen (allocPcb s) (\<lambda>(p, s).
     case p of
       Some p \<Rightarrow> Inr (p, s)
     | None \<Rightarrow> Inl (Panic ''ERROR: The maximum number of processes has been reached!''))"

text \<open>
  The part of \<open>populate_pcb\<close> after the target-independent assignments, one clause for each
  branch of its \<open>#ifdef\<close>.
\<close>

fun populate_mode :: "board \<Rightarrow> proc_init_data \<Rightarrow> state_t \<Rightarrow> state_t" where
  "populate_mode w data (Umps st) =
     (case set_virtual_mem (hw.truncate w) (Umps st) 0 of
        Umps st \<Rightarrow>
          let st = (if km_on data = 0 then st\<lparr>mps_status := mps_status st OR STATUS_KUp w\<rparr> else st);
              st = (if vm_on data \<noteq> 0 then st\<lparr>mps_status := mps_status st OR STATUS_VMp w\<rparr> else st);
              st = (if timer_int_on data \<noteq> 0 \<or> other_ints_on data \<noteq> 0
                    then st\<lparr>mps_status := mps_status st OR STATUS_IEp w\<rparr> else st)
          in Umps st
      | st \<Rightarrow> st)"
| "populate_mode w data (Uarm st) =
     set_kernel_mode (hw.truncate w) (set_virtual_mem (hw.truncate w) (Uarm st) (vm_on data)) (km_on data)"

text \<open>The members that \<open>populate_pcb\<close> sets, for the process of index \<open>i\<close>.\<close>

definition populate_fields :: "board \<Rightarrow> u32 \<Rightarrow> proc_init_data \<Rightarrow> pcb_t \<Rightarrow> pcb_t" where
  "populate_fields w i data c =
     (let h = hw.truncate w;
          st = set_pc (p_s c) (method_ptr data);
          st = set_sp st (RAM_TOP w - FRAME_SIZE w * (i + 1));
          st = set_interval_timer_interrupts h st (timer_int_on data);
          st = set_other_interrupts h st (other_ints_on data)
      in c\<lparr>p_s := populate_mode w data st, priority := init_priority data,
           original_priority := init_priority data\<rparr>)"

definition populate_pcb :: "board \<Rightarrow> pcb \<Rightarrow> proc_init_data \<Rightarrow> 'a kern_scheme \<Rightarrow> 'a kern_scheme res" where
  "populate_pcb w p data s =
     andThen (get_proc_index p) (\<lambda>i. Inr (upd_pcb p (populate_fields w i data) s))"

fun init_starting_procs :: "board \<Rightarrow> proc_init_data list \<Rightarrow> 'a kern_scheme \<Rightarrow> 'a kern_scheme res" where
  "init_starting_procs w [] s = Inr s"
| "init_starting_procs w (d # ds) s =
     andThen (get_free_pcb_else_panic s) (\<lambda>(p, s).
     andThen (populate_pcb w p d s) (\<lambda>s.
     andThen (insertProcQ Ready_queue p s) (\<lambda>s.
     init_starting_procs w ds s)))"

definition init_dev_w_lists :: "board \<Rightarrow> 'a kern_scheme \<Rightarrow> 'a kern_scheme" where
  "init_dev_w_lists w s =
     s\<lparr>w_for_cmd_sem := (\<lambda>l d. if l < N_EXT_IL w + EXTRA_DEV_NUM \<and> d < N_DEV_PER_IL w then 1
                               else w_for_cmd_sem s l d),
       w_for_res := (\<lambda>l d. if l < N_EXT_IL w + EXTRA_DEV_NUM \<and> d < N_DEV_PER_IL w then None
                           else w_for_res s l d)\<rparr>"

definition idle_proc_data :: "layout \<Rightarrow> proc_init_data" where
  "idle_proc_data ly =
     \<lparr>method_ptr = idle_entry ly, init_priority = 0, vm_on = 0, km_on = 1, timer_int_on = 1,
      other_ints_on = 1\<rparr>"

definition init_scheduler ::
  "board \<Rightarrow> layout \<Rightarrow> proc_init_data list \<Rightarrow> u32 \<Rightarrow> 'a kern_scheme \<Rightarrow> 'a kern_scheme res" where
  "init_scheduler w ly starting_procs time_slice s =
     (let s = s\<lparr>clock_ticks_per_time_slice := clock_ticks_per_period (hw.truncate w) time_slice\<rparr> in
      andThen (initPcbs s) (\<lambda>s.
      andThen (initASL s) (\<lambda>s.
      let s = mkEmptyProcQ Ready_queue s in
      andThen (init_starting_procs w starting_procs s) (\<lambda>s.
      let s = upd_pcb Idle_proc (\<lambda>c. c\<lparr>p_s := reset_state (p_s c)\<rparr>) s in
      andThen (populate_pcb w Idle_proc (idle_proc_data ly) s) (\<lambda>s.
      Inr (init_dev_w_lists w s))))))"

text \<open>\<open>launch\<close>: the value is the state given to \<open>LDST\<close>, which starts the process.\<close>

definition launch :: "board \<Rightarrow> 'a kern_scheme \<Rightarrow> (state_t \<times> 'a kern_scheme) res" where
  "launch w s =
     (if \<not> emptyProcQ Ready_queue s
      then
        andThen (removeProcQ Ready_queue s) (\<lambda>(p, s).
        let s = set_running_proc p s in
        andThen (deref (running_proc s)) (\<lambda>r.
        let (t, s) = read_TOD w s;
            s = upd_pcb r (\<lambda>c. c\<lparr>tod_at_start := t\<rparr>) s;
            (t, s) = read_TOD w s;
            s = upd_pcb r (\<lambda>c. c\<lparr>tod_cache := t\<rparr>) s;
            s = reset_int_timer w s
        in Inr (p_s (pcbs s r), s)))
      else Inl (Panic ''Impossible to launch the system, no processes in the ready queue''))"

end
