(* ===== verification/Sched_Spec.thy ===== *)
theory Sched_Spec
  imports Asl
begin

text \<open>
  The abstract scheduler: what \<open>scheduler.c\<close> promises, without lists in memory.

  The state \<open>sched\<close> has the free processes, the ready queue, the queue of every semaphore, the
  running process, the children of every process and the contents of the PCBs. Its operations
  are functions on lists. \<open>sched_wf\<close> is the well-formedness invariant: every process control
  block is in exactly one place, the processes outside of semaphores have no \<open>p_semkey\<close>, and the
  process tree is a forest. The refinement of the code to these operations is in
  \<open>Sched_Refine\<close>.
\<close>

section \<open>State\<close>

record sched =
  free :: "pcb list"
  ready :: "pcb list"
  wait :: "int_ptr option \<Rightarrow> pcb list"
  running :: pcb
  kids :: "pcb \<Rightarrow> pcb list"
  tcb :: "pcb \<Rightarrow> pcb_t"

definition a_prio :: "sched \<Rightarrow> pcb \<Rightarrow> int" where
  "a_prio a p = sint (priority (tcb a p))"

definition upd_tcb :: "pcb \<Rightarrow> (pcb_t \<Rightarrow> pcb_t) \<Rightarrow> sched \<Rightarrow> sched" where
  "upd_tcb p f a = a\<lparr>tcb := (tcb a)(p := f (tcb a p))\<rparr>"

section \<open>Operations\<close>

definition a_requeue :: "pcb \<Rightarrow> sched \<Rightarrow> sched" where
  "a_requeue p a = a\<lparr>ready := q_insert (a_prio a) p (ready a)\<rparr>"

definition a_stop :: "sched \<Rightarrow> sched" where
  "a_stop a =
     (if running a = Idle_proc then a
      else a_requeue (running a)
             (upd_tcb (running a) (\<lambda>c. c\<lparr>priority := original_priority c\<rparr>) a))"

text \<open>The first ready process runs, the idle process when there is none.\<close>

definition a_dispatch :: "sched \<Rightarrow> sched" where
  "a_dispatch a =
     (case ready a of
        [] \<Rightarrow> a\<lparr>running := Idle_proc\<rparr>
      | p # q \<Rightarrow> a\<lparr>running := p, ready := q\<rparr>)"

definition a_schedule :: "pcb \<Rightarrow> sched \<Rightarrow> sched" where
  "a_schedule p a =
     (if a_prio a p > a_prio a (running a) \<or> running a = Idle_proc
      then (a_stop a)\<lparr>running := p\<rparr> else a_requeue p a)"

definition a_raise :: "pcb set \<Rightarrow> sched \<Rightarrow> sched" where
  "a_raise P a =
     a\<lparr>tcb := (\<lambda>p. if p \<in> P then (tcb a p)\<lparr>priority := priority (tcb a p) + 1\<rparr> else tcb a p)\<rparr>"

definition a_time_slice :: "sched \<Rightarrow> sched" where
  "a_time_slice a =
     (let a = a_raise (set (ready a)) a in
      case ready a of
        [] \<Rightarrow> a
      | h # q \<Rightarrow>
          if a_prio a (running a) \<le> a_prio a h
          then (a_stop (a\<lparr>ready := q\<rparr>))\<lparr>running := h\<rparr> else a)"

definition a_flush_kernel :: "u32 \<Rightarrow> pcb \<Rightarrow> sched \<Rightarrow> sched" where
  "a_flush_kernel t p a =
     upd_tcb p (\<lambda>c. c\<lparr>kernel_timer := kernel_timer c + (t - tod_cache c), tod_cache := t\<rparr>) a"

text \<open>The running process blocks on \<open>key\<close>; the first process blocked on \<open>key\<close> is woken.\<close>

definition a_block :: "int_ptr option \<Rightarrow> sched \<Rightarrow> sched" where
  "a_block key a =
     (let r = running a;
          q = q_insert (a_prio a) r (wait a key)
      in a_dispatch ((upd_tcb r (\<lambda>c. c\<lparr>p_semkey := key\<rparr>) a)\<lparr>wait := (wait a)(key := q)\<rparr>))"

definition a_wake :: "int_ptr option \<Rightarrow> sched \<Rightarrow> sched" where
  "a_wake key a =
     (case wait a key of
        [] \<Rightarrow> a
      | p # q \<Rightarrow>
          a_schedule p (a_raise (set q)
            ((upd_tcb p (\<lambda>c. c\<lparr>p_semkey := None, priority := original_priority c\<rparr>) a)
               \<lparr>wait := (wait a)(key := q)\<rparr>)))"

text \<open>A new process with state \<open>st\<close> and priority \<open>pri\<close>, child of the running one.\<close>

definition a_create :: "state_t \<Rightarrow> c_int \<Rightarrow> sched \<Rightarrow> sched" where
  "a_create st pri a =
     (case free a of
        [] \<Rightarrow> a
      | p # q \<Rightarrow>
          a_schedule p
            ((upd_tcb p (\<lambda>c. (fresh_pcb c)\<lparr>p_s := st, priority := pri, original_priority := pri,
                           p_parent := Some (running a)\<rparr>) a)
               \<lparr>free := q, kids := (kids a)(p := [], running a := kids a (running a) @ [p])\<rparr>))"

section \<open>Well-formedness\<close>

definition all_procs :: "pcb set" where
  "all_procs = Pcb ` {..<MAXPROC}"

lemma Idle_not_proc [simp]: "Idle_proc \<notin> all_procs"
  by (auto simp: all_procs_def)

lemma finite_all_procs [simp, intro]: "finite all_procs"
  by (simp add: all_procs_def)

text \<open>The processes in use.\<close>

definition live :: "sched \<Rightarrow> pcb set" where
  "live a = insert Idle_proc all_procs - set (free a)"

text \<open>
  \<open>placed a U\<close>: every process control block except those of \<open>U\<close> is in exactly one of the free
  list, the ready queue and the semaphore queues, and those of \<open>U\<close> are in none.
\<close>

definition placed :: "sched \<Rightarrow> pcb set \<Rightarrow> bool" where
  "placed a U \<longleftrightarrow>
     set (free a) \<union> set (ready a) \<union> blocked (wait a) = all_procs - U \<and>
     set (free a) \<inter> set (ready a) = {} \<and> set (free a) \<inter> blocked (wait a) = {} \<and>
     set (ready a) \<inter> blocked (wait a) = {} \<and>
     (\<forall>k l p. p \<in> set (wait a k) \<longrightarrow> p \<in> set (wait a l) \<longrightarrow> k = l) \<and>
     distinct (free a) \<and> distinct (ready a) \<and> (\<forall>k. distinct (wait a k))"

text \<open>The PCB of a process agrees with its place.\<close>

definition sem_ok :: "sched \<Rightarrow> bool" where
  "sem_ok a \<longleftrightarrow>
     wait a None = [] \<and> (\<forall>k. \<forall>p\<in>set (wait a k). p_semkey (tcb a p) = k) \<and>
     (\<forall>p. p \<in> all_procs - set (free a) - blocked (wait a) \<longrightarrow> p_semkey (tcb a p) = None)"

definition dev_ok :: "sched \<Rightarrow> bool" where
  "dev_ok a \<longleftrightarrow>
     (\<forall>p\<in>all_procs. \<forall>l d. dev_w_list (tcb a p) = Some (l, d) \<longrightarrow> p \<in> set (wait a (Some (Dev_sem l d))))"

definition child_rel :: "sched \<Rightarrow> (pcb \<times> pcb) set" where
  "child_rel a = {(p, c). p \<in> live a \<and> c \<in> set (kids a p)}"

definition tree_ok :: "sched \<Rightarrow> bool" where
  "tree_ok a \<longleftrightarrow>
     child_rel a \<subseteq> live a \<times> (live a \<inter> all_procs) \<and> acyclic (child_rel a) \<and>
     (\<forall>p\<in>live a. \<forall>q. p_parent (tcb a p) = Some q \<longleftrightarrow> (q, p) \<in> child_rel a)"

text \<open>\<open>core a U\<close> with \<open>U\<close> the processes that are in no queue; in a well-formed state that is
  the running one.\<close>

definition core :: "sched \<Rightarrow> pcb set \<Rightarrow> bool" where
  "core a U \<longleftrightarrow>
     placed a U \<and> by_prio (a_prio a) (ready a) \<and> sem_ok a \<and> dev_ok a \<and> tree_ok a"

definition sched_wf :: "sched \<Rightarrow> bool" where
  "sched_wf a \<longleftrightarrow> running a \<in> insert Idle_proc all_procs \<and> core a {running a}"

section \<open>Preservation\<close>

lemma upd_tcb_simps [simp]:
  "free (upd_tcb p f a) = free a" "ready (upd_tcb p f a) = ready a" "wait (upd_tcb p f a) = wait a"
  "running (upd_tcb p f a) = running a" "kids (upd_tcb p f a) = kids a"
  "tcb (upd_tcb p f a) q = (if q = p then f (tcb a p) else tcb a q)"
  by (simp_all add: upd_tcb_def)

lemma a_raise_simps [simp]:
  "free (a_raise P a) = free a" "ready (a_raise P a) = ready a" "wait (a_raise P a) = wait a"
  "running (a_raise P a) = running a" "kids (a_raise P a) = kids a"
  by (simp_all add: a_raise_def)

lemma a_raise_empty [simp]: "a_raise {} a = a"
  by (simp add: a_raise_def)

lemma by_prio_cong:
  "(\<And>x. x \<in> set q \<Longrightarrow> f x = g x) \<Longrightarrow> by_prio f q = by_prio g q"
  by (induction q) (auto simp: by_prio_Cons)

text \<open>The parts of the invariant depend on few members of the PCBs.\<close>

lemma sem_ok_cong:
  assumes "\<And>p. p \<in> all_procs \<union> blocked (wait a) \<Longrightarrow> p_semkey (tcb b p) = p_semkey (tcb a p)"
    and "wait b = wait a" and "free b = free a"
  shows "sem_ok b = sem_ok a"
proof -
  have "p_semkey (tcb b p) = p_semkey (tcb a p)" if "p \<in> set (wait a k)" for p k
    using that by (intro assms(1)) (auto simp: blocked_iff)
  then show ?thesis using assms unfolding sem_ok_def by auto
qed

lemma dev_ok_cong:
  assumes "\<And>p. p \<in> all_procs \<Longrightarrow> dev_w_list (tcb b p) = dev_w_list (tcb a p)"
    and "wait b = wait a"
  shows "dev_ok b = dev_ok a"
  using assms by (simp add: dev_ok_def)

lemma tree_ok_cong:
  assumes "\<And>p. p \<in> live a \<Longrightarrow> p_parent (tcb b p) = p_parent (tcb a p)"
    and "kids b = kids a" and "free b = free a"
  shows "tree_ok b = tree_ok a"
proof -
  have "live b = live a" "child_rel b = child_rel a"
    using assms by (auto simp: live_def child_rel_def)
  then show ?thesis using assms(1) unfolding tree_ok_def by (simp cong: ball_cong)
qed

lemma core_cong:
  assumes "\<And>p. p_semkey (tcb b p) = p_semkey (tcb a p)"
    and "\<And>p. dev_w_list (tcb b p) = dev_w_list (tcb a p)"
    and "\<And>p. p_parent (tcb b p) = p_parent (tcb a p)"
    and "\<And>p. p \<in> set (ready a) \<Longrightarrow> priority (tcb b p) = priority (tcb a p)"
    and "wait b = wait a" "free b = free a" "ready b = ready a" "kids b = kids a"
  shows "core b U = core a U"
proof -
  have "by_prio (a_prio b) (ready a) = by_prio (a_prio a) (ready a)"
    using assms(4) by (intro by_prio_cong) (simp add: a_prio_def)
  moreover have "placed b U = placed a U" using assms by (simp add: placed_def)
  moreover have "sem_ok b = sem_ok a" using assms by (intro sem_ok_cong) auto
  moreover have "dev_ok b = dev_ok a" using assms by (intro dev_ok_cong) auto
  moreover have "tree_ok b = tree_ok a" using assms by (intro tree_ok_cong) auto
  ultimately show ?thesis using assms by (simp add: core_def)
qed

lemma core_running [simp]: "core (a\<lparr>running := p\<rparr>) U = core a U"
  by (rule core_cong) simp_all

lemma core_running_ready [simp]:
  "core (a\<lparr>running := p, ready := q\<rparr>) U = core (a\<lparr>ready := q\<rparr>) U"
  by (rule core_cong) simp_all

lemma placed_Idle: "placed a (insert Idle_proc U) = placed a U"
proof -
  have "all_procs - insert Idle_proc U = all_procs - U" by auto
  then show ?thesis by (simp add: placed_def)
qed

lemma core_Idle: "core a (insert Idle_proc U) = core a U"
  by (simp add: core_def placed_Idle)

lemma a_prio_ready [simp]: "a_prio (a\<lparr>ready := q\<rparr>) = a_prio a" "a_prio (a\<lparr>running := p\<rparr>) = a_prio a"
  "a_prio (a\<lparr>wait := w\<rparr>) = a_prio a" "a_prio (a\<lparr>free := q\<rparr>) = a_prio a" "a_prio (a\<lparr>kids := k\<rparr>) = a_prio a"
  by (simp_all add: a_prio_def fun_eq_iff)

lemma ready_others [simp]:
  "sem_ok (a\<lparr>ready := q\<rparr>) = sem_ok a" "dev_ok (a\<lparr>ready := q\<rparr>) = dev_ok a"
  "tree_ok (a\<lparr>ready := q\<rparr>) = tree_ok a"
proof -
  show "sem_ok (a\<lparr>ready := q\<rparr>) = sem_ok a" by (simp add: sem_ok_def)
  show "dev_ok (a\<lparr>ready := q\<rparr>) = dev_ok a" by (simp add: dev_ok_def)
  show "tree_ok (a\<lparr>ready := q\<rparr>) = tree_ok a" by (rule tree_ok_cong) simp_all
qed

lemma placed_out:
  assumes "placed a U" and "p \<in> U"
  shows "p \<notin> set (free a)" "p \<notin> set (ready a)" "p \<notin> blocked (wait a)"
  using assms by (auto simp: placed_def)

lemma core_requeue:
  assumes core: "core a (insert p U)" and p: "p \<in> all_procs" "p \<notin> U"
  shows "core (a_requeue p a) U"
proof -
  have pl: "placed a (insert p U)" using core by (simp add: core_def)
  note out = placed_out [OF pl insertI1]
  have "placed (a_requeue p a) U"
    using pl p out unfolding placed_def a_requeue_def by auto
  then show ?thesis
    using core by (simp add: core_def a_requeue_def by_prio_q_insert)
qed

lemma core_upd_tcb:
  assumes "\<And>c. p_semkey (f c) = p_semkey c" "\<And>c. dev_w_list (f c) = dev_w_list c"
    "\<And>c. p_parent (f c) = p_parent c" and "p \<notin> set (ready a)"
  shows "core (upd_tcb p f a) U = core a U"
  using assms by (intro core_cong) auto

lemma core_stop:
  assumes core: "core a (insert (running a) U)" and r: "running a \<in> insert Idle_proc all_procs" "running a \<notin> U"
  shows "core (a_stop a) U"
proof (cases "running a = Idle_proc")
  case True
  then show ?thesis using core by (simp add: a_stop_def core_Idle)
next
  case False
  have "running a \<notin> set (ready a)" using core placed_out [of a] by (auto simp: core_def)
  then have "core (upd_tcb (running a) (\<lambda>c. c\<lparr>priority := original_priority c\<rparr>) a)
      (insert (running a) U)"
    using core by (subst core_upd_tcb) simp_all
  then have "core (a_requeue (running a)
      (upd_tcb (running a) (\<lambda>c. c\<lparr>priority := original_priority c\<rparr>) a)) U"
    by (rule core_requeue) (use r False in auto)
  then show ?thesis using False by (simp add: a_stop_def)
qed

lemma core_pop:
  assumes core: "core a U" and q: "ready a = p # q"
  shows "core (a\<lparr>ready := q\<rparr>) (insert p U)" "p \<in> all_procs" "p \<notin> U"
proof -
  have pl: "placed a U" using core by (simp add: core_def)
  show "p \<in> all_procs" "p \<notin> U" using pl q by (auto simp: placed_def)
  have "placed (a\<lparr>ready := q\<rparr>) (insert p U)" using pl q unfolding placed_def by auto
  then show "core (a\<lparr>ready := q\<rparr>) (insert p U)"
    using core q by (simp add: core_def by_prio_Cons)
qed

lemma core_dispatch:
  assumes "core a U"
  shows "core (a_dispatch a) (insert (running (a_dispatch a)) U)"
    "running (a_dispatch a) \<in> insert Idle_proc all_procs"
proof -
  show "core (a_dispatch a) (insert (running (a_dispatch a)) U)"
  proof (cases "ready a")
    case Nil
    then show ?thesis using assms by (simp add: a_dispatch_def core_Idle)
  next
    case (Cons p q)
    then show ?thesis using core_pop(1) [OF assms Cons]
      by (simp add: a_dispatch_def)
  qed
  show "running (a_dispatch a) \<in> insert Idle_proc all_procs"
    using core_pop(2) [OF assms] by (auto simp: a_dispatch_def split: list.split)
qed

lemma sched_wf_schedule:
  assumes core: "core a {p, running a}" and p: "p \<in> all_procs" "p \<noteq> running a"
    and r: "running a \<in> insert Idle_proc all_procs"
  shows "sched_wf (a_schedule p a)"
proof (cases "a_prio a p > a_prio a (running a) \<or> running a = Idle_proc")
  case True
  have "core (a_stop a) {p}"
    by (rule core_stop) (use core p r in \<open>auto simp: insert_commute\<close>)
  then show ?thesis using True p by (simp add: a_schedule_def sched_wf_def)
next
  case False
  have "core (a_requeue p a) {running a}" by (rule core_requeue) (use core p in auto)
  then show ?thesis using False r by (auto simp: a_schedule_def sched_wf_def a_requeue_def)
qed

section \<open>The operations keep the state well-formed\<close>

lemma sint_plus_1:
  "sint (n :: c_int) < 2147483647 \<Longrightarrow> sint (n + 1) = sint n + 1"
  using sint_ge [of n] sint_lt [of n]
  by (simp add: sint_word_ariths signed_take_bit_int_eq_self)

text \<open>The priorities can be raised without overflow.\<close>

definition can_raise :: "sched \<Rightarrow> pcb set \<Rightarrow> bool" where
  "can_raise a P \<longleftrightarrow> (\<forall>p\<in>P. a_prio a p < 2147483647)"

lemma a_prio_raise:
  "can_raise a P \<Longrightarrow> a_prio (a_raise P a) p = a_prio a p + (if p \<in> P then 1 else 0)"
  by (simp add: can_raise_def a_prio_def a_raise_def sint_plus_1)

lemma core_raise_other:
  "P \<inter> set (ready a) = {} \<Longrightarrow> core (a_raise P a) U = core a U"
  by (rule core_cong) (auto simp: a_raise_def)

lemma core_raise_ready:
  assumes "core a U" and "can_raise a (set (ready a))"
  shows "core (a_raise (set (ready a)) a) U"
proof -
  let ?b = "a_raise (set (ready a)) a"
  have "by_prio (a_prio ?b) (ready a) = by_prio (\<lambda>p. a_prio a p + 1) (ready a)"
    by (rule by_prio_cong) (simp add: a_prio_raise [OF assms(2)])
  then have "by_prio (a_prio ?b) (ready a) = by_prio (a_prio a) (ready a)"
    by (simp add: by_prio_def)
  moreover have "placed ?b U = placed a U" by (simp add: placed_def)
  moreover have "sem_ok ?b = sem_ok a" by (rule sem_ok_cong) (simp_all add: a_raise_def)
  moreover have "dev_ok ?b = dev_ok a" by (rule dev_ok_cong) (simp_all add: a_raise_def)
  moreover have "tree_ok ?b = tree_ok a" by (rule tree_ok_cong) (simp_all add: a_raise_def)
  ultimately show ?thesis using assms(1) by (simp add: core_def)
qed

lemma sched_wf_time_slice:
  assumes wf: "sched_wf a" and can: "can_raise a (set (ready a))"
  shows "sched_wf (a_time_slice a)"
proof -
  let ?b = "a_raise (set (ready a)) a"
  have r: "running a \<in> insert Idle_proc all_procs" using wf by (simp add: sched_wf_def)
  have b: "core ?b {running a}" using wf can by (simp add: sched_wf_def core_raise_ready)
  show ?thesis
  proof (cases "ready a")
    case Nil
    then show ?thesis using b r by (simp add: a_time_slice_def sched_wf_def)
  next
    case (Cons h q)
    let ?c = "?b\<lparr>ready := q\<rparr>"
    have "ready ?b = h # q" using Cons by simp
    note pop = core_pop [OF b this]
    have "core (a_stop ?c) {h}"
      using pop r by (intro core_stop) (auto simp: insert_commute)
    then show ?thesis
      using Cons b r pop(2) by (simp add: a_time_slice_def sched_wf_def Let_def)
  qed
qed

lemma blocked_upd:
  "blocked (w(k := q)) = (\<Union>l\<in>- {k}. set (w l)) \<union> set q"
  by (auto simp: blocked_def split: if_splits)

lemma blocked_split: "blocked w = (\<Union>l\<in>- {k}. set (w l)) \<union> set (w k)"
  by (auto simp: blocked_def)

lemma core_block:
  assumes core: "core a (insert r U)" and r: "r \<in> all_procs" "r \<notin> U" and key: "key \<noteq> None"
    and q: "set q = insert r (set (wait a key))" "distinct q"
  shows "core ((upd_tcb r (\<lambda>c. c\<lparr>p_semkey := key\<rparr>) a)\<lparr>wait := (wait a)(key := q)\<rparr>) U"
proof -
  let ?a = "upd_tcb r (\<lambda>c. c\<lparr>p_semkey := key\<rparr>) a"
  let ?b = "?a\<lparr>wait := (wait a)(key := q)\<rparr>"
  have pl: "placed a (insert r U)" and sem: "sem_ok a" and dev: "dev_ok a" and tree: "tree_ok a"
    and pri: "by_prio (a_prio a) (ready a)"
    using core by (simp_all add: core_def)
  note out = placed_out [OF pl insertI1]
  have w: "blocked (wait ?b) = insert r (blocked (wait a))"
    using q by (simp add: blocked_upd blocked_split [of "wait a" key])
  have nr: "r \<notin> set (wait a k)" for k using out by (auto simp: blocked_iff)
  have "placed ?b U"
    using pl out r q nr unfolding placed_def w by (auto split: if_splits)
  moreover have "sem_ok ?b"
    using sem key q out nr unfolding sem_ok_def w by auto
  moreover have "dev_ok ?b"
    using dev q by (auto simp: dev_ok_def split: if_splits)
  moreover have "tree_ok ?b"
    using tree by (subst tree_ok_cong [of a]) simp_all
  moreover have "by_prio (a_prio ?b) (ready ?b)"
    using pri out by (subst by_prio_cong [of _ _ "a_prio a"]) (auto simp: a_prio_def)
  ultimately show ?thesis by (simp add: core_def)
qed

lemma sched_wf_block:
  assumes wf: "sched_wf a" and r: "running a \<noteq> Idle_proc" and key: "key \<noteq> None"
  shows "sched_wf (a_block key a)"
proof -
  have c: "core a {running a}" "running a \<in> all_procs" using wf r by (auto simp: sched_wf_def)
  then have "running a \<notin> blocked (wait a)" "distinct (wait a key)"
    using placed_out [of a "{running a}"] by (auto simp: core_def placed_def)
  then have "core ((upd_tcb (running a) (\<lambda>c. c\<lparr>p_semkey := key\<rparr>) a)
      \<lparr>wait := (wait a)(key := q_insert (a_prio a) (running a) (wait a key))\<rparr>) {}"
    using c key by (intro core_block) (auto simp: blocked_iff)
  from core_dispatch [OF this] show ?thesis
    unfolding a_block_def Let_def sched_wf_def by simp
qed

lemma placed_wait:
  assumes pl: "placed a U" and w: "wait a key = p # q"
  shows "p \<in> blocked (wait a)" "set q \<subseteq> blocked (wait a)" "distinct (p # q)"
    "p \<in> set (wait a k) \<Longrightarrow> k = key" "p \<in> all_procs" "p \<notin> U"
proof -
  have "set (p # q) \<subseteq> blocked (wait a)" using w unfolding blocked_def by (metis UN_upper UNIV_I)
  then show pk: "p \<in> blocked (wait a)" "set q \<subseteq> blocked (wait a)" by auto
  show "distinct (p # q)" using pl w by (metis placed_def)
  have "p \<in> set (wait a key)" using w by simp
  then show "p \<in> set (wait a k) \<Longrightarrow> k = key" using pl unfolding placed_def by blast
  show "p \<in> all_procs" "p \<notin> U" using pl pk unfolding placed_def by blast+
qed

lemma placed_wait_ready:
  "placed a U \<Longrightarrow> wait a key = p # q \<Longrightarrow> set q \<inter> set (ready a) = {}"
  using placed_wait(2) [of a U key p q] unfolding placed_def by blast

lemma blocked_wake:
  assumes "placed a U" and "wait a key = p # q"
  shows "blocked ((wait a)(key := q)) = blocked (wait a) - {p}"
  using placed_wait(3,4) [OF assms] assms(2)
  by (auto simp: blocked_upd blocked_split [of "wait a" key])

lemma placed_wake:
  assumes pl: "placed a U" and w: "wait a key = p # q"
    and b: "free b = free a" "ready b = ready a" "wait b = (wait a)(key := q)"
  shows "placed b (insert p U)"
  using pl placed_wait [OF pl w] w unfolding placed_def b blocked_wake [OF pl w]
  by (auto split: if_splits)

text \<open>A process taken from a waiting queue: it has no semaphore any more.\<close>

definition a_unblock :: "int_ptr option \<Rightarrow> pcb \<Rightarrow> pcb list \<Rightarrow> sched \<Rightarrow> sched" where
  "a_unblock key p q a = (upd_tcb p (\<lambda>c. c\<lparr>p_semkey := None\<rparr>) a)\<lparr>wait := (wait a)(key := q)\<rparr>"

lemma core_unblock:
  assumes core: "core a U" and wait: "wait a key = p # q" and dev: "dev_w_list (tcb a p) = None"
  shows "core (a_unblock key p q a) (insert p U)"
proof -
  let ?b = "a_unblock key p q a"
  have pl: "placed a U" and sem: "sem_ok a" and dok: "dev_ok a" and tree: "tree_ok a"
    and pri: "by_prio (a_prio a) (ready a)"
    using core by (simp_all add: core_def)
  note p = placed_wait [OF pl wait] and [simp] = a_unblock_def
  have pw: "placed ?b (insert p U)" by (rule placed_wake [OF pl wait]) simp_all
  have w: "blocked (wait ?b) = blocked (wait a) - {p}" using blocked_wake [OF pl wait] by simp
  have "sem_ok ?b"
    using sem wait p(3,4) unfolding sem_ok_def w by (auto split: if_splits)
  moreover have "dev_ok ?b"
    using dok dev wait by (fastforce simp: dev_ok_def)
  moreover have "tree_ok ?b"
    using tree by (subst tree_ok_cong [of a]) simp_all
  moreover have "by_prio (a_prio ?b) (ready ?b)"
    using pri pl p(1) by (subst by_prio_cong [of _ _ "a_prio a"]) (auto simp: a_prio_def placed_def)
  ultimately show "core ?b (insert p U)" using pw by (simp add: core_def)
qed

lemma core_wake:
  assumes core: "core a U" and wait: "wait a key = p # q" and dev: "dev_w_list (tcb a p) = None"
  shows "core ((upd_tcb p (\<lambda>c. c\<lparr>p_semkey := None, priority := original_priority c\<rparr>) a)
      \<lparr>wait := (wait a)(key := q)\<rparr>) (insert p U)"
proof -
  have pl: "placed a U" using core by (simp add: core_def)
  have "p \<notin> set (ready (a_unblock key p q a))"
    using pl placed_wait(1) [OF pl wait] by (auto simp: placed_def a_unblock_def)
  from core_upd_tcb [OF _ _ _ this, of "\<lambda>c. c\<lparr>priority := original_priority c\<rparr>"]
  have "core (upd_tcb p (\<lambda>c. c\<lparr>priority := original_priority c\<rparr>) (a_unblock key p q a)) (insert p U)"
    using core_unblock [OF assms] by simp
  then show ?thesis by (cases a) (simp add: a_unblock_def upd_tcb_def)
qed

lemma sched_wf_wake:
  assumes wf: "sched_wf a" and dev: "\<And>l d. key \<noteq> Some (Dev_sem l d)"
  shows "sched_wf (a_wake key a)"
proof (cases "wait a key")
  case Nil
  then show ?thesis using wf by (simp add: a_wake_def)
next
  case (Cons p q)
  have c: "core a {running a}" "running a \<in> insert Idle_proc all_procs" using wf by (auto simp: sched_wf_def)
  have pl: "placed a {running a}" and dok: "dev_ok a" using c by (simp_all add: core_def)
  have pk: "p \<in> set (wait a key)" using Cons by simp
  then have "p \<in> all_procs" using pl unfolding placed_def blocked_def by blast
  have "dev_w_list (tcb a p) = None"
  proof (rule ccontr)
    assume "dev_w_list (tcb a p) \<noteq> None"
    then obtain l d where "dev_w_list (tcb a p) = Some (l, d)" by auto
    then have "p \<in> set (wait a (Some (Dev_sem l d)))"
      using dok \<open>p \<in> all_procs\<close> by (auto simp: dev_ok_def)
    then show False using pk pl dev unfolding placed_def by blast
  qed
  note w = core_wake [OF c(1) Cons this] placed_wait(5,6) [OF pl Cons] placed_wait_ready [OF pl Cons]
  show ?thesis
    unfolding a_wake_def Cons list.case
    by (intro sched_wf_schedule) (use w c in \<open>auto simp: core_raise_other insert_commute\<close>)
qed

lemma core_create:
  assumes core: "core a U" and free: "free a = p # q" and r: "r \<in> insert Idle_proc all_procs" "r \<notin> set (free a)"
  shows "core ((upd_tcb p (\<lambda>c. (fresh_pcb c)\<lparr>p_s := st, priority := pri, original_priority := pri,
                  p_parent := Some r\<rparr>) a)
      \<lparr>free := q, kids := (kids a)(p := [], r := kids a r @ [p])\<rparr>) (insert p U)" (is "core ?b _")
    and "p \<in> all_procs" "p \<notin> U"
proof -
  have pl: "placed a U" and sem: "sem_ok a" and dok: "dev_ok a" and tree: "tree_ok a"
    and bp: "by_prio (a_prio a) (ready a)"
    using core by (simp_all add: core_def)
  have p: "p \<notin> set q" "p \<notin> set (ready a)" "p \<notin> blocked (wait a)" and pr: "p \<noteq> r"
    using pl free r unfolding placed_def by auto
  show pA: "p \<in> all_procs" "p \<notin> U" using pl free unfolding placed_def by auto
  have "placed ?b (insert p U)"
    using pl free p unfolding placed_def by auto
  moreover have "sem_ok ?b"
    using sem p free unfolding sem_ok_def by (auto simp: fresh_pcb_def blocked_iff)
  moreover have "dev_ok ?b"
    using dok by (auto simp: dev_ok_def fresh_pcb_def)
  moreover have "tree_ok ?b"
  proof -
    have live: "live ?b = insert p (live a)" and pn: "p \<notin> live a" and rl: "r \<in> live a"
      using free p pA r by (auto simp: live_def)
    have rel: "child_rel ?b = insert (r, p) (child_rel a)"
      using live pn rl pr by (auto simp: child_rel_def split: if_splits)
    have sub: "child_rel a \<subseteq> live a \<times> (live a \<inter> all_procs)" "acyclic (child_rel a)"
      using tree by (auto simp: tree_ok_def)
    have np: "(p, x) \<notin> child_rel a" "(x, p) \<notin> child_rel a" for x using sub pn by auto
    then have "(p, r) \<notin> (child_rel a)\<^sup>*" using pr by (meson converse_rtranclE)
    then have "acyclic (child_rel ?b)" using sub by (simp add: rel acyclic_insert)
    moreover have "\<forall>x\<in>live ?b. \<forall>q. p_parent (tcb ?b x) = Some q \<longleftrightarrow> (q, x) \<in> child_rel ?b"
      using tree np pn unfolding live rel tree_ok_def by (auto simp: fresh_pcb_def)
    ultimately show ?thesis
      using sub rl pA unfolding tree_ok_def rel live by auto
  qed
  moreover have "by_prio (a_prio ?b) (ready ?b)"
    using bp p by (subst by_prio_cong [of _ _ "a_prio a"]) (auto simp: a_prio_def)
  ultimately show "core ?b (insert p U)" by (simp add: core_def)
qed

lemma sched_wf_create:
  assumes wf: "sched_wf a"
  shows "sched_wf (a_create st pri a)"
proof (cases "free a")
  case Nil
  then show ?thesis using wf by (simp add: a_create_def)
next
  case (Cons p q)
  have c: "core a {running a}" and r: "running a \<in> insert Idle_proc all_procs"
    using wf by (auto simp: sched_wf_def)
  have "running a \<notin> set (free a)" using placed_out [of a "{running a}"] c by (auto simp: core_def)
  note n = core_create(1) [OF c Cons r this, where st = st and pri = pri] core_create(2,3) [OF c Cons r this]
  show ?thesis
    unfolding a_create_def Cons list.case
    by (intro sched_wf_schedule) (use n r in \<open>auto simp: insert_commute\<close>)
qed

lemma core_flush [simp]: "core (a_flush_kernel t p a) U = core a U"
  by (rule core_cong) (simp_all add: a_flush_kernel_def)

lemma sched_wf_flush [simp]: "sched_wf (a_flush_kernel t p a) = sched_wf a"
  by (simp add: sched_wf_def) (simp add: a_flush_kernel_def)

end
