(* ===== verification/Sched_Refine.thy ===== *)
theory Sched_Refine
  imports Scheduler Sched_Spec Pcb_Tree
begin

text \<open>
  The scheduler's code implements the abstract scheduler.

  \<open>repr s a\<close>: the memory \<open>s\<close> represents the abstract state \<open>a\<close>. Each lemma \<open>.._refines\<close> runs
  one routine on such a memory: it returns (no panic, no NULL pointer, no endless loop), in a
  memory that represents the result of the abstract operation, with the rest of the kernel's
  variables unchanged (\<open>rest_same\<close>).
\<close>

section \<open>Representation\<close>

definition sched_heads :: "lh set" where
  "sched_heads = {PcbFree_h, Ready_queue} \<union> S_procQ ` {..<MAXPROC}"

definition own_queues :: "sched \<Rightarrow> lh \<Rightarrow> pcb list" where
  "own_queues a h =
     (if h = PcbFree_h then free a else if h = Ready_queue then ready a else [])"

text \<open>The tables alone, as they are before a process has been launched, and with the running
  process.\<close>

definition tables :: "'a kern_scheme \<Rightarrow> sched \<Rightarrow> bool" where
  "tables s a \<longleftrightarrow>
     asl s sched_heads (own_queues a) (wait a) \<and> tree_rep s (live a) (kids a) \<and> pcbs s = tcb a"

definition repr :: "'a kern_scheme \<Rightarrow> sched \<Rightarrow> bool" where
  "repr s a \<longleftrightarrow>
     asl s sched_heads (own_queues a) (wait a) \<and> tree_rep s (live a) (kids a) \<and>
     running_proc s = Some (running a) \<and> pcbs s = tcb a"

lemma repr_tables: "repr s a \<longleftrightarrow> tables s a \<and> running_proc s = Some (running a)"
  by (auto simp: repr_def tables_def)

text \<open>All the scheduler's variables except \<open>running_proc\<close>, and the memory of the processes.\<close>

definition rest_same :: "'a kern_scheme \<Rightarrow> 'a kern_scheme \<Rightarrow> bool" where
  "rest_same s t \<longleftrightarrow>
     clock_ticks_per_time_slice t = clock_ticks_per_time_slice s \<and>
     w_for_cmd_sem t = w_for_cmd_sem s \<and> w_for_res t = w_for_res s \<and>
     user_word t = user_word s \<and> user_state t = user_state s \<and> bus t = bus s \<and>
     kern.more t = kern.more s"

text \<open>The memory of the processes.\<close>

definition memory_same :: "'a kern_scheme \<Rightarrow> 'b kern_scheme \<Rightarrow> bool" where
  "memory_same s t \<longleftrightarrow> user_word t = user_word s \<and> user_state t = user_state s"

lemma rest_same_refl [simp]: "rest_same s s"
  by (simp add: rest_same_def)

lemma rest_same_trans: "rest_same s t \<Longrightarrow> rest_same t u \<Longrightarrow> rest_same s u"
  by (simp add: rest_same_def)

lemma asl_more_same:
  "asl_mem.more t = asl_mem.more s \<Longrightarrow> running_proc t = running_proc s \<and> rest_same s t"
  by (cases s; cases t) (simp add: rest_same_def)

lemma pcb_more_same:
  "pcb_mem.more t = pcb_mem.more s \<Longrightarrow> running_proc t = running_proc s \<and> rest_same s t"
  by (cases s; cases t) (simp add: rest_same_def)

lemma asl_frame_same: "asl_frame s t \<Longrightarrow> running_proc t = running_proc s \<and> rest_same s t"
  by (rule asl_more_same) (simp add: asl_frame_def)

lemma links_only_same: "links_only F s t \<Longrightarrow> running_proc t = running_proc s \<and> rest_same s t"
  by (rule asl_more_same) (simp add: links_only_asl)

lemma pcb_only_same: "pcb_only F P s t \<Longrightarrow> running_proc t = running_proc s \<and> rest_same s t"
  by (rule pcb_more_same) (simp add: pcb_only_def)

lemma own_queues_simps [simp]:
  "own_queues a PcbFree_h = free a" "own_queues a Ready_queue = ready a"
  "own_queues (a\<lparr>ready := q\<rparr>) = (own_queues a)(Ready_queue := q)"
  "own_queues (a\<lparr>free := q\<rparr>) = (own_queues a)(PcbFree_h := q)"
  "own_queues (a\<lparr>running := p\<rparr>) = own_queues a"
  "own_queues (a\<lparr>wait := w\<rparr>) = own_queues a"
  "own_queues (a\<lparr>kids := k\<rparr>) = own_queues a"
  "own_queues (a\<lparr>tcb := c\<rparr>) = own_queues a"
  "own_queues (upd_tcb p f a) = own_queues a" "own_queues (a_raise P a) = own_queues a"
  by (auto simp: own_queues_def fun_eq_iff)

lemma sched_heads_simps [simp]:
  "PcbFree_h \<in> sched_heads" "Ready_queue \<in> sched_heads"
  by (auto simp: sched_heads_def)

lemma own_members_sched [simp]: "own_members sched_heads (own_queues a) = set (free a) \<union> set (ready a)"
  by (auto simp: own_members_def members_def sched_heads_def own_queues_def)

definition unqueued :: "pcb \<Rightarrow> sched \<Rightarrow> bool" where
  "unqueued p a \<longleftrightarrow> p \<notin> set (free a) \<and> p \<notin> set (ready a) \<and> p \<notin> blocked (wait a)"

lemma unqueued_simps [simp]:
  "unqueued p (upd_tcb q f a) = unqueued p a" "unqueued p (a\<lparr>running := r\<rparr>) = unqueued p a"
  by (simp_all add: unqueued_def)

lemma live_simps [simp]:
  "live (a\<lparr>ready := q\<rparr>) = live a" "live (a\<lparr>running := p\<rparr>) = live a" "live (a\<lparr>wait := w\<rparr>) = live a"
  "live (a\<lparr>tcb := c\<rparr>) = live a" "live (a\<lparr>kids := k\<rparr>) = live a" "live (upd_tcb p f a) = live a"
  "live (a_raise P a) = live a"
  by (simp_all add: live_def)

section \<open>Elementary steps\<close>

lemma upd_pcb_tables:
  assumes "tables s a" and "\<And>c. p_parent (f c) = p_parent c"
    and "(\<forall>c. p_semkey (f c) = p_semkey c) \<or> p \<notin> blocked (wait a)"
  shows "tables (upd_pcb p f s) (upd_tcb p f a) \<and> rest_same s (upd_pcb p f s) \<and>
    running_proc (upd_pcb p f s) = running_proc s"
proof -
  have "asl (upd_pcb p f s) sched_heads (own_queues a) (wait a)"
    by (rule asl_same_queues [of s]) (use assms in \<open>auto simp: tables_def\<close>)
  moreover have "tree_rep (upd_pcb p f s) (live a) (kids a) = tree_rep s (live a) (kids a)"
    by (rule tree_rep_asl_frame [OF asl_frame_upd(1)]) (simp add: assms(2))
  ultimately show ?thesis
    using assms(1) asl_frame_same [of s "upd_pcb p f s"]
    by (simp add: tables_def upd_tcb_def) (simp add: upd_pcb_def)
qed

lemma upd_pcb_refines:
  assumes "repr s a" and "\<And>c. p_parent (f c) = p_parent c"
    and "(\<forall>c. p_semkey (f c) = p_semkey c) \<or> p \<notin> blocked (wait a)"
  shows "repr (upd_pcb p f s) (upd_tcb p f a) \<and> rest_same s (upd_pcb p f s)"
  using upd_pcb_tables [of s a f p] assms by (simp add: repr_tables)

lemma tables_links:
  assumes r: "tables s a" and l: "links_only proc_cells s t"
    and asl: "asl t sched_heads (own_queues b) (wait b)"
    and same: "live b = live a" "kids b = kids a" "tcb b = tcb a"
  shows "tables t b \<and> rest_same s t \<and> running_proc t = running_proc s"
proof -
  note p = pcbs_links_only [OF l]
  have "tree_rep t (live a) (kids a) = tree_rep s (live a) (kids a)"
    by (rule tree_rep_asl_frame [OF links_only_frame_proc [OF l]]) (simp add: p)
  then show ?thesis using r asl same p links_only_same [OF l] by (simp add: tables_def)
qed

lemma repr_links:
  assumes r: "repr s a" and l: "links_only proc_cells s t"
    and asl: "asl t sched_heads (own_queues b) (wait b)"
    and same: "live b = live a" "kids b = kids a" "running b = running a" "tcb b = tcb a"
  shows "repr t b \<and> rest_same s t"
  using tables_links [OF _ l asl same(1,2,4)] r same(3) by (simp add: repr_tables)

lemma not_procQ [simp]: "Ready_queue \<notin> range S_procQ" "PcbFree_h \<notin> range S_procQ"
  by auto

lemma insert_ready_tables:
  assumes r: "tables s a" and p: "unqueued p a"
  shows "ok (insertProcQ Ready_queue p s)
    (\<lambda>t. tables t (a_requeue p a) \<and> rest_same s t \<and> running_proc t = running_proc s)"
proof -
  have pr: "prio s = a_prio a" using r by (simp add: tables_def prio_def a_prio_def fun_eq_iff)
  have "asl s sched_heads (own_queues a) (wait a)" using r by (simp add: tables_def)
  then have "ok (insertProcQ Ready_queue p s) (\<lambda>t. asl t sched_heads
      ((own_queues a)(Ready_queue := q_insert (a_prio a) p (ready a))) (wait a) \<and> links_only proc_cells s t)"
    using insertProcQ_asl [of s sched_heads "own_queues a" "wait a" Ready_queue p] p
    by (simp add: pr unqueued_def)
  then show ?thesis
    by (rule ok_mono) (rule tables_links [OF r], auto simp: a_requeue_def)
qed

lemma insert_ready_refines:
  assumes r: "repr s a" and p: "unqueued p a"
  shows "ok (insertProcQ Ready_queue p s) (\<lambda>t. repr t (a_requeue p a) \<and> rest_same s t)"
  using insert_ready_tables [OF _ p, of s] r
  by (auto simp: repr_tables a_requeue_def elim!: ok_mono)

text \<open>An update of the scheduler's own variables.\<close>

lemma repr_cong:
  fixes s t :: "'a kern_scheme"
  assumes r: "repr s a" and links: "lh_next t = lh_next s" "lh_prev t = lh_prev s" "s_key t = s_key s"
    and pcbs: "pcbs t = pcbs s" and run: "running_proc t = Some q"
  shows "repr t (a\<lparr>running := q\<rparr>)"
proof -
  have "asl t sched_heads (own_queues a) (wait a)"
    by (rule asl_same_queues [of s]) (use r links pcbs in \<open>auto simp: repr_def same_queues_def\<close>)
  moreover have "tree_rep t (live a) (kids a) = tree_rep s (live a) (kids a)"
    by (rule tree_rep_frame) (simp_all add: links pcbs)
  ultimately show ?thesis using r pcbs run by (simp add: repr_def)
qed

lemma repr_running_eq: "repr s a \<Longrightarrow> a\<lparr>running := running a\<rparr> = a"
  by simp

lemma set_running_refines:
  assumes "repr s a"
  shows "repr (set_running_proc q s) (a\<lparr>running := (case q of None \<Rightarrow> Idle_proc | Some p \<Rightarrow> p)\<rparr>) \<and>
    rest_same s (set_running_proc q s)"
proof -
  have "repr (set_running_proc q s) (a\<lparr>running := (case q of None \<Rightarrow> Idle_proc | Some p \<Rightarrow> p)\<rparr>)"
    by (rule repr_cong [OF assms]) (auto simp: set_running_proc_def split: option.split)
  then show ?thesis by (auto simp: set_running_proc_def rest_same_def split: option.split)
qed

lemma remove_ready_tables:
  assumes r: "tables s a"
  shows "ok (removeProcQ Ready_queue s) (\<lambda>(r, t). tables t (a\<lparr>ready := tl (ready a)\<rparr>) \<and>
    rest_same s t \<and> running_proc t = running_proc s \<and>
    r = (case ready a of [] \<Rightarrow> None | p # _ \<Rightarrow> Some p))"
proof -
  have "asl s sched_heads (own_queues a) (wait a)" using r by (simp add: tables_def)
  from removeProcQ_asl [OF this sched_heads_simps(2) not_procQ(1)] show ?thesis
  proof (rule ok_mono, clarify)
    fix q t
    assume "links_only proc_cells s t"
      "asl t sched_heads ((own_queues a)(Ready_queue := tl (own_queues a Ready_queue))) (wait a)"
    then have "tables t (a\<lparr>ready := tl (ready a)\<rparr>) \<and> rest_same s t \<and> running_proc t = running_proc s"
      by (intro tables_links [OF r]) auto
    then show "tables t (a\<lparr>ready := tl (ready a)\<rparr>) \<and> rest_same s t \<and> running_proc t = running_proc s \<and>
        (case own_queues a Ready_queue of [] \<Rightarrow> None | p # _ \<Rightarrow> Some p) =
        (case ready a of [] \<Rightarrow> None | p # _ \<Rightarrow> Some p)" by simp
  qed
qed

lemma remove_ready_refines:
  assumes r: "repr s a"
  shows "ok (removeProcQ Ready_queue s) (\<lambda>(r, t). repr t (a\<lparr>ready := tl (ready a)\<rparr>) \<and>
    rest_same s t \<and> r = (case ready a of [] \<Rightarrow> None | p # _ \<Rightarrow> Some p))"
  using remove_ready_tables [of s a] r by (auto simp: repr_tables elim!: ok_mono)

section \<open>The scheduler's operations\<close>

lemma stop_running_refines:
  assumes r: "repr s a" and u: "running a \<noteq> Idle_proc \<Longrightarrow> unqueued (running a) a"
  shows "ok (stop_running_proc s) (\<lambda>t. repr t (a_stop a) \<and> rest_same s t)"
proof (cases "running a = Idle_proc")
  case True
  then show ?thesis using r by (simp add: stop_running_proc_def a_stop_def repr_def)
next
  case False
  let ?f = "\<lambda>c. c\<lparr>priority := original_priority c\<rparr>"
  have run: "running_proc s = Some (running a)" using r by (simp add: repr_def)
  have u': "repr (upd_pcb (running a) ?f s) (upd_tcb (running a) ?f a) \<and>
      rest_same s (upd_pcb (running a) ?f s)"
    by (rule upd_pcb_refines [OF r]) simp_all
  have "ok (insertProcQ Ready_queue (running a) (upd_pcb (running a) ?f s))
      (\<lambda>t. repr t (a_requeue (running a) (upd_tcb (running a) ?f a)) \<and>
        rest_same (upd_pcb (running a) ?f s) t)"
    by (rule insert_ready_refines) (use u' u False in auto)
  then show ?thesis
    using run False u' by (auto simp: stop_running_proc_def a_stop_def elim!: ok_mono intro: rest_same_trans)
qed

lemma dispatch_refines:
  assumes r: "repr s a"
  shows "ok (removeProcQ Ready_queue s) (\<lambda>(q, t). repr (set_running_proc q t) (a_dispatch a) \<and>
    rest_same s (set_running_proc q t))"
  using remove_ready_refines [OF r]
proof (rule ok_mono, clarify)
  fix q t
  assume t: "repr t (a\<lparr>ready := tl (ready a)\<rparr>)" and s: "rest_same s t"
  let ?q = "case ready a of [] \<Rightarrow> None | p # _ \<Rightarrow> Some p"
  have "a\<lparr>ready := tl (ready a), running := (case ?q of None \<Rightarrow> Idle_proc | Some p \<Rightarrow> p)\<rparr> = a_dispatch a"
    by (cases "ready a") (simp_all add: a_dispatch_def)
  then show "repr (set_running_proc ?q t) (a_dispatch a) \<and> rest_same s (set_running_proc ?q t)"
    using set_running_refines [OF t, of ?q] rest_same_trans [OF s] by simp
qed

lemma schedule_refines:
  assumes r: "repr s a" and p: "unqueued p a" and u: "running a \<noteq> Idle_proc \<Longrightarrow> unqueued (running a) a"
  shows "ok (schedule_proc p s) (\<lambda>t. repr t (a_schedule p a) \<and> rest_same s t)"
proof -
  have run: "running_proc s = Some (running a)" and pcbs: "pcbs s = tcb a" using r by (simp_all add: repr_def)
  show ?thesis
  proof (cases "a_prio a p > a_prio a (running a) \<or> running a = Idle_proc")
    case True
    have "repr (set_running_proc (Some p) t) ((a_stop a)\<lparr>running := p\<rparr>) \<and>
        rest_same s (set_running_proc (Some p) t)"
      if t: "repr t (a_stop a)" "rest_same s t" for t
      using set_running_refines [OF t(1), of "Some p"] rest_same_trans [OF t(2)] by simp
    then have "ok (stop_running_proc s) (\<lambda>t. repr (set_running_proc (Some p) t)
        ((a_stop a)\<lparr>running := p\<rparr>) \<and> rest_same s (set_running_proc (Some p) t))"
      using stop_running_refines [OF r u] by (auto elim!: ok_mono)
    then show ?thesis using True by (simp add: schedule_proc_def run pcbs a_schedule_def a_prio_def)
  next
    case False
    then show ?thesis
      using insert_ready_refines [OF r p]
      by (simp add: schedule_proc_def run pcbs a_schedule_def a_prio_def)
  qed
qed

section \<open>Raising priorities\<close>

definition inc_prio :: "pcb_t \<Rightarrow> pcb_t" where
  "inc_prio c = c\<lparr>priority := priority c + PRIORITY_INC_PER_TIME_SLICE\<rparr>"

lemma raise_priorities_fold:
  assumes "dll s h (map P_next q)"
  shows "raise_priorities h s = Inr (fold (\<lambda>p. upd_pcb p inc_prio) q s)"
proof -
  let ?f = "\<lambda>l. case l of P_next p \<Rightarrow> upd_pcb p inc_prio | _ \<Rightarrow> id"
  have "list_for_each_entry (\<lambda>l s.
         andThen (container_of_p_next l) (\<lambda>target_proc.
         Inr (None :: unit option,
              upd_pcb target_proc (\<lambda>c. c\<lparr>priority := priority c + PRIORITY_INC_PER_TIME_SLICE\<rparr>) s))) h s
      = Inr (None, fold ?f (map P_next q) s)"
    by (rule list_for_each_map [OF assms]) (auto simp: inc_prio_def [abs_def])
  moreover have "fold ?f (map P_next q) s = fold (\<lambda>p. upd_pcb p inc_prio) q s"
    by (simp add: fold_map comp_def)
  ultimately show ?thesis by (simp add: raise_priorities_def)
qed

lemma fold_upd_pcb:
  "distinct q \<Longrightarrow> fold (\<lambda>p. upd_pcb p f) q s =
    s\<lparr>pcbs := (\<lambda>p. if p \<in> set q then f (pcbs s p) else pcbs s p)\<rparr>"
proof (induction q arbitrary: s)
  case Nil
  then show ?case by simp
next
  case (Cons x q)
  then show ?case by (simp add: upd_pcb_def) (rule arg_cong [where f = "\<lambda>c. s\<lparr>pcbs := c\<rparr>"], auto)
qed

lemma raise_refines:
  fixes s :: "'a kern_scheme"
  assumes r: "repr s a" and d: "dll s h (map P_next q)"
  shows "ok (raise_priorities h s) (\<lambda>t. repr t (a_raise (set q) a) \<and> rest_same s t)"
proof -
  have "distinct q" using dll_distinct [OF d] by (auto simp: distinct_map)
  let ?c = "\<lambda>p. if p \<in> set q then inc_prio (pcbs s p) else pcbs s p"
  let ?t = "s\<lparr>pcbs := ?c\<rparr>"
  have run: "raise_priorities h s = Inr ?t"
    using raise_priorities_fold [OF d] fold_upd_pcb [OF \<open>distinct q\<close>] by simp
  have "asl ?t sched_heads (own_queues a) (wait a)"
    by (rule asl_same_queues [of s]) (use r in \<open>auto simp: repr_def same_queues_def inc_prio_def\<close>)
  moreover have "tree_rep ?t (live a) (kids a) = tree_rep s (live a) (kids a)"
    by (rule tree_rep_frame) (simp_all add: inc_prio_def)
  moreover have "pcbs ?t = tcb (a_raise (set q) a)"
    using r by (simp add: a_raise_def repr_def inc_prio_def PRIORITY_INC_PER_TIME_SLICE_def fun_eq_iff)
  ultimately show ?thesis
    using r by (simp add: run repr_def rest_same_def)
qed

lemma repr_ready:
  assumes "repr s a"
  shows "dll s Ready_queue (map P_next (ready a))" "list_empty Ready_queue s = (ready a = [])"
    "headProcQ Ready_queue s = Inr (case ready a of [] \<Rightarrow> None | p # _ \<Rightarrow> Some p)"
proof -
  have asl: "asl s sched_heads (own_queues a) (wait a)" using assms by (simp add: repr_def)
  show "dll s Ready_queue (map P_next (ready a))"
    using rings_dll [OF asl_rings [OF asl], of Ready_queue] by auto
  show "list_empty Ready_queue s = (ready a = [])"
    "headProcQ Ready_queue s = Inr (case ready a of [] \<Rightarrow> None | p # _ \<Rightarrow> Some p)"
    using headProcQ_asl [OF asl, of Ready_queue] by auto
qed

lemma time_slice_refines:
  assumes r: "repr s a" and u: "running a \<noteq> Idle_proc \<Longrightarrow> unqueued (running a) a"
  shows "ok (time_slice_callback s) (\<lambda>t. repr t (a_time_slice a) \<and> rest_same s t)"
proof -
  let ?b = "a_raise (set (ready a)) a"
  have tail: "ok (if \<not> list_empty Ready_queue t
     then andThen (deref (running_proc t)) (\<lambda>r. andThen (headProcQ Ready_queue t) (\<lambda>h.
       andThen (deref h) (\<lambda>h. if sint (priority (pcbs t r)) \<le> sint (priority (pcbs t h))
       then andThen (removeProcQ Ready_queue t) (\<lambda>(to_start, s).
            andThen (stop_running_proc s) (\<lambda>s. Inr (set_running_proc to_start s)))
       else Inr t))) else Inr t) (\<lambda>v. repr v (a_time_slice a) \<and> rest_same s v)"
    if t: "repr t ?b" and st: "rest_same s t" for t
  proof (cases "ready a")
    case Nil
    then show ?thesis using t st repr_ready(2) [OF t] by (simp add: a_time_slice_def)
  next
    case (Cons h q)
    have run: "running_proc t = Some (running a)" "pcbs t = tcb ?b" using t by (simp_all add: repr_def)
    let ?c = "?b\<lparr>ready := q\<rparr>"
    have stop: "ok (stop_running_proc v) (\<lambda>x. repr (set_running_proc (Some h) x) ((a_stop ?c)\<lparr>running := h\<rparr>) \<and>
        rest_same s (set_running_proc (Some h) x))"
      if v: "repr v ?c" and sv: "rest_same s v" for v
    proof -
      have "ok (stop_running_proc v) (\<lambda>x. repr x (a_stop ?c) \<and> rest_same v x)"
        using u Cons by (intro stop_running_refines [OF v]) (auto simp: unqueued_def)
      then show ?thesis
        by (rule ok_mono) (use set_running_refines [where q = "Some h"] rest_same_trans [OF sv] rest_same_trans in fastforce)
    qed
    have "ok (removeProcQ Ready_queue t) (\<lambda>(r, v). repr v ?c \<and> rest_same s v \<and> r = Some h)"
      using remove_ready_refines [OF t] by (rule ok_mono) (use Cons rest_same_trans [OF st] in auto)
    then have "ok (andThen (removeProcQ Ready_queue t) (\<lambda>(to_start, s).
            andThen (stop_running_proc s) (\<lambda>s. Inr (set_running_proc to_start s))))
        (\<lambda>v. repr v ((a_stop ?c)\<lparr>running := h\<rparr>) \<and> rest_same s v)"
      using stop by (auto elim!: ok_mono)
    then show ?thesis
      using Cons run repr_ready(2,3) [OF t] t st
      by (simp add: a_time_slice_def a_prio_def del: ok_andThen)
  qed
  show ?thesis
    unfolding time_slice_callback_def ok_andThen
    by (rule ok_mono [OF raise_refines [OF r repr_ready(1) [OF r]]]) (use tail in auto)
qed

section \<open>Semaphores\<close>

lemma read_TOD_refines:
  assumes "repr s a"
  shows "repr (snd (read_TOD w s)) a" "fst (read_TOD w s) = env w (BUS_REG_TOD_LO w) (now (bus s))"
proof -
  have "repr (snd (read_TOD w s)) (a\<lparr>running := running a\<rparr>)"
    by (rule repr_cong [OF assms])
      (use assms in \<open>simp_all add: read_TOD_def TOD_def bus_read_def repr_def\<close>)
  then show "repr (snd (read_TOD w s)) a" by simp
  show "fst (read_TOD w s) = env w (BUS_REG_TOD_LO w) (now (bus s))"
    by (simp add: read_TOD_def TOD_def bus_read_def)
qed

definition tod_at :: "board \<Rightarrow> 'a kern_scheme \<Rightarrow> u32" where
  "tod_at w s = env w (BUS_REG_TOD_LO w) (now (bus s))"

lemma flush_kernel_refines:
  assumes r: "repr s a"
  shows "repr (flush_kernel_time w p s) (a_flush_kernel (tod_at w s) p a) \<and>
    rest_same (snd (read_TOD w s)) (flush_kernel_time w p s)"
proof -
  let ?f = "\<lambda>c. c\<lparr>kernel_timer := kernel_timer c + (tod_at w s - tod_cache c), tod_cache := tod_at w s\<rparr>"
  obtain t u where t: "read_TOD w s = (t, u)" by fastforce
  have "t = tod_at w s" "repr u a" using read_TOD_refines [OF r, of w] t by (simp_all add: tod_at_def)
  then have "flush_kernel_time w p s = upd_pcb p ?f u"
    using t by (simp add: flush_kernel_time_def upd_pcb_def)
  moreover have "repr (upd_pcb p ?f u) (upd_tcb p ?f a) \<and> rest_same u (upd_pcb p ?f u)"
    by (rule upd_pcb_refines [OF \<open>repr u a\<close>]) simp_all
  ultimately show ?thesis by (simp add: a_flush_kernel_def t)
qed

text \<open>The value of a semaphore, stored and restored.\<close>

lemma store_int_refines:
  assumes r: "repr s a" and l: "load_int key s = Inr n"
  obtains t where "store_int key m s = Inr t" "repr t a" "load_int key t = Inr m" "bus t = bus s"
    "\<And>k. k \<noteq> key \<Longrightarrow> load_int k t = load_int k s"
    "\<forall>b u v. rest_same (t\<lparr>bus := b\<rparr>) u \<longrightarrow> store_int key n u = Inr v \<longrightarrow> rest_same (s\<lparr>bus := b\<rparr>) v"
proof -
  obtain k where k: "key = Some k" using l by (cases key) auto
  obtain t where t: "store_int key m s = Inr t" using k by (cases k) auto
  have "repr t (a\<lparr>running := running a\<rparr>)"
    by (rule repr_cong [OF r]) (use t k r in \<open>(cases k; force simp: repr_def)+\<close>)
  moreover have "load_int key t = Inr m" "bus t = bus s" using t k by (cases k; force)+
  moreover have "load_int j t = load_int j s" if "j \<noteq> key" for j
    using t k that by (cases k; cases "(j, s)" rule: load_int.cases) auto
  moreover have "rest_same (s\<lparr>bus := b\<rparr>) v"
    if "rest_same (t\<lparr>bus := b\<rparr>) u" "store_int key n u = Inr v" for b u v
    using that t k l by (cases k) (auto simp: rest_same_def fun_eq_iff)
  ultimately show thesis using that t by simp
qed

lemma load_int_rest:
  "rest_same s t \<Longrightarrow> load_int k t = load_int k s"
  by (cases "(k, s)" rule: load_int.cases) (auto simp: rest_same_def)

lemma insertBlocked_refines:
  assumes r: "repr s a" and p: "unqueued p a" and nf: "\<not> asl_full (wait a)"
  shows "ok (insertBlocked key p s) (\<lambda>(full, t). \<not> full \<and> rest_same s t \<and>
    repr t ((upd_tcb p (\<lambda>c. c\<lparr>p_semkey := key\<rparr>) a)
      \<lparr>wait := (wait a)(key := q_insert (a_prio a) p (wait a key))\<rparr>))"
proof -
  have asl: "asl s sched_heads (own_queues a) (wait a)" using r by (simp add: repr_def)
  have pr: "prio s = a_prio a" using r by (simp add: repr_def prio_def a_prio_def fun_eq_iff)
  have "ok (insertBlocked key p s) (\<lambda>(full, t). insert_result key p (q_insert (prio s) p (wait a key))
      sched_heads (own_queues a) (wait a) s full t)"
    using p by (intro insertBlocked_spec [OF asl]) (auto simp: unqueued_def)
  then show ?thesis
  proof (rule ok_mono, clarify)
    fix full t
    assume "insert_result key p (q_insert (prio s) p (wait a key)) sched_heads (own_queues a) (wait a) s full t"
    then have t: "\<not> full" "asl t sched_heads (own_queues a) ((wait a)(key := q_insert (a_prio a) p (wait a key)))"
        "asl_frame s t" "pcbs t = (pcbs s)(p := (pcbs s p)\<lparr>p_semkey := key\<rparr>)"
      using nf pr by (auto simp: insert_result_def)
    have "tree_rep t (live a) (kids a) = tree_rep s (live a) (kids a)"
      by (rule tree_rep_asl_frame [OF t(3)]) (simp add: t(4))
    then show "\<not> full \<and> rest_same s t \<and>
        repr t ((upd_tcb p (\<lambda>c. c\<lparr>p_semkey := key\<rparr>) a)
          \<lparr>wait := (wait a)(key := q_insert (a_prio a) p (wait a key))\<rparr>)"
      using t r asl_frame_same [OF t(3)] by (simp add: repr_def upd_tcb_def)
  qed
qed

lemma passeren_free:
  assumes r: "repr s a" and l: "load_int key s = Inr n" and n: "0 \<le> sint (n - 1)"
  shows "ok (passeren w key s) (\<lambda>t. repr t a \<and> store_int key (n - 1) s = Inr t)"
proof -
  obtain t where "store_int key (n - 1) s = Inr t" "repr t a" "load_int key t = Inr (n - 1)"
    by (rule store_int_refines [OF r l])
  then show ?thesis using n l by (simp add: passeren_def)
qed

lemma passeren_block:
  assumes r: "repr s a" and l: "load_int key s = Inr n" and n: "sint (n - 1) < 0"
    and u: "unqueued (running a) a" and nf: "\<not> asl_full (wait a)"
  shows "ok (passeren w key s) (\<lambda>t. repr t (a_block key (a_flush_kernel (tod_at w s) (running a) a)) \<and>
    rest_same (snd (read_TOD w s)) t)"
proof -
  let ?r = "running a" and ?af = "a_flush_kernel (tod_at w s) (running a) a"
  obtain t1 where t1: "store_int key (n - 1) s = Inr t1" "repr t1 a" "load_int key t1 = Inr (n - 1)"
      "bus t1 = bus s"
    and restored: "\<forall>b u v. rest_same (t1\<lparr>bus := b\<rparr>) u \<longrightarrow> store_int key n u = Inr v \<longrightarrow> rest_same (s\<lparr>bus := b\<rparr>) v"
    by (rule store_int_refines [OF r l, of "n - 1"], rule that, assumption+)
  define t2 where "t2 = flush_kernel_time w ?r t1"
  define b' where "b' = snd (TOD w (bus s))"
  have td: "tod_at w t1 = tod_at w s" and b: "snd (read_TOD w t1) = t1\<lparr>bus := b'\<rparr>"
      "snd (read_TOD w s) = s\<lparr>bus := b'\<rparr>"
    using t1(4) by (simp_all add: tod_at_def read_TOD_def b'_def split: prod.split)
  have t2: "repr t2 ?af" "rest_same (t1\<lparr>bus := b'\<rparr>) t2"
    using flush_kernel_refines [OF t1(2), of w ?r] by (simp_all add: t2_def td b)
  have run: "running_proc t1 = Some ?r" using t1(2) by (simp add: repr_def)
  have fin: "ok (andThen (load_int key v) (\<lambda>n. store_int key (n + 1) v))
      (\<lambda>x. repr x c \<and> rest_same (snd (read_TOD w s)) x)"
    if v: "repr v c" "rest_same (t1\<lparr>bus := b'\<rparr>) v" for v c
  proof -
    have lv: "load_int key v = Inr (n - 1)"
      using load_int_rest [OF v(2), of key] t1(3) by (cases "(key, t1)" rule: load_int.cases) auto
    obtain x where x: "store_int key n v = Inr x" "repr x c" by (rule store_int_refines [OF v(1) lv, of n])
    then show ?thesis using restored [rule_format, OF v(2) x(1)] by (simp add: lv b)
  qed
  have ins: "ok (insertBlocked key ?r t2) (\<lambda>(full, t). \<not> full \<and> rest_same t2 t \<and>
    repr t ((upd_tcb ?r (\<lambda>c. c\<lparr>p_semkey := key\<rparr>) ?af)
      \<lparr>wait := (wait ?af)(key := q_insert (a_prio ?af) ?r (wait ?af key))\<rparr>))"
    by (rule insertBlocked_refines [OF t2(1)]) (use u nf in \<open>simp_all add: a_flush_kernel_def\<close>)
  have blk: "a_dispatch ((upd_tcb ?r (\<lambda>c. c\<lparr>p_semkey := key\<rparr>) ?af)
      \<lparr>wait := (wait ?af)(key := q_insert (a_prio ?af) ?r (wait ?af key))\<rparr>) = a_block key ?af"
    by (simp add: a_block_def a_flush_kernel_def Let_def)
  have disp: "ok (removeProcQ Ready_queue v) (\<lambda>(q, t). ok (andThen (load_int key (set_running_proc q t))
       (\<lambda>n. store_int key (n + 1) (set_running_proc q t)))
      (\<lambda>x. repr x (a_block key ?af) \<and> rest_same (snd (read_TOD w s)) x))"
    if v: "repr v ((upd_tcb ?r (\<lambda>c. c\<lparr>p_semkey := key\<rparr>) ?af)
      \<lparr>wait := (wait ?af)(key := q_insert (a_prio ?af) ?r (wait ?af key))\<rparr>)" "rest_same t2 v" for v
    using dispatch_refines [OF v(1)] unfolding blk
    by (rule ok_mono) (clarify, rule fin, auto intro: rest_same_trans [OF t2(2)] rest_same_trans [OF v(2)])
  have "ok (insertBlocked key ?r t2) (\<lambda>(full, v). ok (if full then Inl (Panic ''No free SEMDs'')
       else andThen (removeProcQ Ready_queue v) (\<lambda>(q, s). let s = set_running_proc q s in
            andThen (load_int key s) (\<lambda>n. store_int key (n + 1) s)))
      (\<lambda>x. repr x (a_block key ?af) \<and> rest_same (snd (read_TOD w s)) x))"
    using ins by (rule ok_mono) (use disp in \<open>auto simp: Let_def ok_case_prod elim!: ok_mono\<close>)
  then show ?thesis
    using n t1 l run by (auto simp: passeren_def Let_def t2_def [symmetric] elim!: ok_mono)
qed

text \<open>\<open>v\<close>: the first blocked process is woken, those behind it gain priority.\<close>

lemma removeBlocked_refines:
  assumes r: "repr s a"
  shows "ok (removeBlocked key s) (\<lambda>(r, t). rest_same s t \<and>
    (case wait a key of
        [] \<Rightarrow> r = None \<and> t = s
      | p # q \<Rightarrow> r = Some p \<and>
          repr t ((upd_tcb p (\<lambda>c. c\<lparr>p_semkey := None\<rparr>) a)\<lparr>wait := (wait a)(key := q)\<rparr>)))"
proof -
  have asl: "asl s sched_heads (own_queues a) (wait a)" using r by (simp add: repr_def)
  show ?thesis
  proof (cases "wait a key")
    case Nil
    then show ?thesis using removeBlocked_spec [OF asl, of key] by (auto elim!: ok_mono)
  next
    case (Cons p q)
    have *: "rest_same s t \<and>
        repr t ((upd_tcb p (\<lambda>c. c\<lparr>p_semkey := None\<rparr>) a)\<lparr>wait := (wait a)(key := q)\<rparr>)"
      if "remove_result key p sched_heads (own_queues a) (wait a) s t" for t
    proof -
      have t: "asl t sched_heads (own_queues a) ((wait a)(key := q))" "asl_frame s t"
          "pcbs t = (pcbs s)(p := (pcbs s p)\<lparr>p_semkey := None\<rparr>)"
        using that Cons by (auto simp: remove_result_def)
      have "tree_rep t (live a) (kids a) = tree_rep s (live a) (kids a)"
        by (rule tree_rep_asl_frame [OF t(2)]) (simp add: t(3))
      then show ?thesis
        using t r asl_frame_same [OF t(2)] by (simp add: repr_def upd_tcb_def)
    qed
    have "ok (removeBlocked key s) (\<lambda>(r, t). r = Some p \<and>
        remove_result key p sched_heads (own_queues a) (wait a) s t)"
      using removeBlocked_spec [OF asl, of key] Cons by simp
    then show ?thesis by (rule ok_mono) (use * Cons in auto)
  qed
qed

lemma getSemd_refines:
  assumes r: "repr s a"
  shows "ok (getSemd key s) (\<lambda>d. case d of
      None \<Rightarrow> wait a key = []
    | Some i \<Rightarrow> dll s (S_procQ i) (map P_next (wait a key)))"
proof -
  have "asl s sched_heads (own_queues a) (wait a)" using r by (simp add: repr_def)
  then obtain Q fs acts where inv: "asl_inv s sched_heads Q fs acts {}" and W: "wait a = waiting s Q acts"
    by (rule aslE)
  show ?thesis
    using getSemd_waiting [OF inv, of key]
  proof cases
    case 1
    then show ?thesis by (simp add: W)
  next
    case (2 i)
    then show ?thesis using rings_dll [OF asl_invD(1) [OF inv] 2(4)] by (simp add: W)
  qed
qed

lemma verhogen_free:
  assumes r: "repr s a" and l: "load_int key s = Inr n" and w: "wait a key = []"
  shows "ok (verhogen key s) (\<lambda>t. repr t a \<and> store_int key (n + 1) s = Inr t)"
proof -
  obtain t where t: "store_int key (n + 1) s = Inr t" "repr t a" "load_int key t = Inr (n + 1)"
    by (rule store_int_refines [OF r l])
  have "ok (removeBlocked key t) (\<lambda>(r, u). r = None \<and> u = t)"
    using removeBlocked_refines [OF t(2), of key] w by (auto elim!: ok_mono)
  then show ?thesis using t l by (auto simp: verhogen_def elim!: ok_mono)
qed

lemma verhogen_wake:
  assumes r: "repr s a" and l: "load_int key s = Inr n" and wf: "core a {running a}"
    and w: "wait a key = p # q"
  shows "ok (verhogen key s) (\<lambda>t. repr t (a_wake key a) \<and> rest_same s t)"
proof -
  let ?f = "\<lambda>c. c\<lparr>p_semkey := None, priority := original_priority c\<rparr>"
  let ?g = "\<lambda>c. c\<lparr>priority := original_priority c\<rparr>"
  let ?a1 = "(upd_tcb p (\<lambda>c. c\<lparr>p_semkey := None\<rparr>) a)\<lparr>wait := (wait a)(key := q)\<rparr>"
  let ?a2 = "(upd_tcb p ?f a)\<lparr>wait := (wait a)(key := q)\<rparr>"
  obtain s1 where s1: "store_int key (n + 1) s = Inr s1" "repr s1 a" "load_int key s1 = Inr (n + 1)"
      "bus s1 = bus s"
    and restored: "\<forall>b u v. rest_same (s1\<lparr>bus := b\<rparr>) u \<longrightarrow> store_int key n u = Inr v \<longrightarrow> rest_same (s\<lparr>bus := b\<rparr>) v"
    by (rule store_int_refines [OF r l, of "n + 1"], rule that, assumption+)
  have pl: "placed a {running a}" using wf by (simp add: core_def)
  have "placed ?a2 {p, running a}" by (rule placed_wake [OF pl w]) simp_all
  then have unq: "unqueued p ?a2" "unqueued (running a) ?a2"
    using placed_out [of ?a2 "{p, running a}"] by (simp_all add: unqueued_def)
  have fin: "ok (schedule_proc p u) (\<lambda>v. ok (andThen (load_int key v) (\<lambda>n. store_int key (n - 1) v))
      (\<lambda>x. repr x (a_wake key a) \<and> rest_same s x))"
    if u: "repr u (a_raise (set q) ?a2)" "rest_same s1 u" for u
  proof -
    have "ok (schedule_proc p u) (\<lambda>v. repr v (a_wake key a) \<and> rest_same u v)"
      using schedule_refines [OF u(1), of p] unq w by (simp add: a_wake_def unqueued_def)
    then show ?thesis
    proof (rule ok_mono, elim conjE)
      fix v assume v: "repr v (a_wake key a)" "rest_same u v"
      have lv: "load_int key v = Inr (n + 1)"
        using load_int_rest [OF rest_same_trans [OF u(2) v(2)]] s1(3) by simp
      obtain x where x: "store_int key n v = Inr x" "repr x (a_wake key a)"
        by (rule store_int_refines [OF v(1) lv, of n])
      have "rest_same (s1\<lparr>bus := bus s\<rparr>) v"
        using rest_same_trans [OF u(2) v(2)] s1(4) by (simp add: rest_same_def)
      then have "rest_same (s\<lparr>bus := bus s\<rparr>) x" using restored x(1) by blast
      then show "ok (andThen (load_int key v) (\<lambda>n. store_int key (n - 1) v))
          (\<lambda>x. repr x (a_wake key a) \<and> rest_same s x)"
        using x by (simp add: lv)
    qed
  qed
  have raise: "ok (andThen (getSemd key t) (\<lambda>sd. case sd of None \<Rightarrow> Inr t | Some i \<Rightarrow> raise_priorities (S_procQ i) t))
      (\<lambda>u. repr u (a_raise (set q) ?a2) \<and> rest_same s1 u)"
    if t: "repr t ?a2" "rest_same s1 t" for t
  proof -
    have "ok (case sd of None \<Rightarrow> Inr t | Some i \<Rightarrow> raise_priorities (S_procQ i) t)
        (\<lambda>u. repr u (a_raise (set q) ?a2) \<and> rest_same s1 u)"
      if "case sd of None \<Rightarrow> wait ?a2 key = [] | Some i \<Rightarrow> dll t (S_procQ i) (map P_next (wait ?a2 key))" for sd
    proof (cases sd)
      case None
      then show ?thesis using that t by simp
    next
      case (Some i)
      then have "dll t (S_procQ i) (map P_next q)" using that by simp
      from raise_refines [OF t(1) this] show ?thesis
        unfolding Some option.case by (rule ok_mono) (use rest_same_trans [OF t(2)] in auto)
    qed
    then show ?thesis using getSemd_refines [OF t(1), of key] unfolding ok_andThen by (rule ok_mono [rotated])
  qed
  have upd: "repr (upd_pcb p ?g t) ?a2 \<and> rest_same s1 (upd_pcb p ?g t)"
    if t: "repr t ?a1" "rest_same s1 t" for t
  proof -
    have "upd_tcb p ?g ?a1 = ?a2" by (simp add: upd_tcb_def)
    moreover have "repr (upd_pcb p ?g t) (upd_tcb p ?g ?a1) \<and> rest_same t (upd_pcb p ?g t)"
      by (rule upd_pcb_refines [OF t(1)]) simp_all
    ultimately show ?thesis using rest_same_trans [OF t(2)] by simp
  qed
  have "ok (removeBlocked key s1) (\<lambda>(r, t). r = Some p \<and> repr t ?a1 \<and> rest_same s1 t)"
    using removeBlocked_refines [OF s1(2), of key] w by (auto elim!: ok_mono)
  then have "ok (removeBlocked key s1) (\<lambda>(r, t). r = Some p \<and> ok (andThen (getSemd key (upd_pcb p ?g t))
      (\<lambda>sd. andThen (case sd of None \<Rightarrow> Inr (upd_pcb p ?g t)
                    | Some i \<Rightarrow> raise_priorities (S_procQ i) (upd_pcb p ?g t)) (\<lambda>s.
       andThen (schedule_proc p s) (\<lambda>s. andThen (load_int key s) (\<lambda>n. store_int key (n - 1) s)))))
      (\<lambda>x. repr x (a_wake key a) \<and> rest_same s x))"
    by (rule ok_mono) (use upd raise fin in \<open>fastforce elim!: ok_mono\<close>)
  then show ?thesis
    using s1(1) l by (auto simp: verhogen_def Let_def elim!: ok_mono)
qed

section \<open>Creation\<close>

lemma alloc_tables:
  assumes r: "tables s a" and pl: "placed a U" and free: "free a = p # q" and tree: "tree_ok a"
  shows "ok (allocPcb s) (\<lambda>(r, t). r = Some p \<and> rest_same s t \<and> running_proc t = running_proc s \<and>
    tables t ((upd_tcb p fresh_pcb a)\<lparr>free := q, kids := (kids a)(p := [])\<rparr>))"
proof -
  let ?a = "(upd_tcb p fresh_pcb a)\<lparr>free := q, kids := (kids a)(p := [])\<rparr>"
  have asl: "asl s sched_heads (own_queues a) (wait a)" and T: "tree_rep s (live a) (kids a)"
    using r by (simp_all add: tables_def)
  have p: "p \<notin> live a" "live ?a = insert p (live a)"
    using pl free by (auto simp: live_def placed_def)
  have "own_queues a PcbFree_h = p # q" using free by simp
  from allocPcb_asl [OF asl sched_heads_simps(1) this] show ?thesis
  proof (rule ok_mono, clarify)
    fix t
    assume t: "asl t sched_heads ((own_queues a)(PcbFree_h := q)) (wait a)"
      "pcbs t = (pcbs s)(p := fresh_pcb (pcbs s p))" "lh_next t (P_child p) = None"
      "pcb_only (proc_cells \<union> {P_child p, P_sib p}) {p} s t"
    have "tree_rep t (insert p (live a)) ((kids a)(p := []))" by (rule tree_rep_alloc [OF T p(1) t(2-4)])
    then have "tables t ?a" using r t(1,2) p(2) by (simp add: tables_def upd_tcb_def)
    then show "Some p = Some p \<and> rest_same s t \<and> running_proc t = running_proc s \<and> tables t ?a" using pcb_only_same [OF t(4)] by simp
  qed
qed

lemma alloc_refines:
  assumes r: "repr s a" and pl: "placed a U" and free: "free a = p # q" and tree: "tree_ok a"
  shows "ok (allocPcb s) (\<lambda>(r, t). r = Some p \<and> rest_same s t \<and>
    repr t ((upd_tcb p fresh_pcb a)\<lparr>free := q, kids := (kids a)(p := [])\<rparr>))"
  using alloc_tables [OF _ pl free tree, of s] r by (auto simp: repr_tables elim!: ok_mono)

lemma insertChild_refines:
  assumes r: "repr s a" and p: "p \<in> live a" "running a \<in> live a" "p \<noteq> running a" "kids a p = []"
    and root: "\<And>x. x \<in> live a \<Longrightarrow> p \<notin> set (kids a x)"
  shows "ok (insertChild (running_proc s) (Some p) s) (\<lambda>t. rest_same s t \<and>
    repr t ((upd_tcb p (\<lambda>c. c\<lparr>p_parent := Some (running a)\<rparr>) a)
      \<lparr>kids := (kids a)(running a := kids a (running a) @ [p])\<rparr>))"
proof -
  let ?a = "(upd_tcb p (\<lambda>c. c\<lparr>p_parent := Some (running a)\<rparr>) a)
      \<lparr>kids := (kids a)(running a := kids a (running a) @ [p])\<rparr>"
  have asl: "asl s sched_heads (own_queues a) (wait a)" and T: "tree_rep s (live a) (kids a)"
    and run: "running_proc s = Some (running a)" using r by (simp_all add: repr_def)
  have "ok (insertChild (Some (running a)) (Some p) s)
    (\<lambda>t. tree_rep t (live a) ((kids a)(running a := kids a (running a) @ [p])) \<and> pcb_only tree_cells {p} s t \<and>
      pcbs t p = (pcbs s p)\<lparr>p_parent := Some (running a)\<rparr>)"
    by (rule insertChild_spec [OF T p(2,1,3)]) (use root p(4) in auto)
  then show ?thesis
    unfolding run
  proof (rule ok_mono, elim conjE)
    fix t
    assume t: "tree_rep t (live a) ((kids a)(running a := kids a (running a) @ [p]))"
      "pcb_only tree_cells {p} s t" "pcbs t p = (pcbs s p)\<lparr>p_parent := Some (running a)\<rparr>"
    have pcbs: "pcbs t = (pcbs s)(p := (pcbs s p)\<lparr>p_parent := Some (running a)\<rparr>)"
      using t(2,3) by (auto simp: pcb_only_def)
    have "asl t sched_heads (own_queues a) (wait a)"
      by (rule asl_same_queues [OF asl pcb_only_same_queues [OF t(2)]]) (simp add: pcbs)
    then show "rest_same s t \<and> repr t ?a"
      using r t(1) pcbs pcb_only_same [OF t(2)] by (simp add: repr_def upd_tcb_def)
  qed
qed

lemma create_process_none:
  "repr s a \<Longrightarrow> free a = [] \<Longrightarrow> create_process ly st pri cpid s = Inr (-1, s)"
  using allocPcb_asl_Nil [of s sched_heads "own_queues a" "wait a"]
  by (simp add: create_process_def repr_def)

lemma create_process_null:
  assumes "repr s a" "core a {running a}" "free a \<noteq> []"
  shows "create_process ly 0 pri cpid s = Inl (Panic '''')"
proof -
  obtain p q where f: "free a = p # q" using assms(3) by (cases "free a") auto
  then obtain t where "allocPcb s = Inr (Some p, t)"
    using alloc_refines [OF assms(1) _ f, of "{running a}"] assms(2) by (auto simp: core_def ok_iff)
  then show ?thesis by (simp add: create_process_def load_state_def)
qed

lemma create_refines:
  assumes r: "repr s a" and wf: "sched_wf a" and free: "free a = p # q" and st: "st \<noteq> 0"
  shows "ok (create_process ly st pri cpid s) (\<lambda>(ret, t). ret = 0 \<and> repr t (a_create (user_state s st) pri a) \<and>
    rest_same (if cpid \<noteq> 0 then s\<lparr>user_word := (user_word s)(cpid := pcb_addr ly p)\<rparr> else s) t)"
proof -
  let ?r = "running a" and ?st = "user_state s st"
  have core: "core a {?r}" and run: "?r \<in> insert Idle_proc all_procs" using wf by (auto simp: sched_wf_def)
  have pl: "placed a {?r}" and tree: "tree_ok a" using core by (simp_all add: core_def)
  note out = placed_out [OF pl, of ?r]
  define a1 where "a1 = (upd_tcb p fresh_pcb a)\<lparr>free := q, kids := (kids a)(p := [])\<rparr>"
  define a2 where "a2 = upd_tcb p (\<lambda>c. c\<lparr>original_priority := pri\<rparr>)
    (upd_tcb p (\<lambda>c. c\<lparr>priority := pri\<rparr>) (upd_tcb p (\<lambda>c. c\<lparr>p_s := ?st\<rparr>) a1))"
  define a3 where "a3 = (upd_tcb p (\<lambda>c. c\<lparr>p_parent := Some (running a2)\<rparr>) a2)
      \<lparr>kids := (kids a2)(running a2 := kids a2 (running a2) @ [p])\<rparr>"
  have pr: "p \<noteq> ?r" "p \<in> all_procs" using out free pl by (auto simp: placed_def)
  have a3: "a3 = (upd_tcb p (\<lambda>c. (fresh_pcb c)\<lparr>p_s := ?st, priority := pri, original_priority := pri,
                  p_parent := Some ?r\<rparr>) a)\<lparr>free := q, kids := (kids a)(p := [], ?r := kids a ?r @ [p])\<rparr>"
    using pr by (simp add: a3_def a2_def a1_def upd_tcb_def fun_upd_twist)
  then have create: "a_create ?st pri a = a_schedule p a3" using free by (simp add: a_create_def)
  have core3: "core a3 {p, ?r}" unfolding a3 using core_create(1) [OF core free run] out by simp
  have run3: "running a3 = ?r" by (simp add: a3)
  have live: "live a2 = insert p (live a)" "p \<notin> live a" "?r \<in> live a"
    using free pl pr run out by (auto simp: a2_def a1_def live_def placed_def)
  have u: "repr (upd_pcb p f t) (upd_tcb p f b) \<and> rest_same s (upd_pcb p f t)"
    if "repr t b" "rest_same s t" "\<And>c. p_parent (f c) = p_parent c" "\<And>c. p_semkey (f c) = p_semkey c"
    for f t b
    using upd_pcb_refines [OF that(1), of f p] that rest_same_trans [OF that(2)] by blast
  have sched: "ok (schedule_proc p v) (\<lambda>x. repr x (a_schedule p a3) \<and> rest_same v x)"
    if "repr v a3" for v
    using core3 placed_out [of a3 "{p, ?r}"]
    by (intro schedule_refines [OF that]) (auto simp: core_def unqueued_def run3)
  have upds: "repr v a2 \<and> rest_same s v"
    if "repr t a1" "rest_same s t" "v = upd_pcb p (\<lambda>c. c\<lparr>original_priority := pri\<rparr>)
      (upd_pcb p (\<lambda>c. c\<lparr>priority := pri\<rparr>) (upd_pcb p (\<lambda>c. c\<lparr>p_s := ?st\<rparr>) t))" for t v
  proof -
    have 1: "repr (upd_pcb p (\<lambda>c. c\<lparr>p_s := ?st\<rparr>) t) (upd_tcb p (\<lambda>c. c\<lparr>p_s := ?st\<rparr>) a1) \<and>
        rest_same s (upd_pcb p (\<lambda>c. c\<lparr>p_s := ?st\<rparr>) t)"
      by (rule u [OF that(1,2)]) simp_all
    have 2: "repr (upd_pcb p (\<lambda>c. c\<lparr>priority := pri\<rparr>) (upd_pcb p (\<lambda>c. c\<lparr>p_s := ?st\<rparr>) t))
          (upd_tcb p (\<lambda>c. c\<lparr>priority := pri\<rparr>) (upd_tcb p (\<lambda>c. c\<lparr>p_s := ?st\<rparr>) a1)) \<and>
        rest_same s (upd_pcb p (\<lambda>c. c\<lparr>priority := pri\<rparr>) (upd_pcb p (\<lambda>c. c\<lparr>p_s := ?st\<rparr>) t))"
      by (rule u [OF 1 [THEN conjunct1] 1 [THEN conjunct2]]) simp_all
    show ?thesis
      unfolding that(3) a2_def by (rule u [OF 2 [THEN conjunct1] 2 [THEN conjunct2]]) simp_all
  qed
  have ins: "ok (insertChild (running_proc v) (Some p) v) (\<lambda>x. rest_same s x \<and> repr x a3)"
    if v: "repr v a2" "rest_same s v" for v
  proof -
    have "ok (insertChild (running_proc v) (Some p) v) (\<lambda>x. rest_same v x \<and> repr x a3)"
      unfolding a3_def
    proof (rule insertChild_refines [OF v(1)])
      show "p \<notin> set (kids a2 x)" if "x \<in> live a2" for x
        using that tree live(1,2) pr(2) by (auto simp: a2_def a1_def tree_ok_def child_rel_def)
    qed (use live pr in \<open>simp_all add: a2_def a1_def\<close>)
    then show ?thesis by (rule ok_mono) (use rest_same_trans [OF v(2)] in auto)
  qed
  let ?w = "\<lambda>x. if cpid \<noteq> 0 then x\<lparr>user_word := (user_word x)(cpid := pcb_addr ly p)\<rparr> else x"
  have w: "repr (?w x) a3 \<and> rest_same (?w s) (?w x)" if x: "rest_same s x" "repr x a3" for x
  proof -
    have "repr (?w x) (a3\<lparr>running := running a3\<rparr>)"
      by (rule repr_cong [OF x(2)]) (use x(2) in \<open>auto simp: repr_def\<close>)
    then show ?thesis using x(1) by (simp add: rest_same_def)
  qed
  have tail: "ok (schedule_proc p (?w x)) (\<lambda>y. repr y (a_create ?st pri a) \<and> rest_same (?w s) y)"
    if x: "rest_same s x" "repr x a3" for x
    using sched [OF w [OF x, THEN conjunct1]]
    by (rule ok_mono) (use w [OF x] create rest_same_trans in auto)
  have steps: "ok (insertChild (running_proc v) (Some p) v) (\<lambda>x. ok (schedule_proc p (?w x))
      (\<lambda>y. repr y (a_create ?st pri a) \<and> rest_same (?w s) y))"
    if "repr v a2" "rest_same s v" for v
    using ins [OF that] by (rule ok_mono) (elim conjE, rule tail)
  have "ok (allocPcb s) (\<lambda>(r, t). r = Some p \<and> rest_same s t \<and> repr t a1)"
    unfolding a1_def by (rule alloc_refines [OF r pl free tree])
  then obtain t where t: "allocPcb s = Inr (Some p, t)" "rest_same s t" "repr t a1"
    by (auto simp: ok_iff)
  have ld: "load_state st t = Inr ?st" using st t(2) by (simp add: load_state_def rest_same_def)
  show ?thesis
    using upds [OF t(3,2) refl] steps by (simp add: create_process_def t(1) ld Let_def)
qed

end
