(* ===== verification/Sched_Init.thy ===== *)
theory Sched_Init
  imports Sched_Refine
begin

text \<open>
  Initialisation: from the static storage of the kernel (\<open>boot\<close>), \<open>init_scheduler\<close> builds a
  memory that represents a well-formed abstract state with the starting processes in the ready
  queue, in stable order of decreasing priority.
\<close>

section \<open>Allocation without a parent\<close>

definition a_alloc :: "sched \<Rightarrow> sched" where
  "a_alloc a =
     (case free a of
        [] \<Rightarrow> a
      | p # q \<Rightarrow> (upd_tcb p fresh_pcb a)\<lparr>free := q, kids := (kids a)(p := [])\<rparr>)"

lemma core_alloc:
  assumes core: "core a U" and free: "free a = p # q"
  shows "core (a_alloc a) (insert p U)" and "p \<in> all_procs" "p \<notin> U"
proof -
  let ?b = "(upd_tcb p fresh_pcb a)\<lparr>free := q, kids := (kids a)(p := [])\<rparr>"
  have b: "a_alloc a = ?b" by (simp add: a_alloc_def free)
  have pl: "placed a U" and sem: "sem_ok a" and dok: "dev_ok a" and tree: "tree_ok a"
    and bp: "by_prio (a_prio a) (ready a)"
    using core by (simp_all add: core_def)
  have p: "p \<notin> set q" "p \<notin> set (ready a)" "p \<notin> blocked (wait a)"
    using pl free unfolding placed_def by auto
  show pA: "p \<in> all_procs" "p \<notin> U" using pl free unfolding placed_def by auto
  have "placed ?b (insert p U)" using pl free p unfolding placed_def by auto
  moreover have "sem_ok ?b"
    using sem p free unfolding sem_ok_def by (auto simp: fresh_pcb_def blocked_iff)
  moreover have "dev_ok ?b" using dok by (auto simp: dev_ok_def fresh_pcb_def)
  moreover have "tree_ok ?b"
  proof -
    have live: "live ?b = insert p (live a)" and pn: "p \<notin> live a"
      using free p pA by (auto simp: live_def)
    have rel: "child_rel ?b = child_rel a"
      using live pn by (auto simp: child_rel_def split: if_splits)
    show ?thesis
      using tree pn unfolding tree_ok_def rel live by (auto simp: fresh_pcb_def)
  qed
  moreover have "by_prio (a_prio ?b) (ready ?b)"
    using bp p by (subst by_prio_cong [of _ _ "a_prio a"]) (auto simp: a_prio_def)
  ultimately show "core (a_alloc a) (insert p U)" by (simp add: core_def b)
qed

section \<open>The starting processes\<close>

fun proc_index :: "pcb \<Rightarrow> u32" where
  "proc_index (Pcb i) = word_of_nat i"
| "proc_index Idle_proc = word_of_nat MAXPROC"

lemma get_proc_index_eq: "get_proc_index p = Inr (proc_index p)"
  by (cases p) simp_all

lemma populate_fields_simps [simp]:
  "p_parent (populate_fields w i d c) = p_parent c" "p_semkey (populate_fields w i d c) = p_semkey c"
  "dev_w_list (populate_fields w i d c) = dev_w_list c"
  "priority (populate_fields w i d c) = init_priority d"
  "original_priority (populate_fields w i d c) = init_priority d"
  by (simp_all add: populate_fields_def Let_def)

definition a_start :: "board \<Rightarrow> proc_init_data \<Rightarrow> sched \<Rightarrow> sched" where
  "a_start w d a =
     (case free a of
        [] \<Rightarrow> a
      | p # q \<Rightarrow> a_requeue p (upd_tcb p (populate_fields w (proc_index p) d) (a_alloc a)))"

lemma core_start:
  assumes core: "core a U" and free: "free a = p # q"
  shows "core (a_start w d a) U"
proof -
  note c = core_alloc [OF core free]
  have pl: "placed (a_alloc a) (insert p U)" using c(1) by (simp add: core_def)
  have "core (upd_tcb p (populate_fields w (proc_index p) d) (a_alloc a)) (insert p U)"
    using c(1) placed_out(2) [OF pl insertI1] by (subst core_upd_tcb) simp_all
  then show ?thesis using core_requeue c(2,3) by (simp add: a_start_def free)
qed

lemma start_refines:
  assumes t: "tables s a" and core: "core a U" and free: "free a = p # q"
  shows "ok (andThen (get_free_pcb_else_panic s) (\<lambda>(p, s). andThen (populate_pcb w p d s) (\<lambda>s.
      insertProcQ Ready_queue p s)))
    (\<lambda>t. tables t (a_start w d a) \<and> rest_same s t \<and> running_proc t = running_proc s)"
proof -
  have pl: "placed a U" and tree: "tree_ok a" using core by (simp_all add: core_def)
  obtain t1 where t1: "allocPcb s = Inr (Some p, t1)" "rest_same s t1" "running_proc t1 = running_proc s"
      "tables t1 (a_alloc a)"
    using alloc_tables [OF t pl free tree] by (auto simp: ok_iff a_alloc_def free)
  let ?f = "populate_fields w (proc_index p) d"
  have t2: "tables (upd_pcb p ?f t1) (upd_tcb p ?f (a_alloc a)) \<and> rest_same t1 (upd_pcb p ?f t1) \<and>
      running_proc (upd_pcb p ?f t1) = running_proc t1"
    by (rule upd_pcb_tables [OF t1(4)]) simp_all
  have "unqueued p (upd_tcb p ?f (a_alloc a))"
    using core_alloc(1) [OF core free] placed_out [of "a_alloc a" "insert p U" p]
    by (simp add: unqueued_def core_def)
  from insert_ready_tables [OF conjunct1 [OF t2] this]
  have "ok (insertProcQ Ready_queue p (upd_pcb p ?f t1)) (\<lambda>t. tables t (a_start w d a) \<and>
      rest_same (upd_pcb p ?f t1) t \<and> running_proc t = running_proc (upd_pcb p ?f t1))"
    by (simp add: a_start_def free)
  moreover have "rest_same s (upd_pcb p ?f t1)" using t2 rest_same_trans [OF t1(2)] by blast
  ultimately have "ok (insertProcQ Ready_queue p (upd_pcb p ?f t1)) (\<lambda>t. tables t (a_start w d a) \<and>
      rest_same s t \<and> running_proc t = running_proc s)"
    using t1(3) t2 rest_same_trans by (elim ok_mono) auto
  then show ?thesis
    using t1(1) by (simp add: get_free_pcb_else_panic_def populate_pcb_def get_proc_index_eq)
qed

definition a_starts :: "board \<Rightarrow> proc_init_data list \<Rightarrow> sched \<Rightarrow> sched" where
  "a_starts w ds a = fold (a_start w) ds a"

lemma a_start_simps:
  assumes "free a = p # q"
  shows "free (a_start w d a) = q" "wait (a_start w d a) = wait a" "running (a_start w d a) = running a"
    "ready (a_start w d a) = q_insert (a_prio (a_start w d a)) p (ready a)"
    "tcb (a_start w d a) = (tcb a)(p := populate_fields w (proc_index p) d (fresh_pcb (tcb a p)))"
    "kids (a_start w d a) = (kids a)(p := [])"
  using assms by (simp_all add: a_start_def a_alloc_def a_requeue_def upd_tcb_def)

lemma core_starts:
  "core a U \<Longrightarrow> length ds \<le> length (free a) \<Longrightarrow> core (a_starts w ds a) U"
proof (induction ds arbitrary: a)
  case Nil
  then show ?case by (simp add: a_starts_def)
next
  case (Cons d ds)
  obtain p q where f: "free a = p # q" using Cons.prems(2) by (cases "free a") auto
  have "length ds \<le> length (free (a_start w d a))" using Cons.prems(2) f by (simp add: a_start_simps)
  from Cons.IH [OF core_start [OF Cons.prems(1) f] this] show ?case by (simp add: a_starts_def)
qed

lemma starts_refines:
  assumes "tables s a" and "core a U" and "length ds \<le> length (free a)"
  shows "ok (init_starting_procs w ds s) (\<lambda>t. tables t (a_starts w ds a) \<and> rest_same s t \<and>
    running_proc t = running_proc s)"
  using assms
proof (induction ds arbitrary: s a)
  case Nil
  then show ?case by (simp add: a_starts_def)
next
  case (Cons d ds)
  obtain p q where f: "free a = p # q" using Cons.prems(3) by (cases "free a") auto
  let ?a = "a_start w d a"
  obtain t where t: "andThen (get_free_pcb_else_panic s) (\<lambda>(p, s). andThen (populate_pcb w p d s) (\<lambda>s.
      insertProcQ Ready_queue p s)) = Inr t" "tables t ?a" "rest_same s t" "running_proc t = running_proc s"
    using start_refines [OF Cons.prems(1,2) f] unfolding ok_iff by blast
  have "init_starting_procs w (d # ds) s = andThen (andThen (get_free_pcb_else_panic s)
      (\<lambda>(p, s). andThen (populate_pcb w p d s) (\<lambda>s. insertProcQ Ready_queue p s))) (init_starting_procs w ds)"
    by (simp add: andThen_assoc case_prod_unfold)
  then have run: "init_starting_procs w (d # ds) s = init_starting_procs w ds t" by (simp only: t(1) andThen_simps)
  have "length ds \<le> length (free ?a)" using Cons.prems(3) f by (simp add: a_start_simps)
  from Cons.IH [OF t(2) core_start [OF Cons.prems(2) f] this]
  have IH: "ok (init_starting_procs w ds t) (\<lambda>u. tables u (a_starts w (d # ds) a) \<and> rest_same t u \<and>
      running_proc u = running_proc t)"
    by (simp add: a_starts_def)
  then show ?case
    using t(3,4) rest_same_trans [OF t(3)] unfolding run by (auto elim!: ok_mono)
qed

text \<open>More starting processes than process control blocks: a panic.\<close>

lemma starts_too_many:
  assumes "tables s a" and "core a U" and "length (free a) < length ds"
  shows "init_starting_procs w ds s = Inl (Panic ''ERROR: The maximum number of processes has been reached!'')"
  using assms
proof (induction ds arbitrary: s a)
  case Nil
  then show ?case by simp
next
  case (Cons d ds)
  show ?case
  proof (cases "free a")
    case Nil
    then have "allocPcb s = Inr (None, s)"
      using allocPcb_asl_Nil [of s sched_heads "own_queues a" "wait a"] Cons.prems(1)
      by (simp add: tables_def)
    then show ?thesis by (simp add: get_free_pcb_else_panic_def)
  next
    case (Cons p q)
    let ?a = "a_start w d a"
    obtain t where t: "andThen (get_free_pcb_else_panic s) (\<lambda>(p, s). andThen (populate_pcb w p d s) (\<lambda>s.
        insertProcQ Ready_queue p s)) = Inr t" "tables t ?a"
      using start_refines [OF Cons.prems(1,2) Cons] unfolding ok_iff by blast
    have "init_starting_procs w (d # ds) s = andThen (andThen (get_free_pcb_else_panic s)
        (\<lambda>(p, s). andThen (populate_pcb w p d s) (\<lambda>s. insertProcQ Ready_queue p s))) (init_starting_procs w ds)"
      by (simp add: andThen_assoc case_prod_unfold)
    then have "init_starting_procs w (d # ds) s = init_starting_procs w ds t" by (simp only: t(1) andThen_simps)
    moreover have "length (free ?a) < length ds" using Cons.prems(3) Cons by (simp add: a_start_simps)
    ultimately show ?thesis
      using Cons.IH [OF t(2) core_start [OF Cons.prems(2) Cons]] by simp
  qed
qed

lemma a_starts_facts:
  assumes "core a U" and "length ds \<le> length (free a)"
  shows "free (a_starts w ds a) = drop (length ds) (free a) \<and> wait (a_starts w ds a) = wait a \<and>
    running (a_starts w ds a) = running a \<and>
    set (ready (a_starts w ds a)) = set (ready a) \<union> set (take (length ds) (free a)) \<and>
    (\<forall>x. x \<notin> set (take (length ds) (free a)) \<longrightarrow> tcb (a_starts w ds a) x = tcb a x) \<and>
    (\<forall>j<length ds. tcb (a_starts w ds a) (free a ! j) =
       populate_fields w (proc_index (free a ! j)) (ds ! j) (fresh_pcb (tcb a (free a ! j))))"
  using assms
proof (induction ds arbitrary: a)
  case Nil
  then show ?case by (simp add: a_starts_def)
next
  case (Cons d ds)
  obtain p q where f: "free a = p # q" using Cons.prems(2) by (cases "free a") auto
  let ?a = "a_start w d a"
  have c: "core ?a U" by (rule core_start [OF Cons.prems(1) f])
  have p: "p \<notin> set q" using Cons.prems(1) f by (auto simp: core_def placed_def)
  then have pt: "p \<notin> set (take (length ds) q)" by (meson in_set_takeD)
  have len: "length ds \<le> length (free ?a)" using Cons.prems(2) f by (simp add: a_start_simps)
  let ?b = "a_starts w ds ?a"
  have eq: "a_starts w (d # ds) a = ?b" by (simp add: a_starts_def)
  note IH = Cons.IH [OF c len, unfolded a_start_simps [OF f]]
  have "tcb ?b (free a ! j) = populate_fields w (proc_index (free a ! j)) ((d # ds) ! j)
      (fresh_pcb (tcb a (free a ! j)))" if "j < length (d # ds)" for j
  proof (cases j)
    case 0
    then show ?thesis using IH pt f by simp
  next
    case (Suc i)
    then have "i < length ds" "q ! i \<noteq> p" using that p Cons.prems(2) f by auto
    then show ?thesis using IH Suc f by simp
  qed
  then show ?case
    unfolding eq using IH p f by auto
qed

lemma filter_prio_cong:
  "(\<And>x. x \<in> set q \<Longrightarrow> f x = g x) \<Longrightarrow> filter (\<lambda>x. f x = k) q = filter (\<lambda>x. g x = k) q"
  by (rule filter_cong) auto

lemma a_starts_stable:
  assumes "core a U" and "length ds \<le> length (free a)"
  shows "filter (\<lambda>x. a_prio (a_starts w ds a) x = k) (ready (a_starts w ds a)) =
    filter (\<lambda>x. a_prio (a_starts w ds a) x = k) (ready a @ take (length ds) (free a))"
  using assms
proof (induction ds arbitrary: a)
  case Nil
  then show ?case by (simp add: a_starts_def)
next
  case (Cons d ds)
  obtain p q where f: "free a = p # q" using Cons.prems(2) by (cases "free a") auto
  let ?a = "a_start w d a"
  let ?b = "a_starts w ds ?a"
  have c: "core ?a U" by (rule core_start [OF Cons.prems(1) f])
  have p: "p \<notin> set q" "p \<notin> set (ready a)" and disj: "set q \<inter> set (ready a) = {}"
    using Cons.prems(1) f by (auto simp: core_def placed_def)
  have len: "length ds \<le> length (free ?a)" using Cons.prems(2) f by (simp add: a_start_simps)
  have eq: "a_starts w (d # ds) a = ?b" by (simp add: a_starts_def)
  have same: "a_prio ?b x = a_prio ?a x" if "x \<in> set (ready ?a)" for x
  proof -
    have "x \<notin> set (take (length ds) (free ?a))"
      using that p disj f by (auto simp: a_start_simps dest: in_set_takeD)
    then show ?thesis using a_starts_facts [OF c len, of w] by (simp add: a_prio_def)
  qed
  have "by_prio (a_prio ?a) (ready a) = by_prio (a_prio a) (ready a)"
    using p f by (intro by_prio_cong) (auto simp: a_prio_def a_start_simps)
  then have "by_prio (a_prio ?a) (ready a)" using Cons.prems(1) by (simp add: core_def)
  from q_insert_fifo [OF this, of k p]
  have fifo: "filter (\<lambda>x. a_prio ?a x = k) (ready ?a) = filter (\<lambda>x. a_prio ?a x = k) (ready a @ [p])"
    by (simp add: a_start_simps(4) [OF f])
  have "filter (\<lambda>x. a_prio ?b x = k) (ready ?b) =
      filter (\<lambda>x. a_prio ?b x = k) (ready ?a @ take (length ds) (free ?a))"
    by (rule Cons.IH [OF c len])
  also have "filter (\<lambda>x. a_prio ?b x = k) (ready ?a) = filter (\<lambda>x. a_prio ?a x = k) (ready ?a)"
    by (rule filter_prio_cong) (rule same)
  then have "filter (\<lambda>x. a_prio ?b x = k) (ready ?a @ take (length ds) (free ?a)) =
      filter (\<lambda>x. a_prio ?a x = k) (ready a @ [p]) @
      filter (\<lambda>x. a_prio ?b x = k) (take (length ds) q)"
    using fifo f by (simp add: a_start_simps)
  also have "filter (\<lambda>x. a_prio ?a x = k) (ready a @ [p]) = filter (\<lambda>x. a_prio ?b x = k) (ready a @ [p])"
    by (rule filter_prio_cong) (simp add: same f a_start_simps(4) [OF f])
  finally show ?case by (simp add: eq f)
qed

section \<open>\<open>init_scheduler\<close>\<close>

text \<open>What the kernel relies on of its static storage: zero where nothing initialises it.\<close>

definition boot :: "'a kern_scheme \<Rightarrow> bool" where
  "boot s \<longleftrightarrow>
     lh_next s (P_child Idle_proc) = None \<and> p_parent (pcbs s Idle_proc) = None \<and>
     (\<forall>p\<in>all_procs. dev_w_list (pcbs s p) = None)"

definition a_boot :: "(pcb \<Rightarrow> pcb_t) \<Rightarrow> sched" where
  "a_boot c =
     \<lparr>free = map Pcb [0..<MAXPROC], ready = [], wait = (\<lambda>_. []), running = Idle_proc,
      kids = (\<lambda>_. []), tcb = c\<rparr>"

lemma acyclic_empty: "acyclic {}"
  unfolding acyclic_def by (auto elim: tranclE)

lemma core_boot: "boot s \<Longrightarrow> core (a_boot (pcbs s)) {}"
  unfolding core_def placed_def sem_ok_def dev_ok_def tree_ok_def child_rel_def live_def boot_def
  by (auto simp: a_boot_def all_procs_def blocked_def distinct_map inj_on_def acyclic_empty)

lemma tables_boot:
  fixes s :: "'a kern_scheme"
  assumes boot: "boot s"
  shows "ok (andThen (initPcbs s) initASL) (\<lambda>t. tables (mkEmptyProcQ Ready_queue t) (a_boot (pcbs s)) \<and>
    rest_same s (mkEmptyProcQ Ready_queue t) \<and> running_proc (mkEmptyProcQ Ready_queue t) = running_proc s)"
proof -
  let ?Q = "\<lambda>h. if h = PcbFree_h then map Pcb [0..<MAXPROC] else []"
  have 1: "ok (initPcbs s) (\<lambda>t. rings t P_next {PcbFree_h} ?Q \<and> links_only proc_cells s t)"
    using initPcbs_spec [of s "{PcbFree_h}" "\<lambda>_. []"]
    by (simp add: members_def rings_def [of s] fun_upd_def proc_heads_def)
  have "ok (initASL t) (\<lambda>u. tables (mkEmptyProcQ Ready_queue u) (a_boot (pcbs s)) \<and>
      rest_same s (mkEmptyProcQ Ready_queue u) \<and> running_proc (mkEmptyProcQ Ready_queue u) = running_proc s)"
    if t: "rings t P_next {PcbFree_h} ?Q" "links_only proc_cells s t" for t
  proof (rule ok_mono)
    show "ok (initASL t) (\<lambda>u. asl u ({PcbFree_h} \<union> S_procQ ` {..<MAXPROC}) ?Q (\<lambda>_. []) \<and>
        pcbs u = pcbs t \<and> asl_frame t u)"
      by (rule initASL_spec [OF t(1)]) (auto simp: proc_heads_def)
    fix u
    assume u: "asl u ({PcbFree_h} \<union> S_procQ ` {..<MAXPROC}) ?Q (\<lambda>_. []) \<and> pcbs u = pcbs t \<and> asl_frame t u"
    let ?v = "INIT_LIST_HEAD Ready_queue u"
    have v: "asl ?v (insert Ready_queue ({PcbFree_h} \<union> S_procQ ` {..<MAXPROC})) (?Q(Ready_queue := [])) (\<lambda>_. [])"
        "links_only proc_cells u ?v"
      using INIT_LIST_HEAD_asl [of u _ ?Q "\<lambda>_. []" Ready_queue] u by (auto simp: proc_heads_def)
    have pc: "pcbs ?v = pcbs s" using u pcbs_links_only [OF t(2)] by (simp add: INIT_LIST_HEAD_def)
    have fr: "asl_frame s ?v"
      using u links_only_frame_proc [OF t(2)] links_only_frame_proc [OF v(2)]
      by (blast intro: asl_frame_trans)
    have heads: "insert Ready_queue ({PcbFree_h} \<union> S_procQ ` {..<MAXPROC}) = sched_heads"
      by (auto simp: sched_heads_def)
    have own: "own_queues (a_boot (pcbs s)) = ?Q(Ready_queue := [])"
      by (auto simp: own_queues_def a_boot_def fun_eq_iff)
    have lv: "live (a_boot (pcbs s)) = {Idle_proc}"
      by (auto simp: live_def a_boot_def all_procs_def)
    have "tree_rep ?v {Idle_proc} (\<lambda>_. [])"
      using boot fr by (simp add: tree_rep_def node_rep_def boot_def asl_frame_def)
    then have "tables ?v (a_boot (pcbs s))"
      using v(1) pc lv own heads by (simp add: tables_def a_boot_def)
    then show "tables (mkEmptyProcQ Ready_queue u) (a_boot (pcbs s)) \<and>
      rest_same s (mkEmptyProcQ Ready_queue u) \<and> running_proc (mkEmptyProcQ Ready_queue u) = running_proc s"
      using asl_frame_same [OF fr] by (simp add: mkEmptyProcQ_def)
  qed
  then show ?thesis using 1 by (auto elim!: ok_mono)
qed

lemma tables_cong:
  fixes s t :: "'a kern_scheme"
  assumes r: "tables s a" and links: "lh_next t = lh_next s" "lh_prev t = lh_prev s" "s_key t = s_key s"
    and pcbs: "pcbs t = pcbs s"
  shows "tables t a"
proof -
  have "asl t sched_heads (own_queues a) (wait a)"
    by (rule asl_same_queues [of s]) (use r links pcbs in \<open>auto simp: tables_def same_queues_def\<close>)
  moreover have "tree_rep t (live a) (kids a) = tree_rep s (live a) (kids a)"
    by (rule tree_rep_frame) (simp_all add: links pcbs)
  ultimately show ?thesis using r pcbs by (simp add: tables_def)
qed

definition a_idle :: "board \<Rightarrow> layout \<Rightarrow> sched \<Rightarrow> sched" where
  "a_idle w ly a =
     upd_tcb Idle_proc (populate_fields w (proc_index Idle_proc) (idle_proc_data ly))
       (upd_tcb Idle_proc (\<lambda>c. c\<lparr>p_s := reset_state (p_s c)\<rparr>) a)"

definition a_init :: "board \<Rightarrow> layout \<Rightarrow> proc_init_data list \<Rightarrow> (pcb \<Rightarrow> pcb_t) \<Rightarrow> sched" where
  "a_init w ly ds c = a_idle w ly (a_starts w ds (a_boot c))"

lemma boot_split:
  "init_scheduler w ly ds ts s =
     (let s0 = s\<lparr>clock_ticks_per_time_slice := clock_ticks_per_period (hw.truncate w) ts\<rparr> in
      andThen (andThen (initPcbs s0) initASL) (\<lambda>s.
      andThen (init_starting_procs w ds (mkEmptyProcQ Ready_queue s)) (\<lambda>s.
      andThen (populate_pcb w Idle_proc (idle_proc_data ly)
                (upd_pcb Idle_proc (\<lambda>c. c\<lparr>p_s := reset_state (p_s c)\<rparr>) s)) (\<lambda>s.
      Inr (init_dev_w_lists w s)))))"
  by (simp add: init_scheduler_def andThen_assoc Let_def)

lemma core_init:
  assumes "boot s" and "length ds \<le> MAXPROC"
  shows "core (a_init w ly ds (pcbs s)) {}"
proof -
  let ?a = "a_starts w ds (a_boot (pcbs s))"
  have c: "core ?a {}"
    by (rule core_starts [OF core_boot [OF assms(1)]]) (simp add: a_boot_def assms(2))
  have "Idle_proc \<notin> set (ready ?a)" using c by (auto simp: core_def placed_def)
  then show ?thesis using c unfolding a_init_def a_idle_def by (subst core_upd_tcb, simp_all)+
qed

lemma init_dev_rest:
  "rest_same s t \<Longrightarrow> rest_same (init_dev_w_lists w s) (init_dev_w_lists w t)"
  "running_proc (init_dev_w_lists w s) = running_proc s"
  by (auto simp: rest_same_def init_dev_w_lists_def fun_eq_iff)

lemma init_refines:
  fixes s :: "'a kern_scheme"
  assumes boot: "boot s" and len: "length ds \<le> MAXPROC"
  shows "ok (init_scheduler w ly ds ts s) (\<lambda>t. tables t (a_init w ly ds (pcbs s)) \<and>
    running_proc t = running_proc s \<and>
    rest_same (init_dev_w_lists w (s\<lparr>clock_ticks_per_time_slice := TIME_SCALE w * ts\<rparr>)) t)"
proof -
  let ?a0 = "a_boot (pcbs s)"
  let ?s0 = "s\<lparr>clock_ticks_per_time_slice := clock_ticks_per_period (hw.truncate w) ts\<rparr>"
  let ?idle = "upd_pcb Idle_proc (\<lambda>c. c\<lparr>p_s := reset_state (p_s c)\<rparr>)"
  let ?pop = "upd_pcb Idle_proc (populate_fields w (proc_index Idle_proc) (idle_proc_data ly))"
  have b0: "boot ?s0" "pcbs ?s0 = pcbs s" "running_proc ?s0 = running_proc s"
    using boot by (simp_all add: boot_def)
  have last: "tables (init_dev_w_lists w (?pop (?idle u))) (a_init w ly ds (pcbs s)) \<and>
      running_proc (init_dev_w_lists w (?pop (?idle u))) = running_proc s \<and>
      rest_same (init_dev_w_lists w ?s0) (init_dev_w_lists w (?pop (?idle u)))"
    if u: "tables u (a_starts w ds ?a0)" "rest_same ?s0 u" "running_proc u = running_proc ?s0" for u
  proof -
    have 1: "tables (?idle u) (upd_tcb Idle_proc (\<lambda>c. c\<lparr>p_s := reset_state (p_s c)\<rparr>) (a_starts w ds ?a0)) \<and>
        rest_same u (?idle u) \<and> running_proc (?idle u) = running_proc u"
      by (rule upd_pcb_tables [OF u(1)]) simp_all
    have 2: "tables (?pop (?idle u)) (a_init w ly ds (pcbs s)) \<and> rest_same (?idle u) (?pop (?idle u)) \<and>
        running_proc (?pop (?idle u)) = running_proc (?idle u)"
      unfolding a_init_def a_idle_def by (rule upd_pcb_tables [OF conjunct1 [OF 1]]) simp_all
    have "tables (init_dev_w_lists w (?pop (?idle u))) (a_init w ly ds (pcbs s))"
      by (rule tables_cong [OF conjunct1 [OF 2]]) (simp_all add: init_dev_w_lists_def)
    moreover have "rest_same ?s0 (?pop (?idle u))"
      using 1 2 rest_same_trans [OF u(2)] rest_same_trans by blast
    ultimately show ?thesis
      using 1 2 u(3) b0(3) by (simp add: init_dev_rest)
  qed
  have len0: "length ds \<le> length (free ?a0)" using len by (simp add: a_boot_def)
  have mid: "ok (init_starting_procs w ds v) (\<lambda>u. tables u (a_starts w ds ?a0) \<and> rest_same ?s0 u \<and>
      running_proc u = running_proc ?s0)"
    if v: "tables v ?a0" "rest_same ?s0 v" "running_proc v = running_proc ?s0" for v
    using starts_refines [OF v(1) core_boot [OF boot] len0]
    by (rule ok_mono) (use v rest_same_trans [OF v(2)] in auto)
  have steps: "ok (init_starting_procs w ds v) (\<lambda>u. tables (init_dev_w_lists w (?pop (?idle u))) (a_init w ly ds (pcbs s)) \<and>
      running_proc (init_dev_w_lists w (?pop (?idle u))) = running_proc s \<and>
      rest_same (init_dev_w_lists w ?s0) (init_dev_w_lists w (?pop (?idle u))))"
    if v: "tables v ?a0" "rest_same ?s0 v" "running_proc v = running_proc ?s0" for v
    using mid [OF v] by (rule ok_mono) (elim conjE, rule last)
  show ?thesis
    using tables_boot [OF b0(1)] steps
    unfolding boot_split Let_def
    by (auto simp: b0 populate_pcb_def get_proc_index_eq clock_ticks_per_period_def hw.defs elim!: ok_mono)
qed

section \<open>\<open>launch\<close>\<close>

definition a_launch :: "u32 \<Rightarrow> u32 \<Rightarrow> sched \<Rightarrow> sched" where
  "a_launch t1 t2 a =
     (case ready a of
        [] \<Rightarrow> a
      | p # q \<Rightarrow> (upd_tcb p (\<lambda>c. c\<lparr>tod_at_start := t1, tod_cache := t2\<rparr>) a)\<lparr>ready := q, running := p\<rparr>)"

lemma sched_wf_launch:
  assumes core: "core a {}" and q: "ready a = p # q"
  shows "sched_wf (a_launch t1 t2 a)"
proof -
  note c = core_pop [OF core q]
  have "p \<notin> set q" using core q by (auto simp: core_def placed_def)
  then have "core (upd_tcb p (\<lambda>c. c\<lparr>tod_at_start := t1, tod_cache := t2\<rparr>) (a\<lparr>ready := q\<rparr>)) {p}"
    using c(1) by (subst core_upd_tcb) simp_all
  then have "core (a_launch t1 t2 a) {p}"
    by (subst core_cong [of _ "upd_tcb p (\<lambda>c. c\<lparr>tod_at_start := t1, tod_cache := t2\<rparr>) (a\<lparr>ready := q\<rparr>)"])
      (simp_all add: a_launch_def q)
  then show ?thesis using c(2) by (simp add: sched_wf_def a_launch_def q)
qed

lemma read_TOD_tables:
  fixes s :: "'a kern_scheme"
  shows "tables s a \<Longrightarrow> read_TOD w s = (n, t) \<Longrightarrow> tables t a \<and> running_proc t = running_proc s"
  using tables_cong [of s a t] by (auto simp: read_TOD_def TOD_def bus_read_def)

lemma launch_refines:
  fixes s :: "'a kern_scheme"
  assumes t: "tables s a" and q: "ready a = p # q"
  shows "ok (launch w s) (\<lambda>(st, t). st = p_s (tcb a p) \<and>
    repr t (a_launch (env w (BUS_REG_TOD_LO w) (now (bus s))) (env w (BUS_REG_TOD_LO w) (Suc (now (bus s)))) a) \<and>
    w_for_cmd_sem t = w_for_cmd_sem s \<and> w_for_res t = w_for_res s \<and>
    user_word t = user_word s \<and> user_state t = user_state s \<and>
    writes_since (bus s) (bus t) [(BUS_REG_TIMER w, clock_ticks_per_time_slice s)] \<and>
    terminals (bus t) = terminals (bus s))"
proof -
  have e: "\<not> emptyProcQ Ready_queue s"
    using headProcQ_asl [of s sched_heads "own_queues a" "wait a" Ready_queue] t q
    by (simp add: tables_def emptyProcQ_def)
  obtain v where v: "removeProcQ Ready_queue s = Inr (Some p, v)" "tables v (a\<lparr>ready := q\<rparr>)" "rest_same s v"
    using remove_ready_tables [OF t] q unfolding ok_iff by auto
  let ?v = "set_running_proc (Some p) v"
  have v0: "tables ?v (a\<lparr>ready := q\<rparr>)" "running_proc ?v = Some p"
    by (rule tables_cong [OF v(2)]) (simp_all add: set_running_proc_def)
  obtain t1 v1 where r1: "read_TOD w ?v = (t1, v1)" by fastforce
  have v1: "tables v1 (a\<lparr>ready := q\<rparr>)" "running_proc v1 = Some p"
    using read_TOD_tables [OF v0(1) r1] v0(2) by simp_all
  let ?f = "\<lambda>c. c\<lparr>tod_at_start := t1\<rparr>"
  have v2: "tables (upd_pcb p ?f v1) (upd_tcb p ?f (a\<lparr>ready := q\<rparr>))"
      "running_proc (upd_pcb p ?f v1) = Some p"
    using upd_pcb_tables [OF v1(1), of ?f p] v1(2) by simp_all
  obtain t2 v3 where r2: "read_TOD w (upd_pcb p ?f v1) = (t2, v3)" by fastforce
  have v3: "tables v3 (upd_tcb p ?f (a\<lparr>ready := q\<rparr>))" "running_proc v3 = Some p"
    using read_TOD_tables [OF v2(1) r2] v2(2) by simp_all
  let ?g = "\<lambda>c. c\<lparr>tod_cache := t2\<rparr>"
  let ?w = "reset_int_timer w (upd_pcb p ?g v3)"
  have v4: "tables (upd_pcb p ?g v3) (upd_tcb p ?g (upd_tcb p ?f (a\<lparr>ready := q\<rparr>)))"
      "running_proc (upd_pcb p ?g v3) = Some p"
    using upd_pcb_tables [OF v3(1), of ?g p] v3(2) by simp_all
  have v5: "tables ?w (upd_tcb p ?g (upd_tcb p ?f (a\<lparr>ready := q\<rparr>)))" "running_proc ?w = Some p"
    using tables_cong [OF v4(1), of ?w] v4(2) by (simp_all add: reset_int_timer_def)
  have "repr ?w (a_launch t1 t2 a)"
    using v5 by (simp add: repr_tables tables_def a_launch_def q upd_tcb_def own_queues_def live_def)
  moreover have "p_s (pcbs ?w p) = p_s (tcb a p)"
    using v5(1) by (simp add: tables_def)
  moreover have "launch w s = Inr (p_s (pcbs ?w p), ?w)"
    using e v(1) v0(2) r1 r2 by (simp add: launch_def Let_def)
  moreover have "t1 = env w (BUS_REG_TOD_LO w) (now (bus s))"
      "t2 = env w (BUS_REG_TOD_LO w) (Suc (now (bus s)))"
      "w_for_cmd_sem ?w = w_for_cmd_sem s" "w_for_res ?w = w_for_res s"
      "user_word ?w = user_word s" "user_state ?w = user_state s"
      "writes_since (bus s) (bus ?w) [(BUS_REG_TIMER w, clock_ticks_per_time_slice s)]"
      "terminals (bus ?w) = terminals (bus s)"
    using r1 r2 v(3)
    by (auto simp: read_TOD_def TOD_def bus_read_def set_running_proc_def upd_pcb_def reset_int_timer_def
        set_INTERVAL_TIMER_def bus_write_def writes_since_def rest_same_def)
  ultimately show ?thesis by simp
qed

section \<open>Errors of the launch\<close>

lemma launch_none:
  assumes t: "tables s a" and q: "ready a = []"
  shows "launch w s = Inl (Panic ''Impossible to launch the system, no processes in the ready queue'')"
  using headProcQ_asl [of s sched_heads "own_queues a" "wait a" Ready_queue] t q
  by (simp add: tables_def emptyProcQ_def launch_def)

lemma init_too_many:
  fixes s :: "'a kern_scheme"
  assumes boot: "boot s" and len: "MAXPROC < length ds"
  shows "init_scheduler w ly ds ts s = Inl (Panic ''ERROR: The maximum number of processes has been reached!'')"
proof -
  let ?s0 = "s\<lparr>clock_ticks_per_time_slice := clock_ticks_per_period (hw.truncate w) ts\<rparr>"
  have b0: "boot ?s0" using boot by (simp add: boot_def)
  obtain t where t: "andThen (initPcbs ?s0) initASL = Inr t" "tables (mkEmptyProcQ Ready_queue t) (a_boot (pcbs s))"
    using tables_boot [OF b0] by (auto simp: ok_iff)
  have "init_starting_procs w ds (mkEmptyProcQ Ready_queue t) =
      Inl (Panic ''ERROR: The maximum number of processes has been reached!'')"
    by (rule starts_too_many [OF t(2) core_boot [OF boot]]) (use len in \<open>simp add: a_boot_def\<close>)
  then show ?thesis unfolding boot_split Let_def t(1) by simp
qed

end
