(* ===== verification/Terminal.thy ===== *)
theory Terminal
  imports Devices
begin

text \<open>
  Terminals and printers: \<open>src/devices/terminal.c\<close> and \<open>src/devices/printer.c\<close>.

  A \<open>terminal *\<close> or \<open>printer *\<close> is the index in the static array of the same name. The
  busy-waiting loops poll a register of the hardware, which may be busy for ever, so they are
  \<open>partial_function\<close>s. A C string is the list of its characters before the terminator; a
  \<open>char\<close> is signed on MIPS and unsigned on ARM. The conversions write digits to a buffer
  of characters, where a pointer into the buffer is an index.
\<close>

section \<open>Terminals\<close>

type_synonym c_char = "8 word"

definition TERM_TX_ST_SPECIFIC :: u32 where "TERM_TX_ST_SPECIFIC = 5"
definition TERM_READ_ERROR_RETURN_CHAR :: c_char where "TERM_READ_ERROR_RETURN_CHAR = 7"
definition SYS_TERM :: nat where "SYS_TERM = 1"

definition promote_char :: "target \<Rightarrow> c_char \<Rightarrow> u32" where
  "promote_char t c = (case t of TARGET_UMPS \<Rightarrow> signed_take_bit 7 (ucast c) | TARGET_UARM \<Rightarrow> ucast c)"

definition get_terminal :: "board \<Rightarrow> nat \<Rightarrow> bus \<Rightarrow> (u32 \<times> bus) res" where
  "get_terminal w device_index b =
     (if device_index < N_DEV_PER_IL w
      then (let b = (if terminals b device_index = None
                     then b\<lparr>terminals := (terminals b)(device_index :=
                              Some (DEV_REG_ADDR w (IL_TERMINAL w) device_index))\<rparr>
                     else b)
            in andThen (deref (terminals b device_index)) (\<lambda>reg. Inr (reg, b)))
      else Inl OutOfBounds)"

definition term_tx_status :: "board \<Rightarrow> u32 \<Rightarrow> bus \<Rightarrow> u32 \<times> bus" where
  "term_tx_status w reg b =
     (case bus_read w (reg_transm_status reg) b of (v, b) \<Rightarrow> (v AND DEV_STATUS_MASK, b))"

definition term_rx_status :: "board \<Rightarrow> u32 \<Rightarrow> bus \<Rightarrow> u32 \<times> bus" where
  "term_rx_status w reg b =
     (case bus_read w (reg_status reg) b of (v, b) \<Rightarrow> (v AND DEV_STATUS_MASK, b))"

text \<open>\<open>while ((stat = status(..)) == DEVICE_ST_BUSY);\<close>\<close>

partial_function (option) busy_wait :: "(bus \<Rightarrow> u32 \<times> bus) \<Rightarrow> bus \<Rightarrow> (u32 \<times> bus) option" where
  "busy_wait status b =
     (case status b of (stat, b) \<Rightarrow>
        if stat = DEVICE_ST_BUSY then busy_wait status b else Some (stat, b))"

definition poll :: "(bus \<Rightarrow> u32 \<times> bus) \<Rightarrow> bus \<Rightarrow> (u32 \<times> bus) res" where
  "poll status b = (case busy_wait status b of None \<Rightarrow> Inl Diverge | Some r \<Rightarrow> Inr r)"

definition term_putchar :: "board \<Rightarrow> u32 \<Rightarrow> c_char \<Rightarrow> bus \<Rightarrow> (int \<times> bus) res" where
  "term_putchar w reg c b =
     (case term_tx_status w reg b of (stat, b) \<Rightarrow>
        if stat \<noteq> DEVICE_ST_READY \<and> stat \<noteq> TERM_TX_ST_SPECIFIC then Inr (-1, b)
        else
          let b = bus_write (reg_transm_command reg)
                    (push_bit 8 (promote_char (board_target w) c) OR DEVICE_CMD_FUNC_SPECIFIC) b in
          andThen (poll (term_tx_status w reg) b) (\<lambda>(stat, b).
          let b = bus_write (reg_transm_command reg) DEVICE_CMD_ACK b
          in Inr (if stat \<noteq> TERM_TX_ST_SPECIFIC then -1 else 0, b)))"

definition term_getchar :: "board \<Rightarrow> u32 \<Rightarrow> bus \<Rightarrow> (c_char \<times> bus) res" where
  "term_getchar w reg b =
     (case term_tx_status w reg b of (stat, b) \<Rightarrow>
        if stat \<noteq> DEVICE_ST_READY \<and> stat \<noteq> TERM_TX_ST_SPECIFIC
        then Inr (TERM_READ_ERROR_RETURN_CHAR, b)
        else
          let b = bus_write (reg_command reg) DEVICE_CMD_FUNC_SPECIFIC b in
          andThen (poll (term_rx_status w reg) b) (\<lambda>(stat, b).
          let (v, b) = bus_read w (reg_status reg) b;
              c = ucast (drop_bit 8 v);
              b = bus_write (reg_command reg) DEVICE_CMD_ACK b
          in Inr (if stat \<noteq> TERM_TX_ST_SPECIFIC then TERM_READ_ERROR_RETURN_CHAR else c, b)))"

fun term_putstr :: "board \<Rightarrow> u32 \<Rightarrow> c_char list \<Rightarrow> bus \<Rightarrow> bus res" where
  "term_putstr w reg [] b = Inr b"
| "term_putstr w reg (c # str) b =
     andThen (term_putchar w reg c b) (\<lambda>(r, b).
     if r \<noteq> 0 then Inr b else term_putstr w reg str b)"

definition c_string :: "string \<Rightarrow> c_char list" where
  "c_string s = map of_char s"

definition addokbuf :: "board \<Rightarrow> string \<Rightarrow> bus \<Rightarrow> bus res" where
  "addokbuf w strp b =
     andThen (get_terminal w SYS_TERM b) (\<lambda>(reg, b). term_putstr w reg (c_string strp) b)"

definition adderrbuf :: "board \<Rightarrow> string \<Rightarrow> bus \<Rightarrow> bus res" where
  "adderrbuf w strp b =
     andThen (get_terminal w SYS_TERM b) (\<lambda>(reg, b).
     andThen (term_putstr w reg (c_string strp) b) (\<lambda>b. Inl (Panic strp)))"

section \<open>Printers\<close>

definition DEVICE_ST_NOT_INSTALLED :: u32 where "DEVICE_ST_NOT_INSTALLED = 0"

definition get_printer :: "board \<Rightarrow> nat \<Rightarrow> bus \<Rightarrow> (u32 \<times> bus) res" where
  "get_printer w device_index b =
     (if device_index < N_DEV_PER_IL w
      then (let b = (if printers b device_index = None
                     then b\<lparr>printers := (printers b)(device_index :=
                              Some (DEV_REG_ADDR w (IL_PRINTER w) device_index))\<rparr>
                     else b)
            in andThen (deref (printers b device_index)) (\<lambda>reg. Inr (reg, b)))
      else Inl OutOfBounds)"

definition is_printer_installed :: "board \<Rightarrow> u32 \<Rightarrow> bus \<Rightarrow> bool \<times> bus" where
  "is_printer_installed w reg b =
     (case bus_read w (reg_status reg) b of (v, b) \<Rightarrow> (v \<noteq> DEVICE_ST_NOT_INSTALLED, b))"

definition printer_putchar :: "board \<Rightarrow> u32 \<Rightarrow> c_char \<Rightarrow> bus \<Rightarrow> (int \<times> bus) res" where
  "printer_putchar w reg c b =
     (case bus_read w (reg_status reg) b of (status, b) \<Rightarrow>
        if status \<noteq> DEVICE_ST_READY then Inr (-1, b)
        else
          let b = bus_write (reg_data0 reg) (promote_char (board_target w) c) b;
              b = bus_write (reg_command reg) DEVICE_CMD_FUNC_SPECIFIC b in
          andThen (poll (bus_read w (reg_status reg)) b) (\<lambda>(status, b).
          let b = bus_write (reg_command reg) DEVICE_CMD_ACK b
          in Inr (if status \<noteq> DEVICE_ST_READY then -1 else 0, b)))"

end
