(* ===== verification/Interrupts.thy ===== *)
theory Interrupts
  imports Scheduler Terminal
begin

text \<open>
  Interrupts and device input/output: \<open>src/core/exceptions/interrupts.c\<close>.

  \<open>machine\<close> adds the exception areas and the variables of \<open>handler.c\<close> to the scheduler's state.
  The reads of interrupt lines, bitmaps and device registers take their value from the hardware
  (\<open>Bus\<close>); commands go to the log of bus writes.
\<close>

section \<open>State\<close>

datatype exc_type = SYS | PRG | TLB | INTR
datatype area_age = NEW | OLD

fun exc_index :: "exc_type \<Rightarrow> nat" where
  "exc_index SYS = 0"
| "exc_index PRG = 1"
| "exc_index TLB = 2"
| "exc_index INTR = 3"

fun age_index :: "area_age \<Rightarrow> nat" where
  "age_index NEW = 0"
| "age_index OLD = 1"

record machine = kern +
  area :: "area_age \<Rightarrow> exc_type \<Rightarrow> state_t"
  interrupted_proc :: "pcb option"
  int_timer_cache :: u32

definition set_area :: "area_age \<Rightarrow> exc_type \<Rightarrow> state_t \<Rightarrow> machine \<Rightarrow> machine" where
  "set_area g t st s = s\<lparr>area := (area s)(g := (area s g)(t := st))\<rparr>"

text \<open>An access to the bus.\<close>

definition on_bus :: "(bus \<Rightarrow> 'b \<times> bus) \<Rightarrow> 'a kern_scheme \<Rightarrow> 'b \<times> 'a kern_scheme" where
  "on_bus f s = (case f (bus s) of (v, b) \<Rightarrow> (v, s\<lparr>bus := b\<rparr>))"

section \<open>Device waiting lists\<close>

definition wait_io :: "board \<Rightarrow> u32 \<Rightarrow> u32 \<Rightarrow> u32 \<Rightarrow> 'a kern_scheme \<Rightarrow> 'a kern_scheme res" where
  "wait_io w command dev_reg subdev s =
     (let dev_line = GET_DEV_LINE w dev_reg;
          dev_num = GET_DEV_INSTANCE w dev_reg;
          dev_type = get_ext_dev_type w dev_line subdev in
      andThen (get_dev_w_list w (unat dev_type) (unat dev_num)) (\<lambda>(l, d).
      let sem = Some (Dev_sem l d) in
      andThen (pop_running s) (\<lambda>(target_proc, s).
      andThen (load_int sem s) (\<lambda>n.
      andThen (store_int sem (n - 1) s) (\<lambda>s.
      andThen (load_int sem s) (\<lambda>n.
      andThen (deref target_proc) (\<lambda>target_proc.
      andThen
        (if sint n < 0
         then andThen (insertBlocked sem target_proc s) (\<lambda>(_, s).
              andThen (load_int sem s) (\<lambda>n. store_int sem (n + 1) s))
         else andThen (insertBlockedFifo sem target_proc s) (\<lambda>(_, s).
              let s = s\<lparr>bus := send_command l command dev_reg (bus s)\<rparr>;
                  s = set_w_for_res (l, d) (Some target_proc) s
              in Inr (upd_pcb target_proc (\<lambda>c. c\<lparr>dev_w_list := Some (l, d)\<rparr>) s))) (\<lambda>s.
      Inr (flush_kernel_time w target_proc s)))))))))"

text \<open>
  The two parts of \<open>done_io\<close>: hand the result to the process that waited for it, and give the
  device to the next one.
\<close>

definition done_io_wake ::
  "board \<Rightarrow> nat \<Rightarrow> nat \<Rightarrow> u32 \<Rightarrow> pcb option \<Rightarrow> 'a kern_scheme \<Rightarrow> 'a kern_scheme res" where
  "done_io_wake w l d dev_reg done_proc s =
     (if done_proc = w_for_res s l d
      then andThen (deref done_proc) (\<lambda>p.
           let s = upd_pcb p (\<lambda>c. c\<lparr>dev_w_list := None\<rparr>) s in
           andThen (schedule_proc p s) (\<lambda>s.
           let (ret_status, s) = on_bus (get_status w l dev_reg) s
           in Inr (upd_pcb p (\<lambda>c. c\<lparr>p_s := set_SYSCALL_RET_REG ret_status (p_s c)\<rparr>) s)))
      else Inr s)"

definition done_io_next ::
  "board \<Rightarrow> nat \<Rightarrow> nat \<Rightarrow> u32 \<Rightarrow> 'a kern_scheme \<Rightarrow> 'a kern_scheme res" where
  "done_io_next w l d dev_reg s =
     (let sem = Some (Dev_sem l d) in
      andThen (headBlocked sem s) (\<lambda>next_proc.
      case next_proc of
        Some p \<Rightarrow>
          let cmd_argument = SYSCALL_ARG1 (p_s (pcbs s p));
              s = s\<lparr>bus := send_command l cmd_argument dev_reg (bus s)\<rparr>;
              s = set_w_for_res (l, d) (Some p) s
          in Inr (upd_pcb p (\<lambda>c. c\<lparr>dev_w_list := Some (l, d)\<rparr>) s)
      | None \<Rightarrow>
          let s = s\<lparr>bus := send_command l DEVICE_CMD_ACK dev_reg (bus s)\<rparr>;
              s = set_w_for_res (l, d) None s
          in andThen (load_int sem s) (\<lambda>n. store_int sem (n + 1) s)))"

definition done_io :: "board \<Rightarrow> nat \<Rightarrow> nat \<Rightarrow> 'a kern_scheme \<Rightarrow> 'a kern_scheme res" where
  "done_io w dev_type dev_n s =
     andThen (get_dev_w_list w dev_type dev_n) (\<lambda>(l, d).
     if w_for_res s l d \<noteq> None
     then andThen (removeBlocked (Some (Dev_sem l d)) s) (\<lambda>(done_proc, s).
          let dev_reg = DEV_REG_ADDR w (get_ext_dev_line dev_type) dev_n in
          andThen (done_io_wake w l d dev_reg done_proc s) (done_io_next w l d dev_reg))
     else andThen (addokbuf w ''A device interrupt was raised, but there's no process in the device queue, maybe you sent the command directly to the device without the proper syscall?'' (bus s)) (\<lambda>b.
          Inr (s\<lparr>bus := b\<rparr>)))"

section \<open>\<open>consume_interrupts\<close>\<close>

text \<open>The loop over the devices of a line; \<open>k\<close> devices are still to be checked.\<close>

fun consume_line ::
  "board \<Rightarrow> nat \<Rightarrow> nat \<Rightarrow> nat \<Rightarrow> u32 \<Rightarrow> 'a kern_scheme \<Rightarrow> 'a kern_scheme res" where
  "consume_line w line 0 dev_num bitmap s = Inr s"
| "consume_line w line (Suc k) dev_num bitmap s =
     andThen
       (if bitmap AND 1 \<noteq> 0
        then done_io w (unat (get_ext_dev_type w (word_of_nat line) 0)) dev_num s
        else Inr s)
       (consume_line w line k (Suc dev_num) (drop_bit 1 bitmap))"

text \<open>The loop over the lines of the external devices other than the terminals.\<close>

fun consume_lines :: "board \<Rightarrow> nat list \<Rightarrow> 'a kern_scheme \<Rightarrow> 'a kern_scheme res" where
  "consume_lines w [] s = Inr s"
| "consume_lines w (line # ls) s =
     (case on_bus (interrupt_pending w line) s of (pending, s) \<Rightarrow>
        andThen
          (if pending \<noteq> 0
           then (case on_bus (bus_read w (CDEV_BITMAP_ADDR w line)) s of (bitmap, s) \<Rightarrow>
                   consume_line w line (N_DEV_PER_IL w) 0 bitmap s)
           else Inr s)
          (consume_lines w ls))"

text \<open>One terminal: the receiver, then the transmitter.\<close>

definition consume_subdev :: "board \<Rightarrow> nat \<Rightarrow> nat \<Rightarrow> 'a kern_scheme \<Rightarrow> 'a kern_scheme res" where
  "consume_subdev w dev_type dev_num s =
     (let dev_reg = DEV_REG_ADDR w (IL_TERMINAL w) dev_num;
          (st, s) = on_bus (get_status w dev_type dev_reg) s
      in if st AND DEV_STATUS_MASK = TERM_ST_DONE then done_io w dev_type dev_num s else Inr s)"

fun consume_terminals :: "board \<Rightarrow> nat \<Rightarrow> nat \<Rightarrow> u32 \<Rightarrow> 'a kern_scheme \<Rightarrow> 'a kern_scheme res" where
  "consume_terminals w 0 dev_num bitmap s = Inr s"
| "consume_terminals w (Suc k) dev_num bitmap s =
     andThen
       (if bitmap AND 1 \<noteq> 0
        then andThen (consume_subdev w TERM_RX dev_num s) (consume_subdev w TERM_TX dev_num)
        else Inr s)
       (consume_terminals w k (Suc dev_num) (drop_bit 1 bitmap))"

text \<open>The decrement of the saved program counter on ARM.\<close>

fun adjust_pc :: "board \<Rightarrow> state_t \<Rightarrow> state_t" where
  "adjust_pc w (Uarm s) = Uarm (s\<lparr>arm_pc := arm_pc s - WORD_SIZE w\<rparr>)"
| "adjust_pc w (Umps s) = Umps s"

definition consume_interrupts :: "board \<Rightarrow> machine \<Rightarrow> machine res" where
  "consume_interrupts w s =
     (let s = set_area OLD INTR (adjust_pc w (area s OLD INTR)) s;
          (timer, s) = on_bus (interrupt_pending w 2) s in
      andThen (if timer \<noteq> 0 then time_slice_callback s else Inr s) (\<lambda>s.
      andThen (consume_lines w [N_IL w - N_EXT_IL w..<IL_TERMINAL w] s) (\<lambda>s.
      case on_bus (interrupt_pending w (IL_TERMINAL w)) s of (pending, s) \<Rightarrow>
        if pending \<noteq> 0
        then (case on_bus (bus_read w (CDEV_BITMAP_ADDR w (IL_TERMINAL w))) s of (bitmap, s) \<Rightarrow>
                consume_terminals w (N_DEV_PER_IL w) 0 bitmap s)
        else Inr s)))"

end
