(* ===== verification/Sched_Io.thy ===== *)
theory Sched_Io
  imports Sched_Init Interrupts
begin

text \<open>
  Device input and output against the abstract scheduler: what \<open>wait_io\<close> and \<open>done_io\<close>
  (\<open>src/core/exceptions/interrupts.c\<close>) do to the queues, to the device's waiting list and to the
  device, in every case; that they keep the invariant when the process that the device serves is
  the first of its queue; and the process that is lost when it is not.
\<close>

section \<open>Waiting for a device\<close>

definition a_enqueue :: "int_ptr option \<Rightarrow> pcb \<Rightarrow> pcb list \<Rightarrow> sched \<Rightarrow> sched" where
  "a_enqueue key p q a = (upd_tcb p (\<lambda>c. c\<lparr>p_semkey := key\<rparr>) a)\<lparr>wait := (wait a)(key := q)\<rparr>"

text \<open>The queue when the device is busy (by priority), and when it is free (by arrival).\<close>

definition a_wait_busy :: "nat \<Rightarrow> nat \<Rightarrow> sched \<Rightarrow> sched" where
  "a_wait_busy l d a =
     (let r = running a; key = Some (Dev_sem l d)
      in a_enqueue key r (q_insert (a_prio a) r (wait a key)) (a_dispatch a))"

definition a_wait_ready :: "nat \<Rightarrow> nat \<Rightarrow> sched \<Rightarrow> sched" where
  "a_wait_ready l d a =
     (let r = running a; key = Some (Dev_sem l d)
      in upd_tcb r (\<lambda>c. c\<lparr>dev_w_list := Some (l, d)\<rparr>)
           (a_enqueue key r (wait a key @ [r]) (a_dispatch a)))"

lemma a_dispatch_simps [simp]:
  "free (a_dispatch a) = free a" "wait (a_dispatch a) = wait a" "kids (a_dispatch a) = kids a"
  "tcb (a_dispatch a) = tcb a" "a_prio (a_dispatch a) = a_prio a"
  by (simp_all add: a_dispatch_def a_prio_def fun_eq_iff split: list.split)

lemma unqueued_dispatch: "unqueued p a \<Longrightarrow> unqueued p (a_dispatch a)"
  by (auto simp: unqueued_def a_dispatch_def split: list.split)

lemma pop_running_refines:
  assumes r: "repr s a"
  shows "ok (pop_running s) (\<lambda>(p, t). p = Some (running a) \<and> repr t (a_dispatch a) \<and> rest_same s t)"
  using dispatch_refines [OF r] r
  by (auto simp: pop_running_def Let_def repr_def ok_case_prod elim!: ok_mono)

lemma insertBlockedFifo_refines:
  assumes r: "repr s a" and p: "unqueued p a" and nf: "\<not> asl_full (wait a)"
  shows "ok (insertBlockedFifo key p s) (\<lambda>(full, t). \<not> full \<and> rest_same s t \<and>
    repr t (a_enqueue key p (wait a key @ [p]) a))"
proof -
  have asl: "asl s sched_heads (own_queues a) (wait a)" using r by (simp add: repr_def)
  have "ok (insertBlockedFifo key p s) (\<lambda>(full, t). insert_result key p (wait a key @ [p])
      sched_heads (own_queues a) (wait a) s full t)"
    using p by (intro insertBlockedFifo_spec [OF asl]) (auto simp: unqueued_def)
  then show ?thesis
  proof (rule ok_mono, clarify)
    fix full t
    assume "insert_result key p (wait a key @ [p]) sched_heads (own_queues a) (wait a) s full t"
    then have t: "\<not> full" "asl t sched_heads (own_queues a) ((wait a)(key := wait a key @ [p]))"
        "asl_frame s t" "pcbs t = (pcbs s)(p := (pcbs s p)\<lparr>p_semkey := key\<rparr>)"
      using nf by (auto simp: insert_result_def)
    have "tree_rep t (live a) (kids a) = tree_rep s (live a) (kids a)"
      by (rule tree_rep_asl_frame [OF t(3)]) (simp add: t(4))
    then show "\<not> full \<and> rest_same s t \<and> repr t (a_enqueue key p (wait a key @ [p]) a)"
      using t r asl_frame_same [OF t(3)] by (simp add: repr_def a_enqueue_def upd_tcb_def)
  qed
qed

text \<open>Updates of the fields outside the tables.\<close>

lemma repr_outside:
  assumes "repr s a"
  shows "repr (s\<lparr>bus := b\<rparr>) a" "repr (set_w_for_res ld v s) a"
    "repr (s\<lparr>w_for_cmd_sem := f\<rparr>) a"
proof -
  have "repr (s\<lparr>bus := b\<rparr>) (a\<lparr>running := running a\<rparr>)"
    by (rule repr_cong [OF assms]) (use assms in \<open>simp_all add: repr_def\<close>)
  then show "repr (s\<lparr>bus := b\<rparr>) a" by simp
  have "repr (set_w_for_res ld v s) (a\<lparr>running := running a\<rparr>)"
    by (rule repr_cong [OF assms])
      (use assms in \<open>simp_all add: repr_def set_w_for_res_def split: prod.split\<close>)
  then show "repr (set_w_for_res ld v s) a" by simp
  have "repr (s\<lparr>w_for_cmd_sem := f\<rparr>) (a\<lparr>running := running a\<rparr>)"
    by (rule repr_cong [OF assms]) (use assms in \<open>simp_all add: repr_def\<close>)
  then show "repr (s\<lparr>w_for_cmd_sem := f\<rparr>) a" by simp
qed


text \<open>The device that \<open>wait_io\<close> computes from the address and the subdevice.\<close>

definition io_device :: "board \<Rightarrow> u32 \<Rightarrow> u32 \<Rightarrow> (nat \<times> nat) res" where
  "io_device w dev_reg subdev =
     get_dev_w_list w (unat (get_ext_dev_type w (GET_DEV_LINE w dev_reg) subdev))
       (unat (GET_DEV_INSTANCE w dev_reg))"

lemma rest_same_sem:
  "rest_same s t \<Longrightarrow> w_for_cmd_sem t = w_for_cmd_sem s \<and> w_for_res t = w_for_res s \<and>
    user_word t = user_word s \<and> user_state t = user_state s \<and> bus t = bus s \<and>
    kern.more t = kern.more s"
  by (simp add: rest_same_def)

definition upd_sem :: "nat \<Rightarrow> nat \<Rightarrow> c_int \<Rightarrow> (nat \<Rightarrow> nat \<Rightarrow> c_int) \<Rightarrow> nat \<Rightarrow> nat \<Rightarrow> c_int" where
  "upd_sem l d v f = f(l := (f l)(d := v))"

lemma store_dev_sem: "store_int (Some (Dev_sem l d)) v s =
    Inr (s\<lparr>w_for_cmd_sem := upd_sem l d v (w_for_cmd_sem s)\<rparr>)"
  by (simp add: upd_sem_def)

lemma upd_sem_simps [simp]:
  "upd_sem l d v f l d = v" "upd_sem l d v (upd_sem l d u f) = upd_sem l d v f"
  "upd_sem l d (f l d) f = f"
  by (simp_all add: upd_sem_def)

lemma wait_io_busy:
  assumes r: "repr s a" and dev: "io_device w dev_reg sub = Inr (l, d)"
    and n: "sint (w_for_cmd_sem s l d - 1) < 0"
    and u: "unqueued (running a) a" and nf: "\<not> asl_full (wait a)"
  shows "ok (wait_io w cmd dev_reg sub s) (\<lambda>t.
    repr t (a_flush_kernel (tod_at w s) (running a) (a_wait_busy l d a)) \<and>
    rest_same (snd (read_TOD w s)) t)"
proof -
  let ?r = "running a" and ?key = "Some (Dev_sem l d)"
  let ?sem = "upd_sem l d (w_for_cmd_sem s l d - 1) (w_for_cmd_sem s)"
  obtain s1 where s1: "pop_running s = Inr (Some ?r, s1)" "repr s1 (a_dispatch a)" "rest_same s s1"
    using pop_running_refines [OF r] by (auto simp: ok_iff)
  note s1' = rest_same_sem [OF s1(3)]
  define s2 where "s2 = s1\<lparr>w_for_cmd_sem := ?sem\<rparr>"
  have r2: "repr s2 (a_dispatch a)" unfolding s2_def by (rule repr_outside(3) [OF s1(2)])
  obtain s3 where s3: "insertBlocked ?key ?r s2 = Inr (False, s3)" "repr s3 (a_wait_busy l d a)"
      "rest_same s2 s3"
    using insertBlocked_refines [OF r2 unqueued_dispatch [OF u], of ?key] nf
    by (auto simp: ok_iff a_wait_busy_def a_enqueue_def Let_def)
  define s4 where "s4 = s3\<lparr>w_for_cmd_sem := w_for_cmd_sem s\<rparr>"
  have r4: "repr s4 (a_wait_busy l d a)" unfolding s4_def by (rule repr_outside(3) [OF s3(2)])
  have rs: "rest_same s s4"
    using s1(3) s3(3) by (auto simp: rest_same_def s2_def s4_def)
  have sem3: "w_for_cmd_sem s3 = ?sem" using s3(3) by (simp add: rest_same_def s2_def)
  have "wait_io w cmd dev_reg sub s = Inr (flush_kernel_time w ?r s4)"
    using dev n s1(1) s1' s3(1) sem3
    by (simp add: wait_io_def io_device_def Let_def store_dev_sem s2_def [symmetric] s4_def
        del: store_int.simps)
  moreover have "repr (flush_kernel_time w ?r s4) (a_flush_kernel (tod_at w s) ?r (a_wait_busy l d a))"
    using flush_kernel_refines [OF r4] rs by (simp add: tod_at_def rest_same_def)
  moreover have "rest_same (snd (read_TOD w s)) (flush_kernel_time w ?r s4)"
    using flush_kernel_refines [OF r4, of w ?r] rs
    by (auto simp: read_TOD_def TOD_def bus_read_def rest_same_def)
  ultimately show ?thesis by simp
qed

lemma wait_io_ready:
  assumes r: "repr s a" and dev: "io_device w dev_reg sub = Inr (l, d)"
    and n: "0 \<le> sint (w_for_cmd_sem s l d - 1)"
    and u: "unqueued (running a) a" and nf: "\<not> asl_full (wait a)"
  shows "ok (wait_io w cmd dev_reg sub s) (\<lambda>t.
    repr t (a_flush_kernel (env w (BUS_REG_TOD_LO w) (Suc (now (bus s)))) (running a)
              (a_wait_ready l d a)) \<and>
    w_for_cmd_sem t = upd_sem l d (w_for_cmd_sem s l d - 1) (w_for_cmd_sem s) \<and>
    w_for_res t = (w_for_res s)(l := (w_for_res s l)(d := Some (running a))) \<and>
    bus t = snd (bus_read w (BUS_REG_TOD_LO w) (send_command l cmd dev_reg (bus s))) \<and>
    kern.more t = kern.more s \<and> memory_same s t)"
proof -
  let ?r = "running a" and ?key = "Some (Dev_sem l d)"
  let ?sem = "upd_sem l d (w_for_cmd_sem s l d - 1) (w_for_cmd_sem s)"
  obtain s1 where s1: "pop_running s = Inr (Some ?r, s1)" "repr s1 (a_dispatch a)" "rest_same s s1"
    using pop_running_refines [OF r] by (auto simp: ok_iff)
  note s1' = rest_same_sem [OF s1(3)]
  define s2 where "s2 = s1\<lparr>w_for_cmd_sem := ?sem\<rparr>"
  have r2: "repr s2 (a_dispatch a)" unfolding s2_def by (rule repr_outside(3) [OF s1(2)])
  obtain s3 where s3: "insertBlockedFifo ?key ?r s2 = Inr (False, s3)"
      "repr s3 (a_enqueue ?key ?r (wait a ?key @ [?r]) (a_dispatch a))" "rest_same s2 s3"
    using insertBlockedFifo_refines [OF r2 unqueued_dispatch [OF u], of ?key] nf
    by (auto simp: ok_iff)
  define s4 where "s4 = upd_pcb ?r (\<lambda>c. c\<lparr>dev_w_list := Some (l, d)\<rparr>)
    (set_w_for_res (l, d) (Some ?r) (s3\<lparr>bus := send_command l cmd dev_reg (bus s3)\<rparr>))"
  have r4: "repr s4 (a_wait_ready l d a)"
    unfolding s4_def a_wait_ready_def Let_def
    by (rule upd_pcb_refines [THEN conjunct1]) (simp_all add: repr_outside s3(2))
  have s3': "w_for_cmd_sem s3 = ?sem" "w_for_res s3 = w_for_res s" "bus s3 = bus s" "kern.more s3 = kern.more s" "memory_same s s3"
    using s3(3) s1' by (simp_all add: rest_same_def s2_def memory_same_def)
  have now: "now (send_command l cmd dev_reg b) = Suc (now b)" for b
    by (simp add: send_command_def)
  have tod: "tod_at w s4 = env w (BUS_REG_TOD_LO w) (Suc (now (bus s)))"
    using s3' by (simp add: tod_at_def s4_def upd_pcb_def set_w_for_res_def now)
  have fl: "repr (flush_kernel_time w ?r s4)
      (a_flush_kernel (env w (BUS_REG_TOD_LO w) (Suc (now (bus s)))) ?r (a_wait_ready l d a))"
    using flush_kernel_refines [OF r4, of w ?r] tod by simp
  have "wait_io w cmd dev_reg sub s = Inr (flush_kernel_time w ?r s4)"
    using dev n s1(1) s1' s3(1)
    by (simp add: wait_io_def io_device_def Let_def store_dev_sem s2_def [symmetric] s4_def
        del: store_int.simps)
  moreover have "w_for_cmd_sem (flush_kernel_time w ?r s4) = ?sem"
      "w_for_res (flush_kernel_time w ?r s4) = (w_for_res s)(l := (w_for_res s l)(d := Some ?r))"
      "bus (flush_kernel_time w ?r s4) = snd (bus_read w (BUS_REG_TOD_LO w) (send_command l cmd dev_reg (bus s)))"
      "kern.more (flush_kernel_time w ?r s4) = kern.more s" "memory_same s (flush_kernel_time w ?r s4)"
    using flush_kernel_refines [OF r4, of w ?r] s3'
    by (auto simp: rest_same_def read_TOD_def TOD_def bus_read_def s4_def set_w_for_res_def upd_pcb_def memory_same_def)
  ultimately show ?thesis using fl by simp
qed


section \<open>The end of an operation\<close>

definition io_command :: "int_ptr option \<Rightarrow> sched \<Rightarrow> u32" where
  "io_command key a =
     (case wait a key of [] \<Rightarrow> DEVICE_CMD_ACK | x # _ \<Rightarrow> SYSCALL_ARG1 (p_s (tcb a x)))"

definition a_io_next :: "nat \<Rightarrow> nat \<Rightarrow> sched \<Rightarrow> sched" where
  "a_io_next l d a =
     (case wait a (Some (Dev_sem l d)) of
        [] \<Rightarrow> a | x # _ \<Rightarrow> upd_tcb x (\<lambda>c. c\<lparr>dev_w_list := Some (l, d)\<rparr>) a)"

definition a_io_result :: "u32 \<Rightarrow> pcb \<Rightarrow> sched \<Rightarrow> sched" where
  "a_io_result st p a =
     upd_tcb p (\<lambda>c. c\<lparr>p_s := set_SYSCALL_RET_REG st (p_s c)\<rparr>)
       (a_schedule p (upd_tcb p (\<lambda>c. c\<lparr>dev_w_list := None\<rparr>) a))"

text \<open>What the device's list, its semaphore and the bus are after \<open>done_io_next\<close>.\<close>

definition io_next_outside :: "nat \<Rightarrow> nat \<Rightarrow> u32 \<Rightarrow> sched \<Rightarrow> 'a kern_scheme \<Rightarrow> 'a kern_scheme \<Rightarrow> bool" where
  "io_next_outside l d dev_reg a s t \<longleftrightarrow>
     (let q = wait a (Some (Dev_sem l d)) in
      w_for_res t = (w_for_res s)(l := (w_for_res s l)(d := (case q of [] \<Rightarrow> None | x # _ \<Rightarrow> Some x))) \<and>
      w_for_cmd_sem t =
        (if q = [] then upd_sem l d (w_for_cmd_sem s l d + 1) (w_for_cmd_sem s) else w_for_cmd_sem s) \<and>
      bus t = send_command l (io_command (Some (Dev_sem l d)) a) dev_reg (bus s) \<and>
      kern.more t = kern.more s \<and> memory_same s t)"

lemma headBlocked_refines:
  "repr s a \<Longrightarrow> headBlocked key s = Inr (case wait a key of [] \<Rightarrow> None | p # _ \<Rightarrow> Some p)"
  by (auto simp: repr_def intro: headBlocked_eq)

lemma done_io_next_refines:
  assumes r: "repr s a"
  shows "ok (done_io_next w l d dev_reg s) (\<lambda>t. repr t (a_io_next l d a) \<and>
    io_next_outside l d dev_reg a s t)"
proof (cases "wait a (Some (Dev_sem l d))")
  case Nil
  then show ?thesis
    using headBlocked_refines [OF r, of "Some (Dev_sem l d)"]
    by (simp add: done_io_next_def Let_def store_dev_sem a_io_next_def io_next_outside_def
        io_command_def repr_outside [OF r] repr_outside(3) [OF repr_outside(2) [OF repr_outside(1) [OF r]]]
        del: store_int.simps) (simp add: set_w_for_res_def memory_same_def)
next
  case (Cons x q)
  have "p_s (pcbs s x) = p_s (tcb a x)" using r by (simp add: repr_def)
  moreover have "repr (upd_pcb x (\<lambda>c. c\<lparr>dev_w_list := Some (l, d)\<rparr>)
      (set_w_for_res (l, d) (Some x) (s\<lparr>bus := b\<rparr>))) (upd_tcb x (\<lambda>c. c\<lparr>dev_w_list := Some (l, d)\<rparr>) a)" for b
    by (rule upd_pcb_refines [THEN conjunct1]) (simp_all add: repr_outside r)
  ultimately show ?thesis
    using headBlocked_refines [OF r, of "Some (Dev_sem l d)"] Cons
    by (simp add: done_io_next_def Let_def a_io_next_def io_next_outside_def io_command_def)
      (simp add: set_w_for_res_def upd_pcb_def memory_same_def)
qed

text \<open>\<open>done_io_wake\<close> when the process taken from the queue is the one the device served.\<close>

lemma done_io_wake_refines:
  assumes r: "repr s a" and p: "unqueued p a" and u: "running a \<noteq> Idle_proc \<Longrightarrow> unqueued (running a) a"
    and res: "w_for_res s l d = Some p"
  shows "ok (done_io_wake w l d dev_reg (Some p) s) (\<lambda>t.
    repr t (a_io_result (fst (get_status w l dev_reg (bus s))) p a) \<and>
    w_for_res t = w_for_res s \<and> w_for_cmd_sem t = w_for_cmd_sem s \<and>
    bus t = snd (get_status w l dev_reg (bus s)) \<and> kern.more t = kern.more s \<and> memory_same s t)"
proof -
  let ?f = "\<lambda>c. c\<lparr>dev_w_list := None\<rparr>" and ?g = "\<lambda>v c. c\<lparr>p_s := set_SYSCALL_RET_REG v (p_s c)\<rparr>"
  let ?a1 = "upd_tcb p ?f a"
  have r1: "repr (upd_pcb p ?f s) ?a1" "rest_same s (upd_pcb p ?f s)"
    using upd_pcb_refines [OF r, of ?f p] by simp_all
  have "ok (schedule_proc p (upd_pcb p ?f s)) (\<lambda>t. repr t (a_schedule p ?a1) \<and>
      rest_same (upd_pcb p ?f s) t)"
    by (rule schedule_refines [OF r1(1)]) (use p u in simp_all)
  then obtain t where t: "schedule_proc p (upd_pcb p ?f s) = Inr t" "repr t (a_schedule p ?a1)"
      "rest_same (upd_pcb p ?f s) t"
    by (auto simp: ok_iff)
  note ts = rest_same_sem [OF rest_same_trans [OF r1(2) t(3)]]
  have "repr (upd_pcb p (?g v) (t\<lparr>bus := b\<rparr>)) (upd_tcb p (?g v) (a_schedule p ?a1))" for v b
    by (rule upd_pcb_refines [THEN conjunct1]) (simp_all add: repr_outside t)
  then show ?thesis
    using t(1) ts res
    by (simp add: done_io_wake_def a_io_result_def Let_def on_bus_def split: prod.split)
      (simp add: upd_pcb_def memory_same_def)
qed


lemma a_schedule_simps [simp]:
  "free (a_schedule p a) = free a" "wait (a_schedule p a) = wait a" "kids (a_schedule p a) = kids a"
  by (simp_all add: a_schedule_def a_stop_def a_requeue_def)

lemma a_unblock_simps [simp]:
  "free (a_unblock key p q a) = free a" "wait (a_unblock key p q a) = (wait a)(key := q)"
  "kids (a_unblock key p q a) = kids a" "ready (a_unblock key p q a) = ready a"
  "running (a_unblock key p q a) = running a"
  by (simp_all add: a_unblock_def)

definition io_reg :: "board \<Rightarrow> nat \<Rightarrow> nat \<Rightarrow> u32" where
  "io_reg w l d = DEV_REG_ADDR w (get_ext_dev_line l) d"

definition io_status :: "board \<Rightarrow> nat \<Rightarrow> nat \<Rightarrow> bus \<Rightarrow> u32" where
  "io_status w l d b = fst (get_status w l (io_reg w l d) b)"

text \<open>The device served the first process of its queue.\<close>

definition a_done_io :: "u32 \<Rightarrow> nat \<Rightarrow> nat \<Rightarrow> pcb \<Rightarrow> pcb list \<Rightarrow> sched \<Rightarrow> sched" where
  "a_done_io st l d p q a = a_io_next l d (a_io_result st p (a_unblock (Some (Dev_sem l d)) p q a))"

lemma removeBlocked_unblock:
  assumes r: "repr s a" and w: "wait a key = p # q"
  obtains t where "removeBlocked key s = Inr (Some p, t)" "repr t (a_unblock key p q a)" "rest_same s t"
  using removeBlocked_refines [OF r, of key] w by (auto simp: ok_iff a_unblock_def)

lemma unqueued_unblock:
  assumes pl: "placed a U" and w: "wait a key = p # q"
  shows "unqueued p (a_unblock key p q a)" "r \<in> U \<Longrightarrow> unqueued r (a_unblock key p q a)"
proof -
  have "placed (a_unblock key p q a) (insert p U)" by (rule placed_wake [OF pl w]) simp_all
  then show "unqueued p (a_unblock key p q a)" "r \<in> U \<Longrightarrow> unqueued r (a_unblock key p q a)"
    using placed_out [of "a_unblock key p q a" "insert p U"] by (simp_all add: unqueued_def)
qed

lemma done_io_serves:
  assumes r: "repr s a" and core: "core a {running a}" and dev: "get_dev_w_list w l d = Inr (l, d)"
    and res: "w_for_res s l d = Some p" and q: "wait a (Some (Dev_sem l d)) = p # q"
  shows "ok (done_io w l d s) (\<lambda>t. \<exists>u.
    repr t (a_done_io (io_status w l d (bus s)) l d p q a) \<and>
    io_next_outside l d (io_reg w l d)
      (a_io_result (io_status w l d (bus s)) p (a_unblock (Some (Dev_sem l d)) p q a)) u t \<and>
    w_for_res u = w_for_res s \<and> w_for_cmd_sem u = w_for_cmd_sem s \<and>
    bus u = snd (get_status w l (io_reg w l d) (bus s)) \<and> kern.more u = kern.more s \<and> memory_same s u)"
proof -
  let ?key = "Some (Dev_sem l d)"
  have pl: "placed a {running a}" using core by (simp add: core_def)
  obtain s1 where s1: "removeBlocked ?key s = Inr (Some p, s1)" "repr s1 (a_unblock ?key p q a)"
      "rest_same s s1"
    by (rule removeBlocked_unblock [OF r q])
  note ts = rest_same_sem [OF s1(3)] and un = unqueued_unblock [OF pl q]
  have "ok (done_io_wake w l d (io_reg w l d) (Some p) s1) (\<lambda>t.
    repr t (a_io_result (fst (get_status w l (io_reg w l d) (bus s1))) p (a_unblock ?key p q a)) \<and>
    w_for_res t = w_for_res s1 \<and> w_for_cmd_sem t = w_for_cmd_sem s1 \<and>
    bus t = snd (get_status w l (io_reg w l d) (bus s1)) \<and> kern.more t = kern.more s1 \<and> memory_same s1 t)"
    by (rule done_io_wake_refines [OF s1(2)]) (use un ts res in \<open>simp_all add: a_unblock_def\<close>)
  then obtain u where u: "done_io_wake w l d (io_reg w l d) (Some p) s1 = Inr u"
      "repr u (a_io_result (io_status w l d (bus s)) p (a_unblock ?key p q a))"
      "w_for_res u = w_for_res s" "w_for_cmd_sem u = w_for_cmd_sem s"
      "bus u = snd (get_status w l (io_reg w l d) (bus s))" "kern.more u = kern.more s" "memory_same s u"
    using ts by (auto simp: ok_iff io_status_def memory_same_def)
  have "done_io w l d s = done_io_next w l d (io_reg w l d) u"
    using dev res s1(1) u(1) by (simp add: done_io_def Let_def io_reg_def)
  then show ?thesis
    using done_io_next_refines [OF u(2), of w l d "io_reg w l d"] u(3-7)
    by (auto simp: a_done_io_def ok_iff)
qed

text \<open>The process that the device served was terminated and nobody else waits.\<close>

lemma done_io_nobody:
  assumes r: "repr s a" and dev: "get_dev_w_list w l d = Inr (l, d)"
    and res: "w_for_res s l d = Some p" and q: "wait a (Some (Dev_sem l d)) = []"
  shows "ok (done_io w l d s) (\<lambda>t. repr t a \<and> io_next_outside l d (io_reg w l d) a s t)"
proof -
  have "ok (removeBlocked (Some (Dev_sem l d)) s) (\<lambda>(r, t). r = None \<and> t = s)"
    using removeBlocked_refines [OF r, of "Some (Dev_sem l d)"] q by (auto elim!: ok_mono)
  then have "removeBlocked (Some (Dev_sem l d)) s = Inr (None, s)" by (auto simp: ok_iff)
  moreover have "a_io_next l d a = a" using q by (simp add: a_io_next_def)
  ultimately show ?thesis
    using done_io_next_refines [OF r, of w l d "io_reg w l d"] dev res
    by (simp add: done_io_def done_io_wake_def Let_def io_reg_def)
qed

text \<open>
  The first process of the queue is not the one the device served: it leaves the queue and goes
  nowhere, and its command is never sent.
\<close>

lemma done_io_loses:
  assumes r: "repr s a" and core: "core a {running a}" and dev: "get_dev_w_list w l d = Inr (l, d)"
    and res: "w_for_res s l d = Some p" and q: "wait a (Some (Dev_sem l d)) = x # q" and x: "x \<noteq> p"
  shows "ok (done_io w l d s) (\<lambda>t.
    repr t (a_io_next l d (a_unblock (Some (Dev_sem l d)) x q a)) \<and>
    io_next_outside l d (io_reg w l d) (a_unblock (Some (Dev_sem l d)) x q a) s t)"
    and "unqueued x (a_io_next l d (a_unblock (Some (Dev_sem l d)) x q a))"
    and "running (a_io_next l d (a_unblock (Some (Dev_sem l d)) x q a)) = running a"
proof -
  let ?key = "Some (Dev_sem l d)"
  have pl: "placed a {running a}" using core by (simp add: core_def)
  obtain s1 where s1: "removeBlocked ?key s = Inr (Some x, s1)" "repr s1 (a_unblock ?key x q a)"
      "rest_same s s1"
    by (rule removeBlocked_unblock [OF r q])
  note ts = rest_same_sem [OF s1(3)]
  show "ok (done_io w l d s) (\<lambda>t. repr t (a_io_next l d (a_unblock ?key x q a)) \<and>
      io_next_outside l d (io_reg w l d) (a_unblock ?key x q a) s t)"
  proof -
    have "done_io w l d s = done_io_next w l d (io_reg w l d) s1"
      using dev res s1(1) x ts by (simp add: done_io_def done_io_wake_def Let_def io_reg_def)
    moreover have "io_next_outside l d (io_reg w l d) b s1 t = io_next_outside l d (io_reg w l d) b s t" for b t
      using ts by (simp add: io_next_outside_def memory_same_def)
    ultimately show ?thesis
      using done_io_next_refines [OF s1(2), of w l d "io_reg w l d"] by simp
  qed
  show "unqueued x (a_io_next l d (a_unblock ?key x q a))"
    using unqueued_unblock(1) [OF pl q] by (auto simp: a_io_next_def split: list.split)
  show "running (a_io_next l d (a_unblock ?key x q a)) = running a"
    by (auto simp: a_io_next_def split: list.split)
qed

section \<open>The invariant\<close>

lemma core_set_dev:
  assumes core: "core a U" and v: "\<And>l d. v = Some (l, d) \<Longrightarrow> p \<in> set (wait a (Some (Dev_sem l d)))"
  shows "core (upd_tcb p (\<lambda>c. c\<lparr>dev_w_list := v\<rparr>) a) U"
proof -
  let ?b = "upd_tcb p (\<lambda>c. c\<lparr>dev_w_list := v\<rparr>) a"
  have "placed ?b U = placed a U" by (simp add: placed_def)
  moreover have "sem_ok ?b = sem_ok a" by (rule sem_ok_cong) simp_all
  moreover have "tree_ok ?b = tree_ok a" by (rule tree_ok_cong) simp_all
  moreover have "by_prio (a_prio ?b) (ready ?b) = by_prio (a_prio a) (ready a)"
    by (subst by_prio_cong [of _ _ "a_prio a"]) (simp_all add: a_prio_def)
  moreover have "dev_ok ?b" using core v by (auto simp: core_def dev_ok_def)
  ultimately show ?thesis using core by (simp add: core_def)
qed

lemma core_enqueue_dispatch:
  assumes wf: "sched_wf a" and r: "running a \<noteq> Idle_proc" and key: "key \<noteq> None"
    and q: "set q = insert (running a) (set (wait a key))" "distinct q"
  shows "sched_wf (a_enqueue key (running a) q (a_dispatch a))"
proof -
  have c: "core a {running a}" "running a \<in> all_procs" using wf r by (auto simp: sched_wf_def)
  note d = core_dispatch [OF c(1)]
  have "running (a_dispatch a) \<noteq> running a"
    using c r by (auto simp: a_dispatch_def core_def placed_def split: list.splits)
  then have "core (a_enqueue key (running a) q (a_dispatch a)) {running (a_dispatch a)}"
    unfolding a_enqueue_def using d c key q
    by (intro core_block) (auto simp: insert_commute)
  then show ?thesis using d(2) by (simp add: sched_wf_def a_enqueue_def)
qed

lemma running_not_blocked:
  assumes "sched_wf a" and "running a \<noteq> Idle_proc"
  shows "unqueued (running a) a" "distinct (wait a key)" "running a \<notin> set (wait a key)"
proof -
  have "placed a {running a}" using assms by (simp add: sched_wf_def core_def)
  from placed_out [OF this] this
  show "unqueued (running a) a" "distinct (wait a key)" "running a \<notin> set (wait a key)"
    by (auto simp: unqueued_def placed_def blocked_iff)
qed

lemma sched_wf_wait_busy:
  assumes wf: "sched_wf a" and r: "running a \<noteq> Idle_proc"
  shows "sched_wf (a_wait_busy l d a)"
  unfolding a_wait_busy_def Let_def
  by (rule core_enqueue_dispatch [OF wf r]) (use running_not_blocked [OF wf r] in simp_all)

lemma sched_wf_wait_ready:
  assumes wf: "sched_wf a" and r: "running a \<noteq> Idle_proc"
  shows "sched_wf (a_wait_ready l d a)"
proof -
  let ?b = "a_enqueue (Some (Dev_sem l d)) (running a) (wait a (Some (Dev_sem l d)) @ [running a]) (a_dispatch a)"
  have "sched_wf ?b"
    by (rule core_enqueue_dispatch [OF wf r]) (use running_not_blocked [OF wf r] in auto)
  then show ?thesis
    unfolding a_wait_ready_def Let_def sched_wf_def
    by (auto intro: core_set_dev simp: a_enqueue_def)
qed

lemma sched_wf_done_io:
  assumes wf: "sched_wf a" and q: "wait a (Some (Dev_sem l d)) = p # q"
  shows "sched_wf (a_done_io st l d p q a)"
proof -
  let ?key = "Some (Dev_sem l d)" and ?f = "\<lambda>c. c\<lparr>dev_w_list := None\<rparr>"
  have c: "core a {running a}" "running a \<in> insert Idle_proc all_procs" using wf by (auto simp: sched_wf_def)
  have pl: "placed a {running a}" using c by (simp add: core_def)
  have eq: "upd_tcb p ?f (a_unblock ?key p q a) = a_unblock ?key p q (upd_tcb p ?f a)"
    by (cases a, cases "tcb a p") (simp add: a_unblock_def upd_tcb_def)
  have "core (a_unblock ?key p q (upd_tcb p ?f a)) (insert p {running a})"
    by (rule core_unblock) (use core_set_dev [OF c(1), of None p] q in simp_all)
  then have "sched_wf (a_schedule p (a_unblock ?key p q (upd_tcb p ?f a)))"
    by (intro sched_wf_schedule) (use placed_wait(5,6) [OF pl q] c in \<open>simp_all add: a_unblock_def\<close>)
  then have "sched_wf (a_io_result st p (a_unblock ?key p q a))"
    unfolding a_io_result_def eq sched_wf_def
    by (subst core_cong [where a = "a_schedule p (a_unblock ?key p q (upd_tcb p ?f a))"]) simp_all
  moreover have "sched_wf (a_io_next l d b)" if "sched_wf b" for b
    using that by (auto simp: a_io_next_def sched_wf_def split: list.split intro!: core_set_dev)
  ultimately show ?thesis by (simp add: a_done_io_def)
qed

end
