(* ===== verification/Sched_Kill.thy ===== *)
theory Sched_Kill
  imports Sched_Refine
begin

text \<open>
  Termination of a process and its offspring: \<open>recursive_remove_proc\<close> and \<open>terminate_proc\<close>.

  The code visits a process and its descendants in preorder (\<open>subtree\<close>). The recursion ends,
  having moved exactly the visited processes from their queues to the free list (\<open>gone\<close>).
\<close>

section \<open>What termination does to the abstract state\<close>

definition gone :: "pcb list \<Rightarrow> sched \<Rightarrow> sched \<Rightarrow> bool" where
  "gone xs a b \<longleftrightarrow>
     free b = rev xs @ free a \<and> ready b = filter (\<lambda>x. x \<notin> set xs) (ready a) \<and>
     (\<forall>k. wait b k = filter (\<lambda>x. x \<notin> set xs) (wait a k)) \<and> running b = running a \<and>
     (\<forall>x. x \<notin> set xs \<longrightarrow> tcb b x = tcb a x) \<and>
     (\<forall>x. dev_w_list (tcb b x) = dev_w_list (tcb a x))"

lemma gone_Nil: "gone [] a (a\<lparr>kids := k\<rparr>)"
  by (simp add: gone_def)

lemma gone_trans: "gone xs a b \<Longrightarrow> gone ys b c \<Longrightarrow> gone (xs @ ys) a c"
  by (auto simp: gone_def intro!: filter_cong)

text \<open>A process that the removal finds: ready, or blocked on the semaphore of its \<open>p_semkey\<close>.\<close>

definition removable :: "sched \<Rightarrow> pcb \<Rightarrow> bool" where
  "removable a p \<longleftrightarrow>
     p \<notin> set (free a) \<and>
     (case p_semkey (tcb a p) of
        None \<Rightarrow> p \<in> set (ready a) \<and> dev_w_list (tcb a p) = None
      | Some k \<Rightarrow> p \<in> set (wait a (Some k)))"

lemma removable_gone:
  "gone xs a b \<Longrightarrow> q \<notin> set xs \<Longrightarrow> removable a q \<Longrightarrow> removable b q"
  by (auto simp: gone_def removable_def split: option.splits)

lemma removable_kids: "removable (a\<lparr>kids := k\<rparr>) q = removable a q"
  by (simp add: removable_def split: option.split)

section \<open>The representation during a removal\<close>

text \<open>The tree still holds the nodes \<open>A\<close>, while some of them are on the free list already.\<close>

definition ktab :: "'a kern_scheme \<Rightarrow> sched \<Rightarrow> pcb set \<Rightarrow> bool" where
  "ktab s a A \<longleftrightarrow>
     asl s sched_heads (own_queues a) (wait a) \<and> tree_rep s A (kids a) \<and> pcbs s = tcb a"

lemma ktab_links:
  assumes r: "ktab s a A" and l: "links_only proc_cells s t"
    and asl: "asl t sched_heads (own_queues b) (wait b)" and same: "kids b = kids a" "tcb b = tcb a"
  shows "ktab t b A \<and> rest_same s t \<and> running_proc t = running_proc s"
proof -
  note p = pcbs_links_only [OF l]
  have "tree_rep t A (kids a) = tree_rep s A (kids a)"
    by (rule tree_rep_asl_frame [OF links_only_frame_proc [OF l]]) (simp add: p)
  then show ?thesis using r asl same p links_only_same [OF l] by (simp add: ktab_def)
qed

lemma ktab_distinct:
  assumes "ktab s a A"
  shows "distinct (wait a k)" "distinct (ready a)"
proof -
  have asl: "asl s sched_heads (own_queues a) (wait a)" using assms by (simp add: ktab_def)
  show "distinct (wait a k)" by (rule asl_distinct [OF asl])
  show "distinct (ready a)" using rings_distinct [OF asl_rings [OF asl], of Ready_queue] by simp
qed

lemma out_ready_ktab:
  assumes r: "ktab s a A"
  shows "ok (outProcQ Ready_queue p s) (\<lambda>(r, t). r = (if p \<in> set (ready a) then Some p else None) \<and>
    ktab t (a\<lparr>ready := remove1 p (ready a)\<rparr>) A \<and> rest_same s t \<and> running_proc t = running_proc s)"
proof -
  have asl: "asl s sched_heads (own_queues a) (wait a)" using r by (simp add: ktab_def)
  from outProcQ_asl [OF asl sched_heads_simps(2) not_procQ(1), of p] show ?thesis
  proof (rule ok_mono, clarify)
    fix q t
    assume "asl t sched_heads ((own_queues a)(Ready_queue := remove1 p (own_queues a Ready_queue))) (wait a)"
      "links_only proc_cells s t"
    then have "ktab t (a\<lparr>ready := remove1 p (ready a)\<rparr>) A \<and> rest_same s t \<and> running_proc t = running_proc s"
      by (intro ktab_links [OF r]) auto
    then show "(if p \<in> set (own_queues a Ready_queue) then Some p else None) =
        (if p \<in> set (ready a) then Some p else None) \<and>
      ktab t (a\<lparr>ready := remove1 p (ready a)\<rparr>) A \<and> rest_same s t \<and> running_proc t = running_proc s"
      by simp
  qed
qed

lemma out_blocked_ktab:
  assumes r: "ktab s a A" and k: "k = p_semkey (tcb a p)" and p: "p \<in> set (wait a k)"
  shows "ok (outBlocked p s) (\<lambda>(r, t). r = Some p \<and>
    ktab t ((upd_tcb p (\<lambda>c. c\<lparr>p_semkey := None\<rparr>) a)\<lparr>wait := (wait a)(k := remove1 p (wait a k))\<rparr>) A \<and>
    rest_same s t \<and> running_proc t = running_proc s)"
proof -
  have asl: "asl s sched_heads (own_queues a) (wait a)" using r by (simp add: ktab_def)
  have "k = p_semkey (pcbs s p)" using r k by (simp add: ktab_def)
  from outBlocked_spec [OF asl this] show ?thesis
  proof (rule ok_mono, clarify)
    fix q t
    assume "if p \<in> set (wait a k) then q = Some p \<and> remove_result k p sched_heads (own_queues a) (wait a) s t
      else q = None \<and> asl t sched_heads (own_queues a) (wait a) \<and> asl_frame s t \<and> pcbs t = pcbs s"
    then have t: "q = Some p" "asl t sched_heads (own_queues a) ((wait a)(k := remove1 p (wait a k)))"
        "asl_frame s t" "pcbs t = (pcbs s)(p := (pcbs s p)\<lparr>p_semkey := None\<rparr>)"
      using p by (auto simp: remove_result_def)
    have "tree_rep t A (kids a) = tree_rep s A (kids a)"
      by (rule tree_rep_asl_frame [OF t(3)]) (simp add: t(4))
    then show "q = Some p \<and>
      ktab t ((upd_tcb p (\<lambda>c. c\<lparr>p_semkey := None\<rparr>) a)\<lparr>wait := (wait a)(k := remove1 p (wait a k))\<rparr>) A \<and>
      rest_same s t \<and> running_proc t = running_proc s"
      using t r asl_frame_same [OF t(3)] by (simp add: ktab_def upd_tcb_def)
  qed
qed

lemma free_ktab:
  assumes r: "ktab s a A" and p: "unqueued p a"
  shows "ok (freePcb p s) (\<lambda>t. ktab t (a\<lparr>free := p # free a\<rparr>) A \<and> rest_same s t \<and>
    running_proc t = running_proc s)"
proof -
  have asl: "asl s sched_heads (own_queues a) (wait a)" using r by (simp add: ktab_def)
  have "ok (freePcb p s) (\<lambda>t. asl t sched_heads ((own_queues a)(PcbFree_h := p # own_queues a PcbFree_h)) (wait a) \<and>
      links_only proc_cells s t)"
    using p by (intro freePcb_asl [OF asl]) (auto simp: unqueued_def)
  then show ?thesis by (rule ok_mono) (rule ktab_links [OF r], auto)
qed

section \<open>The recursion\<close>

lemma detach_ktab:
  assumes r: "ktab s a A" and p: "removable a p"
  shows "\<exists>t b. detach_proc p s = Inr t \<and> ktab t b A \<and> gone [p] a b \<and> kids b = kids a \<and>
    rest_same s t \<and> running_proc t = running_proc s"
proof -
  have asl: "asl s sched_heads (own_queues a) (wait a)" and pc: "pcbs s = tcb a"
    using r by (simp_all add: ktab_def)
  note d = ktab_distinct [OF r]
  have own: "(set (free a) \<union> set (ready a)) \<inter> blocked (wait a) = {}"
    using asl_disjoint_own [OF asl] by simp
  have fin: "\<exists>v b. freePcb p t = Inr v \<and> ktab v b A \<and> gone [p] a b \<and> kids b = kids a \<and>
      rest_same s v \<and> running_proc v = running_proc s"
    if t: "ktab t c A" "rest_same s t" "running_proc t = running_proc s"
      and c: "unqueued p c" "gone [p] a (c\<lparr>free := p # free c\<rparr>)" "kids c = kids a" for t c
    using free_ktab [OF t(1) c(1)] t(2,3) c(2,3) rest_same_trans [OF t(2)] unfolding ok_iff
    by (metis (no_types, lifting) select_convs(5) surjective update_convs(1))
  show ?thesis
  proof (cases "p_semkey (tcb a p)")
    case None
    let ?c = "a\<lparr>ready := remove1 p (ready a)\<rparr>"
    have pr: "p \<in> set (ready a)" "p \<notin> set (free a)" "dev_w_list (tcb a p) = None"
      using p None by (auto simp: removable_def)
    obtain t where t: "outProcQ Ready_queue p s = Inr (Some p, t)" "ktab t ?c A" "rest_same s t"
        "running_proc t = running_proc s"
      using out_ready_ktab [OF r, of p] pr(1) unfolding ok_iff by auto
    have nb: "p \<notin> blocked (wait a)" using own pr(1) by auto
    have "unqueued p ?c" using pr nb d by (simp add: unqueued_def)
    moreover have "gone [p] a (?c\<lparr>free := p # free ?c\<rparr>)"
      using nb d by (auto simp: gone_def distinct_remove1_removeAll removeAll_filter_not_eq blocked_iff
          intro!: filter_True [symmetric] filter_cong)
    ultimately show ?thesis
      using fin [OF t(2-4)] t(1) None pr(3) by (simp add: detach_proc_def pc)
  next
    case (Some k)
    let ?k = "Some k"
    let ?c = "(upd_tcb p (\<lambda>c. c\<lparr>p_semkey := None\<rparr>) a)\<lparr>wait := (wait a)(?k := remove1 p (wait a ?k))\<rparr>"
    have pr: "p \<in> set (wait a ?k)" "p \<notin> set (free a)" using p Some by (auto simp: removable_def)
    obtain t where t: "outBlocked p s = Inr (Some p, t)" "ktab t ?c A" "rest_same s t"
        "running_proc t = running_proc s"
      using out_blocked_ktab [OF r Some [symmetric] pr(1)] unfolding ok_iff by auto
    have nr: "p \<notin> set (ready a)" using own pr(1) unfolding blocked_def by blast
    have other: "p \<notin> set (wait a l)" if "l \<noteq> ?k" for l
      using asl_disjoint_keys [OF asl that] pr(1) by auto
    have "unqueued p ?c" using pr nr d other by (auto simp: unqueued_def blocked_iff split: if_splits)
    moreover have "gone [p] a (?c\<lparr>free := p # free ?c\<rparr>)"
      using nr d other by (auto simp: gone_def distinct_remove1_removeAll removeAll_filter_not_eq
          intro!: filter_True [symmetric] filter_cong)
    ultimately show ?thesis
      using fin [OF t(2-4)] t(1) Some by (simp add: detach_proc_def pc)
  qed
qed

text \<open>Taking the next child of \<open>p\<close> off the tree.\<close>

lemma child_ktab:
  assumes r: "ktab s a A" and p: "p \<in> A" and kids: "kids a p = c # cs"
  shows "ok (removeChild p s) (\<lambda>(r, t). r = Some c \<and>
    ktab t ((upd_tcb c (\<lambda>d. d\<lparr>p_parent := None\<rparr>) a)\<lparr>kids := (kids a)(p := cs)\<rparr>) A \<and>
    rest_same s t \<and> running_proc t = running_proc s)"
proof -
  have asl: "asl s sched_heads (own_queues a) (wait a)" and T: "tree_rep s A (kids a)"
    and pc: "pcbs s = tcb a" using r by (simp_all add: ktab_def)
  from removeChild_Cons [OF T p kids] show ?thesis
  proof (rule ok_mono, clarify)
    fix t
    assume t: "tree_rep t A ((kids a)(p := cs))" "pcb_only tree_cells {c} s t"
      "pcbs t c = (pcbs s c)\<lparr>p_parent := None\<rparr>"
    have pcbs: "pcbs t = (pcbs s)(c := (pcbs s c)\<lparr>p_parent := None\<rparr>)"
      using t(2,3) by (auto simp: pcb_only_def)
    have "asl t sched_heads (own_queues a) (wait a)"
      by (rule asl_same_queues [OF asl pcb_only_same_queues [OF t(2)]]) (simp add: pcbs)
    then show "Some c = Some c \<and>
      ktab t ((upd_tcb c (\<lambda>d. d\<lparr>p_parent := None\<rparr>) a)\<lparr>kids := (kids a)(p := cs)\<rparr>) A \<and>
      rest_same s t \<and> running_proc t = running_proc s"
      using t(1) pcbs pc pcb_only_same [OF t(2)] by (simp add: ktab_def upd_tcb_def)
  qed
qed

lemma remove_walk_steps:
  "detach_proc p s = Inr t \<Longrightarrow> remove_walk (Remove p) s = remove_walk (Children p) t"
  "removeChild p s = Inr (None, t) \<Longrightarrow> remove_walk (Children p) s = Some (Inr (0, t))"
  "removeChild p s = Inr (Some c, t) \<Longrightarrow> remove_walk (Remove c) t = Some (Inr (0, u)) \<Longrightarrow>
    remove_walk (Children p) s = remove_walk (Children p) u"
  by (subst remove_walk.simps, simp)+

text \<open>\<open>kills m xs\<close>: the walk \<open>m\<close> ends with 0, having removed \<open>xs\<close>.\<close>

definition kills :: "'a kern_scheme \<Rightarrow> sched \<Rightarrow> pcb set \<Rightarrow> removal \<Rightarrow> pcb list \<Rightarrow> pcb list \<Rightarrow> bool" where
  "kills s a A m xs ps \<longleftrightarrow>
     (\<exists>t b. remove_walk m s = Some (Inr (0, t)) \<and> ktab t b A \<and> gone xs a b \<and>
       kids b = (\<lambda>q. if q \<in> set ps then [] else kids a q) \<and>
       rest_same s t \<and> running_proc t = running_proc s)"

text \<open>The processes \<open>xs\<close> are still to be visited; \<open>k\<close> are their children at the beginning.\<close>

definition pending :: "(pcb \<Rightarrow> pcb list) \<Rightarrow> sched \<Rightarrow> pcb set \<Rightarrow> pcb list \<Rightarrow> bool" where
  "pending k a A xs \<longleftrightarrow> (\<forall>q\<in>set xs. removable a q \<and> kids a q = k q \<and> q \<in> A)"

lemma remove_walk_kills:
  fixes s :: "'a kern_scheme"
  shows
  "subtree k p xs \<Longrightarrow> ktab s a A \<Longrightarrow> distinct xs \<Longrightarrow> pending k a A xs \<Longrightarrow> kills s a A (Remove p) xs xs"
  "forest k cs xs \<Longrightarrow> ktab s a A \<Longrightarrow> p \<in> A \<Longrightarrow> kids a p = cs \<Longrightarrow> distinct (p # xs) \<Longrightarrow>
    pending k a A xs \<Longrightarrow> kills s a A (Children p) xs (p # xs)"
proof (induction arbitrary: s a and s a p rule: subtree_forest.inducts)
  case (subtree k p xs)
  have p: "removable a p" "kids a p = k p" "p \<in> A" using subtree.prems(3) by (auto simp: pending_def)
  obtain t b where t: "detach_proc p s = Inr t" "ktab t b A" "gone [p] a b" "kids b = kids a"
      "rest_same s t" "running_proc t = running_proc s"
    using detach_ktab [OF subtree.prems(1) p(1)] by blast
  have "removable b q" if "q \<in> set xs" for q
    using subtree.prems(2,3) that by (intro removable_gone [OF t(3)]) (auto simp: pending_def)
  then have "pending k b A xs" using subtree.prems(3) t(4) by (auto simp: pending_def)
  then have "kills t b A (Children p) xs (p # xs)"
    using t(2,4) p subtree.prems(2) by (intro subtree.IH) auto
  then show ?case
    using t gone_trans [OF t(3)] rest_same_trans [OF t(5)] remove_walk_steps(1) [OF t(1)]
    by (fastforce simp: kills_def)
next
  case (forest_Nil k)
  have "node_rep s p []" using forest_Nil.prems by (auto simp: ktab_def tree_rep_def)
  then have "removeChild p s = Inr (None, s)" by (rule removeChild_Nil)
  then have "remove_walk (Children p) s = Some (Inr (0, s))" by (rule remove_walk_steps(2))
  moreover have "gone [] a a" by (simp add: gone_def)
  ultimately show ?case
    using forest_Nil.prems by (auto simp: kills_def intro!: exI [of _ a])
next
  case (forest_Cons k c xs cs ys)
  let ?a = "(upd_tcb c (\<lambda>d. d\<lparr>p_parent := None\<rparr>) a)\<lparr>kids := (kids a)(p := cs)\<rparr>"
  obtain t where t: "removeChild p s = Inr (Some c, t)" "ktab t ?a A" "rest_same s t"
      "running_proc t = running_proc s"
    using child_ktab [OF forest_Cons.prems(1,2,3)] unfolding ok_iff by auto
  have d: "distinct xs" "distinct ys" "set xs \<inter> set ys = {}" "p \<notin> set xs" "p \<notin> set ys"
    using forest_Cons.prems(4) by auto
  have cx: "c \<in> set xs" using forest_Cons.hyps(1) by (auto elim: subtreeE)
  have rem: "removable ?a q = removable a q" for q
    by (auto simp: removable_def split: option.split)
  have "pending k ?a A xs" using forest_Cons.prems(5) d by (auto simp: pending_def rem)
  from forest_Cons.IH(1) [OF t(2) d(1) this]
  obtain u b where u: "remove_walk (Remove c) t = Some (Inr (0, u))" "ktab u b A" "gone xs ?a b"
      "kids b = (\<lambda>q. if q \<in> set xs then [] else kids ?a q)" "rest_same t u"
      "running_proc u = running_proc t"
    by (auto simp: kills_def)
  have "pending k b A ys"
    using forest_Cons.prems(5) d removable_gone [OF u(3)] by (auto simp: pending_def rem u(4))
  moreover have "kids b p = cs" using d by (simp add: u(4))
  ultimately have "kills u b A (Children p) ys (p # ys)"
    using u(2) forest_Cons.prems(2) d by (intro forest_Cons.IH(2)) auto
  then obtain v e where v: "remove_walk (Children p) u = Some (Inr (0, v))" "ktab v e A" "gone ys b e"
      "kids e = (\<lambda>q. if q \<in> set (p # ys) then [] else kids b q)" "rest_same u v"
      "running_proc v = running_proc u"
    by (auto simp: kills_def)
  have "gone xs a b" using u(3) cx by (auto simp: gone_def)
  then have "gone (xs @ ys) a e" using v(3) by (rule gone_trans)
  moreover have "kids e = (\<lambda>q. if q \<in> set (p # xs @ ys) then [] else kids a q)"
    by (auto simp: v(4) u(4) fun_eq_iff)
  moreover have "remove_walk (Children p) s = Some (Inr (0, v))"
    using remove_walk_steps(3) [OF t(1) u(1)] v(1) by simp
  moreover have "rest_same s v" by (rule rest_same_trans [OF t(3) rest_same_trans [OF u(5) v(5)]])
  moreover have "running_proc v = running_proc s" using t(4) u(6) v(6) by simp
  ultimately show ?case using v(2) unfolding kills_def by blast
qed

section \<open>\<open>terminate_proc\<close>\<close>

text \<open>The first step: the process leaves its parent.\<close>

lemma cut_ktab:
  fixes s :: "'a kern_scheme"
  assumes r: "repr s a" and tree: "tree_ok a" and p: "p \<in> live a"
  shows "\<exists>t k1 v. (if p_parent (pcbs s p) \<noteq> None then andThen (outChild p s) (\<lambda>(_, s). Inr s) else Inr s) = Inr t \<and>
    ktab t ((upd_tcb p (\<lambda>c. c\<lparr>p_parent := v\<rparr>) a)\<lparr>kids := k1\<rparr>) (live a) \<and>
    rest_same s t \<and> running_proc t = running_proc s \<and>
    (\<forall>q. (q, p) \<notin> child_rel a \<longrightarrow> k1 q = kids a q) \<and> (\<forall>q\<in>live a. set (k1 q) = set (kids a q) - {p})"
proof -
  have asl: "asl s sched_heads (own_queues a) (wait a)" and T: "tree_rep s (live a) (kids a)"
    and pc: "pcbs s = tcb a" using r by (simp_all add: repr_def)
  have par: "p_parent (tcb a p) = Some q \<longleftrightarrow> (q, p) \<in> child_rel a" for q
    using tree p by (simp add: tree_ok_def)
  show ?thesis
  proof (cases "p_parent (tcb a p)")
    case None
    have root: "p \<notin> set (kids a q)" if "q \<in> live a" for q
      using par [of q] None that by (auto simp: child_rel_def)
    have "ktab s ((upd_tcb p (\<lambda>c. c\<lparr>p_parent := p_parent c\<rparr>) a)\<lparr>kids := kids a\<rparr>) (live a)"
      using asl T pc by (simp add: ktab_def upd_tcb_def)
    moreover have "(upd_tcb p (\<lambda>c. c\<lparr>p_parent := p_parent c\<rparr>) a) =
        upd_tcb p (\<lambda>c. c\<lparr>p_parent := p_parent (tcb a p)\<rparr>) a" by (simp add: upd_tcb_def)
    ultimately show ?thesis
      using None root
      by (intro exI [of _ s] exI [of _ "kids a"] exI [of _ "p_parent (tcb a p)"]) (auto simp: pc)
  next
    case (Some q)
    then have q: "q \<in> live a" "p \<in> set (kids a q)" using par by (auto simp: child_rel_def)
    let ?k = "(kids a)(q := remove1 p (kids a q))"
    obtain t v where t: "outChild p s = Inr (Some p, t)" "tree_rep t (live a) ?k" "pcb_only tree_cells {p} s t"
        "pcbs t p = (pcbs s p)\<lparr>p_parent := v\<rparr>"
      using outChild_spec [OF T q] unfolding ok_iff by auto
    have pcbs: "pcbs t = (pcbs s)(p := (pcbs s p)\<lparr>p_parent := v\<rparr>)"
      using t(3,4) by (auto simp: pcb_only_def)
    have "asl t sched_heads (own_queues a) (wait a)"
      by (rule asl_same_queues [OF asl pcb_only_same_queues [OF t(3)]]) (simp add: pcbs)
    then have k: "ktab t ((upd_tcb p (\<lambda>c. c\<lparr>p_parent := v\<rparr>) a)\<lparr>kids := ?k\<rparr>) (live a)"
      using t(2) pcbs pc by (simp add: ktab_def upd_tcb_def)
    have "node_rep s q (kids a q)" using T q(1) by (simp add: tree_rep_def)
    then have "distinct (kids a q)" by (rule node_rep_distinct)
    moreover have "p \<notin> set (kids a x)" if "x \<in> live a" "x \<noteq> q" for x
      using par [of x] Some that by (auto simp: child_rel_def)
    moreover have "x \<noteq> q" if "(x, p) \<notin> child_rel a" for x using that par [of q] Some by auto
    ultimately show ?thesis
      using k t(1) pcb_only_same [OF t(3)] Some
      by (intro exI [of _ t] exI [of _ ?k] exI [of _ v]) (auto simp: pc)
  qed
qed

text \<open>The processes visited from \<open>p\<close>, in a well-formed state.\<close>

lemma tree_ok_wf:
  assumes "tree_ok a"
  shows "wf ((child_rel a)\<inverse>)"
proof (rule finite_acyclic_wf_converse)
  have "finite (live a)" by (simp add: live_def)
  moreover have "child_rel a \<subseteq> live a \<times> (live a \<inter> all_procs)" using assms by (simp add: tree_ok_def)
  ultimately show "finite (child_rel a)" by (meson finite_SigmaI finite_Int finite_subset)
  show "acyclic (child_rel a)" using assms by (simp add: tree_ok_def)
qed

definition offspring :: "sched \<Rightarrow> pcb \<Rightarrow> pcb list \<Rightarrow> bool" where
  "offspring a p xs \<longleftrightarrow> subtree (\<lambda>q. if q \<in> live a then kids a q else []) p xs"

lemma child_rel_alt: "{(q, c). c \<in> set (if q \<in> live a then kids a q else [])} = child_rel a"
  by (auto simp: child_rel_def)

lemma offspring_exists: "tree_ok a \<Longrightarrow> \<exists>xs. offspring a p xs"
  unfolding offspring_def
  using subtree_exists [of "\<lambda>q. if q \<in> live a then kids a q else []" p, unfolded child_rel_alt] tree_ok_wf
  by simp

lemma offspring_set: "offspring a p xs \<Longrightarrow> set xs = (child_rel a)\<^sup>* `` {p}"
  unfolding offspring_def using subtree_set(1) by (simp only: child_rel_alt)

lemma parent_unique: "tree_ok a \<Longrightarrow> (q, c) \<in> child_rel a \<Longrightarrow> (r, c) \<in> child_rel a \<Longrightarrow> q = r"
  unfolding tree_ok_def by (metis (no_types, lifting) IntD1 SigmaD2 option.inject subsetD)

text \<open>No process is visited twice.\<close>

lemma subtree_distinct:
  assumes un: "\<And>q r c. c \<in> set (k q) \<Longrightarrow> c \<in> set (k r) \<Longrightarrow> q = r"
    and ac: "acyclic {(q, c). c \<in> set (k q)}" and d: "\<And>q. distinct (k q)"
  shows "subtree k p xs \<Longrightarrow> distinct xs"
    "forest k cs xs \<Longrightarrow> distinct cs \<Longrightarrow> (\<exists>q. set cs \<subseteq> set (k q)) \<Longrightarrow> distinct xs"
  using un ac d
proof (induction rule: subtree_forest.inducts)
  case (subtree k p xs)
  let ?r = "{(q, c). c \<in> set (k q)}"
  have "distinct xs" using subtree.IH subtree.prems by blast
  moreover have "p \<notin> set xs"
  proof
    assume "p \<in> set xs"
    then obtain c where "(p, c) \<in> ?r" "(c, p) \<in> ?r\<^sup>*" using subtree_set(2) [OF subtree.hyps] by auto
    then have "(p, p) \<in> ?r\<^sup>+" by (meson rtrancl_into_trancl2)
    then show False using subtree.prems(2) by (simp add: acyclic_def)
  qed
  ultimately show ?case by simp
next
  case (forest_Cons k c xs cs ys)
  let ?r = "{(q, c). c \<in> set (k q)}"
  obtain q where q: "set (c # cs) \<subseteq> set (k q)" using forest_Cons.prems(2) by blast
  have "set xs \<inter> set ys = {}"
  proof (rule ccontr)
    assume "set xs \<inter> set ys \<noteq> {}"
    then obtain x e where x: "(c, x) \<in> ?r\<^sup>*" "e \<in> set cs" "(e, x) \<in> ?r\<^sup>*"
      using subtree_set(1) [OF forest_Cons.hyps(1)] subtree_set(2) [OF forest_Cons.hyps(2)] by auto
    have "c \<noteq> e" using forest_Cons.prems(1) x(2) by auto
    have up: "(c, e) \<in> ?r\<^sup>* \<or> (e, c) \<in> ?r\<^sup>*" using x(1,3)
    proof (induction arbitrary: e rule: rtrancl_induct)
      case base
      then show ?case by simp
    next
      case (step y z)
      show ?case using step.prems
      proof (cases rule: rtranclE)
        case base
        then show ?thesis using step.hyps by (meson rtrancl.rtrancl_into_rtrancl)
      next
        case (step w)
        then have "w = y" using \<open>(y, z) \<in> ?r\<close> forest_Cons.prems(3) by auto
        then show ?thesis using step \<open>\<And>e. (e, y) \<in> ?r\<^sup>* \<Longrightarrow> (c, e) \<in> ?r\<^sup>* \<or> (e, c) \<in> ?r\<^sup>*\<close> by blast
      qed
    qed
    have cyc: False if "a \<noteq> b" "(a, b) \<in> ?r\<^sup>*" "a \<in> set (k q)" "b \<in> set (k q)" for a b
    proof -
      note h = that
      obtain y where y: "(a, y) \<in> ?r\<^sup>*" "(y, b) \<in> ?r" using h(1,2) by (meson rtranclE)
      then have "y = q" using h(4) forest_Cons.prems(3) by auto
      then have "(q, q) \<in> ?r\<^sup>+" using y(1) h(3) by (auto intro: rtrancl_into_trancl2)
      then show False using forest_Cons.prems(4) by (simp add: acyclic_def)
    qed
    show False using up cyc [of c e] cyc [of e c] \<open>c \<noteq> e\<close> q x(2) by auto
  qed
  moreover have "distinct xs" "distinct ys" using forest_Cons.IH forest_Cons.prems q by auto
  ultimately show ?case by simp
qed simp

lemma offspring_distinct:
  assumes T: "tree_rep s (live a) (kids a)" and tree: "tree_ok a" and xs: "offspring a p xs"
  shows "distinct xs"
proof -
  let ?k = "\<lambda>q. if q \<in> live a then kids a q else []"
  have "distinct (?k q)" for q
    using T node_rep_distinct [of s q "kids a q"] by (simp add: tree_rep_def)
  moreover have "q = r" if "c \<in> set (?k q)" "c \<in> set (?k r)" for q r c
    using parent_unique [OF tree, of q c r] that by (simp add: child_rel_def split: if_splits)
  moreover have "acyclic {(q, c). c \<in> set (?k q)}"
    unfolding child_rel_alt using tree by (simp add: tree_ok_def)
  ultimately show ?thesis
    using subtree_distinct(1) [of ?k p xs] xs unfolding offspring_def by blast
qed

lemma offspring_props:
  assumes tree: "tree_ok a" and xs: "offspring a p xs" and p: "p \<in> live a" "p \<in> all_procs"
  shows "p \<in> set xs" "set xs \<subseteq> live a \<inter> all_procs"
    "q \<in> set xs \<Longrightarrow> (q, p) \<notin> child_rel a"
    "(q, c) \<in> child_rel a \<Longrightarrow> c \<in> set xs \<Longrightarrow> c \<noteq> p \<Longrightarrow> q \<in> set xs"
proof -
  note s = offspring_set [OF xs]
  have sub: "child_rel a \<subseteq> live a \<times> (live a \<inter> all_procs)" "acyclic (child_rel a)"
    using tree by (simp_all add: tree_ok_def)
  show "p \<in> set xs" by (simp add: s)
  have "c \<in> live a \<inter> all_procs" if "(p, c) \<in> (child_rel a)\<^sup>*" for c
    using that p sub(1) by (cases rule: rtranclE) auto
  then show "set xs \<subseteq> live a \<inter> all_procs" by (auto simp: s)
  show "(q, p) \<notin> child_rel a" if "q \<in> set xs"
  proof
    assume "(q, p) \<in> child_rel a"
    moreover have "(p, q) \<in> (child_rel a)\<^sup>*" using that by (simp add: s)
    ultimately have "(p, p) \<in> (child_rel a)\<^sup>+" by (meson rtrancl_into_trancl1)
    then show False using sub(2) by (simp add: acyclic_def)
  qed
  show "q \<in> set xs" if e: "(q, c) \<in> child_rel a" "c \<in> set xs" "c \<noteq> p"
  proof -
    have "(p, c) \<in> (child_rel a)\<^sup>*" using e(2) by (simp add: s)
    then obtain r where "(p, r) \<in> (child_rel a)\<^sup>*" "(r, c) \<in> child_rel a"
      using e(3) by (auto elim: rtranclE)
    then show ?thesis using parent_unique [OF tree e(1)] by (auto simp: s)
  qed
qed

lemma filter_q_insert: "\<not> P p \<Longrightarrow> filter P (q_insert pr p q) = filter P q"
  by (induction q) auto

lemma insert_ready_ktab:
  assumes r: "ktab s a A" and p: "unqueued p a"
  shows "ok (insertProcQ Ready_queue p s) (\<lambda>t. ktab t (a_requeue p a) A \<and> rest_same s t \<and>
    running_proc t = running_proc s)"
proof -
  have asl: "asl s sched_heads (own_queues a) (wait a)" using r by (simp add: ktab_def)
  have pr: "prio s = a_prio a" using r by (simp add: ktab_def prio_def a_prio_def fun_eq_iff)
  have "ok (insertProcQ Ready_queue p s) (\<lambda>t. asl t sched_heads
      ((own_queues a)(Ready_queue := q_insert (a_prio a) p (ready a))) (wait a) \<and> links_only proc_cells s t)"
    using insertProcQ_asl [OF asl, of Ready_queue p] p by (simp add: pr unqueued_def)
  then show ?thesis by (rule ok_mono) (rule ktab_links [OF r], auto simp: a_requeue_def)
qed

lemma remove_ready_ktab:
  assumes r: "ktab s a A"
  shows "ok (removeProcQ Ready_queue s) (\<lambda>(r, t). ktab t (a\<lparr>ready := tl (ready a)\<rparr>) A \<and> rest_same s t \<and>
    running_proc t = running_proc s \<and> r = (case ready a of [] \<Rightarrow> None | p # _ \<Rightarrow> Some p))"
proof -
  have asl: "asl s sched_heads (own_queues a) (wait a)" using r by (simp add: ktab_def)
  from removeProcQ_asl [OF asl sched_heads_simps(2) not_procQ(1)] show ?thesis
  proof (rule ok_mono, clarify)
    fix q t
    assume "links_only proc_cells s t"
      "asl t sched_heads ((own_queues a)(Ready_queue := tl (own_queues a Ready_queue))) (wait a)"
    then have "ktab t (a\<lparr>ready := tl (ready a)\<rparr>) A \<and> rest_same s t \<and> running_proc t = running_proc s"
      by (intro ktab_links [OF r]) auto
    then show "ktab t (a\<lparr>ready := tl (ready a)\<rparr>) A \<and> rest_same s t \<and> running_proc t = running_proc s \<and>
        (case own_queues a Ready_queue of [] \<Rightarrow> None | p # _ \<Rightarrow> Some p) =
        (case ready a of [] \<Rightarrow> None | p # _ \<Rightarrow> Some p)" by simp
  qed
qed

lemma ktab_repr:
  fixes s :: "'a kern_scheme"
  assumes k: "ktab s a A" and sub: "live a \<subseteq> A"
    and closed: "\<And>q. q \<in> live a \<Longrightarrow> set (kids a q) \<subseteq> live a"
  shows "repr (set_running_proc q s) (a\<lparr>running := (case q of None \<Rightarrow> Idle_proc | Some p \<Rightarrow> p)\<rparr>) \<and>
    rest_same s (set_running_proc q s)"
    and "running_proc s = Some (running a) \<Longrightarrow> repr s a"
proof -
  have "tree_rep s (live a) (kids a)" using k sub closed by (auto simp: ktab_def tree_rep_def)
  then have t: "asl s sched_heads (own_queues a) (wait a)" "tree_rep s (live a) (kids a)" "pcbs s = tcb a"
    using k by (auto simp: ktab_def)
  then show "running_proc s = Some (running a) \<Longrightarrow> repr s a" by (simp add: repr_def)
  let ?s = "s\<lparr>running_proc := Some (running a)\<rparr>"
  have "asl ?s sched_heads (own_queues a) (wait a)"
    by (rule asl_same_queues [OF t(1)]) (simp_all add: same_queues_def)
  moreover have "tree_rep ?s (live a) (kids a) = tree_rep s (live a) (kids a)"
    by (rule tree_rep_frame) simp_all
  ultimately have "repr ?s a" using t by (simp add: repr_def)
  moreover have "set_running_proc q ?s = set_running_proc q s"
    by (simp add: set_running_proc_def split: option.split)
  moreover have "rest_same s (set_running_proc q s)"
    by (simp add: set_running_proc_def rest_same_def split: option.split)
  ultimately show "repr (set_running_proc q s) (a\<lparr>running := (case q of None \<Rightarrow> Idle_proc | Some p \<Rightarrow> p)\<rparr>) \<and>
    rest_same s (set_running_proc q s)"
    using set_running_refines [of ?s a q] by simp
qed

text \<open>
  The result of \<open>terminate_proc\<close> when \<open>xs\<close> are the process and its offspring: they are on the free
  list, and in no queue; the running process stays unless it was one of them.
\<close>

definition terminated :: "pcb list \<Rightarrow> sched \<Rightarrow> sched \<Rightarrow> bool" where
  "terminated xs a b \<longleftrightarrow>
     free b = rev xs @ free a \<and> (\<forall>k. wait b k = filter (\<lambda>x. x \<notin> set xs) (wait a k)) \<and>
     (let rd = filter (\<lambda>x. x \<notin> set xs) (ready a) in
      if running a \<in> set xs
      then running b = (case rd of [] \<Rightarrow> Idle_proc | h # _ \<Rightarrow> h) \<and> ready b = tl rd
      else running b = running a \<and> ready b = rd) \<and>
     (\<forall>x. x \<notin> set xs \<longrightarrow> tcb b x = tcb a x) \<and>
     (\<forall>x. dev_w_list (tcb b x) = dev_w_list (tcb a x)) \<and>
     (\<forall>q\<in>live b. set (kids b q) = set (kids a q) - set xs)"

lemma removable_live:
  assumes core: "core a {r}" and p: "p \<in> live a" "p \<in> all_procs"
    and b: "free b = free a" "wait b = wait a" "set (ready b) = insert r (set (ready a))"
      "p_semkey (tcb b p) = p_semkey (tcb a p)" "dev_w_list (tcb b p) = dev_w_list (tcb a p)"
  shows "removable b p"
proof -
  have pl: "placed a {r}" and sem: "sem_ok a" and dev: "dev_ok a" using core by (simp_all add: core_def)
  have nf: "p \<notin> set (free a)" using p(1) by (simp add: live_def)
  show ?thesis
  proof (cases "p \<in> blocked (wait a)")
    case True
    then obtain k where k: "p \<in> set (wait a k)" by (auto simp: blocked_iff)
    then have "k \<noteq> None" "p_semkey (tcb a p) = k" using sem by (cases k; auto simp: sem_ok_def)+
    then show ?thesis using k nf by (auto simp: removable_def b)
  next
    case False
    then have "p_semkey (tcb a p) = None" using sem p nf by (simp add: sem_ok_def)
    moreover have "p \<in> insert r (set (ready a))" using pl p(2) nf False by (auto simp: placed_def)
    moreover have "dev_w_list (tcb a p) = None"
    proof (rule ccontr)
      assume "dev_w_list (tcb a p) \<noteq> None"
      then obtain l d where "dev_w_list (tcb a p) = Some (l, d)" by auto
      then have "p \<in> set (wait a (Some (Dev_sem l d)))" using dev p(2) by (auto simp: dev_ok_def)
      then show False using False by (auto simp: blocked_iff)
    qed
    ultimately show ?thesis using nf by (simp add: removable_def b)
  qed
qed

lemma terminate_walk:
  fixes s :: "'a kern_scheme"
  assumes r: "repr s a" and wf: "sched_wf a" and p: "p \<in> live a" "p \<in> all_procs" and xs: "offspring a p xs"
  shows "\<exists>t1 t2 t b. (if p_parent (pcbs s p) \<noteq> None then andThen (outChild p s) (\<lambda>(_, s). Inr s) else Inr s) = Inr t1 \<and>
    insertProcQ Ready_queue (running a) t1 = Inr t2 \<and> recursive_remove_proc p t2 = Inr (0, t) \<and>
    ktab t b (live a) \<and> rest_same s t \<and> running_proc t1 = Some (running a) \<and> running_proc t = Some (running a) \<and>
    running b = running a \<and>
    gone xs (a\<lparr>ready := q_insert (a_prio a) (running a) (ready a)\<rparr>) b \<and>
    (\<forall>q\<in>live a. set (kids b q) = (if q \<in> set xs then {} else set (kids a q) - {p}))"
proof -
  let ?r = "running a"
  have core: "core a {?r}" using wf by (simp add: sched_wf_def)
  have tree: "tree_ok a" and pl: "placed a {?r}" using core by (simp_all add: core_def)
  have run: "running_proc s = Some ?r" and T: "tree_rep s (live a) (kids a)" using r by (simp_all add: repr_def)
  note pr = offspring_props [OF tree xs p]
  obtain t1 k1 v where t1: "(if p_parent (pcbs s p) \<noteq> None then andThen (outChild p s) (\<lambda>(_, s). Inr s) else Inr s) = Inr t1"
      "ktab t1 ((upd_tcb p (\<lambda>c. c\<lparr>p_parent := v\<rparr>) a)\<lparr>kids := k1\<rparr>) (live a)"
      "rest_same s t1" "running_proc t1 = running_proc s"
      "\<forall>q. (q, p) \<notin> child_rel a \<longrightarrow> k1 q = kids a q" "\<forall>q\<in>live a. set (k1 q) = set (kids a q) - {p}"
    using cut_ktab [OF r tree p(1)] by blast
  let ?a1 = "(upd_tcb p (\<lambda>c. c\<lparr>p_parent := v\<rparr>) a)\<lparr>kids := k1\<rparr>"
  have prio: "a_prio (upd_tcb p (\<lambda>c. c\<lparr>p_parent := v\<rparr>) a) = a_prio a" by (simp add: a_prio_def fun_eq_iff)
  have "unqueued ?r ?a1" using placed_out [OF pl, of ?r] by (simp add: unqueued_def)
  then obtain t2 where t2: "insertProcQ Ready_queue ?r t1 = Inr t2" "ktab t2 (a_requeue ?r ?a1) (live a)"
      "rest_same t1 t2" "running_proc t2 = running_proc t1"
    using insert_ready_ktab [OF t1(2)] unfolding ok_iff by blast
  let ?a2 = "a_requeue ?r ?a1"
  have a2: "free ?a2 = free a" "wait ?a2 = wait a" "ready ?a2 = q_insert (a_prio a) ?r (ready a)"
      "kids ?a2 = k1" "tcb ?a2 = tcb (upd_tcb p (\<lambda>c. c\<lparr>p_parent := v\<rparr>) a)" "running ?a2 = ?r"
    by (simp_all add: a_requeue_def prio)
  have pend: "pending (\<lambda>q. if q \<in> live a then kids a q else []) ?a2 (live a) xs"
    unfolding pending_def
  proof (intro ballI conjI)
    fix q assume q: "q \<in> set xs"
    then have ql: "q \<in> live a" "q \<in> all_procs" using pr(2) by auto
    then show "q \<in> live a" by simp
    show "kids ?a2 q = (if q \<in> live a then kids a q else [])"
      using ql(1) pr(3) [OF q] t1(5) by (simp add: a2)
    show "removable ?a2 q"
      by (rule removable_live [OF core ql]) (simp_all add: a2)
  qed
  have "kills t2 ?a2 (live a) (Remove p) xs xs"
    using remove_walk_kills(1) [OF xs [unfolded offspring_def] t2(2) offspring_distinct [OF T tree xs] pend] .
  then obtain t b where t: "remove_walk (Remove p) t2 = Some (Inr (0, t))" "ktab t b (live a)" "gone xs ?a2 b"
      "kids b = (\<lambda>q. if q \<in> set xs then [] else kids ?a2 q)" "rest_same t2 t" "running_proc t = running_proc t2"
    by (auto simp: kills_def)
  have "gone xs (a\<lparr>ready := q_insert (a_prio a) ?r (ready a)\<rparr>) b"
    using t(3) pr(1) by (auto simp: gone_def a2)
  moreover have "rest_same s t" by (rule rest_same_trans [OF t1(3) rest_same_trans [OF t2(3) t(5)]])
  moreover have "running b = ?r" using t(3) by (simp add: gone_def a2)
  moreover have "\<forall>q\<in>live a. set (kids b q) = (if q \<in> set xs then {} else set (kids a q) - {p})"
    using t1(6) by (simp add: t(4) a2)
  moreover have "recursive_remove_proc p t2 = Inr (0, t)" by (simp add: recursive_remove_proc_def t(1))
  moreover have "running_proc t1 = Some ?r" "running_proc t = Some ?r" using t1(4) t2(4) t(6) run by simp_all
  ultimately show ?thesis
    using t1(1) t2(1) t(2) by (intro exI [of _ t1] exI [of _ t2] exI [of _ t] exI [of _ b]) blast
qed

theorem terminate_refines:
  fixes s :: "'a kern_scheme"
  assumes r: "repr s a" and wf: "sched_wf a" and p: "p \<in> live a" "p \<in> all_procs" and xs: "offspring a p xs"
    and target: "target = Some p \<or> target = None \<and> p = running a"
  shows "ok (terminate_proc target s) (\<lambda>(ret, t). ret = 0 \<and> rest_same s t \<and>
    (\<exists>b. repr t b \<and> terminated xs a b))"
proof -
  let ?r = "running a" and ?P = "\<lambda>x. x \<notin> set xs"
  have core: "core a {?r}" using wf by (simp add: sched_wf_def)
  have tree: "tree_ok a" and pl: "placed a {?r}" using core by (simp_all add: core_def)
  have run: "running_proc s = Some ?r" using r by (simp add: repr_def)
  note pr = offspring_props [OF tree xs p]
  obtain t1 t2 t b where t: "(if p_parent (pcbs s p) \<noteq> None then andThen (outChild p s) (\<lambda>(_, s). Inr s) else Inr s) = Inr t1"
      "insertProcQ Ready_queue ?r t1 = Inr t2" "recursive_remove_proc p t2 = Inr (0, t)"
      "ktab t b (live a)" "rest_same s t" "running_proc t1 = Some ?r" "running_proc t = Some ?r" "running b = ?r"
    and g: "gone xs (a\<lparr>ready := q_insert (a_prio a) ?r (ready a)\<rparr>) b"
    and kb: "\<forall>q\<in>live a. set (kids b q) = (if q \<in> set xs then {} else set (kids a q) - {p})"
    using terminate_walk [OF r wf p xs] by blast
  have nr: "?r \<notin> set (ready a)" using placed_out [OF pl, of ?r] by simp
  have rb: "ready b = filter ?P (q_insert (a_prio a) ?r (ready a))" using g by (simp add: gone_def)
  have ready: "remove1 ?r (ready b) = filter ?P (ready a)"
    using nr by (simp add: rb filter_remove1 [symmetric] remove1_q_insert)
  have rin: "?r \<in> set (ready b) \<longleftrightarrow> ?r \<notin> set xs" by (simp add: rb)
  let ?c = "b\<lparr>ready := filter ?P (ready a)\<rparr>"
  obtain u where u: "outProcQ Ready_queue ?r t = Inr (if ?r \<in> set xs then None else Some ?r, u)"
      "ktab u ?c (live a)" "rest_same t u" "running_proc u = running_proc t"
    using out_ready_ktab [OF t(4), of ?r] rin ready unfolding ok_iff by auto
  have lc: "live c = live a - set xs" if "free c = rev xs @ free a" for c
    using that by (auto simp: live_def)
  have kids: "set (kids b q) = set (kids a q) - set xs" if q: "q \<in> live a" "q \<notin> set xs" for q
    using kb pr(1) pr(4) [of q] q by (auto simp: child_rel_def)
  have sub: "set (kids a q) \<subseteq> live a" if "q \<in> live a" for q
    using tree that by (auto simp: tree_ok_def child_rel_def)
  have fb: "free b = rev xs @ free a" using g by (simp add: gone_def)
  have closed: "set (kids b q) \<subseteq> live a - set xs" if "q \<in> live a - set xs" for q
    using kids [of q] sub [of q] that by auto
  have head: "terminate_proc target s = andThen (outProcQ Ready_queue ?r t) (\<lambda>(retrieved, s).
     if retrieved = None
     then andThen (removeProcQ Ready_queue s) (\<lambda>(new_proc, s). Inr (0, case new_proc of
         Some q \<Rightarrow> set_running_proc (Some q) s | None \<Rightarrow> set_running_proc (Some Idle_proc) s))
     else Inr (0, s))"
    using target run t by (auto simp: terminate_proc_def)
  show ?thesis
  proof (cases "?r \<in> set xs")
    case False
    have "repr u ?c"
      using closed u(4) t(7,8) by (intro ktab_repr(2) [OF u(2)]) (auto simp: lc fb)
    moreover have "terminated xs a ?c"
      using g False kids by (auto simp: terminated_def gone_def lc)
    ultimately show ?thesis
      using False rest_same_trans [OF t(5) u(3)] by (auto simp: head u(1))
  next
    case True
    let ?d = "?c\<lparr>ready := tl (filter ?P (ready a))\<rparr>"
    let ?q = "case filter ?P (ready a) of [] \<Rightarrow> None | p # _ \<Rightarrow> Some p"
    obtain v where v: "removeProcQ Ready_queue u = Inr (?q, v)" "ktab v ?d (live a)" "rest_same u v"
      using remove_ready_ktab [OF u(2)] unfolding ok_iff by auto
    let ?e = "?d\<lparr>running := (case ?q of None \<Rightarrow> Idle_proc | Some p \<Rightarrow> p)\<rparr>"
    have e: "repr (set_running_proc ?q v) ?e \<and> rest_same v (set_running_proc ?q v)"
      using closed by (intro ktab_repr(1) [OF v(2)]) (auto simp: lc fb)
    have "terminated xs a ?e"
      using g True kids by (auto simp: terminated_def gone_def lc split: list.split)
    moreover have "rest_same s (set_running_proc ?q v)"
      using e rest_same_trans [OF t(5) rest_same_trans [OF u(3) v(3)]] rest_same_trans by blast
    moreover have "(case ?q of Some q \<Rightarrow> set_running_proc (Some q) v | None \<Rightarrow> set_running_proc (Some Idle_proc) v)
        = set_running_proc ?q v"
      by (simp add: set_running_proc_def split: list.split)
    ultimately show ?thesis
      using True e by (simp add: head u(1) v(1)) blast
  qed
qed

section \<open>Termination keeps the state well-formed\<close>

lemma by_prio_filter: "by_prio pr q \<Longrightarrow> by_prio pr (filter P q)"
  by (simp add: by_prio_def sorted_wrt_filter)

lemma terminated_tree_ok:
  assumes tree: "tree_ok a" and xs: "offspring a p xs" and t: "terminated xs a b"
  shows "tree_ok b"
proof -
  have live: "live b = live a - set xs" using t by (auto simp: terminated_def live_def)
  have down: "c \<in> set xs" if "(q, c) \<in> child_rel a" "q \<in> set xs" for q c
    using offspring_set [OF xs] that by (auto intro: rtrancl_into_rtrancl)
  have kids: "set (kids b q) = set (kids a q) - set xs" if "q \<in> live a - set xs" for q
    using t that live by (simp add: terminated_def)
  have rel: "(q, c) \<in> child_rel b \<longleftrightarrow> (q, c) \<in> child_rel a \<and> c \<notin> set xs" for q c
    using kids down [of q c] by (auto simp: child_rel_def live)
  have tcb: "tcb b x = tcb a x" if "x \<in> live b" for x using t that by (auto simp: terminated_def live)
  have sub: "child_rel b \<subseteq> child_rel a" using rel by auto
  have ta: "child_rel a \<subseteq> live a \<times> (live a \<inter> all_procs)" "acyclic (child_rel a)"
    "\<forall>p\<in>live a. \<forall>q. p_parent (tcb a p) = Some q \<longleftrightarrow> (q, p) \<in> child_rel a"
    using tree by (simp_all add: tree_ok_def)
  have "child_rel b \<subseteq> live b \<times> (live b \<inter> all_procs)"
    using rel ta(1) down by (auto simp: live child_rel_def)
  moreover have "acyclic (child_rel b)" using ta(2) sub by (rule acyclic_subset)
  moreover have "\<forall>p\<in>live b. \<forall>q. p_parent (tcb b p) = Some q \<longleftrightarrow> (q, p) \<in> child_rel b"
    using ta(3) rel by (auto simp: live tcb)
  ultimately show ?thesis by (simp add: tree_ok_def)
qed

lemma terminated_placed:
  assumes core: "core a {running a}" and xs: "set xs \<subseteq> live a \<inter> all_procs" "distinct xs"
    and t: "terminated xs a b"
  shows "placed b {running b} \<and> running b \<in> insert Idle_proc (insert (running a) all_procs) \<and>
    set (ready b) \<subseteq> set (ready a) - set xs \<and> by_prio (a_prio b) (ready b)"
proof -
  have pl: "placed a {running a}" and bp: "by_prio (a_prio a) (ready a)" using core by (simp_all add: core_def)
  define rd where "rd = filter (\<lambda>x. x \<notin> set xs) (ready a)"
  have free: "free b = rev xs @ free a" and wait: "wait b k = filter (\<lambda>x. x \<notin> set xs) (wait a k)" for k
    using t by (auto simp: terminated_def)
  have bl: "blocked (wait b) = blocked (wait a) - set xs" by (auto simp: blocked_def wait)
  have run: "(running a \<in> set xs \<longrightarrow> running b = (case rd of [] \<Rightarrow> Idle_proc | h # _ \<Rightarrow> h) \<and> ready b = tl rd) \<and>
      (running a \<notin> set xs \<longrightarrow> running b = running a \<and> ready b = rd)"
    using t by (simp add: terminated_def Let_def rd_def)
  have rd: "set rd = set (ready a) - set xs" "distinct rd" using pl by (auto simp: rd_def placed_def)
  have xl: "set xs \<inter> set (free a) = {}" using xs(1) by (auto simp: live_def)
  have "by_prio (a_prio a) rd" unfolding rd_def by (rule by_prio_filter [OF bp])
  then have "by_prio (a_prio b) rd"
    using t by (subst by_prio_cong [of _ _ "a_prio a"]) (auto simp: a_prio_def terminated_def rd(1))
  then have bp': "by_prio (a_prio b) (ready b)" using run by (cases rd) (auto simp: by_prio_Cons)
  have core_pl: "set (free b) \<union> set rd \<union> blocked (wait b) = all_procs - (if running a \<in> set xs then {} else {running a})"
    using pl xs(1) unfolding placed_def free bl rd(1) by auto
  have dis: "set (free b) \<inter> set rd = {}" "set (free b) \<inter> blocked (wait b) = {}" "set rd \<inter> blocked (wait b) = {}"
    using pl unfolding placed_def free bl rd(1) by auto
  have uniq: "\<forall>k l p. p \<in> set (wait b k) \<longrightarrow> p \<in> set (wait b l) \<longrightarrow> k = l"
    "distinct (free b)" "\<forall>k. distinct (wait b k)"
    using pl xs(2) xl by (auto simp: placed_def wait free)
  show ?thesis
  proof (cases "running a \<in> set xs \<and> rd \<noteq> []")
    case True
    then obtain h q where h: "rd = h # q" by (cases rd) auto
    then have "running b = h" "ready b = q" using run True by auto
    then show ?thesis
      using core_pl dis uniq rd h bp' True unfolding placed_def by auto
  next
    case False
    then have "ready b = rd" "running b = (if running a \<in> set xs then Idle_proc else running a)"
      using run by auto
    then show ?thesis
      using core_pl dis uniq rd bp' unfolding placed_def by auto
  qed
qed

lemma sched_wf_terminated:
  assumes wf: "sched_wf a" and p: "p \<in> live a" "p \<in> all_procs" and xs: "offspring a p xs" "distinct xs"
    and t: "terminated xs a b" and dev: "\<And>q. q \<in> set xs \<Longrightarrow> dev_w_list (tcb a q) = None"
  shows "sched_wf b"
proof -
  have core: "core a {running a}" and run: "running a \<in> insert Idle_proc all_procs" using wf by (auto simp: sched_wf_def)
  have tree: "tree_ok a" and sem: "sem_ok a" and dok: "dev_ok a" using core by (simp_all add: core_def)
  have sub: "set xs \<subseteq> live a \<inter> all_procs" by (rule offspring_props(2) [OF tree xs(1) p])
  note pl = terminated_placed [OF core sub xs(2) t]
  have free: "free b = rev xs @ free a" and wait: "wait b k = filter (\<lambda>x. x \<notin> set xs) (wait a k)"
    and tcb: "x \<notin> set xs \<Longrightarrow> tcb b x = tcb a x" and dv: "dev_w_list (tcb b x) = dev_w_list (tcb a x)" for k x
    using t by (auto simp: terminated_def)
  have bl: "blocked (wait b) = blocked (wait a) - set xs" by (auto simp: blocked_def wait)
  have "sem_ok b" using sem unfolding sem_ok_def bl by (auto simp: wait free tcb)
  moreover have "dev_ok b" using dok dev by (auto simp: dev_ok_def wait dv)
  moreover have "tree_ok b" by (rule terminated_tree_ok [OF tree xs(1) t])
  ultimately show ?thesis using pl run by (auto simp: sched_wf_def core_def)
qed

end
