(* ===== verification/Handler.thy ===== *)
theory Handler
  imports Interrupts
begin

text \<open>
  System calls and exception handlers: \<open>src/core/exceptions/syscalls.c\<close> and
  \<open>src/core/exceptions/handler.c\<close>.

  A handler ends by \<open>LDST\<close>, which loads a processor state and does not return: the value of a
  handler is that state. An address passed by a process is used as a pointer after the check, if
  any, that the code makes; an address where there is no PCB is a wild pointer.
\<close>

section \<open>System calls\<close>

definition GETCPUTIME :: u32 where "GETCPUTIME = 1"
definition CREATEPROCESS :: u32 where "CREATEPROCESS = 2"
definition TERMINATEPROCESS :: u32 where "TERMINATEPROCESS = 3"
definition VERHOGEN :: u32 where "VERHOGEN = 4"
definition PASSEREN :: u32 where "PASSEREN = 5"
definition WAITIO :: u32 where "WAITIO = 6"
definition SPECPASSUP :: u32 where "SPECPASSUP = 7"
definition GETPID :: u32 where "GETPID = 8"
definition SYSTEM_SYSCALL_MAX :: u32 where "SYSTEM_SYSCALL_MAX = 8"

lemmas syscall_numbers = GETCPUTIME_def CREATEPROCESS_def TERMINATEPROCESS_def VERHOGEN_def
  PASSEREN_def WAITIO_def SPECPASSUP_def GETPID_def SYSTEM_SYSCALL_MAX_def

text \<open>A store of a word through a pointer of a process.\<close>

definition store_user :: "u32 \<Rightarrow> u32 \<Rightarrow> 'a kern_scheme \<Rightarrow> 'a kern_scheme res" where
  "store_user a v s = store_int (int_at a) v s"

text \<open>\<open>(pcb_t *) a\<close>.\<close>

definition pcb_ptr :: "layout \<Rightarrow> u32 \<Rightarrow> pcb option res" where
  "pcb_ptr ly a =
     (if a = 0 then Inr None
      else case pcb_at ly a of None \<Rightarrow> Inl WildPointer | Some p \<Rightarrow> Inr (Some p))"

text \<open>The address of a PCB, or 0 for NULL.\<close>

definition addr_of :: "layout \<Rightarrow> pcb option \<Rightarrow> u32" where
  "addr_of ly p = (case p of None \<Rightarrow> 0 | Some p \<Rightarrow> pcb_addr ly p)"

definition sys_getcputime :: "board \<Rightarrow> u32 \<Rightarrow> u32 \<Rightarrow> u32 \<Rightarrow> pcb \<Rightarrow> machine \<Rightarrow> machine res" where
  "sys_getcputime w arg1 arg2 arg3 p s =
     (let (tod, s) = read_TOD w s in
      andThen (store_user arg1 (user_timer (pcbs s p)) s) (\<lambda>s.
      andThen (store_user arg2 (kernel_timer (pcbs s p) + (tod - tod_cache (pcbs s p))) s) (\<lambda>s.
      store_user arg3 (tod - tod_at_start (pcbs s p)) s)))"

text \<open>A slot of \<open>spec_areas\<close>; the array has six, the function has no meaning beyond them.\<close>

definition get_spec_area :: "pcb \<Rightarrow> nat \<Rightarrow> 'a kern_scheme \<Rightarrow> u32 option res" where
  "get_spec_area p i s =
     (if i < 6 then Inr (spec_areas (pcbs s p) i) else Inl OutOfBounds)"

definition set_spec_area :: "pcb \<Rightarrow> nat \<Rightarrow> u32 \<Rightarrow> 'a kern_scheme \<Rightarrow> 'a kern_scheme res" where
  "set_spec_area p i v s =
     (if i < 6
      then Inr (upd_pcb p (\<lambda>c. c\<lparr>spec_areas := (spec_areas c)(i := if v = 0 then None else Some v)\<rparr>) s)
      else Inl OutOfBounds)"

definition sys_specpassup :: "u32 \<Rightarrow> u32 \<Rightarrow> u32 \<Rightarrow> machine \<Rightarrow> machine res" where
  "sys_specpassup arg1 arg2 arg3 s =
     (let type_code = (if arg1 = 1 then 2 else if arg1 = 2 then 1 else arg1);
          old = unat (type_code * 2 + 1);
          new = unat (type_code * 2) in
      andThen (deref (running_proc s)) (\<lambda>p.
      andThen (get_spec_area p new s) (\<lambda>n.
      andThen (if n = None then get_spec_area p old s else Inr (Some 0)) (\<lambda>o'.
      if n = None \<and> o' = None
      then andThen (set_spec_area p old arg2 s) (set_spec_area p new arg3)
      else andThen (terminate_proc (Some p) s) (\<lambda>(_, s). Inr s)))))"

definition sys_getpid :: "layout \<Rightarrow> u32 \<Rightarrow> u32 \<Rightarrow> machine \<Rightarrow> machine res" where
  "sys_getpid ly arg1 arg2 s =
     andThen (deref (running_proc s)) (\<lambda>p.
     andThen (if arg1 \<noteq> 0 then store_user arg1 (pcb_addr ly p) s else Inr s) (\<lambda>s.
     if arg2 \<noteq> 0 then store_user arg2 (addr_of ly (p_parent (pcbs s p))) s else Inr s))"

text \<open>\<open>interrupted_state\<close> is \<open>AREA(OLD, SYS)\<close>, where the return value of a system call goes.\<close>

definition return_value :: "c_int \<times> machine \<Rightarrow> machine res" where
  "return_value r =
     (case r of (v, s) \<Rightarrow> Inr (set_area OLD SYS (set_SYSCALL_RET_REG v (area s OLD SYS)) s))"

definition consume_syscall :: "board \<Rightarrow> layout \<Rightarrow> pcb \<Rightarrow> machine \<Rightarrow> machine res" where
  "consume_syscall w ly interrupted_process s =
     (let st = area s OLD SYS;
          arg1 = SYSCALL_ARG1 st; arg2 = SYSCALL_ARG2 st; arg3 = SYSCALL_ARG3 st;
          n = SYSCALL_N st in
      if n = GETCPUTIME then sys_getcputime w arg1 arg2 arg3 interrupted_process s
      else if n = CREATEPROCESS then andThen (create_process ly arg1 arg2 arg3 s) return_value
      else if n = TERMINATEPROCESS then
        andThen (pcb_ptr ly arg1) (\<lambda>p. andThen (terminate_proc p s) return_value)
      else if n = VERHOGEN then verhogen (int_at arg1) s
      else if n = PASSEREN then passeren w (int_at arg1) s
      else if n = WAITIO then wait_io w arg1 arg2 arg3 s
      else if n = SPECPASSUP then sys_specpassup arg1 arg2 arg3 s
      else if n = GETPID then sys_getpid ly arg1 arg2 s
      else Inl (Panic ''ERROR: Syscall not recognised. Did you mean syscall number 42?''))"

section \<open>Pass-up areas\<close>

definition get_passup_area :: "area_age \<Rightarrow> exc_type \<Rightarrow> pcb \<Rightarrow> machine \<Rightarrow> u32 option res" where
  "get_passup_area age t proc s = get_spec_area proc (exc_index t * 2 + age_index age) s"

definition is_passup_set :: "exc_type \<Rightarrow> pcb \<Rightarrow> machine \<Rightarrow> bool res" where
  "is_passup_set t p s =
     andThen (get_spec_area p (exc_index t * 2) s) (\<lambda>old_area.
     andThen (get_spec_area p (exc_index t * 2 + 1) s) (\<lambda>new_area.
     Inr (old_area \<noteq> None \<and> new_area \<noteq> None)))"

text \<open>The copy of the interrupted state to the old area of the process, and the new area loaded.\<close>

definition launch_spec_area :: "exc_type \<Rightarrow> state_t \<Rightarrow> machine \<Rightarrow> (state_t \<times> machine) res" where
  "launch_spec_area t interrupted_state s =
     andThen (deref (running_proc s)) (\<lambda>p.
     andThen (get_passup_area OLD t p s) (\<lambda>spec_old_area.
     case spec_old_area of
       None \<Rightarrow> Inl (Panic '''')
     | Some a \<Rightarrow>
         let s = s\<lparr>user_state := (user_state s)(a := interrupted_state)\<rparr> in
         andThen (get_passup_area NEW t p s) (\<lambda>spec_new_area.
         andThen (deref spec_new_area) (\<lambda>b. Inr (user_state s b, s)))))"

section \<open>Beginning and end of a handler\<close>

definition start_handler :: "board \<Rightarrow> machine \<Rightarrow> machine res" where
  "start_handler w s =
     (let (t, s) = on_bus (get_INTERVAL_TIMER w) s;
          s = s\<lparr>int_timer_cache := t\<rparr>;
          s = (if int_timer_cache s > clock_ticks_per_time_slice s
               then s\<lparr>int_timer_cache := clock_ticks_per_time_slice s\<rparr> else s);
          s = s\<lparr>interrupted_proc := running_proc s\<rparr> in
      andThen (deref (interrupted_proc s)) (\<lambda>p. Inr (flush_user_time w p s)))"

definition conclude_handler :: "board \<Rightarrow> exc_type \<Rightarrow> machine \<Rightarrow> (state_t \<times> machine) res" where
  "conclude_handler w t s =
     andThen (deref (running_proc s)) (\<lambda>resuming_proc.
     if interrupted_proc s \<noteq> Some resuming_proc
     then
       let s = flush_reset_time w resuming_proc s;
           s = reset_int_timer w s in
       andThen (if interrupted_proc s \<noteq> Some Idle_proc
                then andThen (deref (interrupted_proc s)) (\<lambda>p.
                     Inr (upd_pcb p (\<lambda>c. c\<lparr>p_s := area s OLD t\<rparr>) s))
                else Inr s) (\<lambda>s.
       Inr (p_s (pcbs s resuming_proc), s))
     else
       let s = s\<lparr>bus := set_INTERVAL_TIMER w (int_timer_cache s) (bus s)\<rparr>;
           s = flush_kernel_time w resuming_proc s
       in Inr (area s OLD t, s))"

section \<open>Handlers\<close>

definition handle_interrupt :: "board \<Rightarrow> machine \<Rightarrow> (state_t \<times> machine) res" where
  "handle_interrupt w s =
     andThen (start_handler w s) (\<lambda>s.
     andThen (consume_interrupts w s) (conclude_handler w INTR))"

text \<open>\<open>interrupted_state->pc_epc += WORD_SIZE\<close> on MIPS.\<close>

fun skip_instr :: "board \<Rightarrow> state_t \<Rightarrow> state_t" where
  "skip_instr w (Umps s) = Umps (s\<lparr>mps_pc_epc := mps_pc_epc s + WORD_SIZE w\<rparr>)"
| "skip_instr w (Uarm s) = Uarm s"

definition handle_sysbreak :: "board \<Rightarrow> layout \<Rightarrow> machine \<Rightarrow> (state_t \<times> machine) res" where
  "handle_sysbreak w ly s =
     andThen (start_handler w s) (\<lambda>s.
     let s = set_area OLD SYS (skip_instr w (area s OLD SYS)) s;
         interrupted_state = area s OLD SYS;
         cause_code = get_exccode (hw.truncate w) interrupted_state in
     andThen (deref (interrupted_proc s)) (\<lambda>p.
     if cause_code = E_SYS then
       if SYSCALL_N interrupted_state > SYSTEM_SYSCALL_MAX then
         andThen (is_passup_set SYS p s) (\<lambda>set_up.
         if set_up then launch_spec_area SYS interrupted_state (flush_kernel_time w p s)
         else andThen (terminate_proc (Some p) s) (\<lambda>(_, s). conclude_handler w SYS s))
       else andThen (consume_syscall w ly p s) (conclude_handler w SYS)
     else if cause_code = E_BP then
       andThen (is_passup_set SYS p s) (\<lambda>set_up.
       if set_up then launch_spec_area SYS interrupted_state s
       else Inl (Panic ''ERROR: BreakPoint launched, handler still not implemented!''))
     else Inl (Panic ''Exc cause code not recognised'')))"

definition handle_passup :: "board \<Rightarrow> exc_type \<Rightarrow> machine \<Rightarrow> (state_t \<times> machine) res" where
  "handle_passup w t s =
     andThen (start_handler w s) (\<lambda>s.
     andThen (deref (running_proc s)) (\<lambda>r.
     andThen (is_passup_set t r s) (\<lambda>set_up.
     if set_up then launch_spec_area t (area s OLD t) s
     else andThen (terminate_proc (Some r) s) (\<lambda>(_, s). conclude_handler w t s))))"

definition handle_TLB :: "board \<Rightarrow> machine \<Rightarrow> (state_t \<times> machine) res" where
  "handle_TLB w s = handle_passup w TLB s"

definition handle_trap :: "board \<Rightarrow> machine \<Rightarrow> (state_t \<times> machine) res" where
  "handle_trap w s = handle_passup w PRG s"

section \<open>Start of the system: \<open>src/bikaya.c\<close>\<close>

record handlers =
  interrupt_entry :: u32
  sysbreak_entry :: u32
  TLB_entry :: u32
  trap_entry :: u32

definition initialize_new_areas :: "board \<Rightarrow> handlers \<Rightarrow> machine \<Rightarrow> machine" where
  "initialize_new_areas w h s =
     (let i = (\<lambda>t entry s. set_area NEW t (init_new_area (hw.truncate w) (area s NEW t) entry) s);
          s = i INTR (interrupt_entry h) s;
          s = i SYS (sysbreak_entry h) s;
          s = i TLB (TLB_entry h) s
      in i PRG (trap_entry h) s)"

definition bikaya_launch ::
  "board \<Rightarrow> layout \<Rightarrow> handlers \<Rightarrow> proc_init_data list \<Rightarrow> u32 \<Rightarrow> machine \<Rightarrow> (state_t \<times> machine) res" where
  "bikaya_launch w ly h starting_procs time_slice s =
     andThen (init_scheduler w ly starting_procs time_slice (initialize_new_areas w h s)) (launch w)"

text \<open>The processes and the time slice of \<open>main.c\<close>; \<open>test\<close> is the entry point of the process.\<close>

definition main_procs :: "u32 \<Rightarrow> proc_init_data list" where
  "main_procs test =
     [\<lparr>method_ptr = test, init_priority = 1, vm_on = 0, km_on = 1, timer_int_on = 1, other_ints_on = 1\<rparr>]"

definition main :: "board \<Rightarrow> layout \<Rightarrow> handlers \<Rightarrow> u32 \<Rightarrow> machine \<Rightarrow> (state_t \<times> machine) res" where
  "main w ly h test s = bikaya_launch w ly h (main_procs test) 3000 s"

end
