(* ===== verification/Polling.thy ===== *)
theory Polling
  imports Terminal
begin

text \<open>
  The busy-waiting loops of \<open>src/devices/terminal.c\<close>: when they end, and what the driver does on a
  terminal whose operations end (\<open>answers\<close>) and on one that goes through the documented cycle without an error
  (\<open>accepts\<close>), with the messages of the kernel (\<open>addokbuf\<close>).
\<close>

section \<open>Polling\<close>

lemma busy_wait_unfold:
  "busy_wait status b =
    (if fst (status b) = DEVICE_ST_BUSY then busy_wait status (snd (status b)) else Some (status b))"
  by (subst busy_wait.simps) (simp add: split_beta)

text \<open>The bus after \<open>k\<close> polls.\<close>

definition polled :: "(bus \<Rightarrow> u32 \<times> bus) \<Rightarrow> nat \<Rightarrow> bus \<Rightarrow> bus" where
  "polled status k b = ((\<lambda>b. snd (status b)) ^^ k) b"

lemma polled_simps [simp]:
  "polled status 0 b = b" "polled status (Suc k) b = polled status k (snd (status b))"
  by (simp_all add: polled_def funpow_swap1 [of "\<lambda>b. snd (status b)"])

lemma busy_wait_ends:
  "(\<And>j. j < k \<Longrightarrow> fst (status (polled status j b)) = DEVICE_ST_BUSY) \<Longrightarrow>
    fst (status (polled status k b)) \<noteq> DEVICE_ST_BUSY \<Longrightarrow>
    busy_wait status b = Some (status (polled status k b))"
proof (induction k arbitrary: b)
  case 0
  then show ?case by (simp add: busy_wait_unfold)
next
  case (Suc k)
  have "fst (status b) = DEVICE_ST_BUSY" using Suc.prems(1) [of 0] by simp
  moreover have "busy_wait status (snd (status b)) = Some (status (polled status k (snd (status b))))"
  proof (rule Suc.IH)
    show "fst (status (polled status j (snd (status b)))) = DEVICE_ST_BUSY" if "j < k" for j
      using Suc.prems(1) [of "Suc j"] that by simp
  qed (use Suc.prems(2) in simp)
  ultimately show ?case by (simp add: busy_wait_unfold)
qed

lemma busy_wait_returned:
  assumes "busy_wait status b = Some r"
  shows "\<exists>k. fst (status (polled status k b)) \<noteq> DEVICE_ST_BUSY"
proof (rule busy_wait.raw_induct [where P = "\<lambda>status b r. \<exists>k. fst (status (polled status k b)) \<noteq> DEVICE_ST_BUSY"])
  fix f :: "(bus \<Rightarrow> u32 \<times> bus) \<Rightarrow> bus \<Rightarrow> (u32 \<times> bus) option" and status b r
  assume IH: "\<And>status b r. f status b = Some r \<Longrightarrow> \<exists>k. fst (status (polled status k b)) \<noteq> DEVICE_ST_BUSY"
    and r: "(case status b of (stat, b) \<Rightarrow> if stat = DEVICE_ST_BUSY then f status b else Some (stat, b)) = Some r"
  show "\<exists>k. fst (status (polled status k b)) \<noteq> DEVICE_ST_BUSY"
  proof (cases "fst (status b) = DEVICE_ST_BUSY")
    case True
    then have "f status (snd (status b)) = Some r" using r by (simp add: split_beta)
    then obtain k where "fst (status (polled status k (snd (status b)))) \<noteq> DEVICE_ST_BUSY"
      using IH by blast
    then show ?thesis by (intro exI [of _ "Suc k"]) simp
  next
    case False
    then show ?thesis by (intro exI [of _ 0]) simp
  qed
qed (rule assms)

section \<open>The transmitter\<close>

lemma terminals_bus [simp]:
  "terminals (snd (bus_read w a b)) = terminals b" "terminals (bus_write a v b) = terminals b"
  "terminals (send_command l c reg b) = terminals b" "terminals (snd (get_status w l reg b)) = terminals b"
  "terminals (snd (interrupt_pending w n b)) = terminals b" "terminals (set_INTERVAL_TIMER w v b) = terminals b"
  by (simp_all add: bus_read_def bus_write_def send_command_def get_status_def interrupt_pending_def
      set_INTERVAL_TIMER_def)

text \<open>
  The status of the transmitter, when it is read by the \<open>n\<close>-th access of the run. The documented device is
  ready (1) or still shows its last transmission (5); a command makes it busy (3) for some time, then it shows
  the result, a transmission (5) or an error, until the acknowledgement makes it ready again.
\<close>

definition tx_stat :: "board \<Rightarrow> u32 \<Rightarrow> nat \<Rightarrow> u32" where
  "tx_stat w reg n = env w (reg_transm_status reg) n AND DEV_STATUS_MASK"

definition tx_idle :: "u32 \<Rightarrow> bool" where
  "tx_idle st \<longleftrightarrow> st = DEVICE_ST_READY \<or> st = TERM_TX_ST_SPECIFIC"

text \<open>\<open>answers\<close>: no operation of the transmitter lasts for ever, whatever its result.\<close>

definition answers :: "board \<Rightarrow> u32 \<Rightarrow> bool" where
  "answers w reg \<longleftrightarrow> (\<forall>n. \<exists>k\<ge>n. tx_stat w reg k \<noteq> DEVICE_ST_BUSY)"

text \<open>
  \<open>accepts w reg n\<close>: from the access \<open>n\<close> of the run the transmitter goes through the documented cycle for each
  character, without an error. The driver finds it ready at \<open>n\<close>, writes the command at \<open>n + 1\<close>, reads the status
  busy \<open>k\<close> times and then once the transmission, and acknowledges it at \<open>n + 3 + k\<close>.
\<close>

coinductive accepts :: "board \<Rightarrow> u32 \<Rightarrow> nat \<Rightarrow> bool" for w reg where
  cycle: "tx_idle (tx_stat w reg n) \<Longrightarrow>
    (\<And>j. j < k \<Longrightarrow> tx_stat w reg (n + 2 + j) = DEVICE_ST_BUSY) \<Longrightarrow>
    tx_stat w reg (n + 2 + k) = TERM_TX_ST_SPECIFIC \<Longrightarrow>
    accepts w reg (n + 4 + k) \<Longrightarrow> accepts w reg n"

definition char_writes :: "board \<Rightarrow> u32 \<Rightarrow> c_char \<Rightarrow> (u32 \<times> u32) list" where
  "char_writes w reg c =
     [(reg_transm_command reg, push_bit 8 (promote_char (board_target w) c) OR DEVICE_CMD_FUNC_SPECIFIC),
      (reg_transm_command reg, DEVICE_CMD_ACK)]"

section \<open>One character\<close>

lemma term_tx_status_eq: "term_tx_status w reg b = (tx_stat w reg (now b), b\<lparr>now := Suc (now b)\<rparr>)"
  by (simp add: term_tx_status_def bus_read_def tx_stat_def)

lemma polled_tx: "polled (term_tx_status w reg) k b = b\<lparr>now := now b + k\<rparr>"
  by (induction k arbitrary: b) (simp_all add: term_tx_status_eq)

lemma poll_ends:
  assumes "\<And>j. j < k \<Longrightarrow> tx_stat w reg (now b + j) = DEVICE_ST_BUSY" and "tx_stat w reg (now b + k) \<noteq> DEVICE_ST_BUSY"
  shows "poll (term_tx_status w reg) b = Inr (tx_stat w reg (now b + k), b\<lparr>now := Suc (now b + k)\<rparr>)"
proof -
  have "busy_wait (term_tx_status w reg) b = Some (term_tx_status w reg (polled (term_tx_status w reg) k b))"
    by (rule busy_wait_ends) (use assms in \<open>simp_all add: polled_tx term_tx_status_eq\<close>)
  then show ?thesis by (simp add: poll_def polled_tx term_tx_status_eq)
qed

lemma poll_diverges:
  assumes "\<And>k. tx_stat w reg (now b + k) = DEVICE_ST_BUSY"
  shows "poll (term_tx_status w reg) b = Inl Diverge"
proof (cases "busy_wait (term_tx_status w reg) b")
  case None
  then show ?thesis by (simp add: poll_def)
next
  case (Some r)
  from busy_wait_returned [OF this] show ?thesis using assms by (simp add: polled_tx term_tx_status_eq)
qed

text \<open>The bus after a character for which the transmitter was busy until the access \<open>m\<close>.\<close>

definition sent :: "board \<Rightarrow> u32 \<Rightarrow> c_char \<Rightarrow> nat \<Rightarrow> bus \<Rightarrow> bus" where
  "sent w reg c m b = b\<lparr>now := m + 2, bus_log := rev (char_writes w reg c) @ bus_log b\<rparr>"

lemma sent_simps [simp]:
  "now (sent w reg c m b) = m + 2" "terminals (sent w reg c m b) = terminals b"
  "writes_since b (sent w reg c m b) (char_writes w reg c)"
  by (simp_all add: sent_def writes_since_def)

lemma term_putchar_refused:
  "\<not> tx_idle (tx_stat w reg (now b)) \<Longrightarrow> term_putchar w reg c b = Inr (-1, b\<lparr>now := Suc (now b)\<rparr>)"
  by (simp add: term_putchar_def term_tx_status_eq tx_idle_def)

lemma term_putchar_answered:
  assumes "tx_idle (tx_stat w reg (now b))"
    and "\<And>j. j < k \<Longrightarrow> tx_stat w reg (now b + 2 + j) = DEVICE_ST_BUSY"
    and "tx_stat w reg (now b + 2 + k) \<noteq> DEVICE_ST_BUSY"
  shows "term_putchar w reg c b =
    Inr (if tx_stat w reg (now b + 2 + k) = TERM_TX_ST_SPECIFIC then 0 else -1, sent w reg c (now b + 2 + k) b)"
proof -
  let ?b = "bus_write (reg_transm_command reg)
    (push_bit 8 (promote_char (board_target w) c) OR DEVICE_CMD_FUNC_SPECIFIC) (b\<lparr>now := Suc (now b)\<rparr>)"
  have n: "now ?b = now b + 2" by simp
  have "poll (term_tx_status w reg) ?b = Inr (tx_stat w reg (now ?b + k), ?b\<lparr>now := Suc (now ?b + k)\<rparr>)"
    by (rule poll_ends) (use assms(2,3) n in simp_all)
  moreover have "tx_stat w reg (now b) \<noteq> DEVICE_ST_READY \<and> tx_stat w reg (now b) \<noteq> TERM_TX_ST_SPECIFIC \<longleftrightarrow> False"
    using assms(1) by (auto simp: tx_idle_def)
  ultimately show ?thesis
    unfolding term_putchar_def term_tx_status_eq prod.case Let_def n
    by (simp only: if_False andThen_simps) (simp add: bus_write_def sent_def char_writes_def)
qed

lemma term_putchar_diverges:
  assumes "tx_idle (tx_stat w reg (now b))" and "\<And>k. now b + 2 \<le> k \<Longrightarrow> tx_stat w reg k = DEVICE_ST_BUSY"
  shows "term_putchar w reg c b = Inl Diverge"
proof -
  let ?b = "bus_write (reg_transm_command reg)
    (push_bit 8 (promote_char (board_target w) c) OR DEVICE_CMD_FUNC_SPECIFIC) (b\<lparr>now := Suc (now b)\<rparr>)"
  have "poll (term_tx_status w reg) ?b = Inl Diverge"
    by (rule poll_diverges) (use assms(2) in simp)
  then show ?thesis using assms(1) by (simp add: term_putchar_def term_tx_status_eq tx_idle_def)
qed

text \<open>The first status after an access that is not busy.\<close>

lemma first_answer:
  assumes "n \<le> k" and "tx_stat w reg k \<noteq> DEVICE_ST_BUSY"
  obtains m where "tx_stat w reg (n + m) \<noteq> DEVICE_ST_BUSY" "\<And>j. j < m \<Longrightarrow> tx_stat w reg (n + j) = DEVICE_ST_BUSY"
proof
  let ?P = "\<lambda>m. tx_stat w reg (n + m) \<noteq> DEVICE_ST_BUSY"
  have "?P (k - n)" using assms by simp
  then show "?P (LEAST m. ?P m)" by (rule LeastI)
  show "tx_stat w reg (n + j) = DEVICE_ST_BUSY" if "j < (LEAST m. ?P m)" for j
    using not_less_Least [OF that] by simp
qed

section \<open>Strings\<close>

text \<open>What is known of a transmission that began with \<open>b\<close>: \<open>m\<close> characters were sent; the rest was given up
  after the transmitter refused a character or failed to send one.\<close>

definition gave_up :: "board \<Rightarrow> u32 \<Rightarrow> nat \<Rightarrow> bus \<Rightarrow> bool" where
  "gave_up w reg m t \<longleftrightarrow> \<not> tx_idle (tx_stat w reg (now t - 1)) \<or>
     0 < m \<and> tx_stat w reg (now t - 2) \<notin> {DEVICE_ST_BUSY, TERM_TX_ST_SPECIFIC}"

definition string_sent :: "board \<Rightarrow> u32 \<Rightarrow> c_char list \<Rightarrow> bus \<Rightarrow> bus \<Rightarrow> bool" where
  "string_sent w reg str b t \<longleftrightarrow>
     (\<exists>m \<le> length str. writes_since b t (concat (map (char_writes w reg) (take m str))) \<and>
        (m < length str \<longrightarrow> gave_up w reg m t)) \<and>
     (str \<noteq> [] \<and> \<not> tx_idle (tx_stat w reg (now b)) \<longrightarrow> writes_since b t []) \<and>
     (accepts w reg (now b) \<longrightarrow> writes_since b t (concat (map (char_writes w reg) str)) \<and> accepts w reg (now t)) \<and>
     terminals t = terminals b"

lemma accepts_idle: "accepts w reg n \<Longrightarrow> tx_idle (tx_stat w reg n)"
  by (auto elim: accepts.cases)

text \<open>The driver's view of the cycle: the first answer is the transmission.\<close>

lemma accepts_first:
  assumes "accepts w reg n" and "tx_stat w reg (n + 2 + m) \<noteq> DEVICE_ST_BUSY"
    and "\<And>j. j < m \<Longrightarrow> tx_stat w reg (n + 2 + j) = DEVICE_ST_BUSY"
  shows "tx_stat w reg (n + 2 + m) = TERM_TX_ST_SPECIFIC \<and> accepts w reg (n + 2 + m + 2)"
  using assms(1)
proof cases
  case k: (cycle k)
  have "TERM_TX_ST_SPECIFIC \<noteq> DEVICE_ST_BUSY" by (simp add: TERM_TX_ST_SPECIFIC_def DEVICE_ST_BUSY_def)
  then have "k = m"
    using k(2) [of m] k(3) assms(2) assms(3) [of k] by (cases k m rule: linorder_cases) auto
  moreover have "n + 4 + m = n + 2 + m + 2" by simp
  ultimately show ?thesis using k(3,4) by metis
qed

lemma string_sent_Cons:
  assumes "string_sent w reg str (sent w reg c n b) t" and "tx_idle (tx_stat w reg (now b))"
    and "accepts w reg (now b) \<Longrightarrow> accepts w reg (n + 2)"
  shows "string_sent w reg (c # str) b t"
proof -
  let ?b = "sent w reg c n b"
  obtain m where m: "m \<le> length str" "writes_since ?b t (concat (map (char_writes w reg) (take m str)))"
      "m < length str \<longrightarrow> gave_up w reg m t"
    using assms(1) by (auto simp: string_sent_def)
  have tr: "writes_since b t (char_writes w reg c @ ws)" if "writes_since ?b t ws" for ws
    using that by (rule writes_since_trans [rotated]) simp
  have "\<exists>m \<le> length (c # str). writes_since b t (concat (map (char_writes w reg) (take m (c # str)))) \<and>
      (m < length (c # str) \<longrightarrow> gave_up w reg m t)"
    using m tr [OF m(2)] by (intro exI [of _ "Suc m"]) (auto simp: gave_up_def)
  then show ?thesis using assms tr by (simp add: string_sent_def)
qed

lemma term_putstr_ends:
  assumes "answers w reg"
  shows "ok (term_putstr w reg str b) (string_sent w reg str b)"
proof (induction str arbitrary: b)
  case Nil
  show ?case by (simp add: string_sent_def)
next
  case (Cons c str)
  show ?case
  proof (cases "tx_idle (tx_stat w reg (now b))")
    case False
    then have "\<not> accepts w reg (now b)" by (auto dest: accepts_idle)
    with False show ?thesis
      by (auto simp: term_putchar_refused string_sent_def writes_since_def gave_up_def intro!: exI [of _ 0])
  next
    case True
    obtain k where "now b + 2 \<le> k" "tx_stat w reg k \<noteq> DEVICE_ST_BUSY" using assms by (auto simp: answers_def)
    then obtain m where m: "tx_stat w reg (now b + 2 + m) \<noteq> DEVICE_ST_BUSY"
        "\<And>j. j < m \<Longrightarrow> tx_stat w reg (now b + 2 + j) = DEVICE_ST_BUSY"
      by (rule first_answer) blast
    let ?b = "sent w reg c (now b + 2 + m) b"
    have acc: "tx_stat w reg (now b + 2 + m) = TERM_TX_ST_SPECIFIC \<and> accepts w reg (now b + 2 + m + 2)"
      if "accepts w reg (now b)"
      using that m by (rule accepts_first)
    show ?thesis
    proof (cases "tx_stat w reg (now b + 2 + m) = TERM_TX_ST_SPECIFIC")
      case sent: True
      have "ok (term_putstr w reg str ?b) (string_sent w reg (c # str) b)"
        by (rule ok_mono [OF Cons.IH]) (rule string_sent_Cons, use True acc in auto)
      then show ?thesis using sent term_putchar_answered [OF True m(2,1), of c] by simp
    next
      case error: False
      then have "\<not> accepts w reg (now b)" using acc by blast
      moreover have "gave_up w reg 1 ?b" using error m(1) by (simp add: gave_up_def)
      ultimately have "string_sent w reg (c # str) b ?b"
        using True unfolding string_sent_def
        by (intro conjI exI [of _ 1]) simp_all
      then show ?thesis using error term_putchar_answered [OF True m(2,1), of c] by simp
    qed
  qed
qed

section \<open>Messages of the kernel\<close>

text \<open>The terminal of the messages exists and its operations end.\<close>

definition console :: "board \<Rightarrow> bus \<Rightarrow> bool" where
  "console w b \<longleftrightarrow>
     (let reg = DEV_REG_ADDR w (IL_TERMINAL w) SYS_TERM in
      SYS_TERM < N_DEV_PER_IL w \<and> answers w reg \<and>
      (terminals b SYS_TERM = None \<or> terminals b SYS_TERM = Some reg))"

lemma console_cong: "terminals c = terminals b \<Longrightarrow> console w c = console w b"
  by (simp add: console_def)

text \<open>It takes characters without an error, from now on.\<close>

definition console_accepts :: "board \<Rightarrow> bus \<Rightarrow> bool" where
  "console_accepts w b \<longleftrightarrow> accepts w (DEV_REG_ADDR w (IL_TERMINAL w) SYS_TERM) (now b)"

lemma console_terminal:
  assumes "console w b"
  obtains c where "get_terminal w SYS_TERM b = Inr (DEV_REG_ADDR w (IL_TERMINAL w) SYS_TERM, c)"
    "terminals c SYS_TERM = Some (DEV_REG_ADDR w (IL_TERMINAL w) SYS_TERM)" "bus_log c = bus_log b" "now c = now b"
  using assms by (auto simp: get_terminal_def console_def Let_def)

lemma addokbuf_prints:
  assumes "console w b"
  shows "ok (addokbuf w str b) (console w)"
proof -
  let ?reg = "DEV_REG_ADDR w (IL_TERMINAL w) SYS_TERM"
  obtain c where c: "get_terminal w SYS_TERM b = Inr (?reg, c)" "terminals c SYS_TERM = Some ?reg"
    using assms by (rule console_terminal)
  have "answers w ?reg" using assms by (simp add: console_def Let_def)
  from term_putstr_ends [OF this, of "c_string str" c] show ?thesis
    using assms c by (auto simp: addokbuf_def console_def Let_def string_sent_def elim!: ok_mono)
qed

end
