(* ===== verification/Kernel.thy ===== *)
theory Kernel
  imports Sched_Io Sched_Kill Handler Polling
begin

text \<open>
  The kernel invariant \<open>kinv\<close> and the fact that every routine a handler calls keeps it: the
  pointers of the tables represent a well-formed abstract scheduler, and every device's waiting list
  is in one of its two states. The routines are total where the invariant makes them so.
\<close>

section \<open>The invariant\<close>

text \<open>
  A device is idle (its semaphore is 1, nobody waits) or it serves the first process of its queue.
\<close>

definition dev_served ::
  "nat \<Rightarrow> nat \<Rightarrow> c_int \<Rightarrow> pcb option \<Rightarrow> pcb list \<Rightarrow> (pcb \<Rightarrow> pcb_t) \<Rightarrow> bool" where
  "dev_served l d n res q c \<longleftrightarrow>
     n = 1 \<and> res = None \<and> q = [] \<or>
     n = 0 \<and> (\<exists>p r. res = Some p \<and> q = p # r \<and> dev_w_list (c p) = Some (l, d))"

definition dev_inv :: "board \<Rightarrow> 'a kern_scheme \<Rightarrow> sched \<Rightarrow> bool" where
  "dev_inv w s a \<longleftrightarrow>
     (\<forall>l d. l < N_EXT_IL w + 1 \<longrightarrow> d < N_DEV_PER_IL w \<longrightarrow>
        dev_served l d (w_for_cmd_sem s l d) (w_for_res s l d) (wait a (Some (Dev_sem l d))) (tcb a))"

definition kinv :: "board \<Rightarrow> 'a kern_scheme \<Rightarrow> bool" where
  "kinv w s \<longleftrightarrow> (\<exists>a. repr s a \<and> sched_wf a \<and> dev_inv w s a)"

lemma kinvI: "repr s a \<Longrightarrow> sched_wf a \<Longrightarrow> dev_inv w s a \<Longrightarrow> kinv w s"
  by (auto simp: kinv_def)

lemma kinvE:
  assumes "kinv w s"
  obtains a where "repr s a" "sched_wf a" "dev_inv w s a"
  using assms by (auto simp: kinv_def)

lemma dev_inv_cong:
  assumes "dev_inv w s a"
    and "w_for_cmd_sem t = w_for_cmd_sem s" "w_for_res t = w_for_res s"
    and "\<And>l d. wait b (Some (Dev_sem l d)) = wait a (Some (Dev_sem l d))"
    and "\<And>p. dev_w_list (tcb b p) = dev_w_list (tcb a p)"
  shows "dev_inv w t b"
  using assms by (simp add: dev_inv_def dev_served_def)

lemma dev_inv_rest:
  assumes "dev_inv w s a" and "rest_same s t"
    and "\<And>l d. wait b (Some (Dev_sem l d)) = wait a (Some (Dev_sem l d))"
    and "\<And>p. dev_w_list (tcb b p) = dev_w_list (tcb a p)"
  shows "dev_inv w t b"
  using assms by (intro dev_inv_cong [OF assms(1)]) (auto simp: rest_same_def)

text \<open>Effects of the abstract operations on the waiting queues and the devices.\<close>

lemma tcb_dev_ops [simp]:
  "dev_w_list (tcb (a_stop a) p) = dev_w_list (tcb a p)"
  "dev_w_list (tcb (a_schedule q a) p) = dev_w_list (tcb a p)"
  "dev_w_list (tcb (a_raise P a) p) = dev_w_list (tcb a p)"
  "dev_w_list (tcb (a_flush_kernel n q a) p) = dev_w_list (tcb a p)"
  by (simp_all add: a_stop_def a_schedule_def a_requeue_def a_raise_def a_flush_kernel_def)

lemma a_stop_simps [simp]:
  "free (a_stop a) = free a" "wait (a_stop a) = wait a" "kids (a_stop a) = kids a"
  by (simp_all add: a_stop_def a_requeue_def)

lemma a_flush_simps [simp]:
  "free (a_flush_kernel n q a) = free a" "wait (a_flush_kernel n q a) = wait a"
  "ready (a_flush_kernel n q a) = ready a" "running (a_flush_kernel n q a) = running a"
  "kids (a_flush_kernel n q a) = kids a"
  by (simp_all add: a_flush_kernel_def)

lemma a_time_slice_simps [simp]:
  "wait (a_time_slice a) = wait a"
  "dev_w_list (tcb (a_time_slice a) p) = dev_w_list (tcb a p)"
  by (simp_all add: a_time_slice_def Let_def split: list.split)

lemma a_block_simps [simp]:
  "k \<noteq> key \<Longrightarrow> wait (a_block key a) k = wait a k"
  "dev_w_list (tcb (a_block key a) p) = dev_w_list (tcb a p)"
  by (simp_all add: a_block_def Let_def)

lemma a_wake_simps [simp]:
  "k \<noteq> key \<Longrightarrow> wait (a_wake key a) k = wait a k"
  "dev_w_list (tcb (a_wake key a) p) = dev_w_list (tcb a p)"
  by (simp_all add: a_wake_def split: list.split)

lemma a_create_simps [simp]:
  "wait (a_create st pri a) = wait a"
  "dev_w_list (tcb (a_create st pri a) p) = dev_w_list (tcb a p)"
  by (simp_all add: a_create_def fresh_pcb_def split: list.split)

text \<open>The semaphore list cannot be full: there are as many descriptors as processes.\<close>

lemma wait_not_full:
  assumes wf: "sched_wf a" and r: "running a \<noteq> Idle_proc"
  shows "\<not> asl_full (wait a)"
proof (rule asl_not_full [of _ "running a"])
  have pl: "placed a {running a}" and "running a \<in> all_procs"
    using wf r by (auto simp: sched_wf_def core_def)
  then show "blocked (wait a) \<subseteq> Pcb ` {..<MAXPROC} - {running a}"
    unfolding placed_def all_procs_def by blast
  show "running a \<in> Pcb ` {..<MAXPROC}" using \<open>running a \<in> all_procs\<close> by (simp add: all_procs_def)
  show "k = l" if "x \<in> set (wait a k)" "x \<in> set (wait a l)" for k l x
    using pl that unfolding placed_def by blast
qed

lemma running_unqueued: "sched_wf a \<Longrightarrow> running a \<noteq> Idle_proc \<Longrightarrow> unqueued (running a) a"
  by (rule running_not_blocked(1))

section \<open>Timers, registers and memory of processes\<close>

text \<open>An update that leaves the tables and the devices' lists alone.\<close>

lemma kinv_outside:
  fixes s t :: "'a kern_scheme"
  assumes "kinv w s" and "lh_next t = lh_next s" "lh_prev t = lh_prev s" "s_key t = s_key s"
    "pcbs t = pcbs s" "running_proc t = running_proc s" "w_for_cmd_sem t = w_for_cmd_sem s"
    "w_for_res t = w_for_res s"
  shows "kinv w t"
proof -
  obtain a where a: "repr s a" "sched_wf a" "dev_inv w s a" using assms(1) by (rule kinvE)
  have "repr t (a\<lparr>running := running a\<rparr>)"
    by (rule repr_cong [OF a(1)]) (use assms a(1) in \<open>simp_all add: repr_def\<close>)
  then show ?thesis using a dev_inv_cong [OF a(3), of t a] assms by (intro kinvI [of _ a]) simp_all
qed

text \<open>An update of members of a PCB that no invariant mentions.\<close>

lemma kinv_upd_pcb:
  assumes "kinv w s" and f: "\<And>c. p_parent (f c) = p_parent c" "\<And>c. p_semkey (f c) = p_semkey c"
    "\<And>c. dev_w_list (f c) = dev_w_list c" "\<And>c. priority (f c) = priority c"
  shows "kinv w (upd_pcb p f s)"
proof -
  obtain a where a: "repr s a" "sched_wf a" "dev_inv w s a" using assms(1) by (rule kinvE)
  have "repr (upd_pcb p f s) (upd_tcb p f a)"
    using f by (intro upd_pcb_refines [OF a(1), THEN conjunct1]) simp_all
  moreover have "sched_wf (upd_tcb p f a)"
    using a(2) f unfolding sched_wf_def by (subst core_cong [where a = a]) simp_all
  moreover have "dev_inv w (upd_pcb p f s) (upd_tcb p f a)"
    using f by (intro dev_inv_cong [OF a(3)]) (simp_all add: upd_pcb_def)
  ultimately show ?thesis by (rule kinvI)
qed

lemma kinv_bus: "kinv w s \<Longrightarrow> kinv w (s\<lparr>bus := b\<rparr>)"
  by (erule kinv_outside) simp_all

lemma kinv_on_bus: "kinv w s \<Longrightarrow> kinv w (snd (on_bus f s))"
  by (simp add: on_bus_def kinv_bus split: prod.split)

lemma kinv_read_TOD: "kinv w s \<Longrightarrow> kinv w (snd (read_TOD v s))"
  by (simp add: read_TOD_def kinv_bus split: prod.split)

lemma kinv_flush:
  assumes "kinv w s"
  shows "kinv w (flush_user_time v p s)" "kinv w (flush_kernel_time v p s)"
    "kinv w (flush_reset_time v p s)"
  using kinv_read_TOD [OF assms, of v]
  by (auto simp: flush_user_time_def flush_kernel_time_def flush_reset_time_def Let_def
      split: prod.split intro!: kinv_upd_pcb)

lemma kinv_reset_timer: "kinv w s \<Longrightarrow> kinv w (reset_int_timer v s)"
  by (simp add: reset_int_timer_def kinv_bus)


section \<open>Scheduling\<close>

lemma dev_inv_outside [simp]:
  "dev_inv w (s\<lparr>user_word := f\<rparr>) a = dev_inv w s a" "dev_inv w (s\<lparr>bus := b\<rparr>) a = dev_inv w s a"
  by (simp_all add: dev_inv_def)

text \<open>A routine that refines an abstract operation keeps the invariant when the operation does.\<close>

lemma kinv_refine:
  assumes "ok m (\<lambda>t. repr t b \<and> R t)" and "sched_wf b" and "\<And>t. R t \<Longrightarrow> dev_inv w t b"
  shows "ok m (kinv w)"
  using assms(1) by (rule ok_mono) (use assms(2,3) in \<open>blast intro: kinvI\<close>)

lemma repr_prio: "repr s a \<Longrightarrow> prio s = a_prio a"
  by (simp add: repr_def prio_def a_prio_def fun_eq_iff)

lemma repr_running: "repr s a \<Longrightarrow> running_proc s = Some (running a)"
  by (simp add: repr_def)

lemma kinv_time_slice:
  assumes "kinv w s" and "\<And>p. prio s p < 2147483647"
  shows "ok (time_slice_callback s) (kinv w)"
proof -
  obtain a where a: "repr s a" "sched_wf a" "dev_inv w s a" using assms(1) by (rule kinvE)
  have "can_raise a (set (ready a))" using assms(2) by (simp add: can_raise_def repr_prio [OF a(1)])
  from sched_wf_time_slice [OF a(2) this] have wf: "sched_wf (a_time_slice a)" .
  have "ok (time_slice_callback s) (\<lambda>t. repr t (a_time_slice a) \<and> rest_same s t)"
    by (rule time_slice_refines [OF a(1)]) (rule running_unqueued [OF a(2)])
  then show ?thesis by (rule kinv_refine [OF _ wf]) (rule dev_inv_rest [OF a(3)], simp_all)
qed

lemma kinv_passeren:
  assumes "kinv w s" and run: "running_proc s \<noteq> Some Idle_proc"
  shows "ok (passeren v (Some (User_int u)) s) (kinv w)"
proof -
  obtain a where a: "repr s a" "sched_wf a" "dev_inv w s a" using assms(1) by (rule kinvE)
  let ?key = "Some (User_int u)" and ?n = "user_word s u"
  have l: "load_int ?key s = Inr ?n" by simp
  have r: "running a \<noteq> Idle_proc" using run repr_running [OF a(1)] by simp
  show ?thesis
  proof (cases "0 \<le> sint (?n - 1)")
    case True
    show ?thesis
      by (rule kinv_refine [OF passeren_free [OF a(1) l True] a(2)]) (use a(3) in auto)
  next
    case False
    let ?b = "a_block ?key (a_flush_kernel (tod_at v s) (running a) a)"
    have wf: "sched_wf ?b" by (rule sched_wf_block) (use a r in simp_all)
    have "rest_same (snd (read_TOD v s)) t \<Longrightarrow> dev_inv w t ?b" for t
      by (rule dev_inv_cong [OF a(3)]) (auto simp: rest_same_def read_TOD_def split: prod.splits)
    moreover have "ok (passeren v ?key s) (\<lambda>t. repr t ?b \<and> rest_same (snd (read_TOD v s)) t)"
      by (rule passeren_block [OF a(1) l])
        (use False running_unqueued [OF a(2) r] wait_not_full [OF a(2) r] in simp_all)
    ultimately show ?thesis by (intro kinv_refine [OF _ wf])
  qed
qed

lemma kinv_verhogen:
  assumes "kinv w s"
  shows "ok (verhogen (Some (User_int u)) s) (kinv w)"
proof -
  obtain a where a: "repr s a" "sched_wf a" "dev_inv w s a" using assms by (rule kinvE)
  let ?key = "Some (User_int u)"
  have l: "load_int ?key s = Inr (user_word s u)" by simp
  show ?thesis
  proof (cases "wait a ?key")
    case Nil
    show ?thesis
      by (rule kinv_refine [OF verhogen_free [OF a(1) l Nil] a(2)]) (use a(3) in auto)
  next
    case (Cons p q)
    have wf: "sched_wf (a_wake ?key a)" by (rule sched_wf_wake [OF a(2)]) simp
    have "core a {running a}" using a(2) by (simp add: sched_wf_def)
    from verhogen_wake [OF a(1) l this Cons] show ?thesis
      by (rule kinv_refine [OF _ wf]) (rule dev_inv_rest [OF a(3)], simp_all)
  qed
qed

lemma kinv_create:
  assumes "kinv w s" and st: "st \<noteq> 0"
  shows "ok (create_process ly st pri cpid s) (\<lambda>(_, t). kinv w t)"
proof -
  obtain a where a: "repr s a" "sched_wf a" "dev_inv w s a" using assms(1) by (rule kinvE)
  show ?thesis
  proof (cases "free a")
    case Nil
    then show ?thesis using create_process_none [OF a(1)] assms(1) by simp
  next
    case (Cons p q)
    let ?b = "a_create (user_state s st) pri a"
    have wf: "sched_wf ?b" by (rule sched_wf_create [OF a(2)])
    have "rest_same (if cpid \<noteq> 0 then s\<lparr>user_word := f\<rparr> else s) t \<Longrightarrow> dev_inv w t ?b" for t f
      by (rule dev_inv_cong [OF a(3)]) (auto simp: rest_same_def split: if_splits)
    then show ?thesis
      using create_refines [OF a(1,2) Cons st, of ly pri cpid]
      by (elim ok_mono) (blast intro: kinvI wf)
  qed
qed

text \<open>
  A process that \<open>terminate_proc\<close> may be called on: it exists, and no device serves it or one of
  its offspring.
\<close>

definition expendable :: "board \<Rightarrow> 'a kern_scheme \<Rightarrow> pcb \<Rightarrow> bool" where
  "expendable w s p \<longleftrightarrow>
     (\<exists>a. repr s a \<and> sched_wf a \<and> dev_inv w s a \<and> p \<in> live a \<and> p \<in> all_procs \<and>
        (\<forall>q\<in>(child_rel a)\<^sup>* `` {p}. dev_w_list (tcb a q) = None))"

lemma terminated_dev_inv:
  assumes inv: "dev_inv w s a" and rest: "rest_same s t" and trm: "terminated xs a b"
    and dev: "\<And>q. q \<in> set xs \<Longrightarrow> dev_w_list (tcb a q) = None"
  shows "dev_inv w t b"
proof -
  have "dev_served l d n res (filter (\<lambda>x. x \<notin> set xs) q) (tcb b)"
    if "dev_served l d n res q (tcb a)" for l d n res q
  proof (cases q)
    case Nil
    then show ?thesis using that by (simp add: dev_served_def)
  next
    case (Cons p r)
    then have "dev_w_list (tcb a p) = Some (l, d)" using that by (simp add: dev_served_def)
    moreover from this have "p \<notin> set xs" using dev [of p] by auto
    ultimately show ?thesis using that Cons trm by (simp add: dev_served_def terminated_def)
  qed
  moreover have "wait b k = filter (\<lambda>x. x \<notin> set xs) (wait a k)" for k
    using trm by (simp add: terminated_def)
  ultimately show ?thesis using inv rest by (simp add: dev_inv_def rest_same_def)
qed

lemma kinv_terminate:
  fixes s :: "'a kern_scheme"
  assumes "expendable w s p" and target: "target = Some p \<or> target = None \<and> running_proc s = Some p"
  shows "ok (terminate_proc target s) (\<lambda>(ret, t). ret = 0 \<and> kinv w t \<and> rest_same s t)"
proof -
  obtain a where a: "repr s a" "sched_wf a" "dev_inv w s a" and p: "p \<in> live a" "p \<in> all_procs"
    and dev: "\<And>q. q \<in> (child_rel a)\<^sup>* `` {p} \<Longrightarrow> dev_w_list (tcb a q) = None"
    using assms(1) by (auto simp: expendable_def)
  have tree: "tree_ok a" using a(2) by (simp add: sched_wf_def core_def)
  obtain xs where xs: "offspring a p xs" using offspring_exists [OF tree] by blast
  have dist: "distinct xs"
    by (rule offspring_distinct [of s, OF _ tree xs]) (use a(1) in \<open>simp add: repr_def\<close>)
  have devs: "dev_w_list (tcb a q) = None" if "q \<in> set xs" for q
    using dev that offspring_set [OF xs] by simp
  have tgt: "target = Some p \<or> target = None \<and> p = running a"
    using target repr_running [OF a(1)] by auto
  show ?thesis
    using terminate_refines [OF a(1,2) p xs tgt]
  proof (rule ok_mono, clarify)
    fix ret :: c_int and t :: "'a kern_scheme" and b
    assume "rest_same s t" "repr t b" "terminated xs a b"
    then show "0 = (0 :: c_int) \<and> kinv w t \<and> rest_same s t"
      using sched_wf_terminated [OF a(2) p xs dist _ devs] terminated_dev_inv [OF a(3) _ _ devs]
      by (blast intro: kinvI)
  qed
qed


section \<open>Devices\<close>

lemma get_dev_w_list_eq:
  "get_dev_w_list w x y = Inr (l, d) \<longleftrightarrow> x = l \<and> y = d \<and> l < N_EXT_IL w + 1 \<and> d < N_DEV_PER_IL w"
  by (auto simp: get_dev_w_list_def)

lemma dev_invD:
  "dev_inv w s a \<Longrightarrow> get_dev_w_list w x y = Inr (l, d) \<Longrightarrow>
    dev_served l d (w_for_cmd_sem s l d) (w_for_res s l d) (wait a (Some (Dev_sem l d))) (tcb a)"
  by (auto simp: dev_inv_def get_dev_w_list_eq)

text \<open>A change at one device.\<close>

lemma dev_inv_update:
  assumes inv: "dev_inv w s a"
    and here: "dev_served l d (w_for_cmd_sem t l d) (w_for_res t l d) (wait b (Some (Dev_sem l d))) (tcb b)"
    and there: "\<And>l' d'. (l', d') \<noteq> (l, d) \<Longrightarrow> w_for_cmd_sem t l' d' = w_for_cmd_sem s l' d' \<and>
      w_for_res t l' d' = w_for_res s l' d' \<and>
      wait b (Some (Dev_sem l' d')) = wait a (Some (Dev_sem l' d'))"
    and dev: "\<And>l' d' p. (l', d') \<noteq> (l, d) \<Longrightarrow> dev_w_list (tcb a p) = Some (l', d') \<Longrightarrow>
      dev_w_list (tcb b p) = Some (l', d')"
  shows "dev_inv w t b"
  unfolding dev_inv_def
proof (intro allI impI)
  fix l' d' assume b: "l' < N_EXT_IL w + 1" "d' < N_DEV_PER_IL w"
  show "dev_served l' d' (w_for_cmd_sem t l' d') (w_for_res t l' d') (wait b (Some (Dev_sem l' d'))) (tcb b)"
  proof (cases "(l', d') = (l, d)")
    case True
    then show ?thesis using here by simp
  next
    case False
    have "dev_served l' d' (w_for_cmd_sem s l' d') (w_for_res s l' d') (wait a (Some (Dev_sem l' d'))) (tcb a)"
      using inv b by (simp add: dev_inv_def)
    then show ?thesis using there [OF False] dev [OF False] by (auto simp: dev_served_def)
  qed
qed

lemma running_no_device:
  assumes wf: "sched_wf a" and r: "running a \<noteq> Idle_proc"
  shows "dev_w_list (tcb a (running a)) = None"
proof (rule ccontr)
  assume "dev_w_list (tcb a (running a)) \<noteq> None"
  then obtain l d where "dev_w_list (tcb a (running a)) = Some (l, d)" by auto
  then have "running a \<in> set (wait a (Some (Dev_sem l d)))"
    using wf r by (auto simp: sched_wf_def core_def dev_ok_def)
  then show False using running_not_blocked(3) [OF wf r] by blast
qed

lemma wait_one_key:
  "sched_wf a \<Longrightarrow> x \<in> set (wait a k) \<Longrightarrow> x \<in> set (wait a m) \<Longrightarrow> k = m"
  unfolding sched_wf_def core_def placed_def by blast

lemma wait_dev_queue:
  assumes "sched_wf a" and "x \<in> all_procs" and "dev_w_list (tcb a x) = Some (l, d)"
  shows "x \<in> set (wait a (Some (Dev_sem l d)))"
  using assms by (auto simp: sched_wf_def core_def dev_ok_def)

lemma wait_io_idle:
  fixes s :: "'a kern_scheme"
  assumes a: "repr s a" "sched_wf a" "dev_inv w s a" and r: "running a \<noteq> Idle_proc"
    and dev: "io_device w dev_reg sub = Inr (l, d)" and res: "w_for_res s l d = None"
  shows "let b = a_flush_kernel (env w (BUS_REG_TOD_LO w) (Suc (now (bus s)))) (running a) (a_wait_ready l d a)
    in ok (wait_io w cmd dev_reg sub s) (\<lambda>t. repr t b \<and> sched_wf b \<and> dev_inv w t b \<and>
      w_for_res t l d = Some (running a) \<and> bus_log (bus t) = bus_log (send_command l cmd dev_reg (bus s)) \<and>
      terminals (bus t) = terminals (bus s) \<and> kern.more t = kern.more s \<and> memory_same s t)"
proof -
  let ?key = "Some (Dev_sem l d)"
  have "dev_served l d (w_for_cmd_sem s l d) (w_for_res s l d) (wait a ?key) (tcb a)"
    using dev by (intro dev_invD [OF a(3)]) (simp add: io_device_def)
  then have n: "w_for_cmd_sem s l d = 1" "wait a ?key = []"
    using res by (auto simp: dev_served_def)
  note un = running_unqueued [OF a(2) r] wait_not_full [OF a(2) r]
  have idle: "dev_w_list (tcb a (running a)) = None" by (rule running_no_device [OF a(2) r])
  note ops = a_wait_ready_def a_enqueue_def a_flush_kernel_def upd_sem_def Let_def
  let ?b = "a_flush_kernel (env w (BUS_REG_TOD_LO w) (Suc (now (bus s)))) (running a) (a_wait_ready l d a)"
  have wf: "sched_wf ?b" using sched_wf_wait_ready [OF a(2) r] by simp
  have n': "0 \<le> sint (w_for_cmd_sem s l d - 1)" using n by simp
  have inv: "dev_inv w t ?b"
    if t: "w_for_cmd_sem t = upd_sem l d (w_for_cmd_sem s l d - 1) (w_for_cmd_sem s)"
      "w_for_res t = (w_for_res s)(l := (w_for_res s l)(d := Some (running a)))" for t :: "'a kern_scheme"
  proof (rule dev_inv_update [OF a(3)])
    show "dev_served l d (w_for_cmd_sem t l d) (w_for_res t l d) (wait ?b ?key) (tcb ?b)"
      using n by (simp add: t dev_served_def ops)
  qed (use idle in \<open>auto simp: t ops\<close>)
  show ?thesis
    unfolding Let_def using wait_io_ready [OF a(1) dev n' un, of cmd] wf inv by (auto elim!: ok_mono)
qed

lemma wait_io_queued:
  fixes s :: "'a kern_scheme"
  assumes a: "repr s a" "sched_wf a" "dev_inv w s a" and r: "running a \<noteq> Idle_proc"
    and dev: "io_device w dev_reg sub = Inr (l, d)" and res: "w_for_res s l d = Some p"
  shows "let b = a_flush_kernel (tod_at w s) (running a) (a_wait_busy l d a)
    in ok (wait_io w cmd dev_reg sub s) (\<lambda>t. repr t b \<and> sched_wf b \<and>
      (a_prio a (running a) \<le> a_prio a p \<longrightarrow> dev_inv w t b) \<and>
      w_for_res t = w_for_res s \<and> bus_log (bus t) = bus_log (bus s) \<and>
      terminals (bus t) = terminals (bus s) \<and> kern.more t = kern.more s \<and> memory_same s t)"
proof -
  let ?key = "Some (Dev_sem l d)"
  have "dev_served l d (w_for_cmd_sem s l d) (w_for_res s l d) (wait a ?key) (tcb a)"
    using dev by (intro dev_invD [OF a(3)]) (simp add: io_device_def)
  then obtain q where q: "w_for_cmd_sem s l d = 0" "wait a ?key = p # q" "dev_w_list (tcb a p) = Some (l, d)"
    using res by (auto simp: dev_served_def)
  note un = running_unqueued [OF a(2) r] wait_not_full [OF a(2) r]
  note ops = a_wait_busy_def a_enqueue_def a_flush_kernel_def Let_def
  let ?b = "a_flush_kernel (tod_at w s) (running a) (a_wait_busy l d a)"
  have wf: "sched_wf ?b" using sched_wf_wait_busy [OF a(2) r] by simp
  have n: "sint (w_for_cmd_sem s l d - 1) < 0" using q by simp
  have same: "w_for_cmd_sem t = w_for_cmd_sem s" "w_for_res t = w_for_res s" "bus_log (bus t) = bus_log (bus s)"
      "terminals (bus t) = terminals (bus s)" "kern.more t = kern.more s" "memory_same s t"
    if "rest_same (snd (read_TOD w s)) t" for t :: "'a kern_scheme"
    using that by (auto simp: rest_same_def read_TOD_def TOD_def bus_read_def memory_same_def)
  have inv: "dev_inv w t ?b"
    if le: "a_prio a (running a) \<le> a_prio a p" and t: "rest_same (snd (read_TOD w s)) t" for t
  proof (rule dev_inv_update [OF a(3)])
    show "dev_served l d (w_for_cmd_sem t l d) (w_for_res t l d) (wait ?b ?key) (tcb ?b)"
      using q res le by (auto simp: same [OF t] dev_served_def ops)
    show "w_for_cmd_sem t l' d' = w_for_cmd_sem s l' d' \<and> w_for_res t l' d' = w_for_res s l' d' \<and>
        wait ?b (Some (Dev_sem l' d')) = wait a (Some (Dev_sem l' d'))" if "(l', d') \<noteq> (l, d)" for l' d'
      using that by (auto simp: same [OF t] ops)
  qed (auto simp: ops)
  show ?thesis
    unfolding Let_def using wait_io_busy [OF a(1) dev n un, of cmd] wf inv same by (auto elim!: ok_mono)
qed

lemma kinv_wait_io:
  assumes "kinv w s" and run: "running_proc s = Some r" "r \<noteq> Idle_proc"
    and dev: "io_device w dev_reg sub = Inr (l, d)"
    and turn: "\<And>p. w_for_res s l d = Some p \<Longrightarrow> prio s r \<le> prio s p"
  shows "ok (wait_io w cmd dev_reg sub s) (kinv w)"
proof -
  obtain a where a: "repr s a" "sched_wf a" "dev_inv w s a" using assms(1) by (rule kinvE)
  have r: "running a = r" "running a \<noteq> Idle_proc" using run repr_running [OF a(1)] by simp_all
  show ?thesis
  proof (cases "w_for_res s l d")
    case None
    show ?thesis
      by (rule ok_mono [OF wait_io_idle [OF a r(2) dev None, unfolded Let_def]]) (blast intro: kinvI)
  next
    case (Some p)
    have "a_prio a (running a) \<le> a_prio a p" using turn [OF Some] repr_prio [OF a(1)] r by simp
    then show ?thesis
      by (intro ok_mono [OF wait_io_queued [OF a r(2) dev Some, unfolded Let_def]]) (blast intro: kinvI)
  qed
qed

lemma wait_distinct: "sched_wf a \<Longrightarrow> distinct (wait a k)"
  by (simp add: sched_wf_def core_def placed_def)

lemma p_s_schedule [simp]: "p_s (tcb (a_schedule p a) x) = p_s (tcb a x)"
  by (simp add: a_schedule_def a_stop_def a_requeue_def)

text \<open>
  Under the invariant the queue of a device that serves a process begins with that process, so
  \<open>done_io\<close> gives the result to it and the device to the next one.
\<close>

lemma done_io_total:
  fixes s :: "'a kern_scheme"
  assumes a: "repr s a" "sched_wf a" "dev_inv w s a" and dev: "get_dev_w_list w l d = Inr (l, d)"
    and wait: "wait a (Some (Dev_sem l d)) = p # q"
  shows "ok (done_io w l d s) (\<lambda>t.
    repr t (a_done_io (io_status w l d (bus s)) l d p q a) \<and>
    sched_wf (a_done_io (io_status w l d (bus s)) l d p q a) \<and>
    dev_inv w t (a_done_io (io_status w l d (bus s)) l d p q a) \<and>
    bus t = send_command l (case q of [] \<Rightarrow> DEVICE_CMD_ACK | x # _ \<Rightarrow> SYSCALL_ARG1 (p_s (tcb a x)))
      (io_reg w l d) (snd (get_status w l (io_reg w l d) (bus s))) \<and> kern.more t = kern.more s \<and> memory_same s t)"
proof -
  let ?key = "Some (Dev_sem l d)"
  have q: "w_for_cmd_sem s l d = 0" "w_for_res s l d = Some p" "wait a ?key = p # q"
      "dev_w_list (tcb a p) = Some (l, d)"
    using dev_invD [OF a(3) dev] wait by (auto simp: dev_served_def)
  let ?st = "io_status w l d (bus s)"
  let ?a1 = "a_io_result ?st p (a_unblock ?key p q a)"
  let ?b = "a_done_io ?st l d p q a"
  have core: "core a {running a}" using a(2) by (simp add: sched_wf_def)
  have wf: "sched_wf ?b" by (rule sched_wf_done_io [OF a(2) q(3)])
  have wb: "wait ?b = (wait a)(?key := q)"
    by (simp add: a_done_io_def a_io_next_def a_io_result_def split: list.split)
  have tcb: "dev_w_list (tcb ?b x) =
      (if q \<noteq> [] \<and> x = hd q then Some (l, d) else if x = p then None else dev_w_list (tcb a x))" for x
    by (simp add: a_done_io_def a_io_next_def a_io_result_def a_unblock_def split: list.split)
  have inv: "dev_inv w t ?b"
    if t: "io_next_outside l d (io_reg w l d) ?a1 u t" "w_for_res u = w_for_res s"
      "w_for_cmd_sem u = w_for_cmd_sem s" for t u :: "'a kern_scheme"
  proof (rule dev_inv_update [OF a(3)])
    have w1: "wait ?a1 ?key = q" by (simp add: a_io_result_def)
    note outside = t(1) [unfolded io_next_outside_def w1 Let_def]
    show "dev_served l d (w_for_cmd_sem t l d) (w_for_res t l d) (wait ?b ?key) (tcb ?b)"
      unfolding dev_served_def wb tcb fun_upd_same using outside t(2,3) q by (cases q) auto
    show "w_for_cmd_sem t l' d' = w_for_cmd_sem s l' d' \<and> w_for_res t l' d' = w_for_res s l' d' \<and>
        wait ?b (Some (Dev_sem l' d')) = wait a (Some (Dev_sem l' d'))" if "(l', d') \<noteq> (l, d)" for l' d'
      using outside t that by (auto simp: wb upd_sem_def)
    show "dev_w_list (tcb ?b x) = Some (l', d')"
      if "(l', d') \<noteq> (l, d)" "dev_w_list (tcb a x) = Some (l', d')" for l' d' x
    proof -
      have False if "q \<noteq> []" "x = hd q"
      proof -
        have x: "x \<in> set (wait a ?key)" using that q(3) by simp
        then have "x \<in> all_procs" using core unfolding core_def placed_def blocked_def by blast
        from wait_dev_queue [OF a(2) this] \<open>dev_w_list (tcb a x) = Some (l', d')\<close>
        have "x \<in> set (wait a (Some (Dev_sem l' d')))" by simp
        then show False using wait_one_key [OF a(2) x] \<open>(l', d') \<noteq> (l, d)\<close> by auto
      qed
      then show ?thesis using that q(4) by (auto simp: tcb)
    qed
  qed
  have "p \<notin> set q" using wait_distinct [OF a(2), of ?key] q(3) by simp
  then have cmd: "io_command ?key ?a1 = (case q of [] \<Rightarrow> DEVICE_CMD_ACK | x # _ \<Rightarrow> SYSCALL_ARG1 (p_s (tcb a x)))"
    by (auto simp: io_command_def a_io_result_def a_unblock_def split: list.split)
  have bus: "bus t = send_command l (case q of [] \<Rightarrow> DEVICE_CMD_ACK | x # _ \<Rightarrow> SYSCALL_ARG1 (p_s (tcb a x)))
      (io_reg w l d) (bus u)" "kern.more t = kern.more u" "memory_same u t"
    if "io_next_outside l d (io_reg w l d) ?a1 u t" for t u :: "'a kern_scheme"
    using that by (simp_all add: io_next_outside_def Let_def cmd)
  have trans: "memory_same s u \<Longrightarrow> memory_same u t \<Longrightarrow> memory_same s t" for t u :: "'a kern_scheme"
    by (simp add: memory_same_def)
  show ?thesis
    by (rule ok_mono [OF done_io_serves [OF a(1) core dev q(2,3)]], elim exE conjE, intro conjI wf)
      (simp_all only: inv bus trans [OF _ bus(3)])
qed

lemma kinv_done_io:
  assumes "kinv w s" and dev: "get_dev_w_list w l d = Inr (l, d)" and res: "w_for_res s l d \<noteq> None"
  shows "ok (done_io w l d s) (kinv w)"
proof -
  obtain a where a: "repr s a" "sched_wf a" "dev_inv w s a" using assms(1) by (rule kinvE)
  obtain p q where "wait a (Some (Dev_sem l d)) = p # q"
    using dev_invD [OF a(3) dev] res by (auto simp: dev_served_def)
  then show ?thesis
    by (rule ok_mono [OF done_io_total [OF a dev]]) (blast intro: kinvI)
qed

text \<open>With nobody waiting, \<open>done_io\<close> prints a message: only the bus changes.\<close>

lemma done_io_message:
  assumes "get_dev_w_list w l d = Inr (l, d)" and "w_for_res s l d = None"
  shows "done_io w l d s = Inr t \<Longrightarrow> \<exists>b. t = s\<lparr>bus := b\<rparr>"
  using assms by (auto simp: done_io_def andThen_eq_Inr)

lemma kinv_done_io_any:
  assumes "kinv w s" and "done_io w l d s = Inr t"
  shows "kinv w t"
proof -
  have dev: "get_dev_w_list w l d = Inr (l, d)"
    using assms(2) by (auto simp: done_io_def andThen_eq_Inr get_dev_w_list_eq)
  show ?thesis
  proof (cases "w_for_res s l d = None")
    case True
    then show ?thesis using done_io_message [OF dev True assms(2)] kinv_bus [OF assms(1)] by auto
  next
    case False
    then show ?thesis using kinv_done_io [OF assms(1) dev False] assms(2) by simp
  qed
qed

end
