(* ===== verification/System_Run.thy ===== *)
theory System_Run
  imports Kernel
begin

text \<open>
  Whole runs of the system: \<open>src/bikaya.c\<close> boots it, and then processes and exception handlers
  (\<open>src/core/exceptions/handler.c\<close>) take turns. \<open>exec\<close> is the step relation of the machine;
  every state of every run from a boot satisfies \<open>kinv\<close>.
\<close>

section \<open>Interrupts\<close>

lemma kinv_set_area [simp]: "kinv w s \<Longrightarrow> kinv w (set_area g t v s)"
  by (erule kinv_outside) (simp_all add: set_area_def)

lemma kinv_consume_line:
  "kinv w s \<Longrightarrow> consume_line w line k n bm s = Inr t \<Longrightarrow> kinv w t"
proof (induction k arbitrary: n bm s)
  case (Suc k)
  obtain u where u: "(if bm AND 1 \<noteq> 0
       then done_io w (unat (get_ext_dev_type w (word_of_nat line) 0)) n s else Inr s) = Inr u"
      "consume_line w line k (Suc n) (drop_bit 1 bm) u = Inr t"
    using Suc.prems(2) by (auto simp: andThen_eq_Inr)
  have "kinv w u" using u(1) kinv_done_io_any [OF Suc.prems(1)] Suc.prems(1) by (auto split: if_splits)
  then show ?case using u(2) by (rule Suc.IH)
qed simp

lemma kinv_on_bus_eq: "kinv w s \<Longrightarrow> on_bus f s = (v, t) \<Longrightarrow> kinv w t"
  using kinv_on_bus [of w s f] by simp

lemma kinv_consume_lines:
  "kinv w s \<Longrightarrow> consume_lines w ls s = Inr t \<Longrightarrow> kinv w t"
proof (induction ls arbitrary: s)
  case (Cons line ls)
  obtain pend s1 where s1: "on_bus (interrupt_pending w line) s = (pend, s1)" by fastforce
  note k1 = kinv_on_bus_eq [OF Cons.prems(1) s1]
  obtain bm s2 where s2: "on_bus (bus_read w (CDEV_BITMAP_ADDR w line)) s1 = (bm, s2)" by fastforce
  note k2 = kinv_on_bus_eq [OF k1 s2]
  obtain u where u: "(if pend \<noteq> 0 then consume_line w line (N_DEV_PER_IL w) 0 bm s2 else Inr s1) = Inr u"
      "consume_lines w ls u = Inr t"
    using Cons.prems(2) by (auto simp: s1 s2 andThen_eq_Inr split: if_splits)
  have "kinv w u" using u(1) k1 kinv_consume_line [OF k2] by (auto split: if_splits)
  then show ?case using u(2) by (rule Cons.IH)
qed simp

lemma kinv_consume_subdev:
  assumes "kinv w s" and "consume_subdev w ty n s = Inr t"
  shows "kinv w t"
proof -
  obtain st u where u: "on_bus (get_status w ty (DEV_REG_ADDR w (IL_TERMINAL w) n)) s = (st, u)" by fastforce
  show ?thesis
    using assms(2) kinv_on_bus_eq [OF assms(1) u] kinv_done_io_any
    by (auto simp: consume_subdev_def u split: if_splits)
qed

lemma kinv_consume_terminals:
  "kinv w s \<Longrightarrow> consume_terminals w k n bm s = Inr t \<Longrightarrow> kinv w t"
proof (induction k arbitrary: n bm s)
  case (Suc k)
  obtain u where u: "(if bm AND 1 \<noteq> 0
       then andThen (consume_subdev w TERM_RX n s) (consume_subdev w TERM_TX n) else Inr s) = Inr u"
      "consume_terminals w k (Suc n) (drop_bit 1 bm) u = Inr t"
    using Suc.prems(2) by (auto simp: andThen_eq_Inr)
  have "kinv w u"
    using u(1) Suc.prems(1)
    by (auto simp: andThen_eq_Inr split: if_splits dest: kinv_consume_subdev)
  then show ?case using u(2) by (rule Suc.IH)
qed simp

text \<open>The parts of \<open>consume_interrupts\<close>.\<close>

lemma consume_interruptsE:
  assumes "consume_interrupts w s = Inr t"
  obtains timer s1 u v pend s2 bm s3
  where "on_bus (interrupt_pending w 2) (set_area OLD INTR (adjust_pc w (area s OLD INTR)) s) = (timer, s1)"
    and "(if timer \<noteq> 0 then time_slice_callback s1 else Inr s1) = Inr u"
    and "consume_lines w [N_IL w - N_EXT_IL w..<IL_TERMINAL w] u = Inr v"
    and "on_bus (interrupt_pending w (IL_TERMINAL w)) v = (pend, s2)"
    and "on_bus (bus_read w (CDEV_BITMAP_ADDR w (IL_TERMINAL w))) s2 = (bm, s3)"
    and "(if pend \<noteq> 0 then consume_terminals w (N_DEV_PER_IL w) 0 bm s3 else Inr s2) = Inr t"
proof -
  obtain timer s1 where s1: "on_bus (interrupt_pending w 2) (set_area OLD INTR (adjust_pc w (area s OLD INTR)) s) = (timer, s1)"
    by fastforce
  obtain u v where u: "(if timer \<noteq> 0 then time_slice_callback s1 else Inr s1) = Inr u"
      "consume_lines w [N_IL w - N_EXT_IL w..<IL_TERMINAL w] u = Inr v" and
      v: "(case on_bus (interrupt_pending w (IL_TERMINAL w)) v of (pend, s) \<Rightarrow>
        if pend \<noteq> 0
        then (case on_bus (bus_read w (CDEV_BITMAP_ADDR w (IL_TERMINAL w))) s of (bitmap, s) \<Rightarrow>
                consume_terminals w (N_DEV_PER_IL w) 0 bitmap s)
        else Inr s) = Inr t"
    using assms by (auto simp: consume_interrupts_def s1 Let_def andThen_eq_Inr)
  obtain pend s2 where s2: "on_bus (interrupt_pending w (IL_TERMINAL w)) v = (pend, s2)" by fastforce
  obtain bm s3 where "on_bus (bus_read w (CDEV_BITMAP_ADDR w (IL_TERMINAL w))) s2 = (bm, s3)" by fastforce
  then show ?thesis using v by (intro that [OF s1 u s2]) (simp_all add: s2 split: if_splits)
qed

lemma prio_outside: "prio (s\<lparr>bus := b\<rparr>) = prio s"
  by (simp add: prio_def fun_eq_iff)

lemma kinv_consume_interrupts:
  assumes "kinv w s" and p: "\<And>p. prio s p < 2147483647" and t: "consume_interrupts w s = Inr t"
  shows "kinv w t"
proof -
  obtain timer s1 u v pend s2 bm s3
    where s1: "on_bus (interrupt_pending w 2) (set_area OLD INTR (adjust_pc w (area s OLD INTR)) s) = (timer, s1)"
      and u: "(if timer \<noteq> 0 then time_slice_callback s1 else Inr s1) = Inr u"
        "consume_lines w [N_IL w - N_EXT_IL w..<IL_TERMINAL w] u = Inr v"
      and s2: "on_bus (interrupt_pending w (IL_TERMINAL w)) v = (pend, s2)"
      and s3: "on_bus (bus_read w (CDEV_BITMAP_ADDR w (IL_TERMINAL w))) s2 = (bm, s3)"
      and terms: "(if pend \<noteq> 0 then consume_terminals w (N_DEV_PER_IL w) 0 bm s3 else Inr s2) = Inr t"
    using t by (rule consume_interruptsE)
  have k1: "kinv w s1" by (rule kinv_on_bus_eq [OF _ s1]) (simp add: assms(1))
  have p1: "prio s1 q < 2147483647" for q
    using s1 p by (auto simp: on_bus_def set_area_def prio_def split: prod.splits)
  have "kinv w u" using u(1) k1 kinv_time_slice [OF k1 p1] by (auto split: if_splits simp: ok_iff)
  then have "kinv w v" using u(2) by (rule kinv_consume_lines)
  note k2 = kinv_on_bus_eq [OF this s2]
  show ?thesis using terms k2 kinv_consume_terminals [OF kinv_on_bus_eq [OF k2 s3]] by (auto split: if_splits)
qed

section \<open>System calls\<close>

lemma kinv_store_user:
  assumes "kinv w s" and "store_user a v s = Inr t"
  shows "kinv w t"
proof -
  obtain u where "t = s\<lparr>user_word := u\<rparr>"
    using assms(2) by (auto simp: store_user_def int_at_def split: if_splits)
  then show ?thesis using kinv_outside [OF assms(1), of t] by simp
qed

lemma kinv_int_at:
  assumes "kinv w s"
  shows "verhogen (int_at a) s = Inr t \<Longrightarrow> kinv w t"
    and "running_proc s \<noteq> Some Idle_proc \<Longrightarrow> passeren v (int_at a) s = Inr t \<Longrightarrow> kinv w t"
proof -
  have null: "verhogen None s = Inl NullDeref" "passeren v None s = Inl NullDeref"
    by (simp_all add: verhogen_def passeren_def)
  show "verhogen (int_at a) s = Inr t \<Longrightarrow> kinv w t"
    using kinv_verhogen [OF assms, of a] null by (cases "a = 0") (simp_all add: int_at_def)
  show "running_proc s \<noteq> Some Idle_proc \<Longrightarrow> passeren v (int_at a) s = Inr t \<Longrightarrow> kinv w t"
    using kinv_passeren [OF assms, of v a] null by (cases "a = 0") (simp_all add: int_at_def)
qed

lemma kinv_getcputime:
  assumes "kinv w s" and "sys_getcputime w a1 a2 a3 p s = Inr t"
  shows "kinv w t"
proof -
  obtain n u where u: "read_TOD w s = (n, u)" by fastforce
  have "kinv w u" using kinv_read_TOD [OF assms(1), of w] u by simp
  then show ?thesis
    using assms(2) unfolding sys_getcputime_def u Let_def prod.case andThen_eq_Inr
    by (blast dest: kinv_store_user)
qed

lemma kinv_create_any:
  assumes "kinv w s" and "create_process ly st pri cpid s = Inr (r, t)"
  shows "kinv w t"
proof (cases "st = 0")
  case False
  from kinv_create [OF assms(1) this, of ly pri cpid] show ?thesis by (simp add: assms(2))
next
  case True
  obtain a where a: "repr s a" "sched_wf a" using assms(1) by (rule kinvE)
  show ?thesis
  proof (cases "free a = []")
    case True
    then show ?thesis using create_process_none [OF a(1)] assms by simp
  next
    case False
    have "create_process ly 0 pri cpid s = Inl (Panic '''')"
      by (rule create_process_null [OF a(1) _ False]) (use a(2) in \<open>simp add: sched_wf_def\<close>)
    then show ?thesis using \<open>st = 0\<close> assms(2) by simp
  qed
qed

lemma kinv_terminate_eq:
  assumes "expendable w s p" and "target = Some p \<or> target = None \<and> running_proc s = Some p"
    and "terminate_proc target s = Inr (r, t)"
  shows "kinv w t"
  using kinv_terminate [OF assms(1,2)] assms(3) by simp

lemma expendable_kinv: "expendable w s p \<Longrightarrow> kinv w s"
  by (auto simp: expendable_def kinv_def)

lemma kinv_set_spec:
  assumes "kinv w s" and "set_spec_area p i v s = Inr t"
  shows "kinv w t"
  using assms(2) kinv_upd_pcb [OF assms(1)] by (auto simp: set_spec_area_def Let_def split: if_splits)

lemma kinv_specpassup:
  assumes inv: "kinv w s" and kill: "\<And>r. running_proc s = Some r \<Longrightarrow> expendable w s r"
    and t: "sys_specpassup a1 a2 a3 s = Inr t"
  shows "kinv w t"
proof -
  obtain r where r: "running_proc s = Some r" using inv by (auto simp: kinv_def repr_def)
  consider (kill) x where "terminate_proc (Some r) s = Inr (x, t)"
    | (set) i j u where "set_spec_area r i a2 s = Inr u" "set_spec_area r j a3 u = Inr t"
    using t r by (auto simp: sys_specpassup_def Let_def andThen_eq_Inr split: if_splits prod.splits)
  then show ?thesis
  proof cases
    case kill
    then show ?thesis using kinv_terminate_eq [OF assms(2) [OF r], of "Some r"] by simp
  next
    case set
    then show ?thesis using kinv_set_spec [OF kinv_set_spec [OF inv]] by blast
  qed
qed

text \<open>
  What the invariant needs of the process that makes a system call: it is a process, not the idle
  one; a process that is killed and its offspring are not served by a device; and who waits for a
  busy device does not pass the process that the device serves. A process with an unhandled fault is
  killed unless it has declared areas for it (\<open>fault_guard\<close>).
\<close>

definition call_target :: "layout \<Rightarrow> u32 \<Rightarrow> 'a kern_scheme \<Rightarrow> pcb option" where
  "call_target ly a s =
     (case pcb_ptr ly a of Inr (Some p) \<Rightarrow> Some p | Inr None \<Rightarrow> running_proc s | Inl _ \<Rightarrow> None)"

definition fault_guard :: "board \<Rightarrow> exc_type \<Rightarrow> machine \<Rightarrow> bool" where
  "fault_guard w ty s \<longleftrightarrow>
     (\<forall>r. running_proc s = Some r \<longrightarrow> is_passup_set ty r s = Inr True \<or> expendable w s r)"

definition call_guard :: "board \<Rightarrow> layout \<Rightarrow> machine \<Rightarrow> bool" where
  "call_guard w ly s \<longleftrightarrow>
     (let st = area s OLD SYS; n = SYSCALL_N st in
      running_proc s \<noteq> Some Idle_proc \<and>
      (n = TERMINATEPROCESS \<longrightarrow>
         (\<forall>p. call_target ly (SYSCALL_ARG1 st) s = Some p \<longrightarrow> expendable w s p)) \<and>
      (n = SPECPASSUP \<longrightarrow> (\<forall>r. running_proc s = Some r \<longrightarrow> expendable w s r)) \<and>
      (n > SYSTEM_SYSCALL_MAX \<longrightarrow> fault_guard w SYS s) \<and>
      (n = WAITIO \<longrightarrow>
         (\<forall>l d p r. io_device w (SYSCALL_ARG2 st) (SYSCALL_ARG3 st) = Inr (l, d) \<longrightarrow>
            w_for_res s l d = Some p \<longrightarrow> running_proc s = Some r \<longrightarrow> prio s r \<le> prio s p)))"

text \<open>The service that \<open>consume_syscall\<close> chooses.\<close>

lemma consume_syscallE:
  assumes "consume_syscall w ly p s = Inr t"
  defines "st \<equiv> area s OLD SYS"
  obtains (time) "SYSCALL_N st = GETCPUTIME"
      "sys_getcputime w (SYSCALL_ARG1 st) (SYSCALL_ARG2 st) (SYSCALL_ARG3 st) p s = Inr t"
    | (create) x u where "SYSCALL_N st = CREATEPROCESS"
      "create_process ly (SYSCALL_ARG1 st) (SYSCALL_ARG2 st) (SYSCALL_ARG3 st) s = Inr (x, u)" "return_value (x, u) = Inr t"
    | (kill) tg x u where "SYSCALL_N st = TERMINATEPROCESS" "pcb_ptr ly (SYSCALL_ARG1 st) = Inr tg"
      "terminate_proc tg s = Inr (x, u)" "return_value (x, u) = Inr t"
    | (v) "SYSCALL_N st = VERHOGEN" "verhogen (int_at (SYSCALL_ARG1 st)) s = Inr t"
    | (p) "SYSCALL_N st = PASSEREN" "passeren w (int_at (SYSCALL_ARG1 st)) s = Inr t"
    | (io) "SYSCALL_N st = WAITIO" "wait_io w (SYSCALL_ARG1 st) (SYSCALL_ARG2 st) (SYSCALL_ARG3 st) s = Inr t"
    | (spec) "SYSCALL_N st = SPECPASSUP" "sys_specpassup (SYSCALL_ARG1 st) (SYSCALL_ARG2 st) (SYSCALL_ARG3 st) s = Inr t"
    | (pid) "SYSCALL_N st = GETPID" "sys_getpid ly (SYSCALL_ARG1 st) (SYSCALL_ARG2 st) s = Inr t"
proof -
  consider "SYSCALL_N st = GETCPUTIME" | "SYSCALL_N st = CREATEPROCESS" | "SYSCALL_N st = TERMINATEPROCESS"
    | "SYSCALL_N st = VERHOGEN" | "SYSCALL_N st = PASSEREN" | "SYSCALL_N st = WAITIO" | "SYSCALL_N st = SPECPASSUP"
    | "SYSCALL_N st = GETPID"
    using assms(1) by (auto simp: consume_syscall_def Let_def st_def split: if_splits)
  then show ?thesis
    by cases (use assms(1) that in \<open>auto simp: consume_syscall_def Let_def st_def [symmetric] andThen_eq_Inr syscall_numbers\<close>)
qed

lemma kinv_syscall:
  assumes inv: "kinv w s" and guard: "call_guard w ly s"
    and t: "consume_syscall w ly p s = Inr t"
  shows "kinv w t"
proof -
  have run: "running_proc s \<noteq> Some Idle_proc" using guard by (simp add: call_guard_def Let_def)
  obtain r where r: "running_proc s = Some r" using inv by (auto simp: kinv_def repr_def)
  have ret: "return_value (x, u) = Inr t \<Longrightarrow> kinv w u \<Longrightarrow> kinv w t" for x u
    by (auto simp: return_value_def)
  show ?thesis
    using t
  proof (cases rule: consume_syscallE)
    case time
    from time(2) show ?thesis by (rule kinv_getcputime [OF inv])
  next
    case (create x u)
    show ?thesis by (rule ret [OF create(3) kinv_create_any [OF inv create(2)]])
  next
    case (kill tg x u)
    have "expendable w s (case tg of None \<Rightarrow> r | Some p \<Rightarrow> p)"
      using guard kill(1,2) r by (auto simp: call_guard_def Let_def call_target_def split: option.splits)
    then have "kinv w u"
      by (rule kinv_terminate_eq [OF _ _ kill(3)]) (use r in \<open>simp split: option.split\<close>)
    then show ?thesis by (rule ret [OF kill(4)])
  next
    case v
    from v(2) show ?thesis by (rule kinv_int_at(1) [OF inv])
  next
    case p
    from run p(2) show ?thesis by (rule kinv_int_at(2) [OF inv])
  next
    case io
    then obtain l d where dev: "io_device w (SYSCALL_ARG2 (area s OLD SYS)) (SYSCALL_ARG3 (area s OLD SYS)) = Inr (l, d)"
      by (auto simp: wait_io_def io_device_def Let_def andThen_eq_Inr)
    have "ok (wait_io w (SYSCALL_ARG1 (area s OLD SYS)) (SYSCALL_ARG2 (area s OLD SYS)) (SYSCALL_ARG3 (area s OLD SYS)) s) (kinv w)"
      by (rule kinv_wait_io [OF inv r _ dev])
        (use guard io(1) dev r run in \<open>auto simp: call_guard_def Let_def\<close>)
    then show ?thesis by (simp add: io(2))
  next
    case spec
    have "expendable w s q" if "running_proc s = Some q" for q
      using guard spec(1) that by (auto simp: call_guard_def Let_def)
    then show ?thesis using spec(2) by (rule kinv_specpassup [OF inv])
  next
    case pid
    from pid(2) show ?thesis
      using inv by (auto simp: sys_getpid_def andThen_eq_Inr split: if_splits dest: kinv_store_user)
  qed
qed

section \<open>Handlers\<close>

lemma kinv_cached [simp]:
  fixes s :: machine
  assumes "kinv w s"
  shows "kinv w (s\<lparr>int_timer_cache := v\<rparr>)" "kinv w (s\<lparr>interrupted_proc := p\<rparr>)"
  using assms by (auto elim: kinv_outside)

lemma kinv_start:
  assumes "kinv w s" and "start_handler v s = Inr t"
  shows "kinv w t" "interrupted_proc t = running_proc t"
proof -
  obtain n u where u: "on_bus (get_INTERVAL_TIMER v) s = (n, u)" by fastforce
  note k = kinv_on_bus_eq [OF assms(1) u]
  define u1 where "u1 = (if n > clock_ticks_per_time_slice u
     then u\<lparr>int_timer_cache := clock_ticks_per_time_slice u\<rparr> else u\<lparr>int_timer_cache := n\<rparr>)"
  have k1: "kinv w u1" using k by (auto simp: u1_def)
  obtain p where p: "t = flush_user_time v p (u1\<lparr>interrupted_proc := running_proc u1\<rparr>)"
    using assms(2)
    by (auto simp: start_handler_def u Let_def u1_def andThen_eq_Inr split: if_splits)
  show "kinv w t" unfolding p by (rule kinv_flush(1)) (simp add: k1)
  show "interrupted_proc t = running_proc t"
    by (simp add: p flush_user_time_def read_TOD_def Let_def upd_pcb_def split: prod.split)
qed

lemma kinv_conclude:
  assumes "kinv w s" and "conclude_handler v ty s = Inr (st, t)"
  shows "kinv w t"
proof -
  obtain r where r: "running_proc s = Some r" using assms(1) by (auto simp: kinv_def repr_def)
  define u where "u = reset_int_timer v (flush_reset_time v r s)"
  have ku: "kinv w u" unfolding u_def by (rule kinv_reset_timer [OF kinv_flush(3) [OF assms(1)]])
  have "kinv w (upd_pcb q (\<lambda>c. c\<lparr>p_s := x\<rparr>) u)" for q x by (rule kinv_upd_pcb [OF ku]) simp_all
  moreover have "kinv w (flush_kernel_time v r (s\<lparr>bus := b\<rparr>))" for b
    by (rule kinv_flush(2) [OF kinv_bus [OF assms(1)]])
  ultimately show ?thesis
    using assms(2) ku
    by (auto simp: conclude_handler_def r Let_def u_def [symmetric] andThen_eq_Inr split: if_splits)
qed

lemma kinv_launch_spec:
  assumes "kinv w s" and "launch_spec_area ty st s = Inr (x, t)"
  shows "kinv w t"
proof -
  have "\<exists>f. t = s\<lparr>user_state := f\<rparr>"
    using assms(2) by (auto simp: launch_spec_area_def Let_def andThen_eq_Inr split: option.splits)
  then show ?thesis using kinv_outside [OF assms(1), of t] by auto
qed

lemma kinv_handle_interrupt:
  assumes "kinv w s" and s1: "start_handler w s = Inr s1" and p: "\<And>p. prio s1 p < 2147483647"
    and t: "handle_interrupt w s = Inr (st, t)"
  shows "kinv w t"
proof -
  obtain u where u: "consume_interrupts w s1 = Inr u" "conclude_handler w INTR u = Inr (st, t)"
    using t s1 by (auto simp: handle_interrupt_def andThen_eq_Inr)
  have "kinv w u" by (rule kinv_consume_interrupts [OF kinv_start(1) [OF assms(1) s1] p u(1)])
  then show ?thesis using u(2) by (rule kinv_conclude)
qed

text \<open>How a handler can end.\<close>

lemma handle_passupE:
  assumes "handle_passup w ty s = Inr (st, t)" and "start_handler w s = Inr s1" and "running_proc s1 = Some r"
  obtains (up) "is_passup_set ty r s1 = Inr True" "launch_spec_area ty (area s1 OLD ty) s1 = Inr (st, t)"
    | (kill) x u where "is_passup_set ty r s1 = Inr False"
        "terminate_proc (Some r) s1 = Inr (x, u)" "conclude_handler w ty u = Inr (st, t)"
  using assms by (auto simp: handle_passup_def andThen_eq_Inr split: if_splits)

lemma handle_sysbreakE:
  assumes "handle_sysbreak w ly s = Inr (st, t)" and "start_handler w s = Inr s1" and "interrupted_proc s1 = Some r"
    and s2: "s2 = set_area OLD SYS (skip_instr w (area s1 OLD SYS)) s1"
  defines "st2 \<equiv> area s2 OLD SYS"
  obtains (up) "get_exccode (hw.truncate w) st2 = E_SYS" "SYSCALL_N st2 > SYSTEM_SYSCALL_MAX" "is_passup_set SYS r s2 = Inr True"
      "launch_spec_area SYS st2 (flush_kernel_time w r s2) = Inr (st, t)"
    | (kill) x u where "get_exccode (hw.truncate w) st2 = E_SYS" "SYSCALL_N st2 > SYSTEM_SYSCALL_MAX"
        "is_passup_set SYS r s2 = Inr False" "terminate_proc (Some r) s2 = Inr (x, u)" "conclude_handler w SYS u = Inr (st, t)"
    | (call) u where "get_exccode (hw.truncate w) st2 = E_SYS" "SYSCALL_N st2 \<le> SYSTEM_SYSCALL_MAX"
        "consume_syscall w ly r s2 = Inr u" "conclude_handler w SYS u = Inr (st, t)"
    | (break) "get_exccode (hw.truncate w) st2 = E_BP" "is_passup_set SYS r s2 = Inr True" "launch_spec_area SYS st2 s2 = Inr (st, t)"
proof -
  have ip: "interrupted_proc s2 = Some r" using assms(3) by (simp add: s2 set_area_def)
  show ?thesis
    using assms(1,2) ip that
    by (auto simp: handle_sysbreak_def Let_def s2 [symmetric] st2_def [symmetric] andThen_eq_Inr not_less split: if_splits)
qed

lemma kinv_handle_passup:
  assumes "kinv w s" and s1: "start_handler w s = Inr s1"
    and kill: "fault_guard w ty s1"
    and t: "handle_passup w ty s = Inr (st, t)"
  shows "kinv w t"
proof -
  note k1 = kinv_start(1) [OF assms(1) s1]
  obtain r where r: "running_proc s1 = Some r" using k1 by (auto simp: kinv_def repr_def)
  show ?thesis
    using t s1 r
  proof (cases rule: handle_passupE)
    case up
    from up(2) show ?thesis by (rule kinv_launch_spec [OF k1])
  next
    case (kill x u)
    have "expendable w s1 r" using assms(3) r kill(1) by (simp add: fault_guard_def)
    then have "kinv w u" by (rule kinv_terminate_eq [OF _ _ kill(2)]) simp
    then show ?thesis using kill(3) by (rule kinv_conclude)
  qed
qed

lemma skip_instr_same [simp]:
  "SYSCALL_N (skip_instr w st) = SYSCALL_N st" "SYSCALL_ARG1 (skip_instr w st) = SYSCALL_ARG1 st"
  "SYSCALL_ARG2 (skip_instr w st) = SYSCALL_ARG2 st" "SYSCALL_ARG3 (skip_instr w st) = SYSCALL_ARG3 st"
  by (cases st; simp)+

lemma repr_same:
  fixes s t :: "'a kern_scheme"
  assumes "lh_next t = lh_next s" "lh_prev t = lh_prev s" "s_key t = s_key s" "pcbs t = pcbs s"
    "running_proc t = running_proc s"
  shows "repr t a \<longleftrightarrow> repr s a"
proof
  assume "repr t a"
  then show "repr s a"
    using repr_cong [of t a s "running a"] assms by (simp add: repr_running)
next
  assume "repr s a"
  then show "repr t a"
    using repr_cong [of s a t "running a"] assms by (simp add: repr_running)
qed

lemma expendable_area [simp]: "expendable w (set_area g t v s) p = expendable w s p"
proof -
  have "repr (set_area g t v s) a = repr s a" for a
    by (rule repr_same) (simp_all add: set_area_def)
  moreover have "dev_inv w (set_area g t v s) a = dev_inv w s a" for a
    by (simp add: dev_inv_def set_area_def)
  ultimately show ?thesis by (simp add: expendable_def)
qed

lemma get_exccode_skip [simp]: "get_exccode h (skip_instr w st) = get_exccode h st"
  by (cases st) (simp_all add: mps_get_exccode_def)

lemma call_guard_skip:
  "call_guard w ly (set_area OLD SYS (skip_instr w (area s OLD SYS)) s) = call_guard w ly s"
proof -
  let ?t = "set_area OLD SYS (skip_instr w (area s OLD SYS)) s"
  have "area ?t OLD SYS = skip_instr w (area s OLD SYS)" "running_proc ?t = running_proc s"
      "w_for_res ?t = w_for_res s" "prio ?t = prio s"
    by (simp_all add: set_area_def prio_def fun_eq_iff)
  moreover have "call_target ly x ?t = call_target ly x s" for x
    by (auto simp: call_target_def set_area_def split: sum.split option.split)
  moreover have "is_passup_set ty r ?t = is_passup_set ty r s" for ty r
    by (simp add: is_passup_set_def get_spec_area_def set_area_def)
  ultimately show ?thesis by (simp add: call_guard_def fault_guard_def Let_def)
qed

lemma kinv_handle_sysbreak:
  assumes "kinv w s" and s1: "start_handler w s = Inr s1" and guard: "call_guard w ly s1"
    and t: "handle_sysbreak w ly s = Inr (st, t)"
  shows "kinv w t"
proof -
  note k1 = kinv_start [OF assms(1) s1]
  let ?s2 = "set_area OLD SYS (skip_instr w (area s1 OLD SYS)) s1"
  have k2: "kinv w ?s2" using k1(1) by simp
  have g2: "call_guard w ly ?s2" using guard by (simp add: call_guard_skip)
  obtain r where r: "running_proc s1 = Some r" using k1(1) by (auto simp: kinv_def repr_def)
  then have ip: "interrupted_proc s1 = Some r" and run: "running_proc ?s2 = Some r" using k1(2) by (simp_all add: set_area_def)
  show ?thesis
    using t s1 ip refl
  proof (cases rule: handle_sysbreakE)
    case up
    from kinv_flush(2) [OF k2] up(4) show ?thesis by (rule kinv_launch_spec)
  next
    case (kill x u)
    have "expendable w ?s2 r" using g2 kill(2,3) run by (simp add: call_guard_def fault_guard_def Let_def)
    then have "kinv w u" by (rule kinv_terminate_eq [OF _ _ kill(4)]) simp
    then show ?thesis using kill(5) by (rule kinv_conclude)
  next
    case (call u)
    have "kinv w u" by (rule kinv_syscall [OF k2 g2 call(3)])
    then show ?thesis using call(4) by (rule kinv_conclude)
  next
    case break
    from k2 break(3) show ?thesis by (rule kinv_launch_spec)
  qed
qed

section \<open>Runs\<close>

text \<open>
  A transition system with an invariant: what holds initially and is kept by every step holds in
  every state of every run.
\<close>

locale invariant_system =
  fixes initial :: "'s \<Rightarrow> bool" and step :: "'s \<Rightarrow> 's \<Rightarrow> bool" and inv :: "'s \<Rightarrow> bool"
  assumes inv_initial: "initial s \<Longrightarrow> inv s"
    and inv_step: "inv s \<Longrightarrow> step s t \<Longrightarrow> inv t"
begin

lemma inv_steps: "step\<^sup>*\<^sup>* s t \<Longrightarrow> inv s \<Longrightarrow> inv t"
  by (induction rule: rtranclp_induct) (auto intro: inv_step)

lemma inv_reachable: "initial s \<Longrightarrow> step\<^sup>*\<^sup>* s t \<Longrightarrow> inv t"
  using inv_initial inv_steps by blast

end

text \<open>
  A step of the machine. \<open>User\<close>: processes run; they change their own memory and the
  processor stores its state in an old area, but the kernel's tables stay as they are. The others:
  the processor enters the handler of an exception and the handler ends by loading a state.
\<close>

inductive exec :: "board \<Rightarrow> layout \<Rightarrow> machine \<Rightarrow> machine \<Rightarrow> bool" for w ly where
  User: "exec w ly s (s\<lparr>user_word := f, user_state := g, area := h\<rparr>)"
| Interrupt: "start_handler w s = Inr s1 \<Longrightarrow> (\<And>p. prio s1 p < 2147483647) \<Longrightarrow>
    handle_interrupt w s = Inr (st, t) \<Longrightarrow> exec w ly s t"
| Syscall: "start_handler w s = Inr s1 \<Longrightarrow> call_guard w ly s1 \<Longrightarrow>
    handle_sysbreak w ly s = Inr (st, t) \<Longrightarrow> exec w ly s t"
| TLB_miss: "start_handler w s = Inr s1 \<Longrightarrow> fault_guard w TLB s1 \<Longrightarrow>
    handle_TLB w s = Inr (st, t) \<Longrightarrow> exec w ly s t"
| Trap: "start_handler w s = Inr s1 \<Longrightarrow> fault_guard w PRG s1 \<Longrightarrow>
    handle_trap w s = Inr (st, t) \<Longrightarrow> exec w ly s t"

inductive_cases execE: "exec w ly s t"

lemma kinv_exec:
  assumes "kinv w s" and "exec w ly s t"
  shows "kinv w t"
  using assms(2)
proof (cases rule: exec.cases)
  case (User f g h)
  then show ?thesis using kinv_outside [OF assms(1), of t] by simp
next
  case (Interrupt s1 st)
  then show ?thesis using kinv_handle_interrupt [OF assms(1)] by blast
next
  case (Syscall s1 st)
  then show ?thesis using kinv_handle_sysbreak [OF assms(1)] by blast
next
  case (TLB_miss s1 st)
  then show ?thesis using kinv_handle_passup [OF assms(1)] by (simp add: handle_TLB_def)
next
  case (Trap s1 st)
  then show ?thesis using kinv_handle_passup [OF assms(1)] by (simp add: handle_trap_def)
qed

section \<open>Boot\<close>

lemma initialize_new_areas_eq: "\<exists>f. initialize_new_areas w h s = s\<lparr>area := f\<rparr>"
  by (rule exI [of _ "area (initialize_new_areas w h s)"])
    (simp add: initialize_new_areas_def set_area_def Let_def)

lemma a_init_ready:
  assumes "boot s" and "length ds \<le> MAXPROC" and "ds \<noteq> []"
  shows "\<exists>p q. ready (a_init w ly ds (pcbs s)) = p # q"
proof -
  have "set (ready (a_starts w ds (a_boot (pcbs s)))) = set (take (length ds) (map Pcb [0..<MAXPROC]))"
    using a_starts_facts [OF core_boot [OF assms(1)], of ds w] assms(2) by (simp add: a_boot_def)
  moreover have "set (take (length ds) (map Pcb [0..<MAXPROC])) \<noteq> {}"
    using assms(3) by (simp add: MAXPROC_def)
  ultimately have "ready (a_init w ly ds (pcbs s)) \<noteq> []" by (auto simp: a_init_def a_idle_def)
  then show ?thesis by (cases "ready (a_init w ly ds (pcbs s))") auto
qed

lemma a_init_wait: "boot s \<Longrightarrow> length ds \<le> MAXPROC \<Longrightarrow> wait (a_init w ly ds (pcbs s)) = (\<lambda>_. [])"
  using a_starts_facts [OF core_boot, of s ds w] by (simp add: a_init_def a_idle_def a_boot_def)

lemma dev_inv_init:
  assumes "wait a = (\<lambda>_. [])" and "w_for_cmd_sem t = w_for_cmd_sem (init_dev_w_lists w s)"
    and "w_for_res t = w_for_res (init_dev_w_lists w s)"
  shows "dev_inv w t a"
  using assms by (auto simp: dev_inv_def dev_served_def init_dev_w_lists_def EXTRA_DEV_NUM_def)

text \<open>The abstract scheduler when \<open>bikaya_launch\<close> loads the state of the first process.\<close>

definition a_booted :: "board \<Rightarrow> layout \<Rightarrow> proc_init_data list \<Rightarrow> 'a kern_scheme \<Rightarrow> sched" where
  "a_booted w ly ds s =
     a_launch (env w (BUS_REG_TOD_LO w) (now (bus s))) (env w (BUS_REG_TOD_LO w) (Suc (now (bus s))))
       (a_init w ly ds (pcbs s))"

lemma boot_refines:
  fixes s :: machine
  assumes boot: "boot s" and len: "length ds \<le> MAXPROC" and ne: "ds \<noteq> []"
  shows "ok (bikaya_launch w ly h ds ts s) (\<lambda>(st, t).
    repr t (a_booted w ly ds s) \<and> sched_wf (a_booted w ly ds s) \<and> dev_inv w t (a_booted w ly ds s) \<and>
    st = p_s (tcb (a_init w ly ds (pcbs s)) (hd (ready (a_init w ly ds (pcbs s))))) \<and>
    user_word t = user_word s \<and> user_state t = user_state s \<and> terminals (bus t) = terminals (bus s))"
proof -
  obtain f where f: "initialize_new_areas w h s = s\<lparr>area := f\<rparr>" using initialize_new_areas_eq by blast
  let ?s = "s\<lparr>area := f\<rparr>"
  let ?a = "a_init w ly ds (pcbs s)"
  have b: "boot ?s" using boot by (simp add: boot_def)
  obtain p q where q: "ready ?a = p # q" using a_init_ready [OF boot len ne] by blast
  obtain t where t: "init_scheduler w ly ds ts ?s = Inr t" "tables t ?a"
      "rest_same (init_dev_w_lists w (?s\<lparr>clock_ticks_per_time_slice := TIME_SCALE w * ts\<rparr>)) t"
    using init_refines [OF b len, of w ly ts] by (auto simp: ok_iff)
  have bus: "bus t = bus s" "user_word t = user_word s" "user_state t = user_state s"
    using t(3) by (simp_all add: rest_same_def init_dev_w_lists_def)
  have wf: "sched_wf (a_booted w ly ds s)"
    unfolding a_booted_def by (rule sched_wf_launch [OF core_init [OF boot len] q])
  have "dev_inv w u (a_booted w ly ds s)"
    if "w_for_cmd_sem u = w_for_cmd_sem t" "w_for_res u = w_for_res t" for u :: machine
    unfolding a_booted_def
    by (rule dev_inv_init) (use that t(3) a_init_wait [OF boot len, of w ly] q
        in \<open>simp_all add: a_launch_def rest_same_def\<close>)
  then show ?thesis
    using launch_refines [OF t(2) q, of w, unfolded bus, folded a_booted_def] wf q
    by (auto simp: bikaya_launch_def f t(1) ok_case_prod elim!: ok_mono)
qed

lemma kinv_boot:
  fixes s :: machine
  assumes "boot s" and "length ds \<le> MAXPROC" and "ds \<noteq> []"
  shows "ok (bikaya_launch w ly h ds ts s) (\<lambda>(st, t). kinv w t)"
  using boot_refines [OF assms] by (rule ok_mono) (auto intro: kinvI)

definition booted :: "board \<Rightarrow> layout \<Rightarrow> machine \<Rightarrow> bool" where
  "booted w ly t \<longleftrightarrow>
     (\<exists>h ds ts s st. boot s \<and> ds \<noteq> [] \<and> length ds \<le> MAXPROC \<and>
        bikaya_launch w ly h ds ts s = Inr (st, t))"

interpretation kernel: invariant_system "booted w ly" "exec w ly" "kinv w" for w ly
proof unfold_locales
  fix s assume "booted w ly s"
  then obtain h ds ts s0 st where "boot s0" "ds \<noteq> []" "length ds \<le> MAXPROC"
      and eq: "bikaya_launch w ly h ds ts s0 = Inr (st, s)"
    by (auto simp: booted_def)
  then show "kinv w s" using kinv_boot [of s0 ds w ly h ts] by simp
next
  show "kinv w s \<Longrightarrow> exec w ly s t \<Longrightarrow> kinv w t" for s t
    by (rule kinv_exec)
qed

end
