(* ===== verification/Example_System.thy ===== *)
theory Example_System
  imports System_Run
begin

text \<open>
  A concrete machine: the constants that the emulator's headers document for uMPS, a memory
  layout, a hardware whose devices are ready and whose terminal of the messages goes through the documented
  cycle, and the state after a boot with two processes.
  The theorems of the development are applied to it, which shows that their hypotheses can hold.
\<close>

section \<open>The board\<close>

text \<open>
  The transmitter of the terminal of the messages goes through the documented cycle at the accesses
  of the driver: ready, the command, busy twice, the transmission, the acknowledgement.
\<close>

definition tx_cycle :: "nat \<Rightarrow> u32" where
  "tx_cycle n = [1, 1, 3, 3, 5, 5] ! (n mod 6)"

lemma tx_cycle_simps [simp]:
  "tx_cycle 0 = 1" "tx_cycle 2 = 3" "tx_cycle 3 = 3" "tx_cycle 4 = 5" "tx_cycle (k + 6) = tx_cycle k" "tx_cycle (6 * k) = 1"
  by (simp_all add: tx_cycle_def)

lemma tx_cycle_status: "tx_cycle k AND DEV_STATUS_MASK = tx_cycle k"
proof -
  have "k mod 6 < 6" by simp
  then have "k mod 6 = 0 \<or> k mod 6 = 1 \<or> k mod 6 = 2 \<or> k mod 6 = 3 \<or> k mod 6 = 4 \<or> k mod 6 = 5" by linarith
  then show ?thesis by (elim disjE) (simp_all add: tx_cycle_def DEV_STATUS_MASK_def)
qed

lemma tx_cycle_accepts:
  assumes "\<And>k. tx_stat w reg (n + k) = tx_cycle k"
  shows "accepts w reg n"
  using assms
proof (coinduction arbitrary: n)
  case (accepts n)
  then have st: "tx_stat w reg (n + k) = tx_cycle k" for k by blast
  have "tx_stat w reg (n + 2 + j) = DEVICE_ST_BUSY" if "j < 2" for j
  proof -
    have "j = 0 \<or> j = 1" using that by auto
    moreover have "tx_stat w reg (n + 2) = 3" "tx_stat w reg (n + 3) = 3"
      using st [of 2] st [of 3] by (simp_all only: tx_cycle_simps)
    ultimately show ?thesis by (elim disjE) (simp_all add: DEVICE_ST_BUSY_def numeral_3_eq_3)
  qed
  moreover have "tx_stat w reg (n + 4 + 2 + k) = tx_cycle k" for k
    using st [of "k + 6"] by (simp add: ac_simps)
  ultimately show ?case
    using st [of 0] st [of 4, unfolded tx_cycle_simps]
    by - (rule exI [of _ n], rule exI [of _ 2], simp add: tx_idle_def DEVICE_ST_READY_def TERM_TX_ST_SPECIFIC_def eval_nat_numeral)
qed

lemma tx_cycle_answers:
  assumes "\<And>k. tx_stat w reg (n + k) = tx_cycle k"
  shows "answers w reg"
  unfolding answers_def
proof
  fix m
  have "tx_stat w reg (n + 6 * m) \<noteq> DEVICE_ST_BUSY" using assms [of "6 * m"] by (simp add: DEVICE_ST_BUSY_def)
  then show "\<exists>k\<ge>m. tx_stat w reg k \<noteq> DEVICE_ST_BUSY" by (intro exI [of _ "n + 6 * m"]) simp
qed

definition example_board :: board where
  "example_board =
     \<lparr>CP15_ENABLE_VM = (\<lambda>x. x OR 1), CP15_DISABLE_VM = (\<lambda>x. x AND NOT 1),
      STATUS_CLEAR_MODE = 0xFFFFFFE0, STATUS_SYS_MODE = 0x1F, STATUS_USER_MODE = 0x10,
      STATUS_ENABLE_INT = (\<lambda>x. x AND NOT 0x80), STATUS_DISABLE_INT = (\<lambda>x. x OR 0x80),
      STATUS_ENABLE_TIMER = (\<lambda>x. x AND NOT 0x40), STATUS_DISABLE_TIMER = (\<lambda>x. x OR 0x40),
      CAUSE_IP_GET = (\<lambda>c l. drop_bit (24 + l) c AND 1), CAUSE_EXCCODE_GET = (\<lambda>c. c AND 0xFFFFFF),
      EXC_BREAKPOINT = 9, EXC_SYSCALL = 8,
      STATUS_KUc = 2, STATUS_KUp = 8, STATUS_IEp = 4, STATUS_VMp = 0x2000000,
      STATUS_VMc = 0x1000000, STATUS_VMc_BIT = 24, STATUS_IEc_BIT = 0, STATUS_IM_MASK = 0xFF00,
      STATUS_IM = (\<lambda>l. push_bit (8 + l) 1), CAUSE_IP = (\<lambda>l. push_bit (8 + l) 1),
      CAUSE_IP_BIT = (\<lambda>l. 8 + l), CAUSE_GET_EXCCODE = (\<lambda>c. drop_bit 2 c AND 31),
      EXC_BP = 9, EXC_SYS = 8,
      WORD_SIZE = 4, RAM_TOP = 0x20100000, FRAME_SIZE = 4096, TIME_SCALE = 1,
      IL_TIMER = 2, IL_TERMINAL = 7, N_IL = 8, N_EXT_IL = 5, N_DEV_PER_IL = 8,
      board_target = TARGET_UMPS,
      env = (\<lambda>a n. if a = 0x1000001C then word_of_nat n
                   else if a = 0x10000268 then tx_cycle n
                   else if 0x100001D0 \<le> a \<and> a < 0x10000250 then 1 else 5),
      cause_env = (\<lambda>_. 0),
      BUS_REG_TOD_LO = 0x1000001C, BUS_REG_TIMER = 0x10000020,
      DEV_REG_START = 0x10000050, DEV_REG_SIZE = 16,
      DEV_REG_ADDR = (\<lambda>l d. 0x10000050 + word_of_nat (l - 3) * 0x80 + word_of_nat d * 0x10),
      CDEV_BITMAP_ADDR = (\<lambda>l. 0x1000003C + word_of_nat (l - 3) * 4),
      N_INTERRUPT_LINES = 8, IL_PRINTER = 6\<rparr>"

definition example_addr :: "pcb \<Rightarrow> u32" where
  "example_addr p = (case p of Pcb i \<Rightarrow> 0x20001000 + word_of_nat i * 256 | Idle_proc \<Rightarrow> 0x20000800)"

definition example_layout :: layout where
  "example_layout =
     \<lparr>pcb_addr = example_addr,
      pcb_at = (\<lambda>a. List.find (\<lambda>p. example_addr p = a) (map Pcb [0..<MAXPROC])),
      idle_entry = 0x20000100\<rparr>"

section \<open>Memory before the boot, and the boot\<close>

definition zero_pcb :: pcb_t where
  "zero_pcb =
     \<lparr>p_parent = None, p_s = zero_state TARGET_UMPS, priority = 0, original_priority = 0,
      p_semkey = None, dev_w_list = None, kernel_timer = 0, user_timer = 0, tod_cache = 0,
      tod_at_start = 0, spec_areas = (\<lambda>_. None)\<rparr>"

definition example_boot :: machine where
  "example_boot =
     \<lparr>lh_next = (\<lambda>_. None), lh_prev = (\<lambda>_. None), pcbs = (\<lambda>_. zero_pcb), s_key = (\<lambda>_. None),
      running_proc = None, clock_ticks_per_time_slice = 0, w_for_cmd_sem = (\<lambda>_ _. 0),
      w_for_res = (\<lambda>_ _. None), user_word = (\<lambda>_. 0), user_state = (\<lambda>_. zero_state TARGET_UMPS),
      bus = \<lparr>now = 0, bus_log = [], terminals = (\<lambda>_. None), printers = (\<lambda>_. None)\<rparr>,
      area = (\<lambda>_ _. zero_state TARGET_UMPS), interrupted_proc = None, int_timer_cache = 0\<rparr>"

definition example_proc :: "u32 \<Rightarrow> c_int \<Rightarrow> proc_init_data" where
  "example_proc entry pri =
     \<lparr>method_ptr = entry, init_priority = pri, vm_on = 0, km_on = 1, timer_int_on = 1, other_ints_on = 1\<rparr>"

definition example_procs :: "proc_init_data list" where
  "example_procs = [example_proc 0x20002000 1, example_proc 0x20003000 2]"

definition example_handlers :: handlers where
  "example_handlers =
     \<lparr>interrupt_entry = 0x20000200, sysbreak_entry = 0x20000300, TLB_entry = 0x20000400,
      trap_entry = 0x20000500\<rparr>"

definition example_start :: machine where
  "example_start =
     (case bikaya_launch example_board example_layout example_handlers example_procs 3000 example_boot of
        Inr (_, t) \<Rightarrow> t | Inl _ \<Rightarrow> example_boot)"

lemma boot_example: "boot example_boot"
  by (simp add: boot_def example_boot_def zero_pcb_def)

lemma booted_example: "booted example_board example_layout example_start"
  and boot_example_refines:
    "repr example_start (a_booted example_board example_layout example_procs example_boot)"
    "sched_wf (a_booted example_board example_layout example_procs example_boot)"
    "dev_inv example_board example_start (a_booted example_board example_layout example_procs example_boot)"
  and example_words: "user_word example_start u = 0" "user_state example_start u = zero_state TARGET_UMPS"
    "terminals (bus example_start) = (\<lambda>_. None)"
proof -
  have len: "length example_procs \<le> MAXPROC" and ne: "example_procs \<noteq> []"
    by (simp_all add: example_procs_def MAXPROC_def)
  let ?a = "a_booted example_board example_layout example_procs example_boot"
  obtain st t where t: "bikaya_launch example_board example_layout example_handlers example_procs 3000
      example_boot = Inr (st, t)" "repr t ?a" "sched_wf ?a" "dev_inv example_board t ?a"
      "user_word t = user_word example_boot" "user_state t = user_state example_boot"
      "terminals (bus t) = terminals (bus example_boot)"
    using boot_refines [OF boot_example len ne, of example_board example_layout example_handlers 3000]
    by (auto simp: ok_iff)
  moreover have "example_start = t" using t(1) by (simp add: example_start_def)
  ultimately show "booted example_board example_layout example_start" "repr example_start ?a"
      "sched_wf ?a" "dev_inv example_board example_start ?a"
    using boot_example len ne unfolding booted_def by blast+
  show "user_word example_start u = 0" "user_state example_start u = zero_state TARGET_UMPS"
      "terminals (bus example_start) = (\<lambda>_. None)"
    using t(5-7) \<open>example_start = t\<close> by (simp_all add: example_boot_def)
qed

text \<open>The terminal of the messages answers, and the registers lie where the documentation puts them.\<close>

lemma example_tx: "tx_stat example_board 0x10000260 n = tx_cycle n"
  by (simp add: tx_stat_def example_board_def reg_transm_status_def tx_cycle_status)

lemma example_console:
  "console example_board (bus example_start)" "documented example_board" "console example_board (bus example_boot)"
proof -
  have "answers example_board 0x10000260"
    using example_tx by (intro tx_cycle_answers [where n = 0]) simp
  moreover have "DEV_REG_ADDR example_board (IL_TERMINAL example_board) SYS_TERM = 0x10000260"
    by (simp add: example_board_def SYS_TERM_def)
  moreover have "SYS_TERM < N_DEV_PER_IL example_board" by (simp add: example_board_def SYS_TERM_def)
  ultimately show "console example_board (bus example_start)" "console example_board (bus example_boot)"
    by (simp_all add: console_def example_words(3)) (simp add: example_boot_def)
qed (simp add: documented_def example_board_def)

section \<open>The scheduler after the boot\<close>

definition example_sched :: sched where
  "example_sched =
     a_launch 0 1 (a_init example_board example_layout example_procs (\<lambda>_. zero_pcb))"

lemma example_repr:
  "repr example_start example_sched" "sched_wf example_sched" "dev_inv example_board example_start example_sched"
proof -
  have "a_booted example_board example_layout example_procs example_boot = example_sched"
    by (simp add: a_booted_def example_sched_def example_board_def example_boot_def)
  then show "repr example_start example_sched" "sched_wf example_sched"
      "dev_inv example_board example_start example_sched"
    using boot_example_refines by simp_all
qed

lemma upto_MAXPROC: "[0..<MAXPROC] = [0, 1, 2, 3, 4, 5, 6, 7, 8, 9, 10, 11, 12, 13, 14, 15, 16, 17, 18, 19]"
  by (simp add: MAXPROC_def upt_rec)

lemma example_sched_simps [simp]:
  "free example_sched = map Pcb [2, 3, 4, 5, 6, 7, 8, 9, 10, 11, 12, 13, 14, 15, 16, 17, 18, 19]"
  "ready example_sched = [Pcb 0]" "running example_sched = Pcb 1"
  "wait example_sched = (\<lambda>_. [])" "kids example_sched = (\<lambda>_. [])"
  "priority (tcb example_sched (Pcb 0)) = 1" "priority (tcb example_sched (Pcb (Suc 0))) = 2"
  "original_priority (tcb example_sched (Pcb 0)) = 1"
  "original_priority (tcb example_sched (Pcb (Suc 0))) = 2"
  "dev_w_list (tcb example_sched p) = None" "p_parent (tcb example_sched p) = None"
  by (simp_all add: example_sched_def a_launch_def a_init_def a_idle_def a_starts_def a_start_def
      a_boot_def a_alloc_def example_procs_def example_proc_def upto_MAXPROC a_requeue_def a_prio_def
      fresh_pcb_def zero_pcb_def fun_eq_iff)

section \<open>Its lists\<close>

lemma example_tables:
  "asl example_start sched_heads (own_queues example_sched) (\<lambda>_. [])"
  "tree_rep example_start (live example_sched) (\<lambda>_. [])"
  "pcbs example_start = tcb example_sched" "running_proc example_start = Some (Pcb 1)"
  using example_repr(1) by (simp_all add: repr_def)

lemma example_prio: "prio example_start = a_prio example_sched"
  using example_repr(1) by (rule repr_prio)

lemma example_a_prio [simp]: "a_prio example_sched (Pcb 0) = 1" "a_prio example_sched (Pcb (Suc 0)) = 2"
  by (simp_all add: a_prio_def)

lemma example_rings:
  "rings example_start P_next {PcbFree_h, Ready_queue} (own_queues example_sched)"
proof -
  have "sched_heads - range S_procQ = {PcbFree_h, Ready_queue}"
    by (auto simp: sched_heads_def)
  then show ?thesis using asl_rings [OF example_tables(1)] by simp
qed

lemma example_members:
  "members {PcbFree_h, Ready_queue} (own_queues example_sched) = insert (Pcb 0) (set (free example_sched))"
  by (auto simp: members_def)

lemma example_all_procs: "all_procs = insert (Pcb 0) (insert (Pcb 1) (set (free example_sched)))"
proof -
  have "{..<MAXPROC} = {0, 1, 2, 3, 4, 5, 6, 7, 8, 9, 10, 11, 12, 13, 14, 15, 16, 17, 18, 19}"
    by (simp add: MAXPROC_def lessThan_nat_numeral lessThan_Suc insert_commute)
  then show ?thesis by (simp only: all_procs_def image_insert) simp
qed

lemma example_live: "live example_sched = {Idle_proc, Pcb 0, Pcb 1}"
  by (auto simp: live_def example_all_procs)

lemmas example_heads = proc_headsI

lemma example_not_full: "\<not> asl_full (\<lambda>_. [])"
  by (simp add: asl_full_def MAXPROC_def)

end
