(* ===== verification/Proc_Queue.thy ===== *)
theory Proc_Queue
  imports Sched_Refine "HOL-Library.Multiset"
begin

text \<open>
  The contract that every queue of processes offers: insertion by priority and removal of the first.
  Its clients are the scheduler (the ready queue) and the semaphores (the queue of a key); what they
  rely on, that processes come out by decreasing priority and by arrival among equals, is proved once
  in the locale and holds for both by interpretation.

  \<open>holds s pr q F\<close>: in the state \<open>s\<close> the queue contains \<open>q\<close>, priorities are \<open>pr\<close>, and the
  processes in \<open>F\<close> are in no queue.
\<close>

section \<open>Insertion by priority as a stable sort\<close>

definition q_inserts :: "('e \<Rightarrow> int) \<Rightarrow> 'e list \<Rightarrow> 'e list \<Rightarrow> 'e list" where
  "q_inserts pr ps q = fold (q_insert pr) ps q"

lemma q_inserts_simps [simp]:
  "q_inserts pr [] q = q" "q_inserts pr (p # ps) q = q_inserts pr ps (q_insert pr p q)"
  by (simp_all add: q_inserts_def)

lemma mset_q_insert: "mset (q_insert pr p q) = add_mset p (mset q)"
  by (induction q) auto

lemma mset_q_inserts: "mset (q_inserts pr ps q) = mset ps + mset q"
  by (induction ps arbitrary: q) (simp_all add: mset_q_insert)

lemma by_prio_q_inserts: "by_prio pr q \<Longrightarrow> by_prio pr (q_inserts pr ps q)"
  by (induction ps arbitrary: q) (simp_all add: by_prio_q_insert)

lemma q_inserts_fifo:
  "by_prio pr q \<Longrightarrow> filter (\<lambda>x. pr x = k) (q_inserts pr ps q) = filter (\<lambda>x. pr x = k) (q @ ps)"
  by (induction ps arbitrary: q) (simp_all add: q_insert_fifo by_prio_q_insert)

lemma by_prio_sorted: "by_prio pr q = sorted (map (\<lambda>x. - pr x) q)"
  by (simp add: by_prio_def sorted_map)

theorem q_inserts_sort: "q_inserts pr ps [] = sort_key (\<lambda>x. - pr x) ps"
proof (rule sym, rule properties_for_sort_key)
  show "mset (q_inserts pr ps []) = mset ps" by (simp add: mset_q_inserts)
  show "filter (\<lambda>x. - pr k = - pr x) (q_inserts pr ps []) = filter (\<lambda>x. - pr k = - pr x) ps"
    if "k \<in> set (q_inserts pr ps [])" for k
    using q_inserts_fifo [of pr "[]" "pr k" ps] by (simp add: eq_commute [of "pr k"])
  show "sorted (map (\<lambda>x. - pr x) (q_inserts pr ps []))"
    using by_prio_q_inserts [of pr "[]" ps] by (simp add: by_prio_sorted)
qed

lemma insort_key_map: "insort_key k (f x) (map f xs) = map f (insort_key (\<lambda>x. k (f x)) x xs)"
  by (induction xs) auto

lemma sort_key_map: "sort_key k (map f xs) = map f (sort_key (\<lambda>x. k (f x)) xs)"
  by (induction xs) (simp_all add: insort_key_map)

lemma insort_key_cong:
  "(\<And>y. y \<in> insert x (set xs) \<Longrightarrow> f y = g y) \<Longrightarrow> insort_key f x xs = insort_key g x xs"
  by (induction xs) auto

lemma sort_key_cong: "(\<And>x. x \<in> set xs \<Longrightarrow> f x = g x) \<Longrightarrow> sort_key f xs = sort_key g xs"
proof (induction xs)
  case (Cons x xs)
  have "insort_key f x (sort_key g xs) = insort_key g x (sort_key g xs)"
    by (rule insort_key_cong) (use Cons.prems in auto)
  then show ?case using Cons by simp
qed simp

section \<open>Clients\<close>

text \<open>A client that inserts some processes, and one that empties a queue with \<open>n\<close> removals.\<close>

fun insert_all :: "('p \<Rightarrow> 's \<Rightarrow> 's res) \<Rightarrow> 'p list \<Rightarrow> 's \<Rightarrow> 's res" where
  "insert_all ins [] s = Inr s"
| "insert_all ins (p # ps) s = andThen (ins p s) (insert_all ins ps)"

fun remove_all :: "('s \<Rightarrow> ('p option \<times> 's) res) \<Rightarrow> nat \<Rightarrow> 's \<Rightarrow> ('p list \<times> 's) res" where
  "remove_all rem 0 s = Inr ([], s)"
| "remove_all rem (Suc n) s =
     andThen (rem s) (\<lambda>(p, s).
     case p of
       None \<Rightarrow> Inr ([], s)
     | Some p \<Rightarrow> andThen (remove_all rem n s) (\<lambda>(ps, s). Inr (p # ps, s)))"

section \<open>The contract\<close>

locale proc_queue =
  fixes holds :: "'s \<Rightarrow> ('p \<Rightarrow> int) \<Rightarrow> 'p list \<Rightarrow> 'p set \<Rightarrow> bool"
    and ins :: "'p \<Rightarrow> 's \<Rightarrow> 's res"
    and rem :: "'s \<Rightarrow> ('p option \<times> 's) res"
  assumes ins: "holds s pr q F \<Longrightarrow> p \<in> F \<Longrightarrow>
      ok (ins p s) (\<lambda>t. holds t pr (q_insert pr p q) (F - {p}))"
    and rem: "holds s pr q F \<Longrightarrow> ok (rem s) (\<lambda>(r, t).
      case q of [] \<Rightarrow> r = None \<and> holds t pr [] F | p # q' \<Rightarrow> r = Some p \<and> holds t pr q' (insert p F))"
begin

lemma insert_all:
  "holds s pr q F \<Longrightarrow> distinct ps \<Longrightarrow> set ps \<subseteq> F \<Longrightarrow>
    ok (insert_all ins ps s) (\<lambda>t. holds t pr (q_inserts pr ps q) (F - set ps))"
proof (induction ps arbitrary: s q F)
  case Nil
  then show ?case by simp
next
  case (Cons p ps)
  then obtain t where t: "ins p s = Inr t" "holds t pr (q_insert pr p q) (F - {p})"
    using ins [OF Cons.prems(1), of p] by (auto simp: ok_iff)
  have "F - {p} - set ps = F - set (p # ps)" by auto
  then show ?case using Cons.IH [OF t(2)] Cons.prems t(1) by auto
qed

lemma remove_all:
  "holds s pr q F \<Longrightarrow> length q \<le> n \<Longrightarrow>
    ok (remove_all rem n s) (\<lambda>(ps, t). ps = q \<and> holds t pr [] (F \<union> set q))"
proof (induction n arbitrary: s q F)
  case 0
  then show ?case by simp
next
  case (Suc n)
  obtain r t where t: "rem s = Inr (r, t)" and c: "case q of [] \<Rightarrow> r = None \<and> holds t pr [] F
      | p # q' \<Rightarrow> r = Some p \<and> holds t pr q' (insert p F)"
    using rem [OF Suc.prems(1)] by (auto simp: ok_iff)
  show ?case
  proof (cases q)
    case Nil
    then show ?thesis using t c by simp
  next
    case (Cons p q')
    then have r: "r = Some p" and h: "holds t pr q' (insert p F)" and n: "length q' \<le> n"
      using c Suc.prems(2) by simp_all
    have "insert p F \<union> set q' = F \<union> set q" using Cons by simp
    then have "ok (remove_all rem n t) (\<lambda>(ps, u). ps = q' \<and> holds u pr [] (F \<union> set q))"
      using Suc.IH [OF h n] by (simp only:)
    then show ?thesis using Cons by (auto simp: t r ok_iff)
  qed
qed

text \<open>What goes in comes out sorted by priority, in order of arrival among equals.\<close>

lemma drain_sorted:
  assumes "holds s pr [] F" and "distinct ps" and "set ps \<subseteq> F"
  shows "ok (andThen (insert_all ins ps s) (remove_all rem (length ps)))
    (\<lambda>(qs, t). qs = sort_key (\<lambda>p. - pr p) ps \<and> holds t pr [] F)"
proof -
  obtain t where t: "insert_all ins ps s = Inr t" "holds t pr (q_inserts pr ps []) (F - set ps)"
    using insert_all [OF assms] by (auto simp: ok_iff)
  have m: "mset (q_inserts pr ps []) = mset ps" by (simp add: mset_q_inserts)
  from mset_eq_setD [OF m] mset_eq_length [OF m]
  have "ok (remove_all rem (length ps) t) (\<lambda>(qs, u). qs = q_inserts pr ps [] \<and> holds u pr [] F)"
    using remove_all [OF t(2), of "length ps"] assms(3) by (simp add: Un_absorb2)
  then show ?thesis by (simp add: t(1) q_inserts_sort)
qed

end

section \<open>A queue of the process lists\<close>

definition ring_queue :: "lh \<Rightarrow> 'a pcb_mem_scheme \<Rightarrow> (pcb \<Rightarrow> int) \<Rightarrow> pcb list \<Rightarrow> pcb set \<Rightarrow> bool" where
  "ring_queue h s pr q F \<longleftrightarrow>
     (\<exists>K Q. rings s P_next K Q \<and> K \<subseteq> proc_heads \<and> h \<in> K \<and> Q h = q \<and> prio s = pr \<and>
        F = - members K Q)"

interpretation ring: proc_queue "ring_queue h" "insertProcQ h" "removeProcQ h" for h
proof unfold_locales
  fix s :: "'a pcb_mem_scheme" and pr q F p
  assume "ring_queue h s pr q F"
  then obtain K Q where K: "rings s P_next K Q" "K \<subseteq> proc_heads" "h \<in> K" "Q h = q" "prio s = pr"
      "F = - members K Q"
    by (auto simp: ring_queue_def)
  have F: "F = - (members (K - {h}) Q \<union> set q)"
    using members_upd [OF K(3), of Q q] by (simp only: K(6) fun_upd_idem [of Q h q, OF K(4)])
  show "ok (insertProcQ h p s) (\<lambda>t. ring_queue h t pr (q_insert pr p q) (F - {p}))" if "p \<in> F"
  proof -
    have p: "p \<notin> members K Q" using that K(6) by simp
    show ?thesis
      using insertProcQ_spec [OF K(1-3) p]
    proof (rule ok_mono, clarify)
      fix t
      assume t: "rings t P_next K (Q(h := q_insert (prio s) p (Q h)))" "links_only proc_cells s t"
      have "F - {p} = - members K (Q(h := q_insert (prio s) p (Q h)))"
        using F by (auto simp: members_upd [OF K(3)] set_q_insert K(4,5))
      then show "ring_queue h t pr (q_insert pr p q) (F - {p})"
        using t K prio_links_only [OF t(2)] unfolding ring_queue_def
        by (intro exI [of _ K] exI [of _ "Q(h := q_insert (prio s) p (Q h))"]) auto
    qed
  qed
  show "ok (removeProcQ h s) (\<lambda>(r, t). case q of [] \<Rightarrow> r = None \<and> ring_queue h t pr [] F
      | p # q' \<Rightarrow> r = Some p \<and> ring_queue h t pr q' (insert p F))"
  proof (cases q)
    case Nil
    then show ?thesis
      using removeProcQ_Nil [OF K(1,3)] K \<open>ring_queue h s pr q F\<close> by simp
  next
    case (Cons x q')
    have "insert x F = - members K (Q(h := q'))"
      using F Cons rings_distinct [OF K(1,3)] rings_others [OF K(1,3)]
      by (auto simp: members_upd [OF K(3)] K(4))
    then have "ring_queue h t pr q' (insert x F)"
      if "rings t P_next K (Q(h := q'))" "links_only proc_cells s t" for t
      using that K prio_links_only [OF that(2)] unfolding ring_queue_def
      by (intro exI [of _ K] exI [of _ "Q(h := q')"]) auto
    then show ?thesis
      using removeProcQ_Cons [OF K(1-3), of x q'] K(4) Cons by (auto elim!: ok_mono)
  qed
qed

end
