(* ===== verification/Asl_Tree.thy ===== *)
theory Asl_Tree
  imports Asl
begin

text \<open>
  \<open>outChildBlocked\<close> of \<open>src/core/processes/asl.c\<close>, which takes a process and all its descendants
  out of the semaphore queues: on a tree its recursion ends, having visited them in preorder.
\<close>

section \<open>The result of unblocking the processes \<open>xs\<close>\<close>

definition unblocked ::
  "pcb list \<Rightarrow> lh set \<Rightarrow> (lh \<Rightarrow> pcb list) \<Rightarrow> (int_ptr option \<Rightarrow> pcb list) \<Rightarrow>
    'a asl_mem_scheme \<Rightarrow> 'a asl_mem_scheme \<Rightarrow> bool" where
  "unblocked xs K R W s t \<longleftrightarrow>
     asl t K R (\<lambda>k. filter (\<lambda>x. x \<notin> set xs) (W k)) \<and> asl_frame s t \<and>
     pcbs t = (\<lambda>q. if q \<in> set xs \<and> q \<in> blocked W then (pcbs s q)\<lparr>p_semkey := None\<rparr> else pcbs s q)"

lemma blocked_filter: "blocked (\<lambda>k. filter P (W k)) = {x \<in> blocked W. P x}"
  by (auto simp: blocked_iff)

lemma unblocked_append:
  assumes "unblocked xs K R W s t" and "unblocked ys K R (\<lambda>k. filter (\<lambda>x. x \<notin> set xs) (W k)) t u"
  shows "unblocked (xs @ ys) K R W s u"
proof -
  have "(\<lambda>k. filter (\<lambda>x. x \<notin> set ys) (filter (\<lambda>x. x \<notin> set xs) (W k))) =
      (\<lambda>k. filter (\<lambda>x. x \<notin> set (xs @ ys)) (W k))"
    by (simp add: conj_commute)
  then show ?thesis
    using assms unfolding unblocked_def
    by (auto simp: blocked_filter fun_eq_iff intro: asl_frame_trans)
qed

lemma unblocked_tree:
  "unblocked xs K R W s t \<Longrightarrow> tree_rep t A kd = tree_rep s A kd"
  by (rule tree_rep_asl_frame) (auto simp: unblocked_def)

lemma outBlocked_unblocks:
  assumes asl: "asl s K R W"
  shows "\<exists>r t. outBlocked p s = Inr (r, t) \<and> unblocked [p] K R W s t"
proof -
  let ?key = "p_semkey (pcbs s p)"
  have other: "p \<notin> set (W k)" if "k \<noteq> ?key" for k using asl_semkey [OF asl] that by blast
  have b: "p \<in> blocked W \<longleftrightarrow> p \<in> set (W ?key)" using other unfolding blocked_iff by metis
  have "filter (\<lambda>x. x \<notin> set [p]) (W k) = (if k = ?key then remove1 p (W k) else W k)" for k
    using other [of k] asl_distinct [OF asl, of k]
    by (auto simp: distinct_remove1_removeAll removeAll_filter_not_eq intro!: filter_cong filter_True)
  then have out: "(\<lambda>k. filter (\<lambda>x. x \<notin> set [p]) (W k)) = W(?key := remove1 p (W ?key))" by auto
  obtain r t where t: "outBlocked p s = Inr (r, t)"
      "if p \<in> set (W ?key) then r = Some p \<and> remove_result ?key p K R W s t
       else r = None \<and> asl t K R W \<and> asl_frame s t \<and> pcbs t = pcbs s"
    using outBlocked_spec [OF asl refl, of p] by (auto simp: ok_iff)
  have "unblocked [p] K R W s t"
    unfolding unblocked_def out using t(2) b
    by (auto simp: remove_result_def remove1_idem split: if_splits)
  then show ?thesis using t(1) by blast
qed

section \<open>The recursion\<close>

lemma walk_visit:
  "outBlocked p s = Inr (r, t) \<Longrightarrow> outChildBlocked_walk (Visit p) s =
    (if emptyChild p t then Some (Inr t)
     else case andThen (deref (list_next (P_child p) t)) container_of_p_child of
       Inl e \<Rightarrow> Some (Inl e)
     | Inr c \<Rightarrow> outChildBlocked_walk (Siblings c c) t)"
  by (subst outChildBlocked_walk.simps) simp

lemma walk_visit_leaf:
  "outBlocked p s = Inr (r, t) \<Longrightarrow> node_rep t p [] \<Longrightarrow> outChildBlocked_walk (Visit p) s = Some (Inr t)"
  by (simp add: walk_visit node_rep_Nil)

lemma walk_visit_node:
  "outBlocked p s = Inr (r, t) \<Longrightarrow> node_rep t p (c # cs) \<Longrightarrow>
    outChildBlocked_walk (Visit p) s = outChildBlocked_walk (Siblings c c) t"
  by (auto simp: walk_visit node_rep_Cons emptyChild_def list_next_def list_empty_def)

lemma walk_siblings:
  "outChildBlocked_walk (Visit x) s = Some (Inr t) \<Longrightarrow> nextSibling x c t = Inr r \<Longrightarrow>
    outChildBlocked_walk (Siblings x c) s =
    (case r of None \<Rightarrow> Some (Inr t) | Some y \<Rightarrow> outChildBlocked_walk (Siblings y c) t)"
  by (subst outChildBlocked_walk.simps) simp

lemma outChildBlocked_visits:
  fixes s :: "'a asl_mem_scheme"
  shows
  "subtree k p xs \<Longrightarrow> asl s K R W \<Longrightarrow> tree_rep s A k \<Longrightarrow> p \<in> A \<Longrightarrow>
    \<exists>t. outChildBlocked_walk (Visit p) s = Some (Inr t) \<and> unblocked xs K R W s t"
  "forest k cs xs \<Longrightarrow> asl s K R W \<Longrightarrow> tree_rep s A k \<Longrightarrow> p \<in> A \<Longrightarrow> k p = pre @ cs \<Longrightarrow> cs \<noteq> [] \<Longrightarrow>
    \<exists>t. outChildBlocked_walk (Siblings (hd cs) (hd (k p))) s = Some (Inr t) \<and> unblocked xs K R W s t"
proof (induction arbitrary: s W and s W p pre rule: subtree_forest.inducts)
  case (subtree k p xs)
  obtain r t where t: "outBlocked p s = Inr (r, t)" "unblocked [p] K R W s t"
    using outBlocked_unblocks [OF subtree.prems(1)] by blast
  have T: "tree_rep t A k" using subtree.prems(2) unblocked_tree [OF t(2)] by blast
  have node: "node_rep t p (k p)" by (rule tree_rep_node [OF T subtree.prems(3)])
  show ?case
  proof (cases "k p")
    case Nil
    then have "xs = []" using subtree.hyps by (auto elim: forest_NilE)
    then show ?thesis using walk_visit_leaf [OF t(1)] node t(2) Nil by auto
  next
    case (Cons c cs)
    have a: "asl t K R (\<lambda>k. filter (\<lambda>x. x \<notin> set [p]) (W k))" using t(2) by (simp add: unblocked_def)
    have walk: "outChildBlocked_walk (Visit p) s = outChildBlocked_walk (Siblings c c) t"
      by (rule walk_visit_node [OF t(1)]) (use node Cons in simp)
    from subtree.IH [OF a T subtree.prems(3), of "[]"] obtain u
      where "outChildBlocked_walk (Siblings c c) t = Some (Inr u)"
        "unblocked xs K R (\<lambda>k. filter (\<lambda>x. x \<notin> set [p]) (W k)) t u"
      using Cons by auto
    then show ?thesis using walk unblocked_append [OF t(2)] by fastforce
  qed
next
  case (forest_Nil k)
  then show ?case by simp
next
  case (forest_Cons k c xs cs ys)
  note p = forest_Cons.prems
  have "c \<in> set (k p)" using p(4) by simp
  then have "c \<in> A" using p(2,3) by (auto simp: tree_rep_def)
  from forest_Cons.IH(1) [OF p(1,2) this] obtain t
    where t: "outChildBlocked_walk (Visit c) s = Some (Inr t)" "unblocked xs K R W s t" by blast
  have T: "tree_rep t A k" using p(2) unblocked_tree [OF t(2)] by blast
  have a: "asl t K R (\<lambda>k. filter (\<lambda>x. x \<notin> set xs) (W k))" using t(2) by (simp add: unblocked_def)
  have "node_rep t p (hd (k p) # tl (k p))" using tree_rep_node [OF T p(3)] p(4) by simp
  from nextSibling_eq [OF this, of pre c cs]
  have ns: "nextSibling c (hd (k p)) t = Inr (case cs of [] \<Rightarrow> None | y # _ \<Rightarrow> Some y)" using p(4) by simp
  show ?case
  proof (cases cs)
    case Nil
    then have "ys = []" using forest_Cons.hyps(2) by (auto elim: forest_NilE)
    then show ?thesis using walk_siblings [OF t(1) ns] t(2) Nil by auto
  next
    case (Cons y zs)
    have walk: "outChildBlocked_walk (Siblings c (hd (k p))) s = outChildBlocked_walk (Siblings y (hd (k p))) t"
      using walk_siblings [OF t(1) ns] Cons by simp
    from forest_Cons.IH(2) [OF a T p(3), of "pre @ [c]"] obtain u
      where "outChildBlocked_walk (Siblings y (hd (k p))) t = Some (Inr u)"
        "unblocked ys K R (\<lambda>k. filter (\<lambda>x. x \<notin> set xs) (W k)) t u"
      using Cons p(4) by auto
    then show ?thesis using walk unblocked_append [OF t(2)] by fastforce
  qed
qed

lemma outChildBlocked_spec [wp]:
  assumes "asl s K R W" and "tree_rep s A k" and "p \<in> A" and "subtree k p xs"
  shows "ok (outChildBlocked p s) (unblocked xs K R W s)"
  using outChildBlocked_visits(1) [OF assms(4,1,2,3)] by (auto simp: outChildBlocked_def returned_def)

end
