(* ===== verification/Queue_Properties.thy ===== *)
theory Queue_Properties
  imports Example_System Proc_Queue Asl_Tree
begin

text \<open>
  The properties of the tables of processes and semaphores: \<open>pcb.c\<close> and \<open>asl.c\<close>. Each is
  followed by its application to the concrete machine of \<open>Example_System\<close>.
\<close>

section \<open>Process queues\<close>

lemma q_insert_between:
  "by_prio pr q \<Longrightarrow> \<exists>q1 q2. q = q1 @ q2 \<and> q_insert pr p q = q1 @ p # q2 \<and>
    (\<forall>x\<in>set q1. pr p \<le> pr x) \<and> (\<forall>x\<in>set q2. pr x < pr p)"
proof (induction q)
  case Nil
  then show ?case by simp
next
  case (Cons t q)
  show ?case
  proof (cases "pr p > pr t")
    case True
    then show ?thesis
      using Cons.prems by (intro exI [of _ "[]"] exI [of _ "t # q"]) (auto simp: by_prio_Cons)
  next
    case False
    obtain q1 q2 where "q = q1 @ q2" "q_insert pr p q = q1 @ p # q2"
        "\<forall>x\<in>set q1. pr p \<le> pr x" "\<forall>x\<in>set q2. pr x < pr p"
      using Cons by (auto simp: by_prio_Cons)
    then show ?thesis using False by (intro exI [of _ "t # q1"] exI [of _ q2]) auto
  qed
qed

text \<open>\<open>insertProcQ\<close> puts a process that is in no queue behind every process of at least its
  priority and ahead of every process of smaller priority; the queue stays sorted, every other queue
  and every PCB is as before.\<close>

theorem insertProcQ_by_priority:
  assumes "rings s P_next K Q" and "K \<subseteq> proc_heads" and "h \<in> K" and "p \<notin> members K Q"
    and sorted: "by_prio (prio s) (Q h)"
  shows "ok (insertProcQ h p s) (\<lambda>t. \<exists>q1 q2. Q h = q1 @ q2 \<and>
    (\<forall>x\<in>set q1. prio s p \<le> prio s x) \<and> (\<forall>x\<in>set q2. prio s x < prio s p) \<and>
    rings t P_next K (Q(h := q1 @ p # q2)) \<and> by_prio (prio t) (q1 @ p # q2) \<and> pcbs t = pcbs s)"
proof -
  obtain q1 q2 where q: "Q h = q1 @ q2" "q_insert (prio s) p (Q h) = q1 @ p # q2"
      "\<forall>x\<in>set q1. prio s p \<le> prio s x" "\<forall>x\<in>set q2. prio s x < prio s p"
    using q_insert_between [OF sorted, of p] by auto
  have sq: "by_prio (prio s) (q1 @ p # q2)" using by_prio_q_insert [OF sorted, of p] q(2) by simp
  show ?thesis
  proof (rule ok_mono [OF insertProcQ_spec [OF assms(1-4)]], rule exI [of _ q1], rule exI [of _ q2])
    fix t
    assume "rings t P_next K (Q(h := q_insert (prio s) p (Q h))) \<and> links_only proc_cells s t"
    then show "Q h = q1 @ q2 \<and> (\<forall>x\<in>set q1. prio s p \<le> prio s x) \<and> (\<forall>x\<in>set q2. prio s x < prio s p) \<and>
        rings t P_next K (Q(h := q1 @ p # q2)) \<and> by_prio (prio t) (q1 @ p # q2) \<and> pcbs t = pcbs s"
      using q sq by (auto simp: pcbs_links_only prio_links_only)
  qed
qed

lemma insertProcQ_by_priority_witness:
  "ok (insertProcQ Ready_queue (Pcb 1) example_start)
    (\<lambda>t. rings t P_next {PcbFree_h, Ready_queue} ((own_queues example_sched)(Ready_queue := [Pcb 1, Pcb 0])))"
proof (rule ok_mono)
  show "ok (insertProcQ Ready_queue (Pcb 1) example_start) (\<lambda>t. \<exists>q1 q2.
    own_queues example_sched Ready_queue = q1 @ q2 \<and>
    (\<forall>x\<in>set q1. prio example_start (Pcb 1) \<le> prio example_start x) \<and>
    (\<forall>x\<in>set q2. prio example_start x < prio example_start (Pcb 1)) \<and>
    rings t P_next {PcbFree_h, Ready_queue} ((own_queues example_sched)(Ready_queue := q1 @ Pcb 1 # q2)) \<and>
    by_prio (prio t) (q1 @ Pcb 1 # q2) \<and> pcbs t = pcbs example_start)"
    by (rule insertProcQ_by_priority [OF example_rings]) (auto simp: example_members by_prio_def)
qed (auto simp: example_prio Cons_eq_append_conv)

text \<open>C24. A process queue sorts: when a client inserts processes into an empty queue and removes as
  many, they come out by decreasing priority, and in order of insertion among equals; the result is the
  library's stable sort by priority.\<close>

theorem queue_sorts:
  assumes "rings s P_next K Q" and "K \<subseteq> proc_heads" and "h \<in> K" and "Q h = []"
    and "distinct ps" and "set ps \<inter> members K Q = {}"
  shows "ok (andThen (insert_all (insertProcQ h) ps s) (remove_all (removeProcQ h) (length ps)))
    (\<lambda>(qs, t). qs = sort_key (\<lambda>p. - prio s p) ps \<and> ring_queue h t (prio s) [] (- members K Q))"
  by (rule ring.drain_sorted) (use assms in \<open>auto simp: ring_queue_def\<close>)

definition example_queue :: machine where
  "example_queue =
     (mkEmptyProcQ (Proc_list 0) example_boot)
       \<lparr>pcbs := (\<lambda>p. zero_pcb\<lparr>priority := (if p = Pcb 1 \<or> p = Pcb 3 then 7 else 4)\<rparr>)\<rparr>"

lemma queue_sorts_witness:
  "ok (andThen (insert_all (insertProcQ (Proc_list 0)) [Pcb 0, Pcb 1, Pcb 2, Pcb 3] example_queue)
      (remove_all (removeProcQ (Proc_list 0)) 4))
    (\<lambda>(qs, t). qs = [Pcb 1, Pcb 3, Pcb 0, Pcb 2])"
proof -
  have r: "rings example_queue P_next {Proc_list 0} (\<lambda>_. [])"
    by (simp add: rings_def dll_Nil example_queue_def mkEmptyProcQ_def INIT_LIST_HEAD_def)
  have pr: "prio example_queue = (\<lambda>p. if p = Pcb 1 \<or> p = Pcb 3 then 7 else 4)"
    by (rule ext) (simp add: example_queue_def prio_def)
  have "sort_key (\<lambda>p. - prio example_queue p) [Pcb 0, Pcb 1, Pcb 2, Pcb 3] = [Pcb 1, Pcb 3, Pcb 0, Pcb 2]"
    unfolding pr by simp
  moreover have "ok (andThen (insert_all (insertProcQ (Proc_list 0)) [Pcb 0, Pcb 1, Pcb 2, Pcb 3] example_queue)
      (remove_all (removeProcQ (Proc_list 0)) (length [Pcb 0, Pcb 1, Pcb 2, Pcb 3])))
    (\<lambda>(qs, t). qs = sort_key (\<lambda>p. - prio example_queue p) [Pcb 0, Pcb 1, Pcb 2, Pcb 3] \<and>
      ring_queue (Proc_list 0) t (prio example_queue) [] (- members {Proc_list 0} (\<lambda>_. [])))"
    by (rule queue_sorts [OF r]) (simp_all add: members_def)
  ultimately show ?thesis by (auto elim!: ok_mono simp: numeral_eq_Suc simp del: remove_all.simps)
qed

text \<open>\<open>outProcQ\<close> takes a process out of the middle of a queue and returns it, or returns NULL and
  changes nothing in the queue when the process is not there; other queues and the PCBs stay.\<close>

theorem outProcQ_removes:
  assumes "rings s P_next K Q" and "K \<subseteq> proc_heads" and "h \<in> K"
  shows "ok (outProcQ h p s) (\<lambda>(r, t).
    r = (if p \<in> set (Q h) then Some p else None) \<and>
    rings t P_next K (Q(h := remove1 p (Q h))) \<and> pcbs t = pcbs s)"
  using outProcQ_spec [OF assms, of p] by (auto elim!: ok_mono simp: pcbs_links_only)

lemma outProcQ_removes_witness:
  "ok (outProcQ PcbFree_h (Pcb 5) example_start) (\<lambda>(r, t). r = Some (Pcb 5))"
proof (rule ok_mono)
  show "ok (outProcQ PcbFree_h (Pcb 5) example_start) (\<lambda>(r, t).
    r = (if Pcb 5 \<in> set (own_queues example_sched PcbFree_h) then Some (Pcb 5) else None) \<and>
    rings t P_next {PcbFree_h, Ready_queue}
      ((own_queues example_sched)(PcbFree_h := remove1 (Pcb 5) (own_queues example_sched PcbFree_h))) \<and>
    pcbs t = pcbs example_start)"
    by (rule outProcQ_removes [OF example_rings]) auto
qed auto

section \<open>Allocation\<close>

text \<open>C26. Round trip: a PCB that is freed is the next to be allocated, with the members that
  \<open>allocPcb\<close> resets at their initial values, as a root without children, the process queues as before
  and the other PCBs untouched.\<close>

theorem free_alloc_round_trip:
  assumes r: "rings s P_next K Q" and K: "K \<subseteq> proc_heads" "PcbFree_h \<in> K" and p: "p \<notin> members K Q"
  shows "ok (andThen (freePcb p s) allocPcb) (\<lambda>(q, t). q = Some p \<and> rings t P_next K Q \<and>
    pcbs t = (pcbs s)(p := fresh_pcb (pcbs s p)) \<and> emptyChild p t \<and> nextSibling p p t = Inr None)"
proof -
  obtain t where t: "freePcb p s = Inr t" "rings t P_next K (Q(PcbFree_h := p # Q PcbFree_h))"
      "pcbs t = pcbs s"
    using freePcb_spec [OF r K p] by (auto simp: ok_iff pcbs_links_only)
  show ?thesis
    using allocPcb_Cons [OF t(2) K, of p "Q PcbFree_h"] t
    by (auto simp: emptyChild_def nextSibling_def elim!: ok_mono)
qed

lemma free_alloc_round_trip_witness:
  "ok (andThen (freePcb (Pcb 1) example_start) allocPcb) (\<lambda>(q, t). q = Some (Pcb 1) \<and> emptyChild (Pcb 1) t)"
  using free_alloc_round_trip [OF example_rings, of "Pcb 1"]
  by (auto simp: example_members elim!: ok_mono)

text \<open>\<open>allocPcb\<close> does not reset \<open>dev_w_list\<close>: the member keeps the value of the PCB's last use,
  although \<open>pcb.h\<close> says that every field of an allocated PCB is 0 or NULL.\<close>

theorem alloc_keeps_dev_w_list:
  assumes r: "rings s P_next K Q" and K: "K \<subseteq> proc_heads" "PcbFree_h \<in> K" and q: "Q PcbFree_h = p # q"
  shows "ok (allocPcb s) (\<lambda>(r, t). r = Some p \<and> dev_w_list (pcbs t p) = dev_w_list (pcbs s p) \<and>
    p_semkey (pcbs t p) = None \<and> p_parent (pcbs t p) = None \<and> priority (pcbs t p) = 0)"
  using allocPcb_Cons [OF r K q] by (auto elim!: ok_mono simp: fresh_pcb_def)

lemma alloc_keeps_dev_w_list_witness:
  "ok (allocPcb (upd_pcb (Pcb 2) (\<lambda>c. c\<lparr>dev_w_list := Some (0, 3)\<rparr>) example_start))
    (\<lambda>(r, t). r = Some (Pcb 2) \<and> dev_w_list (pcbs t (Pcb 2)) = Some (0, 3))"
proof -
  let ?s = "upd_pcb (Pcb 2) (\<lambda>c. c\<lparr>dev_w_list := Some (0, 3)\<rparr>) example_start"
  have "rings ?s P_next {PcbFree_h, Ready_queue} (own_queues example_sched)"
    using example_rings by simp
  from alloc_keeps_dev_w_list [OF this] show ?thesis by (auto elim!: ok_mono)
qed

text \<open>\<open>initPcbs\<close> makes every one of the \<open>MAXPROC\<close> PCBs free, in the order of the table, from any
  contents of the memory.\<close>

theorem initPcbs_table:
  "ok (initPcbs s) (\<lambda>t. rings t P_next {PcbFree_h} (\<lambda>_. map Pcb [0..<MAXPROC]) \<and> pcbs t = pcbs s)"
proof -
  have "ok (initPcbs s) (\<lambda>t. rings t P_next {PcbFree_h} ((\<lambda>_. [])(PcbFree_h := map Pcb [0..<MAXPROC])) \<and>
      links_only proc_cells s t)"
    by (rule initPcbs_spec) (auto simp: rings_def members_def)
  moreover have "rings t P_next {PcbFree_h} ((\<lambda>_. [])(PcbFree_h := map Pcb [0..<MAXPROC])) =
      rings t P_next {PcbFree_h} (\<lambda>_. map Pcb [0..<MAXPROC])" for t :: "'a pcb_mem_scheme"
    by (rule rings_Q_cong) simp
  ultimately show ?thesis by (auto elim!: ok_mono simp: pcbs_links_only)
qed

lemma alloc_all:
  assumes "rings s P_next K Q" and K: "K \<subseteq> proc_heads" "PcbFree_h \<in> K" and "length (Q PcbFree_h) \<le> n"
  shows "ok (remove_all allocPcb n s) (\<lambda>(ps, t). ps = Q PcbFree_h)"
  using assms(1,4)
proof (induction n arbitrary: s Q)
  case 0
  then show ?case by simp
next
  case (Suc n)
  show ?case
  proof (cases "Q PcbFree_h")
    case Nil
    then show ?thesis using allocPcb_Nil [OF Suc.prems(1) K(2)] by simp
  next
    case (Cons p q)
    then obtain t where t: "allocPcb s = Inr (Some p, t)" "rings t P_next K (Q(PcbFree_h := q))"
      using allocPcb_Cons [OF Suc.prems(1) K Cons] by (auto simp: ok_iff)
    then have "ok (remove_all allocPcb n t) (\<lambda>(ps, u). ps = q)"
      using Suc.IH [OF t(2)] Suc.prems(2) Cons by simp
    then show ?thesis using t(1) Cons by (auto simp: ok_iff)
  qed
qed

text \<open>Exactly \<open>MAXPROC\<close> allocations succeed after \<open>initPcbs\<close>, each with another PCB, and every
  later one returns NULL.\<close>

lemma alloc_every_pcb:
  "ok (andThen (initPcbs s) (remove_all allocPcb (MAXPROC + n))) (\<lambda>(ps, t). ps = map Pcb [0..<MAXPROC])"
proof -
  obtain t where t: "initPcbs s = Inr t" "rings t P_next {PcbFree_h} (\<lambda>_. map Pcb [0..<MAXPROC])"
    using initPcbs_spec [of s "{PcbFree_h}" "\<lambda>_. []"] rings_Q_cong [of "{PcbFree_h}"
        "(\<lambda>_. [])(PcbFree_h := map Pcb [0..<MAXPROC])" "\<lambda>_. map Pcb [0..<MAXPROC]"]
    by (auto simp: rings_def members_def ok_iff)
  show ?thesis using alloc_all [OF t(2), of "MAXPROC + n"] t(1) by simp
qed

section \<open>Semaphores\<close>

text \<open>\<open>initASL\<close> makes the semaphore list empty from any contents of the memory: no process is
  blocked on any key, all \<open>MAXPROC\<close> descriptors are free and their queues empty.\<close>

theorem initASL_empty:
  "ok (initASL s) (\<lambda>t. asl t (S_procQ ` {..<MAXPROC}) (\<lambda>_. []) (\<lambda>_. []) \<and> pcbs t = pcbs s)"
proof -
  have "rings s P_next {} (\<lambda>_. [])" by (simp add: rings_def)
  from initASL_spec [OF this] show ?thesis by (auto elim!: ok_mono)
qed

text \<open>C27. \<open>insertBlocked\<close>: a process that is in no queue is queued by priority on the semaphore of the
  key, which is taken from the free descriptors when the key has none; it returns TRUE and changes
  nothing exactly when the key has no semaphore and all \<open>MAXPROC\<close> descriptors are in use. The queues
  of the other keys and the process queues stay.\<close>

theorem insertBlocked_effect:
  assumes "asl s K R W" and "p \<notin> own_members K R" "p \<notin> blocked W"
  shows "ok (insertBlocked key p s) (\<lambda>(full, t).
    full = (W key = [] \<and> card {k. W k \<noteq> []} = MAXPROC) \<and> (full \<longrightarrow> t = s) \<and>
    (\<not> full \<longrightarrow> asl t K R (W(key := q_insert (prio s) p (W key))) \<and>
       pcbs t = (pcbs s)(p := (pcbs s p)\<lparr>p_semkey := key\<rparr>)))"
  using insertBlocked_spec [OF assms, of key]
  by (auto elim!: ok_mono simp: insert_result_def asl_full_def split: if_splits)

lemma insertBlocked_effect_witness:
  "ok (insertBlocked (Some (User_int 64)) (Pcb 1) example_start) (\<lambda>(full, t). \<not> full \<and>
    asl t sched_heads (own_queues example_sched) ((\<lambda>_. [])(Some (User_int 64) := [Pcb 1])))"
  using insertBlocked_effect [OF example_tables(1), of "Pcb 1" "Some (User_int 64)"]
  by (auto elim!: ok_mono simp: blocked_iff MAXPROC_def)

text \<open>\<open>removeBlocked\<close> wakes the first process of the key's queue, the earliest of those with the
  highest priority, and gives the descriptor back when the queue becomes empty; with no process
  blocked on the key it returns NULL and changes nothing.\<close>

lemma removeBlocked_first:
  assumes "asl s K R W"
  shows "ok (removeBlocked key s) (\<lambda>(r, t). case W key of
      [] \<Rightarrow> r = None \<and> t = s
    | p # q \<Rightarrow> r = Some p \<and> asl t K R (W(key := q)) \<and>
        pcbs t = (pcbs s)(p := (pcbs s p)\<lparr>p_semkey := None\<rparr>))"
  using removeBlocked_spec [OF assms, of key]
  by (auto elim!: ok_mono simp: remove_result_def split: list.splits)

lemma removeBlocked_first_example:
  "removeBlocked (Some (User_int 64)) example_start = Inr (None, example_start)"
  using removeBlocked_first [OF example_tables(1), of "Some (User_int 64)"] by (auto simp: ok_iff)

text \<open>Round trip: blocking a process on a key and taking it out again by \<open>outBlocked\<close> leaves every
  queue as it was, whether or not the key had a semaphore before.\<close>

theorem block_out_round_trip:
  assumes "asl s K R W" and "p \<notin> own_members K R" "p \<notin> blocked W"
    and room: "W key \<noteq> [] \<or> card {k. W k \<noteq> []} < MAXPROC"
  shows "ok (andThen (insertBlocked key p s) (\<lambda>(full, t). outBlocked p t)) (\<lambda>(r, t).
    r = Some p \<and> asl t K R W \<and> pcbs t = (pcbs s)(p := (pcbs s p)\<lparr>p_semkey := None\<rparr>))"
proof -
  let ?q = "q_insert (prio s) p (W key)"
  have nf: "\<not> (W key = [] \<and> asl_full W)" using room by (auto simp: asl_full_def)
  obtain t where t: "insertBlocked key p s = Inr (False, t)" "asl t K R (W(key := ?q))"
      "pcbs t = (pcbs s)(p := (pcbs s p)\<lparr>p_semkey := key\<rparr>)"
    using insertBlocked_spec [OF assms(1-3), of key] nf
    by (auto simp: ok_iff insert_result_def split: if_splits)
  have "p \<notin> set (W key)" using assms(3) by (auto simp: blocked_iff)
  then have W: "W(key := remove1 p ?q) = W" by (simp add: remove1_q_insert)
  show ?thesis
    using outBlocked_spec [OF t(2), of key p] t(1,3) W
    by (auto elim!: ok_mono simp: remove_result_def)
qed

lemma block_out_round_trip_witness:
  "ok (andThen (insertBlocked (Some (User_int 64)) (Pcb 1) example_start) (\<lambda>(full, t). outBlocked (Pcb 1) t))
    (\<lambda>(r, t). r = Some (Pcb 1) \<and> asl t sched_heads (own_queues example_sched) (\<lambda>_. []))"
  using block_out_round_trip [OF example_tables(1), of "Pcb 1" "Some (User_int 64)"]
  by (auto elim!: ok_mono simp: blocked_iff MAXPROC_def)

section \<open>The tree of processes\<close>



text \<open>\<open>removeChild\<close> takes the first child of a process and makes it a root, the other children
  staying in order; a process without children gives NULL and no change.\<close>

theorem removeChild_first:
  assumes "tree_rep s A kd" and "p \<in> A"
  shows "ok (removeChild p s) (\<lambda>(r, t). case kd p of
      [] \<Rightarrow> r = None \<and> t = s
    | c # cs \<Rightarrow> r = Some c \<and> tree_rep t A (kd(p := cs)) \<and> p_parent (pcbs t c) = None \<and>
        (\<forall>q. q \<noteq> c \<longrightarrow> pcbs t q = pcbs s q))"
proof (cases "kd p")
  case Nil
  then show ?thesis
    using removeChild_Nil [of s p] tree_rep_node [OF assms] by simp
next
  case (Cons c cs)
  then show ?thesis
    using removeChild_Cons [OF assms Cons] by (auto elim!: ok_mono simp: pcb_only_def)
qed

lemma removeChild_first_witness:
  "removeChild (Pcb 0) example_start = Inr (None, example_start)"
  using removeChild_first [OF example_tables(2), of "Pcb 0"] by (auto simp: ok_iff example_live)

text \<open>C28. \<open>outChildBlocked\<close>: on a tree of processes without cycles the recursion ends, and it has taken
  the process and all its descendants out of the semaphore queues, their \<open>p_semkey\<close> reset; the other
  blocked processes stay in their order, and the tree and the other queues are as before.\<close>

theorem outChildBlocked_effect:
  assumes asl: "asl s K R W" and tree: "tree_rep s A kd" "p \<in> A"
    and wf: "wf ({(q, c). c \<in> set (kd q)}\<inverse>)" and D: "D = {(q, c). c \<in> set (kd q)}\<^sup>* `` {p}"
  shows "ok (outChildBlocked p s) (\<lambda>t. asl t K R (\<lambda>key. filter (\<lambda>q. q \<notin> D) (W key)) \<and> tree_rep t A kd \<and>
    (\<forall>q. pcbs t q = (if q \<in> D \<and> q \<in> blocked W then (pcbs s q)\<lparr>p_semkey := None\<rparr> else pcbs s q)))"
proof -
  obtain xs where xs: "subtree kd p xs" using subtree_exists [OF wf] by blast
  have "set xs = D" using subtree_set(1) [OF xs] D by simp
  then show ?thesis
    using outChildBlocked_spec [OF asl tree xs] tree(1) unblocked_tree [of xs K R W s]
    by (auto elim!: ok_mono simp: unblocked_def)
qed

text \<open>\<open>Pcb 1\<close>, a child of \<open>Pcb 0\<close>, is blocked; \<open>outChildBlocked\<close> of \<open>Pcb 0\<close> unblocks it.\<close>

lemma outChildBlocked_effect_witness:
  "ok (andThen (insertChild (Some (Pcb 0)) (Some (Pcb 1)) example_start) (\<lambda>t.
    andThen (insertBlocked (Some (User_int 64)) (Pcb 1) t) (\<lambda>(full, u). outChildBlocked (Pcb 0) u)))
    (\<lambda>v. asl v sched_heads (own_queues example_sched) (\<lambda>_. []) \<and> p_semkey (pcbs v (Pcb 1)) = None)"
proof -
  let ?k = "(\<lambda>_. [])(Pcb 0 := [Pcb 1])" and ?key = "Some (User_int 64)"
  let ?A = "live example_sched" and ?R = "own_queues example_sched"
  obtain t where t: "insertChild (Some (Pcb 0)) (Some (Pcb 1)) example_start = Inr t" "tree_rep t ?A ?k"
      "pcb_only tree_cells {Pcb 1} example_start t"
      "pcbs t (Pcb 1) = (pcbs example_start (Pcb 1))\<lparr>p_parent := Some (Pcb 0)\<rparr>"
    using insertChild_spec [OF example_tables(2), of "Pcb 0" "Pcb 1"] by (auto simp: ok_iff example_live)
  have a: "asl t sched_heads ?R (\<lambda>_. [])"
    by (rule asl_same_queues [OF example_tables(1) pcb_only_same_queues [OF t(3)]]) (simp add: blocked_iff)
  obtain u where u: "insertBlocked ?key (Pcb 1) t = Inr (False, u)"
      "asl u sched_heads ?R ((\<lambda>_. [])(?key := [Pcb 1]))" "asl_frame t u"
      "pcbs u = (pcbs t)(Pcb 1 := (pcbs t (Pcb 1))\<lparr>p_semkey := ?key\<rparr>)"
    using insertBlocked_spec [OF a, of "Pcb 1" ?key] example_not_full
    by (auto simp: ok_iff insert_result_def blocked_iff split: if_splits)
  have T: "tree_rep u ?A ?k"
    using t(2) by (subst tree_rep_asl_frame [OF u(3)]) (simp_all add: u(4))
  have r: "{(q, c). c \<in> set (?k q)} = {(Pcb 0, Pcb 1)}" by (auto split: if_splits)
  have D: "{Pcb 0, Pcb 1} = {(q, c). c \<in> set (?k q)}\<^sup>* `` {Pcb 0}"
    unfolding r by (auto elim: converse_rtranclE)
  have "{(Pcb 0, Pcb 1)}\<inverse> = {(Pcb 1, Pcb 0)}" by auto
  then have wf: "wf ({(q, c). c \<in> set (?k q)}\<inverse>)" unfolding r by (simp only: wf_insert) simp
  have "ok (outChildBlocked (Pcb 0) u) (\<lambda>v.
      asl v sched_heads ?R (\<lambda>key. filter (\<lambda>q. q \<notin> {Pcb 0, Pcb 1}) (((\<lambda>_. [])(?key := [Pcb 1])) key)) \<and>
      tree_rep v ?A ?k \<and> (\<forall>q. pcbs v q = (if q \<in> {Pcb 0, Pcb 1} \<and> q \<in> blocked ((\<lambda>_. [])(?key := [Pcb 1]))
        then (pcbs u q)\<lparr>p_semkey := None\<rparr> else pcbs u q)))"
    by (rule outChildBlocked_effect [OF u(2) T _ wf D]) (simp add: example_live)
  moreover have "(\<lambda>key. filter (\<lambda>q. q \<notin> {Pcb 0, Pcb 1}) (((\<lambda>_. [])(?key := [Pcb 1])) key)) = (\<lambda>_. [])"
    by auto
  ultimately show ?thesis
    using t(1) u(1) by (auto elim!: ok_mono simp: blocked_iff)
qed

end
