(* ===== verification/Context_Switch.thy ===== *)
theory Context_Switch
  imports System_Run
begin

text \<open>
  What happens to the registers of a process while it does not run. A context is a processor state without the
  register in which a system call returns a value: every operation of the kernel leaves the saved contexts of
  all processes alone, except that of the process that it interrupts and of those that it creates or frees. The same
  lemmas bound what an operation writes into the memory of the processes, and say whom it charges for its time.
\<close>

section \<open>Contexts\<close>

definition context_of :: "state_t \<Rightarrow> state_t" where
  "context_of st = set_SYSCALL_RET_REG 0 st"

lemma context_of_set_RET [simp]: "context_of (set_SYSCALL_RET_REG v st) = context_of st"
  by (cases st) (simp_all add: context_of_def)

lemma context_of_idem [simp]: "context_of (context_of st) = context_of st"
  by (simp add: context_of_def [of st])

text \<open>
  The memory holds only one list at a list head, so it determines which PCBs are free.
\<close>

lemma links_unique: "links n a xs b \<Longrightarrow> links n a ys b \<Longrightarrow> b \<notin> set xs \<Longrightarrow> b \<notin> set ys \<Longrightarrow> xs = ys"
proof (induction xs arbitrary: a ys)
  case Nil
  then show ?case by (cases ys) auto
next
  case (Cons x xs)
  then show ?case by (cases ys) auto
qed

lemma dll_unique: "dll s h xs \<Longrightarrow> dll s h ys \<Longrightarrow> xs = ys"
  unfolding dll_def by (auto intro: links_unique)

lemma asl_unique:
  assumes "asl s K R W" and "asl s K R' W'"
  shows "W = W'" "h \<in> K - range S_procQ \<Longrightarrow> R h = R' h"
proof -
  obtain Q fs acts where a: "asl_inv s K Q fs acts {}" "\<forall>h\<in>K - range S_procQ. Q h = R h" "W = waiting s Q acts"
    using assms(1) by (rule aslE)
  obtain Q' fs' acts' where b: "asl_inv s K Q' fs' acts' {}" "\<forall>h\<in>K - range S_procQ. Q' h = R' h" "W' = waiting s Q' acts'"
    using assms(2) by (rule aslE)
  have "dll s Semd_h (map S_next acts)" "dll s Semd_h (map S_next acts')"
    using a(1) b(1) by (auto simp: asl_inv_def rings_def semd_heads_def semd_lists_def)
  then have acts: "acts = acts'" using dll_unique by (fastforce simp: inj_map_eq_map inj_def)
  have Q: "Q h = Q' h" if "h \<in> K" for h
  proof -
    have "dll s h (map P_next (Q h))" "dll s h (map P_next (Q' h))"
      using a(1) b(1) that by (auto simp: asl_inv_def rings_def)
    then show ?thesis using dll_unique by (fastforce simp: inj_map_eq_map inj_def)
  qed
  then show "h \<in> K - range S_procQ \<Longrightarrow> R h = R' h" using a(2) b(2) by auto
  have "set acts \<subseteq> {..<MAXPROC}" "\<And>i. i < MAXPROC \<Longrightarrow> S_procQ i \<in> K" using a(1) by (auto simp: asl_inv_def)
  then have "Q (S_procQ i) = Q' (S_procQ i)" if "i \<in> set acts" for i using Q that by auto
  then show "W = W'"
    by (auto simp: a(3) b(3) acts waiting_def fun_eq_iff split: option.split dest!: find_SomeD)
qed

text \<open>So the scheduler that a memory represents is unique, but for the children of PCBs that are free.\<close>

lemma repr_unique:
  assumes "repr s a" and "repr s b"
  shows "free b = free a" "ready b = ready a" "wait b = wait a" "running b = running a" "tcb b = tcb a"
proof -
  have asl: "asl s sched_heads (own_queues a) (wait a)" "asl s sched_heads (own_queues b) (wait b)"
    using assms by (simp_all add: repr_def)
  show "wait b = wait a" by (rule asl_unique(1) [OF asl(2,1)])
  have "PcbFree_h \<in> sched_heads - range S_procQ" "Ready_queue \<in> sched_heads - range S_procQ" by auto
  from this [THEN asl_unique(2) [OF asl(2,1)]] show "free b = free a" "ready b = ready a" by simp_all
  show "running b = running a" "tcb b = tcb a" using assms by (simp_all add: repr_def)
qed

text \<open>A process that exists: the idle process, and each PCB that is not in the free list.\<close>

definition allocated :: "'a kern_scheme \<Rightarrow> pcb \<Rightarrow> bool" where
  "allocated s p \<longleftrightarrow>
     p \<in> insert Idle_proc all_procs \<and> \<not> (\<exists>xs. dll s PcbFree_h (map P_next xs) \<and> p \<in> set xs)"

lemma allocated_iff:
  assumes "repr s a"
  shows "allocated s p \<longleftrightarrow> p \<in> live a"
proof -
  have r: "rings s P_next (sched_heads - range S_procQ) (own_queues a)"
    by (rule asl_rings [where W = "wait a"]) (use assms in \<open>simp add: repr_def\<close>)
  have "PcbFree_h \<in> sched_heads - range S_procQ" by auto
  from rings_dll [OF r this] have dll: "dll s PcbFree_h (map P_next (free a))" by (simp only: own_queues_simps)
  have "xs = free a" if "dll s PcbFree_h (map P_next xs)" for xs
    using dll_unique [OF that dll] by (simp add: inj_map_eq_map inj_def)
  with dll have "(\<exists>xs. dll s PcbFree_h (map P_next xs) \<and> p \<in> set xs) \<longleftrightarrow> p \<in> set (free a)" by blast
  then show ?thesis by (simp only: allocated_def live_def Diff_iff)
qed

lemma allocated_links:
  "lh_next t = lh_next s \<Longrightarrow> lh_prev t = lh_prev s \<Longrightarrow> allocated t p \<longleftrightarrow> allocated s p"
  by (simp add: allocated_def dll_def)

section \<open>Operations that leave the contexts alone\<close>

text \<open>Of the memory of the processes, only the words at the addresses \<open>A\<close> may change.\<close>

definition written :: "u32 set \<Rightarrow> 'a kern_scheme \<Rightarrow> 'b kern_scheme \<Rightarrow> bool" where
  "written A s t \<longleftrightarrow> user_state t = user_state s \<and> (\<forall>a. a \<notin> A \<longrightarrow> user_word t a = user_word s a)"

lemma written_same: "memory_same s t \<Longrightarrow> written A s t"
  by (simp add: written_def memory_same_def)

lemma written_rest: "rest_same s t \<Longrightarrow> written A s t"
  by (simp add: written_def rest_same_def)

lemma written_trans: "written A s t \<Longrightarrow> written A t u \<Longrightarrow> written A s u"
  by (simp add: written_def)

text \<open>
  The accounts of a process: user time, kernel time, and the time of the last reading of the clock. The time since this
  reading may be added to the kernel time, if the process is one of those that are charged (\<open>own\<close>).
\<close>

definition accounts :: "pcb_t \<Rightarrow> u32 \<times> u32 \<times> u32" where
  "accounts c = (user_timer c, kernel_timer c, tod_cache c)"

fun charged :: "bool \<Rightarrow> u32 \<times> u32 \<times> u32 \<Rightarrow> u32 \<times> u32 \<times> u32 \<Rightarrow> bool" where
  "charged own (u, k, c) (u', k', c') \<longleftrightarrow> u' = u \<and> k' - k = c' - c \<and> (own \<or> c' = c)"

lemma charged_refl [simp]: "charged own x x"
  by (cases x) simp

lemma charged_False: "charged False x y \<longleftrightarrow> y = x"
  by (cases x; cases y) auto

lemma charged_trans: "charged own x y \<Longrightarrow> charged own y z \<Longrightarrow> charged own x z"
proof (cases x; cases y; cases z)
  fix u0 k0 c0 u1 k1 c1 u2 k2 c2
  assume eq: "x = (u0, k0, c0)" "y = (u1, k1, c1)" "z = (u2, k2, c2)" and xy: "charged own x y" and yz: "charged own y z"
  have "k2 - k0 = (k2 - k1) + (k1 - k0)" by simp
  also have "\<dots> = (c2 - c1) + (c1 - c0)" using xy yz eq by simp
  finally have "k2 - k0 = c2 - c0" by simp
  then show "charged own x z" using xy yz eq by auto
qed

text \<open>
  \<open>keeps P A s t\<close>: from \<open>s\<close> to \<open>t\<close> no saved context changes, nor which processes exist, nor the exception areas, nor
  the accounts of processes outside \<open>P\<close>, nor the memory of the processes but for the words in \<open>A\<close>.
\<close>

definition pcb_kept :: "pcb set \<Rightarrow> pcb \<Rightarrow> pcb_t \<Rightarrow> pcb_t \<Rightarrow> bool" where
  "pcb_kept P q c d \<longleftrightarrow> context_of (p_s d) = context_of (p_s c) \<and> charged (q \<in> P) (accounts c) (accounts d)"

lemma pcb_kept_trans: "pcb_kept P q c d \<Longrightarrow> pcb_kept P q d e \<Longrightarrow> pcb_kept P q c e"
  by (auto simp: pcb_kept_def intro: charged_trans)

definition keeps :: "pcb set \<Rightarrow> u32 set \<Rightarrow> 'a kern_scheme \<Rightarrow> 'a kern_scheme \<Rightarrow> bool" where
  "keeps P A s t \<longleftrightarrow>
     (\<forall>q. pcb_kept P q (pcbs s q) (pcbs t q) \<and> allocated t q = allocated s q) \<and>
     kern.more t = kern.more s \<and> written A s t"

lemma keeps_refl [simp]: "keeps P A s s"
  by (simp add: keeps_def written_def pcb_kept_def)

lemma keeps_trans: "keeps P A s t \<Longrightarrow> keeps P A t u \<Longrightarrow> keeps P A s u"
  by (auto simp: keeps_def intro: written_trans pcb_kept_trans)

lemma keeps_links:
  "lh_next t = lh_next s \<Longrightarrow> lh_prev t = lh_prev s \<Longrightarrow>
    (\<And>q. p_s (pcbs t q) = p_s (pcbs s q) \<and> accounts (pcbs t q) = accounts (pcbs s q)) \<Longrightarrow>
    kern.more t = kern.more s \<Longrightarrow> written A s t \<Longrightarrow> keeps P A s t"
  by (simp add: keeps_def pcb_kept_def allocated_def dll_def)

lemma keeps_repr:
  assumes "repr s a" "repr t b" and "free b = free a" and "kern.more t = kern.more s"
    and "\<And>q. pcb_kept P q (tcb a q) (tcb b q)" and "written A s t"
  shows "keeps P A s t"
  using assms(3-6) by (simp add: keeps_def allocated_iff [OF assms(1)] allocated_iff [OF assms(2)] live_def)
    (use assms(1,2) in \<open>simp add: repr_def\<close>)

lemma keeps_refine:
  assumes "repr s a" and "ok m (\<lambda>t. repr t b \<and> R t)" and "m = Inr t" and "free b = free a"
    and "\<And>q. pcb_kept P q (tcb a q) (tcb b q)" and "R t \<Longrightarrow> kern.more t = kern.more s \<and> written A s t"
  shows "keeps P A s t"
  using assms(2,3,6) by (intro keeps_repr [OF assms(1) _ assms(4) _ assms(5)]) auto

text \<open>Effects of the abstract operations on the saved states and the accounts.\<close>

lemma p_s_ops [simp]:
  "p_s (tcb (a_stop a) q) = p_s (tcb a q)" "p_s (tcb (a_raise P a) q) = p_s (tcb a q)"
  "p_s (tcb (a_time_slice a) q) = p_s (tcb a q)" "p_s (tcb (a_flush_kernel n p a) q) = p_s (tcb a q)"
  by (simp_all add: a_stop_def a_requeue_def a_raise_def a_time_slice_def a_flush_kernel_def Let_def split: list.split)

lemma p_s_queue_ops [simp]:
  "p_s (tcb (a_block key a) q) = p_s (tcb a q)" "p_s (tcb (a_wake key a) q) = p_s (tcb a q)"
  "p_s (tcb (a_wait_ready l d a) q) = p_s (tcb a q)" "p_s (tcb (a_wait_busy l d a) q) = p_s (tcb a q)"
  by (simp_all add: a_block_def a_wake_def a_wait_ready_def a_wait_busy_def a_enqueue_def Let_def split: list.split)

lemma accounts_ops [simp]:
  "accounts (tcb (a_time_slice a) q) = accounts (tcb a q)"
  "accounts (tcb (a_block key a) q) = accounts (tcb a q)" "accounts (tcb (a_wake key a) q) = accounts (tcb a q)"
  "accounts (tcb (a_wait_ready l d a) q) = accounts (tcb a q)" "accounts (tcb (a_wait_busy l d a) q) = accounts (tcb a q)"
  "accounts (tcb (a_done_io st l d p r a) q) = accounts (tcb a q)"
  by (simp_all add: accounts_def a_stop_def a_requeue_def a_raise_def a_time_slice_def a_block_def a_wake_def a_wait_ready_def
      a_wait_busy_def a_enqueue_def a_done_io_def a_io_next_def a_io_result_def a_unblock_def a_schedule_def Let_def split: list.split)

lemma charged_flush [simp]:
  "p \<in> P \<Longrightarrow> charged (q \<in> P) x (accounts (tcb (a_flush_kernel n p a) q)) \<longleftrightarrow> charged (q \<in> P) x (accounts (tcb a q))"
  by (cases x) (auto simp: a_flush_kernel_def accounts_def algebra_simps)

lemma free_ops [simp]:
  "free (a_schedule p a) = free a" "free (a_raise P a) = free a" "free (a_time_slice a) = free a"
  "free (a_block key a) = free a" "free (a_wake key a) = free a"
  by (simp_all add: a_schedule_def a_requeue_def a_raise_def a_time_slice_def a_block_def a_wake_def Let_def split: list.split)

lemma free_io_ops [simp]:
  "free (a_wait_ready l d a) = free a" "free (a_wait_busy l d a) = free a" "free (a_done_io st l d p r a) = free a"
  by (simp_all add: a_wait_ready_def a_wait_busy_def a_enqueue_def a_done_io_def a_io_next_def a_io_result_def a_unblock_def
      Let_def split: list.split)

lemma p_s_done_io:
  "p_s (tcb (a_done_io st l d p r a) q) = (if q = p then set_SYSCALL_RET_REG st (p_s (tcb a q)) else p_s (tcb a q))"
  by (simp add: a_done_io_def a_io_next_def a_io_result_def a_unblock_def split: list.split)

lemma create_effect:
  assumes "free a = p # q"
  shows "p_s (tcb (a_create st pri a) x) = (if x = p then st else p_s (tcb a x))" "free (a_create st pri a) = q"
    and "x \<noteq> p \<Longrightarrow> accounts (tcb (a_create st pri a) x) = accounts (tcb a x)"
  using assms by (simp_all add: a_create_def accounts_def a_schedule_def a_stop_def a_requeue_def Let_def)

lemma keeps_time_slice:
  assumes "kinv w s" and "time_slice_callback s = Inr t"
  shows "keeps P A s t"
proof -
  obtain a where a: "repr s a" "sched_wf a" using assms(1) by (rule kinvE)
  have "ok (time_slice_callback s) (\<lambda>t. repr t (a_time_slice a) \<and> rest_same s t)"
    by (rule time_slice_refines [OF a(1)]) (rule running_unqueued [OF a(2)])
  then show ?thesis by (rule keeps_refine [OF a(1) _ assms(2)]) (simp_all add: rest_same_def written_rest pcb_kept_def)
qed

lemma keeps_read_TOD: "rest_same (snd (read_TOD w s)) t \<Longrightarrow> kern.more t = kern.more s \<and> written A s t"
  by (simp add: rest_same_def written_def read_TOD_def split: prod.splits)

lemma keeps_store_word: "store_int (Some (User_int u)) v s = Inr t \<Longrightarrow> u \<in> A \<Longrightarrow> keeps P A s t"
  by (auto simp: written_def intro!: keeps_links)

lemma store_word_rest:
  "store_int (Some (User_int u)) v s = Inr t \<Longrightarrow> u \<in> A \<Longrightarrow> kern.more t = kern.more s \<and> written A s t"
  using keeps_store_word [of u v s t A] by (simp add: keeps_def)

lemma keeps_passeren:
  assumes "kinv w s" and run: "running_proc s \<noteq> Some Idle_proc" and t: "passeren w (Some (User_int u)) s = Inr t"
    and u: "u \<in> A" and P: "set_option (running_proc s) \<subseteq> P"
  shows "keeps P A s t"
proof -
  obtain a where a: "repr s a" "sched_wf a" using assms(1) by (rule kinvE)
  have l: "load_int (Some (User_int u)) s = Inr (user_word s u)" by simp
  have r: "running a \<noteq> Idle_proc" and p: "running a \<in> P" using run P repr_running [OF a(1)] by simp_all
  show ?thesis
  proof (cases "0 \<le> sint (user_word s u - 1)")
    case True
    show ?thesis
      by (rule keeps_refine [OF a(1) passeren_free [OF a(1) l True] t]) (use u in \<open>auto simp: store_word_rest pcb_kept_def simp del: store_int.simps\<close>)
  next
    case False
    have n: "sint (user_word s u - 1) < 0" using False by simp
    show ?thesis
      by (rule keeps_refine [OF a(1) passeren_block [OF a(1) l n running_unqueued [OF a(2) r] wait_not_full [OF a(2) r]] t])
        (simp_all add: keeps_read_TOD pcb_kept_def p)
  qed
qed

lemma keeps_verhogen:
  assumes "kinv w s" and t: "verhogen (Some (User_int u)) s = Inr t" and u: "u \<in> A"
  shows "keeps P A s t"
proof -
  obtain a where a: "repr s a" "sched_wf a" using assms(1) by (rule kinvE)
  have l: "load_int (Some (User_int u)) s = Inr (user_word s u)" by simp
  show ?thesis
  proof (cases "wait a (Some (User_int u))")
    case Nil
    show ?thesis by (rule keeps_refine [OF a(1) verhogen_free [OF a(1) l Nil] t]) (use u in \<open>auto simp: store_word_rest pcb_kept_def simp del: store_int.simps\<close>)
  next
    case (Cons p q)
    have "core a {running a}" using a(2) by (simp add: sched_wf_def)
    from verhogen_wake [OF a(1) l this Cons] show ?thesis
      by (rule keeps_refine [OF a(1) _ t]) (simp_all add: rest_same_def written_rest pcb_kept_def)
  qed
qed

lemma keeps_int_at:
  assumes "kinv w s" and A: "a \<noteq> 0 \<Longrightarrow> a \<in> A"
  shows "verhogen (int_at a) s = Inr t \<Longrightarrow> keeps P A s t"
    and "running_proc s \<noteq> Some Idle_proc \<Longrightarrow> set_option (running_proc s) \<subseteq> P \<Longrightarrow>
      passeren w (int_at a) s = Inr t \<Longrightarrow> keeps P A s t"
proof -
  have null: "verhogen None s = Inl NullDeref" "passeren w None s = Inl NullDeref"
    by (simp_all add: verhogen_def passeren_def)
  show "verhogen (int_at a) s = Inr t \<Longrightarrow> keeps P A s t"
    using keeps_verhogen [OF assms(1) _ A] null by (cases "a = 0") (simp_all add: int_at_def)
  show "running_proc s \<noteq> Some Idle_proc \<Longrightarrow> set_option (running_proc s) \<subseteq> P \<Longrightarrow>
      passeren w (int_at a) s = Inr t \<Longrightarrow> keeps P A s t"
    using keeps_passeren [OF assms(1) _ _ A] null by (cases "a = 0") (simp_all add: int_at_def)
qed

lemma keeps_wait_io:
  assumes "kinv w s" and run: "running_proc s \<noteq> Some Idle_proc" and t: "wait_io w cmd dev_reg sub s = Inr t"
    and P: "set_option (running_proc s) \<subseteq> P"
  shows "keeps P A s t"
proof -
  obtain a where a: "repr s a" "sched_wf a" "dev_inv w s a" using assms(1) by (rule kinvE)
  have r: "running a \<noteq> Idle_proc" and p: "running a \<in> P" using run P repr_running [OF a(1)] by simp_all
  obtain l d where dev: "io_device w dev_reg sub = Inr (l, d)"
    using t by (auto simp: wait_io_def io_device_def Let_def andThen_eq_Inr)
  show ?thesis
  proof (cases "w_for_res s l d")
    case None
    show ?thesis
      using wait_io_idle [OF a r dev None, unfolded Let_def, of cmd] t p by (auto simp: pcb_kept_def intro!: keeps_repr [OF a(1)] written_same)
  next
    case (Some p)
    show ?thesis
      using wait_io_queued [OF a r dev Some, unfolded Let_def, of cmd] t p by (auto simp: pcb_kept_def intro!: keeps_repr [OF a(1)] written_same)
  qed
qed

text \<open>Interrupts.\<close>

lemma keeps_bus: "keeps P A s (s\<lparr>bus := b\<rparr>)"
  by (rule keeps_links) (simp_all add: written_def)

lemma keeps_on_bus: "on_bus f s = (v, t) \<Longrightarrow> keeps P A s t"
  by (auto simp: on_bus_def keeps_bus split: prod.splits)

lemma keeps_done_io:
  assumes "kinv w s" and t: "done_io w l d s = Inr t"
  shows "keeps P A s t"
proof -
  obtain a where a: "repr s a" "sched_wf a" "dev_inv w s a" using assms(1) by (rule kinvE)
  have dev: "get_dev_w_list w l d = Inr (l, d)"
    using t by (auto simp: done_io_def andThen_eq_Inr get_dev_w_list_eq)
  show ?thesis
  proof (cases "w_for_res s l d = None")
    case True
    then show ?thesis using done_io_message [OF dev True t] keeps_bus by auto
  next
    case False
    then obtain p q where "wait a (Some (Dev_sem l d)) = p # q"
      using dev_invD [OF a(3) dev] by (auto simp: dev_served_def)
    from done_io_total [OF a dev this] show ?thesis
      using t by (auto simp: p_s_done_io pcb_kept_def intro!: keeps_repr [OF a(1)] written_same)
  qed
qed

lemma keeps_consume_line:
  "kinv w s \<Longrightarrow> consume_line w line k n bm s = Inr t \<Longrightarrow> keeps P A s t"
proof (induction k arbitrary: n bm s)
  case (Suc k)
  obtain u where u: "(if bm AND 1 \<noteq> 0
       then done_io w (unat (get_ext_dev_type w (word_of_nat line) 0)) n s else Inr s) = Inr u"
      "consume_line w line k (Suc n) (drop_bit 1 bm) u = Inr t"
    using Suc.prems(2) by (auto simp: andThen_eq_Inr)
  have "kinv w u" "keeps P A s u"
    using u(1) kinv_done_io_any [OF Suc.prems(1)] keeps_done_io [OF Suc.prems(1)] Suc.prems(1) by (auto split: if_splits)
  then show ?case using Suc.IH u(2) by (blast intro: keeps_trans)
qed simp

lemma keeps_consume_lines:
  "kinv w s \<Longrightarrow> consume_lines w ls s = Inr t \<Longrightarrow> keeps P A s t"
proof (induction ls arbitrary: s)
  case (Cons line ls)
  obtain pend s1 where s1: "on_bus (interrupt_pending w line) s = (pend, s1)" by fastforce
  note k1 = kinv_on_bus_eq [OF Cons.prems(1) s1]
  obtain bm s2 where s2: "on_bus (bus_read w (CDEV_BITMAP_ADDR w line)) s1 = (bm, s2)" by fastforce
  note k2 = kinv_on_bus_eq [OF k1 s2]
  have q1: "keeps P A s s1" by (rule keeps_on_bus [OF s1])
  have q2: "keeps P A s s2" by (rule keeps_trans [OF q1 keeps_on_bus [OF s2]])
  obtain u where u: "(if pend \<noteq> 0 then consume_line w line (N_DEV_PER_IL w) 0 bm s2 else Inr s1) = Inr u"
      "consume_lines w ls u = Inr t"
    using Cons.prems(2) by (auto simp: s1 s2 andThen_eq_Inr split: if_splits)
  have "kinv w u" using u(1) k1 kinv_consume_line [OF k2] by (auto split: if_splits)
  moreover have "keeps P A s u"
    using u(1) q1 keeps_trans [OF q2 keeps_consume_line [OF k2]] by (auto split: if_splits)
  ultimately show ?case using Cons.IH u(2) by (blast intro: keeps_trans)
qed simp

lemma keeps_consume_subdev:
  assumes "kinv w s" and "consume_subdev w ty n s = Inr t"
  shows "keeps P A s t"
proof -
  obtain st u where u: "on_bus (get_status w ty (DEV_REG_ADDR w (IL_TERMINAL w) n)) s = (st, u)" by fastforce
  show ?thesis
    using assms(2) keeps_on_bus [OF u] keeps_trans [OF keeps_on_bus [OF u] keeps_done_io [OF kinv_on_bus_eq [OF assms(1) u]]]
    by (auto simp: consume_subdev_def u split: if_splits)
qed

lemma keeps_consume_terminals:
  "kinv w s \<Longrightarrow> consume_terminals w k n bm s = Inr t \<Longrightarrow> keeps P A s t"
proof (induction k arbitrary: n bm s)
  case (Suc k)
  obtain u where u: "(if bm AND 1 \<noteq> 0
       then andThen (consume_subdev w TERM_RX n s) (consume_subdev w TERM_TX n) else Inr s) = Inr u"
      "consume_terminals w k (Suc n) (drop_bit 1 bm) u = Inr t"
    using Suc.prems(2) by (auto simp: andThen_eq_Inr)
  have "kinv w u \<and> keeps P A s u"
    using u(1) Suc.prems(1)
    by (auto simp: andThen_eq_Inr split: if_splits dest: kinv_consume_subdev intro: keeps_trans keeps_consume_subdev)
  then show ?case using Suc.IH u(2) by (blast intro: keeps_trans)
qed simp

lemma keeps_consume_interrupts:
  assumes "kinv w s" and p: "\<And>p. prio s p < 2147483647" and t: "consume_interrupts w s = Inr t"
  shows "keeps P A (set_area OLD INTR (adjust_pc w (area s OLD INTR)) s) t"
proof -
  obtain timer s1 u v pend s2 bm s3
    where s1: "on_bus (interrupt_pending w 2) (set_area OLD INTR (adjust_pc w (area s OLD INTR)) s) = (timer, s1)"
      and u: "(if timer \<noteq> 0 then time_slice_callback s1 else Inr s1) = Inr u"
        "consume_lines w [N_IL w - N_EXT_IL w..<IL_TERMINAL w] u = Inr v"
      and s2: "on_bus (interrupt_pending w (IL_TERMINAL w)) v = (pend, s2)"
      and s3: "on_bus (bus_read w (CDEV_BITMAP_ADDR w (IL_TERMINAL w))) s2 = (bm, s3)"
      and terms: "(if pend \<noteq> 0 then consume_terminals w (N_DEV_PER_IL w) 0 bm s3 else Inr s2) = Inr t"
    using t by (rule consume_interruptsE)
  have k1: "kinv w s1" by (rule kinv_on_bus_eq [OF _ s1]) (simp add: assms(1))
  have p1: "prio s1 q < 2147483647" for q
    using s1 p by (auto simp: on_bus_def set_area_def prio_def split: prod.splits)
  have ku: "kinv w u" using u(1) k1 kinv_time_slice [OF k1 p1] by (auto split: if_splits simp: ok_iff)
  have qu: "keeps P A s1 u" using u(1) keeps_time_slice [OF k1] by (auto split: if_splits)
  have kv: "kinv w v" using ku u(2) by (rule kinv_consume_lines)
  note k2 = kinv_on_bus_eq [OF kv s2]
  have "keeps P A (set_area OLD INTR (adjust_pc w (area s OLD INTR)) s) s2"
    by (rule keeps_trans [OF keeps_on_bus [OF s1]], rule keeps_trans [OF qu], rule keeps_trans [OF keeps_consume_lines [OF ku u(2)]])
      (rule keeps_on_bus [OF s2])
  moreover have "keeps P A s2 t"
    using terms keeps_trans [OF keeps_on_bus [OF s3] keeps_consume_terminals [OF kinv_on_bus_eq [OF k2 s3]]]
    by (auto split: if_splits)
  ultimately show ?thesis by (rule keeps_trans)
qed

text \<open>System calls.\<close>

definition contexts_kept :: "'a kern_scheme \<Rightarrow> 'b kern_scheme \<Rightarrow> bool" where
  "contexts_kept s t \<longleftrightarrow>
     (\<forall>q. allocated t q \<longrightarrow>
        (allocated s q \<longrightarrow> context_of (p_s (pcbs t q)) = context_of (p_s (pcbs s q))) \<and>
        (\<not> allocated s q \<longrightarrow> p_s (pcbs t q) \<in> range (user_state s)))"

lemma keeps_kept: "keeps P A s t \<Longrightarrow> contexts_kept s t"
  by (simp add: keeps_def contexts_kept_def pcb_kept_def)

definition times_kept :: "pcb set \<Rightarrow> 'a kern_scheme \<Rightarrow> 'b kern_scheme \<Rightarrow> bool" where
  "times_kept P s t \<longleftrightarrow>
     (\<forall>q. allocated s q \<longrightarrow> allocated t q \<longrightarrow> charged (q \<in> P) (accounts (pcbs s q)) (accounts (pcbs t q)))"

lemma keeps_times: "keeps P A s t \<Longrightarrow> times_kept P s t"
  by (simp add: keeps_def times_kept_def pcb_kept_def)

lemma contexts_kept_cong:
  assumes "contexts_kept s t" and "lh_next s' = lh_next s" "lh_prev s' = lh_prev s" "pcbs s' = pcbs s"
    and "lh_next t' = lh_next t" "lh_prev t' = lh_prev t" "pcbs t' = pcbs t" "user_state s' = user_state s"
  shows "contexts_kept s' t'"
  using assms by (simp add: contexts_kept_def allocated_def dll_def)

lemma kept_terminate:
  fixes s :: "'a kern_scheme"
  assumes "expendable w s p" and target: "target = Some p \<or> target = None \<and> running_proc s = Some p"
    and t: "terminate_proc target s = Inr (r, t)"
  shows "contexts_kept s t" "kern.more t = kern.more s" "written A s t" "times_kept P s t"
proof -
  obtain a where a: "repr s a" "sched_wf a" and p: "p \<in> live a" "p \<in> all_procs"
    using assms(1) by (auto simp: expendable_def)
  have tree: "tree_ok a" using a(2) by (simp add: sched_wf_def core_def)
  obtain xs where xs: "offspring a p xs" using offspring_exists [OF tree] by blast
  have tgt: "target = Some p \<or> target = None \<and> p = running a"
    using target repr_running [OF a(1)] by auto
  obtain b where b: "repr t b" "terminated xs a b" "rest_same s t"
    using terminate_refines [OF a p xs tgt] t by (auto simp: ok_iff)
  show "kern.more t = kern.more s" "written A s t" using b(3) by (simp_all add: rest_same_def written_rest)
  have "free b = rev xs @ free a" "\<And>x. x \<notin> set xs \<Longrightarrow> tcb b x = tcb a x" using b(2) by (auto simp: terminated_def)
  then have "tcb b q = tcb a q \<and> q \<in> live a" if "q \<in> live b" for q using that by (simp add: live_def)
  moreover have "pcbs s = tcb a" "pcbs t = tcb b" using a(1) b(1) by (simp_all add: repr_def)
  ultimately show "contexts_kept s t" "times_kept P s t"
    by (simp_all add: contexts_kept_def times_kept_def allocated_iff [OF a(1)] allocated_iff [OF b(1)])
qed

lemma kept_create:
  assumes "kinv w s" and t: "create_process ly st pri cpid s = Inr (r, t)" and A: "cpid \<noteq> 0 \<Longrightarrow> cpid \<in> A"
  shows "contexts_kept s t" "kern.more t = kern.more s" "written A s t" "times_kept P s t"
proof -
  obtain a where a: "repr s a" "sched_wf a" using assms(1) by (rule kinvE)
  have "contexts_kept s t \<and> kern.more t = kern.more s \<and> written A s t \<and> times_kept P s t"
  proof (cases "free a")
    case Nil
    then show ?thesis using create_process_none [OF a(1) Nil] t by (simp add: keeps_kept [OF keeps_refl] written_def times_kept_def)
  next
    case (Cons p q)
    have "st \<noteq> 0"
      using create_process_null [OF a(1), of ly pri cpid] a(2) Cons t by (auto simp: sched_wf_def)
    from create_refines [OF a Cons this, of ly pri cpid] have t: "repr t (a_create (user_state s st) pri a)" "kern.more t = kern.more s"
        "written A s t"
      using t A by (auto simp: rest_same_def written_def split: if_splits)
    have "pcbs s = tcb a" "pcbs t = tcb (a_create (user_state s st) pri a)" using a(1) t(1) by (simp_all add: repr_def)
    moreover have "p \<notin> live a" "live (a_create (user_state s st) pri a) \<subseteq> insert p (live a)"
      using Cons by (auto simp: live_def create_effect [OF Cons])
    moreover from this have times: "accounts (tcb (a_create (user_state s st) pri a) q) = accounts (tcb a q)" if "q \<in> live a" for q
      using that by (intro create_effect(3) [OF Cons]) auto
    ultimately show ?thesis
      using t(2,3) by (auto simp: contexts_kept_def times_kept_def allocated_iff [OF a(1)] allocated_iff [OF t(1)]
          create_effect(1,2) [OF Cons] times)
  qed
  then show "contexts_kept s t" "kern.more t = kern.more s" "written A s t" "times_kept P s t" by simp_all
qed

lemma machine_more: "kern.more t = kern.more s \<Longrightarrow> area t = area s \<and> interrupted_proc t = interrupted_proc s"
  for s t :: machine
  by (cases s; cases t) simp

text \<open>The registers of the interrupted process, and who it is, while a system call is served. No state in an area
  changes its type.\<close>

definition same_types :: "machine \<Rightarrow> machine \<Rightarrow> bool" where
  "same_types s t \<longleftrightarrow> (\<forall>g ty. target_of (area t g ty) = target_of (area s g ty))"

definition entry_kept :: "machine \<Rightarrow> machine \<Rightarrow> bool" where
  "entry_kept s t \<longleftrightarrow>
     interrupted_proc t = interrupted_proc s \<and> context_of (area t OLD SYS) = context_of (area s OLD SYS) \<and> same_types s t"

lemma entry_kept_more: "kern.more t = kern.more s \<Longrightarrow> entry_kept s t"
  using machine_more [of t s] by (simp add: entry_kept_def same_types_def)

lemma same_types_more: "kern.more t = kern.more s \<Longrightarrow> same_types s t"
  using entry_kept_more by (simp add: entry_kept_def)

lemma same_types_trans: "same_types s t \<Longrightarrow> same_types t u \<Longrightarrow> same_types s u"
  by (simp add: same_types_def)

lemma same_types_set_area: "target_of st = target_of (area s g ty) \<Longrightarrow> same_types s (set_area g ty st s)"
  by (simp add: same_types_def set_area_def)

text \<open>What a system call may change, with the words that the process lets it write.\<close>

definition served :: "pcb set \<Rightarrow> u32 set \<Rightarrow> machine \<Rightarrow> machine \<Rightarrow> bool" where
  "served P A s t \<longleftrightarrow> contexts_kept s t \<and> entry_kept s t \<and> written A s t \<and> times_kept P s t"

definition call_writes :: "state_t \<Rightarrow> u32 set" where
  "call_writes st =
     (let n = SYSCALL_N st; arg1 = SYSCALL_ARG1 st; arg2 = SYSCALL_ARG2 st; arg3 = SYSCALL_ARG3 st in
      (if n = GETCPUTIME then {arg1, arg2, arg3} else if n = CREATEPROCESS then {arg3}
       else if n = VERHOGEN \<or> n = PASSEREN then {arg1} else if n = GETPID then {arg1, arg2} else {}) - {0})"

lemma kept_return:
  assumes "return_value (x, u) = Inr t" and "contexts_kept s u" "kern.more u = kern.more s" "written A s u"
    and "times_kept P s u"
  shows "served P A s t"
  unfolding served_def
proof (intro conjI)
  show "contexts_kept s t"
    by (rule contexts_kept_cong [OF assms(2)]) (use assms(1) in \<open>auto simp: return_value_def set_area_def\<close>)
  show "entry_kept s t"
    using assms(1) machine_more [OF assms(3)]
    by (auto simp: return_value_def set_area_def entry_kept_def same_types_def)
  show "written A s t" using assms(1,4) by (auto simp: return_value_def set_area_def written_def)
  show "times_kept P s t"
    using assms(1,5) by (auto simp: return_value_def set_area_def times_kept_def allocated_def dll_def)
qed

lemma keeps_served: "keeps P A s t \<Longrightarrow> served P A s t"
  unfolding served_def using keeps_kept keeps_times by (blast intro: entry_kept_more dest: keeps_def [THEN iffD1])

lemma keeps_store_user: "store_user a v s = Inr t \<Longrightarrow> (a \<noteq> 0 \<Longrightarrow> a \<in> A) \<Longrightarrow> keeps P A s t"
  by (auto simp: store_user_def int_at_def split: if_splits intro: keeps_store_word)

lemma kept_specpassup:
  assumes inv: "kinv w s" and kill: "\<And>r. running_proc s = Some r \<Longrightarrow> expendable w s r"
    and t: "sys_specpassup a1 a2 a3 s = Inr t"
  shows "served P A s t"
proof -
  obtain r where r: "running_proc s = Some r" using inv by (auto simp: kinv_def repr_def)
  consider (kill) x where "terminate_proc (Some r) s = Inr (x, t)"
    | (set) i j u where "set_spec_area r i a2 s = Inr u" "set_spec_area r j a3 u = Inr t"
    using t r by (auto simp: sys_specpassup_def Let_def andThen_eq_Inr split: if_splits prod.splits)
  then show ?thesis
  proof cases
    case kill
    then show ?thesis using kept_terminate [OF assms(2) [OF r], of "Some r"] entry_kept_more by (auto simp: served_def)
  next
    case set
    have q: "set_spec_area r i v s = Inr u \<Longrightarrow> keeps P A s u" for i v and s u :: machine
      by (auto simp: set_spec_area_def upd_pcb_def accounts_def written_def split: if_splits
          intro!: keeps_links)
    show ?thesis by (rule keeps_served [OF keeps_trans [OF q [OF set(1)] q [OF set(2)]]])
  qed
qed

lemma kept_syscall:
  assumes inv: "kinv w s" and guard: "call_guard w ly s" and t: "consume_syscall w ly p s = Inr t"
  shows "served (set_option (running_proc s)) (call_writes (area s OLD SYS)) s t"
proof -
  let ?st = "area s OLD SYS"
  let ?a1 = "SYSCALL_ARG1 ?st" and ?a2 = "SYSCALL_ARG2 ?st" and ?a3 = "SYSCALL_ARG3 ?st"
    and ?A = "call_writes ?st" and ?P = "set_option (running_proc s)"
  have run: "running_proc s \<noteq> Some Idle_proc" using guard by (simp add: call_guard_def Let_def)
  obtain r where r: "running_proc s = Some r" using inv by (auto simp: kinv_def repr_def)
  show ?thesis
    using t
  proof (cases rule: consume_syscallE)
    case time
    obtain n u where u: "read_TOD w s = (n, u)" by fastforce
    have A: "a \<noteq> 0 \<Longrightarrow> a \<in> {?a1, ?a2, ?a3} \<Longrightarrow> a \<in> ?A" for a
      using time(1) by (auto simp: call_writes_def Let_def)
    have "keeps ?P ?A s u" using u by (auto simp: read_TOD_def keeps_bus split: prod.splits)
    moreover have "keeps ?P ?A u t"
      using time(2) unfolding sys_getcputime_def u Let_def prod.case andThen_eq_Inr
      by (auto intro: keeps_trans dest!: keeps_store_user [OF _ A])
    ultimately show ?thesis by (rule keeps_served [OF keeps_trans])
  next
    case (create x u)
    then show ?thesis using kept_return kept_create(1-3) [OF inv, where A = ?A] kept_create(4) [OF inv, where A = ?A and P = ?P]
      by (fastforce simp: call_writes_def Let_def syscall_numbers)
  next
    case (kill tg x u)
    have e: "expendable w s (case tg of None \<Rightarrow> r | Some p \<Rightarrow> p)"
      using guard kill(1,2) r by (auto simp: call_guard_def Let_def call_target_def split: option.splits)
    have "contexts_kept s u" "kern.more u = kern.more s" "written ?A s u" "times_kept ?P s u"
      by (rule kept_terminate [OF e _ kill(3)], use r in \<open>simp split: option.split\<close>)+
    then show ?thesis using kept_return [OF kill(4)] by blast
  next
    case v
    have "?a1 \<noteq> 0 \<Longrightarrow> ?a1 \<in> ?A" using v(1) by (simp add: call_writes_def syscall_numbers)
    from keeps_int_at(1) [OF inv this v(2)] show ?thesis by (rule keeps_served)
  next
    case p
    have "?a1 \<noteq> 0 \<Longrightarrow> ?a1 \<in> ?A" using p(1) by (simp add: call_writes_def syscall_numbers)
    from keeps_int_at(2) [OF inv this run order_refl p(2)] show ?thesis by (rule keeps_served)
  next
    case io
    from keeps_wait_io [OF inv run io(2) order_refl] show ?thesis by (rule keeps_served)
  next
    case spec
    have "expendable w s q" if "running_proc s = Some q" for q
      using guard spec(1) that by (auto simp: call_guard_def Let_def)
    then show ?thesis using spec(2) by (rule kept_specpassup [OF inv])
  next
    case pid
    then have A: "a \<noteq> 0 \<Longrightarrow> a \<in> {?a1, ?a2} \<Longrightarrow> a \<in> ?A" for a by (auto simp: call_writes_def Let_def syscall_numbers)
    have "keeps ?P ?A s t"
      using pid(2) by (auto simp: sys_getpid_def andThen_eq_Inr split: if_splits intro: keeps_trans dest!: keeps_store_user [OF _ A])
    then show ?thesis by (rule keeps_served)
  qed
qed

section \<open>Handlers\<close>

text \<open>Where no saved state, no declared area, no list and not the running process change.\<close>

definition saved_same :: "'a kern_scheme \<Rightarrow> 'b kern_scheme \<Rightarrow> bool" where
  "saved_same s t \<longleftrightarrow> (\<forall>q. p_s (pcbs t q) = p_s (pcbs s q) \<and> spec_areas (pcbs t q) = spec_areas (pcbs s q)) \<and>
     lh_next t = lh_next s \<and> lh_prev t = lh_prev s \<and>
     running_proc t = running_proc s"

lemma saved_flush:
  "saved_same s (flush_user_time w p s)" "saved_same s (flush_kernel_time w p s)" "saved_same s (flush_reset_time w p s)"
  by (auto simp: saved_same_def flush_user_time_def flush_kernel_time_def flush_reset_time_def read_TOD_def upd_pcb_def
      Let_def split: prod.split)

lemma area_flush [simp]:
  "area (flush_user_time w p s) = area s" "area (flush_kernel_time w p s) = area s" "area (flush_reset_time w p s) = area s"
  "interrupted_proc (flush_reset_time w p s) = interrupted_proc s"
  "memory_same s (flush_user_time w p s)" "memory_same s (flush_kernel_time w p s)" "memory_same s (flush_reset_time w p s)"
  by (auto simp: memory_same_def flush_user_time_def flush_kernel_time_def flush_reset_time_def read_TOD_def upd_pcb_def
      Let_def split: prod.split)

lemma start_handlerE:
  assumes "start_handler w s = Inr t"
  obtains p x u where "running_proc s = Some p" "u = snd (on_bus (get_INTERVAL_TIMER w) s)"
    and "t = flush_user_time w p (u\<lparr>int_timer_cache := x, interrupted_proc := Some p\<rparr>)"
proof -
  obtain n u where u: "on_bus (get_INTERVAL_TIMER w) s = (n, u)" by fastforce
  define u1 where "u1 = (if n > clock_ticks_per_time_slice u
     then u\<lparr>int_timer_cache := clock_ticks_per_time_slice u\<rparr> else u\<lparr>int_timer_cache := n\<rparr>)"
  then obtain x where x: "u1 = u\<lparr>int_timer_cache := x\<rparr>" by (cases "n > clock_ticks_per_time_slice u") auto
  obtain p where "running_proc u1 = Some p" "t = flush_user_time w p (u1\<lparr>interrupted_proc := running_proc u1\<rparr>)"
    using assms by (cases "running_proc u1") (auto simp: start_handler_def u Let_def u1_def split: if_splits)
  then show ?thesis
    using that [of p u x] u by (auto simp: x on_bus_def split: prod.splits)
qed

lemma saved_start:
  assumes "start_handler w s = Inr t"
  shows "saved_same s t" "area t = area s" "interrupted_proc t = running_proc t" "memory_same s t"
proof -
  obtain p x u where u: "running_proc s = Some p" "u = snd (on_bus (get_INTERVAL_TIMER w) s)"
    and t: "t = flush_user_time w p (u\<lparr>int_timer_cache := x, interrupted_proc := Some p\<rparr>)"
    using assms by (rule start_handlerE)
  let ?v = "u\<lparr>int_timer_cache := x, interrupted_proc := Some p\<rparr>"
  have v: "saved_same s ?v" "area ?v = area s" "memory_same s ?v"
    by (simp_all add: u on_bus_def saved_same_def memory_same_def split: prod.split)
  show "saved_same s t" using v(1) saved_flush(1) [of ?v w p] by (simp add: t saved_same_def)
  show "area t = area s" using v(2) by (simp add: t)
  show "memory_same s t" using v(3) area_flush(5) [of ?v w p] by (simp add: t memory_same_def)
  show "interrupted_proc t = running_proc t"
    by (simp add: t u on_bus_def flush_user_time_def read_TOD_def Let_def upd_pcb_def split: prod.split)
qed

text \<open>On entry, the time since the last reading of the clock is charged to the interrupted process as user time.\<close>

definition entry_tod :: "board \<Rightarrow> 'a kern_scheme \<Rightarrow> u32" where
  "entry_tod w s = fst (read_TOD w (snd (on_bus (get_INTERVAL_TIMER w) s)))"

lemma start_accounts:
  assumes "start_handler w s = Inr t" and c: "c = pcbs s q"
  shows "accounts (pcbs t q) =
    (if running_proc s = Some q then (user_timer c + (entry_tod w s - tod_cache c), kernel_timer c, entry_tod w s) else accounts c)"
proof -
  obtain p x u where u: "running_proc s = Some p" "u = snd (on_bus (get_INTERVAL_TIMER w) s)"
    and t: "t = flush_user_time w p (u\<lparr>int_timer_cache := x, interrupted_proc := Some p\<rparr>)"
    using assms(1) by (rule start_handlerE)
  show ?thesis
    by (auto simp: t u c entry_tod_def flush_user_time_def read_TOD_def TOD_def bus_read_def on_bus_def upd_pcb_def accounts_def
        get_INTERVAL_TIMER_def Let_def)
qed

definition times_since :: "board \<Rightarrow> machine \<Rightarrow> machine \<Rightarrow> bool" where
  "times_since w s t \<longleftrightarrow> (\<forall>s1. start_handler w s = Inr s1 \<longrightarrow> times_kept (set_option (running_proc s)) s1 t)"

lemma accounts_flush: "charged (q \<in> {p}) (accounts (pcbs s q)) (accounts (pcbs (flush_kernel_time w p s) q))"
  by (auto simp: flush_kernel_time_def read_TOD_def upd_pcb_def accounts_def Let_def split: prod.split)

lemma saved_allocated: "saved_same s t \<Longrightarrow> allocated t q = allocated s q"
  by (simp add: saved_same_def allocated_def dll_def)

lemma conclude_contexts:
  assumes u: "conclude_handler w ty u = Inr (st, t)" and r: "running_proc u = Some r"
  shows "running_proc t = Some r" "allocated t q = allocated u q" "area t = area u"
    and "st = (if interrupted_proc u = Some r then area u OLD ty else p_s (pcbs u r))"
    and "p_s (pcbs t q) = (if interrupted_proc u = Some q \<and> q \<noteq> Idle_proc \<and> q \<noteq> r then area u OLD ty else p_s (pcbs u q))"
    and "memory_same u t"
proof -
  define v where "v = reset_int_timer w (flush_reset_time w r u)"
  have v: "saved_same u v" "area v = area u" "interrupted_proc v = interrupted_proc u" "memory_same u v"
    using saved_flush(3) [of u w r] area_flush(7) [of u w r]
    by (simp_all add: v_def reset_int_timer_def saved_same_def memory_same_def)
  define x where "x = flush_kernel_time w r (u\<lparr>bus := set_INTERVAL_TIMER w (int_timer_cache u) (bus u)\<rparr>)"
  have x: "saved_same u x" "area x = area u" "memory_same u x"
    using saved_flush(2) [of "u\<lparr>bus := set_INTERVAL_TIMER w (int_timer_cache u) (bus u)\<rparr>" w r]
      area_flush(6) [of "u\<lparr>bus := set_INTERVAL_TIMER w (int_timer_cache u) (bus u)\<rparr>" w r]
    by (simp_all add: x_def saved_same_def memory_same_def)
  have "running_proc t = Some r \<and> allocated t q = allocated u q \<and> area t = area u \<and>
      st = (if interrupted_proc u = Some r then area u OLD ty else p_s (pcbs u r)) \<and>
      p_s (pcbs t q) = (if interrupted_proc u = Some q \<and> q \<noteq> Idle_proc \<and> q \<noteq> r then area u OLD ty else p_s (pcbs u q)) \<and> memory_same u t"
  proof (cases "interrupted_proc u = Some r")
    case True
    then have "t = x" "st = area u OLD ty" using u r by (simp_all add: conclude_handler_def Let_def x_def)
    then show ?thesis using x True r saved_allocated [OF x(1)] by (auto simp: saved_same_def)
  next
    case False
    have c: "andThen (if interrupted_proc v \<noteq> Some Idle_proc
        then andThen (deref (interrupted_proc v)) (\<lambda>p. Inr (upd_pcb p (\<lambda>c. c\<lparr>p_s := area v OLD ty\<rparr>) v))
        else Inr v) (\<lambda>s. Inr (p_s (pcbs s r), s)) = Inr (st, t)"
      using u r False by (simp only: conclude_handler_def deref_simps Let_def v_def andThen_simps if_True not_False_eq_True)
    then obtain p where p: "interrupted_proc u = Some p" by (cases "interrupted_proc u") (simp_all add: v)
    have t: "t = (if p = Idle_proc then v else upd_pcb p (\<lambda>c. c\<lparr>p_s := area u OLD ty\<rparr>) v)" "st = p_s (pcbs t r)"
      using c by (auto simp: v p split: if_splits)
    have "allocated t q = allocated u q"
      using v(1) by (simp add: t(1) saved_same_def allocated_def dll_def upd_pcb_def)
    then show ?thesis using v(1,2,4) r False by (auto simp: t p saved_same_def upd_pcb_def memory_same_def)
  qed
  then show "running_proc t = Some r" "allocated t q = allocated u q" "area t = area u"
    "st = (if interrupted_proc u = Some r then area u OLD ty else p_s (pcbs u r))"
    "p_s (pcbs t q) = (if interrupted_proc u = Some q \<and> q \<noteq> Idle_proc \<and> q \<noteq> r then area u OLD ty else p_s (pcbs u q))"
    "memory_same u t"
    by simp_all
qed

lemma conclude_accounts:
  assumes u: "conclude_handler w ty u = Inr (st, t)" and r: "running_proc u = Some r"
  shows "interrupted_proc u = Some r \<or> q \<noteq> r \<Longrightarrow>
      charged (interrupted_proc u = Some q) (accounts (pcbs u q)) (accounts (pcbs t q))"
    and "user_timer (pcbs t q) = user_timer (pcbs u q)"
    and "interrupted_proc u \<noteq> Some q \<Longrightarrow> kernel_timer (pcbs t q) = kernel_timer (pcbs u q)"
  using u r
  by (cases "interrupted_proc u";
      auto simp: conclude_handler_def Let_def flush_kernel_time_def flush_reset_time_def reset_int_timer_def read_TOD_def
        upd_pcb_def accounts_def split: if_splits prod.splits)+

text \<open>The process that runs when a handler ends has its clock reading made then, next to the write of the interval timer.\<close>

lemma conclude_clock:
  assumes u: "conclude_handler w ty u = Inr (st, t)" and r: "running_proc u = Some r"
  shows "tod_cache (pcbs t q) = (if q = r
    then env w (BUS_REG_TOD_LO w) (now (bus t) - (if interrupted_proc u = Some r then 1 else 2)) else tod_cache (pcbs u q))"
  using u r
  by (cases "interrupted_proc u")
    (auto simp: conclude_handler_def Let_def flush_kernel_time_def flush_reset_time_def reset_int_timer_def read_TOD_def
      TOD_def bus_read_def set_INTERVAL_TIMER_def bus_write_def upd_pcb_def split: if_splits)

text \<open>The handler of each exception, and the guard of \<open>exec\<close> for it.\<close>

definition handler :: "board \<Rightarrow> layout \<Rightarrow> exc_type \<Rightarrow> machine \<Rightarrow> (state_t \<times> machine) res" where
  "handler w ly ty =
     (case ty of INTR \<Rightarrow> handle_interrupt w | SYS \<Rightarrow> handle_sysbreak w ly | TLB \<Rightarrow> handle_TLB w | PRG \<Rightarrow> handle_trap w)"

definition handler_guard :: "board \<Rightarrow> layout \<Rightarrow> exc_type \<Rightarrow> machine \<Rightarrow> bool" where
  "handler_guard w ly ty s \<longleftrightarrow>
     (\<forall>s1. start_handler w s = Inr s1 \<longrightarrow>
        (case ty of INTR \<Rightarrow> \<forall>p. prio s1 p < 2147483647 | SYS \<Rightarrow> call_guard w ly s1 | _ \<Rightarrow> fault_guard w ty s1))"

lemma handler_start: "handler w ly ty s = Inr r \<Longrightarrow> \<exists>s1. start_handler w s = Inr s1"
  by (cases ty) (auto simp: handler_def handle_interrupt_def handle_sysbreak_def handle_TLB_def handle_trap_def
      handle_passup_def andThen_eq_Inr)

lemma handler_exec: "handler_guard w ly ty s \<Longrightarrow> handler w ly ty s = Inr (st, t) \<Longrightarrow> exec w ly s t"
  using handler_start [of w ly ty s "(st, t)"]
  by (cases ty) (auto simp: handler_def handler_guard_def intro: exec.intros)

text \<open>The state of the interrupted process as its handler changes it on entry.\<close>

definition entry_state :: "board \<Rightarrow> exc_type \<Rightarrow> state_t \<Rightarrow> state_t" where
  "entry_state w ty st = (case ty of INTR \<Rightarrow> adjust_pc w st | SYS \<Rightarrow> skip_instr w st | _ \<Rightarrow> st)"

text \<open>A handler passes the exception up, or it ends in \<open>conclude_handler\<close> after operations that keep the contexts.\<close>

lemma saved_trans: "saved_same s t \<Longrightarrow> saved_same t u \<Longrightarrow> saved_same s u"
  by (simp add: saved_same_def)

lemma saved_set_area [simp]: "saved_same s (set_area g ty st s)" "memory_same s (set_area g ty st s)"
  by (simp_all add: saved_same_def set_area_def memory_same_def)

lemma memory_same_trans: "memory_same s t \<Longrightarrow> memory_same t u \<Longrightarrow> memory_same s u"
  by (simp add: memory_same_def)

lemma kept_saved: "saved_same s t \<Longrightarrow> memory_same s t \<Longrightarrow> contexts_kept t u \<Longrightarrow> contexts_kept s u"
proof -
  assume a: "saved_same s t" "memory_same s t" "contexts_kept t u"
  have "allocated t = allocated s" "\<And>q. p_s (pcbs t q) = p_s (pcbs s q)"
    using a(1) saved_allocated [OF a(1)] by (auto simp: saved_same_def)
  then show ?thesis using a(2,3) by (simp add: contexts_kept_def memory_same_def)
qed

text \<open>The area that the running process has declared for an exception of this type.\<close>

definition declared_area :: "area_age \<Rightarrow> exc_type \<Rightarrow> machine \<Rightarrow> u32 option" where
  "declared_area age ty s =
     (case running_proc s of None \<Rightarrow> None | Some p \<Rightarrow> spec_areas (pcbs s p) (exc_index ty * 2 + age_index age))"

lemma declared_area_saved: "saved_same s t \<Longrightarrow> declared_area age ty t = declared_area age ty s"
  by (simp add: declared_area_def saved_same_def split: option.split)

text \<open>
  A TLB miss, a trap or a breakpoint that is passed up: the code does not read the clock again, where it does for a system call.
  \<open>exit_tod\<close> is the last reading of the clock by a handler.
\<close>

definition uncharged :: "board \<Rightarrow> exc_type \<Rightarrow> machine \<Rightarrow> bool" where
  "uncharged w ty s \<longleftrightarrow>
     (case ty of INTR \<Rightarrow> False
      | SYS \<Rightarrow> get_exccode (hw.truncate w) (area s OLD SYS) \<noteq> E_SYS
      | _ \<Rightarrow> declared_area OLD ty s \<noteq> None \<and> declared_area NEW ty s \<noteq> None)"

definition exit_tod :: "board \<Rightarrow> machine \<Rightarrow> machine \<Rightarrow> u32" where
  "exit_tod w s t = env w (BUS_REG_TOD_LO w) (now (bus t) - (if running_proc t = running_proc s then 1 else 2))"

definition clock_set :: "board \<Rightarrow> exc_type \<Rightarrow> machine \<Rightarrow> machine \<Rightarrow> bool" where
  "clock_set w ty s t \<longleftrightarrow>
     (\<forall>p. running_proc s = Some p \<longrightarrow> tod_cache (pcbs t p) = (if uncharged w ty s then entry_tod w s
        else env w (BUS_REG_TOD_LO w) (now (bus t) - 1)))"

lemma declared_set:
  "running_proc s = Some r \<Longrightarrow> is_passup_set ty r s = Inr b \<Longrightarrow>
    b \<longleftrightarrow> declared_area OLD ty s \<noteq> None \<and> declared_area NEW ty s \<noteq> None"
  by (auto simp: is_passup_set_def get_spec_area_def declared_area_def andThen_eq_Inr split: if_splits)

lemma clock_start:
  assumes s1: "start_handler w s = Inr s1" and "uncharged w ty s"
  shows "clock_set w ty s s1"
proof -
  have "tod_cache (pcbs s1 p) = entry_tod w s" if "running_proc s = Some p" for p
    using start_accounts [OF s1 refl, of p] that by (simp add: accounts_def)
  then show ?thesis using assms(2) by (simp add: clock_set_def)
qed

definition passed_up :: "board \<Rightarrow> exc_type \<Rightarrow> machine \<Rightarrow> state_t \<Rightarrow> machine \<Rightarrow> bool" where
  "passed_up w ty s st t \<longleftrightarrow>
     saved_same s t \<and> same_types s t \<and>
     (target_of st = target_of (area s OLD ty) \<or> st \<in> range (user_state s)) \<and>
     times_since w s t \<and> clock_set w ty s t \<and> user_word t = user_word s \<and> (\<exists>a x. declared_area OLD ty s = Some a \<and> user_state t = (user_state s)(a := x))"

lemma passed_launch:
  assumes "launch_spec_area ty x u = Inr (st, t)" and "saved_same s u" "same_types s u" "memory_same s u" "times_since w s u"
    and "target_of x = target_of (area s OLD ty)" and "clock_set w ty s u"
  shows "passed_up w ty s st t"
proof -
  obtain a b where t: "t = u\<lparr>user_state := (user_state u)(a := x)\<rparr>" "st = user_state t b"
      and a: "declared_area OLD ty u = Some a"
    using assms(1) by (cases "running_proc u") (auto simp: launch_spec_area_def Let_def andThen_eq_Inr get_passup_area_def
        get_spec_area_def declared_area_def fun_upd_same split: option.splits if_splits simp del: fun_upd_apply)
  then have "saved_same u t" "same_types u t" by (simp_all add: saved_same_def same_types_def)
  moreover have "target_of st = target_of (area s OLD ty) \<or> st \<in> range (user_state s)"
    using t assms(4,6) by (auto simp: memory_same_def)
  moreover have "times_since w s t"
    using assms(5) by (simp add: t(1) times_since_def times_kept_def allocated_def dll_def)
  moreover have "clock_set w ty s t" using assms(7) by (simp add: t(1) clock_set_def)
  moreover have "user_word t = user_word s" "user_state t = (user_state s)(a := x)"
    using t(1) assms(4) by (simp_all add: memory_same_def)
  ultimately show ?thesis
    using saved_trans [OF assms(2)] same_types_trans [OF assms(3)] a declared_area_saved [OF assms(2)]
    by (auto simp: passed_up_def)
qed

text \<open>The words that the interrupted process lets the kernel write.\<close>

definition asked_writes :: "board \<Rightarrow> exc_type \<Rightarrow> state_t \<Rightarrow> u32 set" where
  "asked_writes w ty st = (if ty = SYS \<and> get_exccode (hw.truncate w) st = E_SYS then call_writes st else {})"

definition ends_in :: "board \<Rightarrow> exc_type \<Rightarrow> machine \<Rightarrow> machine \<Rightarrow> state_t \<Rightarrow> machine \<Rightarrow> bool" where
  "ends_in w ty s u st t \<longleftrightarrow>
     kinv w u \<and> contexts_kept s u \<and> same_types s u \<and> interrupted_proc u = running_proc s \<and>
     context_of (area u OLD ty) = context_of (entry_state w ty (area s OLD ty)) \<and>
     written (asked_writes w ty (area s OLD ty)) s u \<and> times_since w s u \<and> \<not> uncharged w ty s \<and> conclude_handler w ty u = Inr (st, t)"

lemma call_writes_skip [simp]: "call_writes (skip_instr w st) = call_writes st"
  by (cases st) (simp_all add: call_writes_def)

lemma times_flush: "times_kept {p} s (flush_kernel_time w p s)"
  by (simp add: times_kept_def accounts_flush [simplified])

lemma times_set_area [simp]: "times_kept P (set_area g ty st s) t = times_kept P s t"
proof -
  have "allocated (set_area g ty st s) = allocated s"
    using saved_allocated [OF saved_set_area(1) [of s g ty st]] by blast
  then show ?thesis by (simp add: times_kept_def) (simp add: set_area_def)
qed

lemma times_sinceI: "start_handler w s = Inr s1 \<Longrightarrow> times_kept (set_option (running_proc s)) s1 t \<Longrightarrow> times_since w s t"
  by (simp add: times_since_def)

lemma times_kept_refl [simp]: "times_kept P s s"
  by (simp add: times_kept_def)

lemma written_from: "memory_same s t \<Longrightarrow> written A t u \<Longrightarrow> written A s u"
  by (simp add: written_def memory_same_def)

lemma target_entry [simp]: "target_of (adjust_pc w st) = target_of st" "target_of (skip_instr w st) = target_of st"
  by (cases st; simp)+

lemma passup_ends:
  assumes "kinv w s" and s1: "start_handler w s = Inr s1" and kill: "fault_guard w ty s1"
    and t: "handle_passup w ty s = Inr (st, t)" and ty: "ty \<in> {TLB, PRG}"
  shows "passed_up w ty s st t \<or> (\<exists>u. ends_in w ty s u st t)"
proof -
  note k1 = kinv_start(1) [OF assms(1) s1] and v1 = saved_start [OF s1]
  obtain r where r: "running_proc s1 = Some r" using k1 by (auto simp: kinv_def repr_def)
  show ?thesis
    using t s1 r
  proof (cases rule: handle_passupE)
    case up
    have "uncharged w ty s"
      using declared_set [OF r up(1)] ty declared_area_saved [OF v1(1)] by (auto simp: uncharged_def)
    then show ?thesis
      using passed_launch [OF up(2) v1(1) _ v1(4) times_sinceI [OF s1 times_kept_refl] _ clock_start [OF s1]] v1(2)
      by (simp add: same_types_def)
  next
    case (kill x u)
    have e: "expendable w s1 r" using assms(3) r kill(1) by (simp add: fault_guard_def)
    have "kinv w u" by (rule kinv_terminate_eq [OF e _ kill(2)]) simp
    moreover have "contexts_kept s1 u" "kern.more u = kern.more s1" "written A s1 u" "times_kept P s1 u" for A P
      by (rule kept_terminate [OF e _ kill(2)], simp)+
    moreover have "\<not> uncharged w ty s"
      using declared_set [OF r kill(1)] ty declared_area_saved [OF v1(1)] by (auto simp: uncharged_def)
    ultimately have "ends_in w ty s u st t"
      using kill(3) ty v1 kept_saved [OF v1(1,4)] machine_more [of u s1] written_from [OF v1(4), of "asked_writes w ty (area s OLD ty)" u] times_sinceI [OF s1, of u]
      by (auto simp: ends_in_def entry_state_def saved_same_def same_types_def)
    then show ?thesis by blast
  qed
qed

lemma interrupt_ends:
  assumes "kinv w s" and s1: "start_handler w s = Inr s1" and p: "\<And>p. prio s1 p < 2147483647"
    and t: "handle_interrupt w s = Inr (st, t)"
  shows "\<exists>u. ends_in w INTR s u st t"
proof -
  obtain u where u: "consume_interrupts w s1 = Inr u" "conclude_handler w INTR u = Inr (st, t)"
    using t s1 by (auto simp: handle_interrupt_def andThen_eq_Inr)
  note k1 = kinv_start(1) [OF assms(1) s1] and v1 = saved_start [OF s1]
  let ?s2 = "set_area OLD INTR (adjust_pc w (area s1 OLD INTR)) s1"
  have q: "keeps P A ?s2 u" for P A by (rule keeps_consume_interrupts [OF k1 p u(1)])
  have m: "memory_same s ?s2" by (rule memory_same_trans [OF v1(4) saved_set_area(2)])
  have "contexts_kept s u"
    by (rule kept_saved [OF saved_trans [OF v1(1) saved_set_area(1)] m keeps_kept [OF q]])
  moreover have "area u = area ?s2" "interrupted_proc u = interrupted_proc ?s2"
    using q [of "{}" "{}"] machine_more [of u ?s2] by (simp_all add: keeps_def)
  moreover have "written A s u" for A using q [of "{}" A] written_from [OF m, of A u] by (simp add: keeps_def)
  moreover have "times_since w s u"
    using keeps_times [OF q] by (intro times_sinceI [OF s1]) simp
  ultimately have "ends_in w INTR s u st t"
    using u(2) kinv_consume_interrupts [OF k1 p u(1)] v1
    by (simp add: ends_in_def entry_state_def saved_same_def same_types_def set_area_def uncharged_def)
  then show ?thesis by blast
qed

lemma sysbreak_ends:
  assumes "kinv w s" and s1: "start_handler w s = Inr s1" and guard: "call_guard w ly s1"
    and t: "handle_sysbreak w ly s = Inr (st, t)"
  shows "passed_up w SYS s st t \<or> (\<exists>u. ends_in w SYS s u st t)"
proof -
  note k1 = kinv_start [OF assms(1) s1] and v1 = saved_start [OF s1]
  define s2 where "s2 = set_area OLD SYS (skip_instr w (area s1 OLD SYS)) s1"
  have k2: "kinv w s2" unfolding s2_def using k1(1) by simp
  have g2: "call_guard w ly s2" unfolding s2_def using guard by (simp add: call_guard_skip)
  have v2: "saved_same s s2" unfolding s2_def by (rule saved_trans [OF v1(1) saved_set_area(1)])
  have u2: "memory_same s s2" "same_types s s2"
    using v1 memory_same_trans [OF v1(4) saved_set_area(2)] by (simp_all add: s2_def same_types_def set_area_def)
  have ip: "interrupted_proc s2 = running_proc s2" "area s2 OLD SYS = entry_state w SYS (area s OLD SYS)"
    using k1(2) v1(2) by (simp_all add: s2_def set_area_def entry_state_def)
  have run: "running_proc s2 = running_proc s" using v2 by (simp add: saved_same_def)
  have since: "times_since w s u" if "times_kept (set_option (running_proc s2)) s2 u" for u
    using that run by (intro times_sinceI [OF s1]) (simp add: s2_def)
  obtain r where r: "running_proc s2 = Some r" using k2 by (auto simp: kinv_def repr_def)
  have ip1: "interrupted_proc s1 = Some r" using r ip(1) by (simp add: s2_def set_area_def)
  have passed: "passed_up w SYS s st t" if "launch_spec_area SYS (area s2 OLD SYS) u = Inr (st, t)" "saved_same s2 u" "area u = area s2"
      "memory_same s2 u" "times_kept {r} s2 u" "clock_set w SYS s u" for u
    by (rule passed_launch [OF that(1) saved_trans [OF v2 that(2)] _ _ since _ that(6)])
      (use u2 that(3-5) ip(2) r memory_same_trans in \<open>auto simp: same_types_def entry_state_def\<close>)
  have exc: "uncharged w SYS s \<longleftrightarrow> get_exccode (hw.truncate w) (area s2 OLD SYS) \<noteq> E_SYS"
    by (simp add: ip(2) entry_state_def uncharged_def)
  show ?thesis
    using t s1 ip1 s2_def
  proof (cases rule: handle_sysbreakE)
    case up
    have "clock_set w SYS s (flush_kernel_time w r s2)"
      using exc up(1) run r by (auto simp: clock_set_def flush_kernel_time_def read_TOD_def TOD_def bus_read_def upd_pcb_def)
    from passed [OF up(4) saved_flush(2) area_flush(2) area_flush(6) times_flush this] show ?thesis ..
  next
    case (kill x u)
    have e: "expendable w s2 r" using g2 kill(2,3) r by (simp add: call_guard_def fault_guard_def Let_def)
    have "kinv w u" by (rule kinv_terminate_eq [OF e _ kill(4)]) simp
    moreover have "contexts_kept s2 u" "kern.more u = kern.more s2" "written A s2 u" "times_kept P s2 u" for A P
      by (rule kept_terminate [OF e _ kill(4)], simp)+
    ultimately have "ends_in w SYS s u st t"
      using kill(1,5) exc kept_saved [OF v2 u2(1), of u] machine_more [of u s2] ip run u2(2)
        written_from [OF u2(1), of "asked_writes w SYS (area s OLD SYS)" u] since
      by (simp add: ends_in_def same_types_def)
    then show ?thesis by blast
  next
    case (call u)
    have "kinv w u" by (rule kinv_syscall [OF k2 g2 call(3)])
    moreover have "contexts_kept s2 u" "entry_kept s2 u" "written (asked_writes w SYS (area s OLD SYS)) s2 u"
        "times_since w s u"
      using since kept_syscall [OF k2 g2 call(3)] call(1) ip(2) by (simp_all add: served_def asked_writes_def entry_state_def)
    ultimately have "ends_in w SYS s u st t"
      using call(1,4) exc written_from [OF u2(1), of "asked_writes w SYS (area s OLD SYS)" u] kept_saved [OF v2 u2(1), of u] ip run same_types_trans [OF u2(2)]
      by (simp add: ends_in_def entry_kept_def)
    then show ?thesis by blast
  next
    case break
    have "uncharged w SYS s" using exc break(1) by simp
    then have "clock_set w SYS s s2"
      using clock_start [OF s1] by (simp add: clock_set_def s2_def) (simp add: set_area_def)
    from passed [OF break(3) _ _ _ _ this] show ?thesis by (simp add: saved_same_def memory_same_def)
  qed
qed

lemma handler_ends:
  assumes "kinv w s" and "handler_guard w ly ty s" and "handler w ly ty s = Inr (st, t)"
  shows "passed_up w ty s st t \<or> (\<exists>u. ends_in w ty s u st t)"
proof -
  obtain s1 where s1: "start_handler w s = Inr s1" using handler_start [OF assms(3)] by blast
  show ?thesis
    using assms(2,3) s1 interrupt_ends [OF assms(1) s1] sysbreak_ends [OF assms(1) s1]
      passup_ends [OF assms(1) s1, of TLB] passup_ends [OF assms(1) s1, of PRG]
    by (cases ty) (auto simp: handler_def handler_guard_def handle_TLB_def handle_trap_def)
qed

section \<open>Runs\<close>

lemma running_allocated:
  assumes "kinv w s" and "running_proc s = Some p"
  shows "allocated s p"
proof -
  obtain a where a: "repr s a" "sched_wf a" using assms(1) by (rule kinvE)
  have "running a = p" using repr_running [OF a(1)] assms(2) by simp
  moreover have "placed a {running a}" "running a \<in> insert Idle_proc all_procs" using a(2) by (auto simp: sched_wf_def core_def)
  ultimately show ?thesis using placed_out [of a "{running a}" p] by (auto simp: allocated_iff [OF a(1)] live_def)
qed

lemma handler_keeps:
  assumes "kinv w s" and "handler_guard w ly ty s" and "handler w ly ty s = Inr (st, t)"
    and "running_proc s \<noteq> Some q" and "allocated s q" "allocated t q"
  shows "context_of (p_s (pcbs t q)) = context_of (p_s (pcbs s q))"
  using handler_ends [OF assms(1-3)]
proof (elim disjE exE)
  fix u
  assume u: "ends_in w ty s u st t"
  then obtain r where r: "running_proc u = Some r" by (auto simp: ends_in_def kinv_def repr_def)
  show ?thesis
    using conclude_contexts(2,5) [OF _ r] u assms(4-6) by (auto simp: ends_in_def contexts_kept_def)
qed (simp add: passed_up_def saved_same_def)

text \<open>The interrupted process, when another one runs afterwards.\<close>

lemma handler_saves:
  assumes "kinv w s" and "handler_guard w ly ty s" and "handler w ly ty s = Inr (st, t)"
    and "running_proc s = Some p" "p \<noteq> Idle_proc" "running_proc t \<noteq> Some p"
  shows "context_of (p_s (pcbs t p)) = context_of (entry_state w ty (area s OLD ty))"
  using handler_ends [OF assms(1-3)]
proof (elim disjE exE)
  fix u
  assume u: "ends_in w ty s u st t"
  then obtain r where r: "running_proc u = Some r" by (auto simp: ends_in_def kinv_def repr_def)
  show ?thesis
    using conclude_contexts [OF _ r] u assms(4-6) by (auto simp: ends_in_def)
qed (use assms(4,6) in \<open>simp add: passed_up_def saved_same_def\<close>)

text \<open>The process that runs afterwards, when another one was interrupted.\<close>

lemma handler_loads:
  assumes "kinv w s" and "handler_guard w ly ty s" and "handler w ly ty s = Inr (st, t)"
    and "running_proc t = Some p" "p \<noteq> Idle_proc" "running_proc s \<noteq> Some p" "allocated s p"
  shows "context_of st = context_of (p_s (pcbs s p))"
  using handler_ends [OF assms(1-3)]
proof (elim disjE exE)
  fix u
  assume u: "ends_in w ty s u st t"
  then obtain r where r: "running_proc u = Some r" by (auto simp: ends_in_def kinv_def repr_def)
  note c = conclude_contexts(1,2,4) [OF _ r]
  have "r = p" using c(1) u assms(4) by (auto simp: ends_in_def)
  moreover have "allocated u p" using u r assms(5) \<open>r = p\<close> running_allocated by (auto simp: ends_in_def)
  ultimately show ?thesis using c(3) u r assms(6,7) by (auto simp: ends_in_def contexts_kept_def)
qed (use assms(4,6) in \<open>simp add: passed_up_def saved_same_def\<close>)

text \<open>A step of the system through which the process \<open>p\<close> stays alive without running.\<close>

definition sleeps :: "board \<Rightarrow> layout \<Rightarrow> pcb \<Rightarrow> machine \<Rightarrow> machine \<Rightarrow> bool" where
  "sleeps w ly p s t \<longleftrightarrow> exec w ly s t \<and> running_proc t \<noteq> Some p \<and> allocated t p"

lemma exec_keeps:
  assumes "kinv w s" and "exec w ly s t" and "running_proc s \<noteq> Some q" and "allocated s q" "allocated t q"
  shows "context_of (p_s (pcbs t q)) = context_of (p_s (pcbs s q))"
  using assms(2)
proof (cases rule: exec.cases)
  case (Interrupt s1 st)
  then show ?thesis
    using handler_keeps [OF assms(1), of ly INTR] assms(3-5) by (auto simp: handler_def handler_guard_def)
next
  case (Syscall s1 st)
  then show ?thesis
    using handler_keeps [OF assms(1), of ly SYS] assms(3-5) by (auto simp: handler_def handler_guard_def)
next
  case (TLB_miss s1 st)
  then show ?thesis
    using handler_keeps [OF assms(1), of ly TLB] assms(3-5) by (auto simp: handler_def handler_guard_def)
next
  case (Trap s1 st)
  then show ?thesis
    using handler_keeps [OF assms(1), of ly PRG] assms(3-5) by (auto simp: handler_def handler_guard_def)
qed simp

lemma sleeps_keeps:
  assumes "(sleeps w ly p)\<^sup>*\<^sup>* s t" and "kinv w s" and "running_proc s \<noteq> Some p" and "allocated s p"
  shows "kinv w t \<and> running_proc t \<noteq> Some p \<and> allocated t p \<and> context_of (p_s (pcbs t p)) = context_of (p_s (pcbs s p))"
  using assms(1)
proof (induction rule: rtranclp_induct)
  case base
  then show ?case using assms(2-4) by simp
next
  case (step t u)
  then show ?case using exec_keeps kinv_exec by (auto simp: sleeps_def)
qed

section \<open>Accounts\<close>

text \<open>What a handler charges: only the interrupted process, for the time between two readings of the clock.\<close>

lemma handler_charges:
  assumes "kinv w s" and "handler_guard w ly ty s" and "handler w ly ty s = Inr (st, t)"
    and p: "allocated s p" "allocated t p"
    and s1: "start_handler w s = Inr s1"
  shows "running_proc s = Some p \<Longrightarrow> charged True (accounts (pcbs s1 p)) (accounts (pcbs t p))"
    and "running_proc s \<noteq> Some p \<Longrightarrow>
      user_timer (pcbs t p) = user_timer (pcbs s1 p) \<and> kernel_timer (pcbs t p) = kernel_timer (pcbs s1 p)"
proof -
  have p1: "allocated s1 p" using saved_allocated [OF saved_start(1) [OF s1]] p(1) by blast
  have since: "charged (running_proc s = Some p) (accounts (pcbs s1 p)) (accounts (pcbs u p))"
    if "times_since w s u" "allocated u p" for u :: machine
    using that s1 p1 by (simp add: times_since_def times_kept_def elem_set)
  have "(running_proc s = Some p \<longrightarrow> charged True (accounts (pcbs s1 p)) (accounts (pcbs t p))) \<and>
      (running_proc s \<noteq> Some p \<longrightarrow>
        user_timer (pcbs t p) = user_timer (pcbs s1 p) \<and> kernel_timer (pcbs t p) = kernel_timer (pcbs s1 p))"
    using handler_ends [OF assms(1-3)]
  proof (elim disjE exE)
    assume "passed_up w ty s st t"
    then have "times_since w s t" by (simp add: passed_up_def)
    from since [OF this p(2)] show ?thesis
      by (cases "running_proc s = Some p") (simp_all add: charged_False, simp add: accounts_def)
  next
    fix u
    assume u: "ends_in w ty s u st t"
    then obtain r where r: "running_proc u = Some r" by (auto simp: ends_in_def kinv_def repr_def)
    have c: "conclude_handler w ty u = Inr (st, t)" and i: "interrupted_proc u = running_proc s"
      using u by (simp_all add: ends_in_def)
    have "allocated u p" using conclude_contexts(2) [OF c r] p(2) by blast
    then have su: "charged (running_proc s = Some p) (accounts (pcbs s1 p)) (accounts (pcbs u p))"
      using since u by (simp add: ends_in_def)
    show ?thesis
    proof (cases "running_proc s = Some p")
      case True
      then show ?thesis using su conclude_accounts(1) [OF c r, of p] i charged_trans by auto
    next
      case False
      then have "accounts (pcbs u p) = accounts (pcbs s1 p)" using su by (simp add: charged_False)
      then show ?thesis using False conclude_accounts(2,3) [OF c r, of p] i by (simp add: accounts_def)
    qed
  qed
  then show "running_proc s = Some p \<Longrightarrow> charged True (accounts (pcbs s1 p)) (accounts (pcbs t p))"
    "running_proc s \<noteq> Some p \<Longrightarrow>
      user_timer (pcbs t p) = user_timer (pcbs s1 p) \<and> kernel_timer (pcbs t p) = kernel_timer (pcbs s1 p)" by simp_all
qed

lemma handler_accounts:
  assumes "kinv w s" and "handler_guard w ly ty s" and "handler w ly ty s = Inr (st, t)"
    and "allocated s p" "allocated t p"
  shows "if running_proc s = Some p
    then user_timer (pcbs t p) = user_timer (pcbs s p) + (entry_tod w s - tod_cache (pcbs s p)) \<and>
      kernel_timer (pcbs t p) - kernel_timer (pcbs s p) = tod_cache (pcbs t p) - entry_tod w s
    else user_timer (pcbs t p) = user_timer (pcbs s p) \<and> kernel_timer (pcbs t p) = kernel_timer (pcbs s p)"
proof -
  obtain s1 where s1: "start_handler w s = Inr s1" using handler_start [OF assms(3)] by blast
  show ?thesis
    using handler_charges [OF assms s1] start_accounts [OF s1 refl, of p]
    by (cases "running_proc s = Some p") (simp_all add: accounts_def)
qed

text \<open>The process that runs afterwards starts its account with the last reading of the clock.\<close>

lemma handler_clock:
  assumes "kinv w s" and "handler_guard w ly ty s" and "handler w ly ty s = Inr (st, t)" and t: "running_proc t = Some p"
  shows "tod_cache (pcbs t p) = (if uncharged w ty s then entry_tod w s else exit_tod w s t)"
  using handler_ends [OF assms(1-3)]
proof (elim disjE exE)
  fix u
  assume u: "ends_in w ty s u st t"
  then obtain r where r: "running_proc u = Some r" by (auto simp: ends_in_def kinv_def repr_def)
  have c: "conclude_handler w ty u = Inr (st, t)" using u by (simp add: ends_in_def)
  have "r = p" using conclude_contexts(1) [OF c r] t by simp
  then show ?thesis
    using conclude_clock [OF c r, of p] u t by (auto simp: ends_in_def exit_tod_def)
qed (use t in \<open>simp add: passed_up_def clock_set_def saved_same_def exit_tod_def\<close>)

lemma handler_clock_other:
  assumes "kinv w s" and "handler_guard w ly ty s" and "handler w ly ty s = Inr (st, t)"
    and p: "allocated s p" "allocated t p" and "running_proc s \<noteq> Some p" "running_proc t \<noteq> Some p"
  shows "tod_cache (pcbs t p) = tod_cache (pcbs s p)"
proof -
  obtain s1 where s1: "start_handler w s = Inr s1" using handler_start [OF assms(3)] by blast
  have p1: "allocated s1 p" using saved_allocated [OF saved_start(1) [OF s1]] p(1) by blast
  have start: "tod_cache (pcbs s1 p) = tod_cache (pcbs s p)"
    using start_accounts [OF s1 refl, of p] assms(6) by (simp add: accounts_def)
  have since: "tod_cache (pcbs u p) = tod_cache (pcbs s1 p)" if "times_since w s u" "allocated u p" for u :: machine
    using that s1 p1 assms(6) by (auto simp: times_since_def times_kept_def elem_set accounts_def)
  show ?thesis
    using handler_ends [OF assms(1-3)]
  proof (elim disjE exE)
    fix u
    assume u: "ends_in w ty s u st t"
    then obtain r where r: "running_proc u = Some r" by (auto simp: ends_in_def kinv_def repr_def)
    have c: "conclude_handler w ty u = Inr (st, t)" using u by (simp add: ends_in_def)
    have "allocated u p" "p \<noteq> r" using conclude_contexts(1,2) [OF c r] p(2) assms(7) by auto
    then show ?thesis using conclude_clock [OF c r, of p] since [of u] start u by (simp add: ends_in_def)
  qed (use since [OF _ p(2)] start in \<open>simp add: passed_up_def\<close>)
qed

section \<open>Memory\<close>

text \<open>What a handler writes into the memory of the processes.\<close>

lemma handler_memory:
  assumes "kinv w s" and "handler_guard w ly ty s" and "handler w ly ty s = Inr (st, t)"
  shows "user_word t a \<noteq> user_word s a \<Longrightarrow> a \<in> asked_writes w ty (area s OLD ty)"
    and "user_state t a \<noteq> user_state s a \<Longrightarrow> declared_area OLD ty s = Some a"
proof -
  have "(user_word t a \<noteq> user_word s a \<longrightarrow> a \<in> asked_writes w ty (area s OLD ty)) \<and>
      (user_state t a \<noteq> user_state s a \<longrightarrow> declared_area OLD ty s = Some a)"
    using handler_ends [OF assms]
  proof (elim disjE exE)
    fix u
    assume u: "ends_in w ty s u st t"
    then obtain r where r: "running_proc u = Some r" by (auto simp: ends_in_def kinv_def repr_def)
    have "memory_same u t" using conclude_contexts(6) [OF _ r] u by (auto simp: ends_in_def)
    then show ?thesis using u by (auto simp: ends_in_def written_def memory_same_def)
  qed (auto simp: passed_up_def split: if_splits)
  then show "user_word t a \<noteq> user_word s a \<Longrightarrow> a \<in> asked_writes w ty (area s OLD ty)"
    "user_state t a \<noteq> user_state s a \<Longrightarrow> declared_area OLD ty s = Some a" by simp_all
qed

section \<open>Types\<close>

text \<open>
  Every state of an existing process and of an exception area has the type of the machine, so no operation of
  \<open>system_arm.c\<close> or \<open>system_mps.c\<close> is applied to a state of the other machine.
\<close>

definition typed :: "target \<Rightarrow> machine \<Rightarrow> bool" where
  "typed T s \<longleftrightarrow>
     (\<forall>p. allocated s p \<longrightarrow> target_of (p_s (pcbs s p)) = T) \<and> (\<forall>g ty. target_of (area s g ty) = T)"

lemma target_context: "context_of st = context_of st' \<Longrightarrow> target_of st = target_of st'"
  by (cases st; cases st') (auto simp: context_of_def)

lemma handler_typed:
  assumes "kinv w s" and "handler_guard w ly ty s" and "handler w ly ty s = Inr (st, t)"
    and typed: "typed T s" and mem: "\<And>a. target_of (user_state s a) = T"
  shows "target_of st = T \<and> typed T t"
  using handler_ends [OF assms(1-3)]
proof (elim disjE exE)
  assume up: "passed_up w ty s st t"
  then have "typed T t"
    using typed saved_allocated [of s t] by (simp add: passed_up_def typed_def same_types_def saved_same_def)
  moreover have "target_of st = T" using up typed mem by (auto simp: passed_up_def typed_def)
  ultimately show ?thesis by simp
next
  fix u
  assume u: "ends_in w ty s u st t"
  then obtain r where r: "running_proc u = Some r" by (auto simp: ends_in_def kinv_def repr_def)
  have area: "target_of (area u g ty) = T" for g ty
    using u typed by (simp add: ends_in_def same_types_def typed_def)
  have ps: "target_of (p_s (pcbs u q)) = T" if q: "allocated u q" for q
  proof (cases "allocated s q")
    case True
    then have "context_of (p_s (pcbs u q)) = context_of (p_s (pcbs s q))"
      using u q by (simp add: ends_in_def contexts_kept_def)
    from target_context [OF this] show ?thesis using typed True by (simp add: typed_def)
  next
    case False
    then show ?thesis using u q mem by (auto simp: ends_in_def contexts_kept_def)
  qed
  note c = conclude_contexts [OF _ r]
  have "conclude_handler w ty u = Inr (st, t)" "allocated u r" using u r running_allocated by (auto simp: ends_in_def)
  note c = c [OF this(1)] and r = this(2)
  have "target_of st = T" using c(4) area ps [OF r] by simp
  moreover have "target_of (p_s (pcbs t q)) = T" if "allocated t q" for q
    using that c(2) [of q] c(5) [of q] area ps [of q] by simp
  moreover have "target_of (area t g ty) = T" for g ty using c(3) area by simp
  ultimately show ?thesis by (simp add: typed_def)
qed

end
