(* ===== verification/Progress.thy ===== *)
theory Progress
  imports System_Run
begin

text \<open>
  The handlers of \<open>src/core/exceptions/handler.c\<close> always end: under the kernel's invariant none of
  them panics, follows a bad pointer or loops, when the board is wired as documented. Only the handler of
  interrupts prints messages, so it alone needs a terminal whose operations end: \<open>alive\<close> is the invariant
  with this terminal. \<open>serves w s t\<close> and \<open>runs w s t\<close> are what a service of the kernel does to the rest of
  the machine, without and with messages.
\<close>

section \<open>The invariant kept by a service\<close>

definition steady :: "board \<Rightarrow> 'a kern_scheme \<Rightarrow> 'a kern_scheme \<Rightarrow> bool" where
  "steady w s t \<longleftrightarrow> kinv w t \<and> terminals (bus t) = terminals (bus s)"

definition serves :: "board \<Rightarrow> 'a kern_scheme \<Rightarrow> 'a kern_scheme \<Rightarrow> bool" where
  "serves w s t \<longleftrightarrow> steady w s t \<and> kern.more t = kern.more s"

lemmas serve_defs = serves_def steady_def

lemma steady_kinv: "steady w s t \<Longrightarrow> kinv w t"
  by (simp add: steady_def)

lemma steady_trans: "steady w s t \<Longrightarrow> steady w t u \<Longrightarrow> steady w s u"
  by (simp add: steady_def)

lemma servesI:
  assumes "ok m (kinv w)" and "ok m (\<lambda>t. terminals (bus t) = terminals (bus s) \<and> kern.more t = kern.more s)"
  shows "ok m (serves w s)"
  using assms by (auto simp: ok_iff serve_defs)

lemma serves_refl: "kinv w s \<Longrightarrow> serves w s s"
  by (simp add: serve_defs)

lemma ok_serves:
  assumes "ok m (serves w s)" and "\<And>t. kinv w t \<Longrightarrow> ok (f t) (serves w t)"
  shows "ok (andThen m f) (serves w s)"
proof (cases m)
  case (Inr t)
  then have "serves w s t" using assms(1) by simp
  then show ?thesis using assms(2) [of t] Inr by (auto simp: serve_defs elim!: ok_mono)
qed (use assms(1) in simp)

lemma ok_serves_If: "(b \<Longrightarrow> ok m (serves w s)) \<Longrightarrow> kinv w s \<Longrightarrow> ok (if b then m else Inr s) (serves w s)"
  by (simp add: serves_refl)

lemma serves_on_bus:
  assumes "on_bus f s = (v, t)" and "kinv w s" and "terminals (snd (f (bus s))) = terminals (bus s)"
  shows "serves w s t"
  using assms by (auto simp: on_bus_def split_beta serve_defs kinv_bus)

lemma ok_serves_on_bus:
  assumes "kinv w s" and "terminals (snd (f (bus s))) = terminals (bus s)"
    and "\<And>v t. kinv w t \<Longrightarrow> ok (g v t) (serves w t)"
  shows "ok (case on_bus f s of (v, t) \<Rightarrow> g v t) (serves w s)"
proof -
  obtain v t where t: "on_bus f s = (v, t)" by fastforce
  show ?thesis using serves_on_bus [OF t assms(1,2)] assms(3) [of t v] by (auto simp: t serve_defs elim!: ok_mono)
qed

section \<open>The invariant with the console\<close>

definition alive :: "board \<Rightarrow> 'a kern_scheme \<Rightarrow> bool" where
  "alive w s \<longleftrightarrow> kinv w s \<and> console w (bus s)"

definition runs :: "board \<Rightarrow> 'a kern_scheme \<Rightarrow> 'a kern_scheme \<Rightarrow> bool" where
  "runs w s t \<longleftrightarrow> alive w t \<and> kern.more t = kern.more s"

lemma aliveD: "alive w s \<Longrightarrow> kinv w s" "alive w s \<Longrightarrow> console w (bus s)"
  by (simp_all add: alive_def)

lemma aliveE:
  assumes "alive w s"
  obtains a where "repr s a" "sched_wf a" "dev_inv w s a"
  using assms by (auto simp: alive_def kinv_def)

lemma runs_alive: "runs w s t \<Longrightarrow> alive w t"
  by (simp add: runs_def)

lemma runs_refl: "alive w s \<Longrightarrow> runs w s s"
  by (simp add: runs_def)

lemma ok_runs:
  assumes "ok m (runs w s)" and "\<And>t. alive w t \<Longrightarrow> ok (f t) (runs w t)"
  shows "ok (andThen m f) (runs w s)"
proof (cases m)
  case (Inr t)
  then have "runs w s t" using assms(1) by simp
  then show ?thesis using assms(2) [of t] Inr by (auto simp: runs_def elim!: ok_mono)
qed (use assms(1) in simp)

lemma ok_runs_If: "(b \<Longrightarrow> ok m (runs w s)) \<Longrightarrow> alive w s \<Longrightarrow> ok (if b then m else Inr s) (runs w s)"
  by (simp add: runs_refl)

text \<open>A routine that leaves the console alone.\<close>

lemma runs_serves: "alive w s \<Longrightarrow> serves w s t \<Longrightarrow> runs w s t"
  using console_cong [of "bus t" "bus s" w] by (simp add: alive_def runs_def serve_defs)

lemma runsI:
  assumes "ok m (kinv w)" and "ok m (\<lambda>t. terminals (bus t) = terminals (bus s) \<and> kern.more t = kern.more s)"
    and "alive w s"
  shows "ok m (runs w s)"
  by (rule ok_mono [OF servesI [OF assms(1,2)] runs_serves [OF assms(3)]])

lemma runs_rest:
  assumes "ok m (kinv w)" and "ok m (\<lambda>t. rest_same s t)" and "alive w s"
  shows "ok m (runs w s)"
  by (rule runsI [OF assms(1) _ assms(3)]) (use assms(2) in \<open>auto simp: rest_same_def elim!: ok_mono\<close>)

lemma runs_on_bus:
  assumes "on_bus f s = (v, t)" and "alive w s" and "terminals (snd (f (bus s))) = terminals (bus s)"
  shows "runs w s t"
  using runs_serves [OF assms(2) serves_on_bus [OF assms(1) aliveD(1) [OF assms(2)] assms(3)]] .

text \<open>A read of the bus before a routine.\<close>

lemma ok_on_bus:
  assumes "alive w s" and "terminals (snd (f (bus s))) = terminals (bus s)"
    and "\<And>v t. alive w t \<Longrightarrow> ok (g v t) (runs w t)"
  shows "ok (case on_bus f s of (v, t) \<Rightarrow> g v t) (runs w s)"
proof -
  obtain v t where t: "on_bus f s = (v, t)" by fastforce
  show ?thesis using runs_on_bus [OF t assms(1,2)] assms(3) [of t v] by (auto simp: t runs_def elim!: ok_mono)
qed

section \<open>Interrupts\<close>

lemma runs_time_slice:
  assumes "alive w s" and "\<And>p. prio s p < 2147483647"
  shows "ok (time_slice_callback s) (runs w s)"
proof (rule runs_rest [OF kinv_time_slice [OF aliveD(1) [OF assms(1)] assms(2)] _ assms(1)])
  obtain a where a: "repr s a" "sched_wf a" using assms(1) by (rule aliveE)
  have "ok (time_slice_callback s) (\<lambda>t. repr t (a_time_slice a) \<and> rest_same s t)"
    by (rule time_slice_refines [OF a(1)]) (rule running_unqueued [OF a(2)])
  then show "ok (time_slice_callback s) (rest_same s)" by (rule ok_mono) simp
qed

lemma runs_done_io:
  assumes "alive w s" and l: "l < N_EXT_IL w + 1" and d: "d < N_DEV_PER_IL w"
  shows "ok (done_io w l d s) (runs w s)"
proof -
  have dev: "get_dev_w_list w l d = Inr (l, d)" using l d by (simp add: get_dev_w_list_def)
  obtain a where a: "repr s a" "sched_wf a" "dev_inv w s a" using assms(1) by (rule aliveE)
  show ?thesis
  proof (cases "w_for_res s l d")
    case None
    show ?thesis
      using addokbuf_prints [OF aliveD(2) [OF assms(1)]] assms(1) None
      by (auto simp: done_io_def dev alive_def runs_def kinv_bus elim!: ok_mono)
  next
    case (Some p)
    then obtain q where "wait a (Some (Dev_sem l d)) = p # q"
      using dev_invD [OF a(3) dev] by (auto simp: dev_served_def)
    from done_io_total [OF a dev this]
    have "ok (done_io w l d s) (\<lambda>t. terminals (bus t) = terminals (bus s) \<and> kern.more t = kern.more s)"
      by (auto elim!: ok_mono)
    moreover have "ok (done_io w l d s) (kinv w)"
      using kinv_done_io [OF aliveD(1) [OF assms(1)] dev] Some by simp
    ultimately show ?thesis using runsI [OF _ _ assms(1)] by blast
  qed
qed

lemma runs_consume_line:
  assumes ty: "unat (get_ext_dev_type w (word_of_nat line) 0) < N_EXT_IL w + 1"
  shows "alive w s \<Longrightarrow> n + k \<le> N_DEV_PER_IL w \<Longrightarrow> ok (consume_line w line k n bm s) (runs w s)"
proof (induction k arbitrary: n bm s)
  case 0
  then show ?case by (simp add: runs_refl)
next
  case (Suc k)
  show ?case
    unfolding consume_line.simps
    by (intro ok_runs ok_runs_If runs_done_io ty Suc.IH) (use Suc.prems in simp_all)
qed

lemma runs_consume_lines:
  "(\<And>line. line \<in> set ls \<Longrightarrow> unat (get_ext_dev_type w (word_of_nat line) 0) < N_EXT_IL w + 1) \<Longrightarrow>
    alive w s \<Longrightarrow> ok (consume_lines w ls s) (runs w s)"
proof (induction ls arbitrary: s)
  case Nil
  then show ?case by (simp add: runs_refl)
next
  case (Cons line ls)
  have line: "unat (get_ext_dev_type w (word_of_nat line) 0) < N_EXT_IL w + 1" using Cons.prems(1) by simp
  show ?case
    unfolding consume_lines.simps
    by (intro ok_on_bus Cons ok_runs ok_runs_If runs_consume_line line) (use Cons.prems in simp_all)
qed

lemma runs_consume_subdev:
  assumes "alive w s" and "ty < N_EXT_IL w + 1" and "n < N_DEV_PER_IL w"
  shows "ok (consume_subdev w ty n s) (runs w s)"
  unfolding consume_subdev_def Let_def
  by (intro ok_on_bus assms ok_runs_If runs_done_io) simp_all

lemma runs_consume_terminals:
  assumes w: "documented w"
  shows "alive w s \<Longrightarrow> n + k \<le> 8 \<Longrightarrow> ok (consume_terminals w k n bm s) (runs w s)"
proof (induction k arbitrary: n bm s)
  case 0
  then show ?case by (simp add: runs_refl)
next
  case (Suc k)
  have ty: "TERM_RX < N_EXT_IL w + 1" "TERM_TX < N_EXT_IL w + 1" "n < N_DEV_PER_IL w"
    using Suc.prems(2) w by (simp_all add: documented_def dev_types)
  show ?case
    unfolding consume_terminals.simps
    by (intro ok_runs [OF ok_runs_If [OF ok_runs]] runs_consume_subdev Suc ty) (use Suc.prems in simp_all)
qed

lemma documented_dev_type:
  assumes "documented w" and "line \<in> set [3..<7]"
  shows "unat (get_ext_dev_type w (word_of_nat line) 0) < 6"
proof -
  have "line \<in> {3, 4, 5, 6}" using assms(2) by auto
  then show ?thesis using assms(1) by (auto simp: get_ext_dev_type_def documented_def)
qed

lemma runs_consume_interrupts:
  assumes s: "alive w s" and w: "documented w" and p: "\<And>p. prio s p < 2147483647"
  shows "ok (consume_interrupts w s) (\<lambda>t. alive w t \<and> interrupted_proc t = interrupted_proc s)"
proof -
  let ?s = "set_area OLD INTR (adjust_pc w (area s OLD INTR)) s"
  have c: "N_IL w - N_EXT_IL w = 3" "IL_TERMINAL w = 7" "N_DEV_PER_IL w = 8" and n: "N_EXT_IL w = 5"
    using w by (simp_all add: documented_def)
  have a: "alive w ?s" using s by (simp add: alive_def) (simp add: set_area_def)
  obtain timer s1 where s1: "on_bus (interrupt_pending w 2) ?s = (timer, s1)" by fastforce
  have r1: "runs w ?s s1" by (rule runs_on_bus [OF s1 a]) simp
  note a1 = runs_alive [OF r1]
  have p1: "prio s1 q < 2147483647" for q
    using s1 p by (auto simp: on_bus_def set_area_def prio_def split: prod.splits)
  have lines: "ok (consume_lines w [3..<7] t) (runs w t)" if "alive w t" for t :: machine
    using documented_dev_type [OF w] by (intro runs_consume_lines that) (simp add: n)
  have terms: "ok (case on_bus (bus_read w (CDEV_BITMAP_ADDR w 7)) t of
      (bm, u) \<Rightarrow> consume_terminals w 8 0 bm u) (runs w t)" if "alive w t" for t :: machine
    by (intro ok_on_bus that runs_consume_terminals w) simp_all
  have "ok (andThen (if timer \<noteq> 0 then time_slice_callback s1 else Inr s1) (\<lambda>s.
      andThen (consume_lines w [3..<7] s) (\<lambda>s.
      case on_bus (interrupt_pending w 7) s of (pend, s) \<Rightarrow>
        if pend \<noteq> 0
        then (case on_bus (bus_read w (CDEV_BITMAP_ADDR w 7)) s of (bitmap, s) \<Rightarrow>
                consume_terminals w 8 0 bitmap s)
        else Inr s))) (runs w s1)"
    by (intro ok_runs ok_runs_If ok_on_bus runs_time_slice lines terms a1 p1) simp_all
  then have "ok (consume_interrupts w s) (runs w s1)"
    by (simp only: consume_interrupts_def s1 Let_def c prod.case)
  then show ?thesis
  proof (rule ok_mono)
    fix t
    assume t: "runs w s1 t"
    then have "kern.more t = kern.more ?s" using r1 by (simp add: runs_def)
    then have "interrupted_proc t = interrupted_proc ?s" by (cases t; cases ?s) simp
    then show "alive w t \<and> interrupted_proc t = interrupted_proc s"
      using t by (simp add: runs_def set_area_def)
  qed
qed

section \<open>Beginning and end of a handler\<close>

lemma start_handler_eq:
  fixes s :: machine
  assumes "running_proc s = Some r"
  shows "start_handler w s = Inr (flush_user_time w r (s\<lparr>bus := (bus s)\<lparr>now := Suc (now (bus s))\<rparr>,
    int_timer_cache := min (env w (BUS_REG_TIMER w) (now (bus s))) (clock_ticks_per_time_slice s),
    interrupted_proc := Some r\<rparr>))"
  using assms
  by (cases "env w (BUS_REG_TIMER w) (now (bus s)) > clock_ticks_per_time_slice s")
    (simp_all add: start_handler_def on_bus_def get_INTERVAL_TIMER_def bus_read_def Let_def min_def)

lemma start_handler_runs:
  fixes s :: machine
  assumes "kinv w s"
  obtains r t where "start_handler w s = Inr t" "steady w s t" "running_proc s = Some r"
    "running_proc t = Some r" "interrupted_proc t = Some r" "area t = area s" "prio t = prio s"
    "user_state t = user_state s" "w_for_res t = w_for_res s" "spec_areas (pcbs t p) = spec_areas (pcbs s p)"
proof -
  obtain a where a: "repr s a" using assms by (rule kinvE)
  then have r: "running_proc s = Some (running a)" by (simp add: repr_def)
  obtain t where t: "start_handler w s = Inr t" using start_handler_eq [OF r] by blast
  have eqs: "running_proc t = Some (running a)" "interrupted_proc t = Some (running a)" "area t = area s"
    "prio t = prio s" "terminals (bus t) = terminals (bus s)" "user_state t = user_state s"
    "w_for_res t = w_for_res s" "spec_areas (pcbs t p) = spec_areas (pcbs s p)"
    using t [unfolded start_handler_eq [OF r]] r
    by (auto simp: flush_user_time_def read_TOD_def TOD_def bus_read_def upd_pcb_def prio_def fun_eq_iff)
  have "steady w s t" using kinv_start(1) [OF assms t] eqs(5) by (simp add: steady_def)
  with t r eqs show thesis using that [of t "running a"] by simp
qed

lemma conclude_handler_runs:
  fixes s :: machine
  assumes "kinv w s" and "running_proc s = Some r" and "interrupted_proc s = Some i"
  shows "ok (conclude_handler w ty s) (\<lambda>(st, t). steady w s t \<and> running_proc t = Some r \<and>
    st = (if i = r then area s OLD ty else p_s (pcbs t r)))"
proof -
  have "ok (conclude_handler w ty s) (\<lambda>(st, t). terminals (bus t) = terminals (bus s) \<and>
      running_proc t = Some r \<and> st = (if i = r then area s OLD ty else p_s (pcbs t r)))"
    using assms(2,3)
    by (auto simp: conclude_handler_def Let_def flush_reset_time_def flush_kernel_time_def reset_int_timer_def
        read_TOD_def TOD_def bus_read_def set_INTERVAL_TIMER_def bus_write_def upd_pcb_def)
  moreover have "ok (conclude_handler w ty s) (\<lambda>(st, t). kinv w t)"
    if "ok (conclude_handler w ty s) Q" for Q
    using that kinv_conclude [OF assms(1)] by (auto simp: ok_iff)
  ultimately show ?thesis by (auto simp: ok_iff steady_def)
qed

lemma handle_interrupt_runs:
  assumes s: "alive w s" and w: "documented w" and p: "\<And>p. prio s p < 2147483647"
  shows "ok (handle_interrupt w s) (\<lambda>(st, t). exec w ly s t \<and> alive w t)"
proof -
  have alive: "alive w t" if "alive w u" "steady w u t" for u t :: machine
    using that console_cong [of "bus t" "bus u" w] by (simp add: alive_def steady_def)
  obtain r s1 where s1: "start_handler w s = Inr s1" "steady w s s1" "interrupted_proc s1 = Some r" "prio s1 = prio s"
    by (rule start_handler_runs [OF aliveD(1) [OF s]])
  have p1: "prio s1 q < 2147483647" for q using p s1(4) by simp
  obtain u where u: "consume_interrupts w s1 = Inr u" "alive w u" "interrupted_proc u = Some r"
    using runs_consume_interrupts [OF alive [OF s s1(2)] w p1] s1(3) by (auto simp: ok_iff)
  obtain q where q: "running_proc u = Some q" using u(2) by (auto simp: alive_def kinv_def repr_def)
  obtain st t where t: "conclude_handler w INTR u = Inr (st, t)" "alive w t"
    using conclude_handler_runs [OF aliveD(1) [OF u(2)] q u(3), of INTR] alive [OF u(2)] by (auto simp: ok_iff)
  have "handle_interrupt w s = Inr (st, t)" by (simp add: handle_interrupt_def s1(1) u(1) t(1))
  then show ?thesis using exec.Interrupt [OF s1(1) p1, of st t ly] t(2) by simp
qed

section \<open>System calls\<close>

lemma rest_TOD:
  "rest_same (snd (read_TOD w s)) t \<Longrightarrow> terminals (bus t) = terminals (bus s) \<and> kern.more t = kern.more s"
  by (simp add: rest_same_def read_TOD_def TOD_def bus_read_def)

lemma int_at_User: "a \<noteq> 0 \<Longrightarrow> int_at a = Some (User_int a)"
  by (simp add: int_at_def)

lemma runs_passeren:
  assumes s: "kinv w s" and run: "running_proc s \<noteq> Some Idle_proc"
  shows "ok (passeren v (Some (User_int u)) s) (serves w s)"
proof (rule servesI [OF kinv_passeren [OF s run]])
  obtain a where a: "repr s a" "sched_wf a" using s by (rule kinvE)
  have r: "running a \<noteq> Idle_proc" using run repr_running [OF a(1)] by simp
  have l: "load_int (Some (User_int u)) s = Inr (user_word s u)" by simp
  show "ok (passeren v (Some (User_int u)) s) (\<lambda>t. terminals (bus t) = terminals (bus s) \<and> kern.more t = kern.more s)"
  proof (cases "0 \<le> sint (user_word s u - 1)")
    case True
    show ?thesis by (rule ok_mono [OF passeren_free [OF a(1) l True]]) auto
  next
    case False
    have "ok (passeren v (Some (User_int u)) s) (\<lambda>t.
        repr t (a_block (Some (User_int u)) (a_flush_kernel (tod_at v s) (running a) a)) \<and>
        rest_same (snd (read_TOD v s)) t)"
      by (rule passeren_block [OF a(1) l])
        (use False running_unqueued [OF a(2) r] wait_not_full [OF a(2) r] in simp_all)
    then show ?thesis by (rule ok_mono) (blast dest: rest_TOD)
  qed
qed

lemma runs_verhogen:
  assumes s: "kinv w s"
  shows "ok (verhogen (Some (User_int u)) s) (serves w s)"
proof (rule servesI [OF kinv_verhogen [OF s]])
  obtain a where a: "repr s a" "sched_wf a" using s by (rule kinvE)
  have l: "load_int (Some (User_int u)) s = Inr (user_word s u)" by simp
  show "ok (verhogen (Some (User_int u)) s) (\<lambda>t. terminals (bus t) = terminals (bus s) \<and> kern.more t = kern.more s)"
  proof (cases "wait a (Some (User_int u))")
    case Nil
    show ?thesis by (rule ok_mono [OF verhogen_free [OF a(1) l Nil]]) auto
  next
    case (Cons p q)
    have "core a {running a}" using a(2) by (simp add: sched_wf_def)
    from verhogen_wake [OF a(1) l this Cons] show ?thesis
      by (rule ok_mono) (simp add: rest_same_def)
  qed
qed

lemma runs_create:
  assumes s: "kinv w s" and st: "st \<noteq> 0"
  obtains ret t where "create_process ly st pri cpid s = Inr (ret, t)" "serves w s t"
proof -
  obtain a where a: "repr s a" "sched_wf a" using s by (rule kinvE)
  have "ok (create_process ly st pri cpid s) (\<lambda>(_, t). terminals (bus t) = terminals (bus s) \<and> kern.more t = kern.more s)"
  proof (cases "free a")
    case Nil
    then show ?thesis using create_process_none [OF a(1)] by simp
  next
    case (Cons p q)
    show ?thesis
      by (rule ok_mono [OF create_refines [OF a Cons st]]) (auto simp: rest_same_def split: if_splits)
  qed
  then obtain ret t where t: "create_process ly st pri cpid s = Inr (ret, t)"
      "terminals (bus t) = terminals (bus s)" "kern.more t = kern.more s"
    by (auto simp: ok_iff)
  have "kinv w t" using kinv_create [OF s st, of ly pri cpid] t(1) by simp
  then have "serves w s t" using t by (simp add: serve_defs)
  then show thesis using t(1) that by blast
qed

lemma runs_terminate:
  assumes s: "kinv w s" and p: "expendable w s p"
    and target: "target = Some p \<or> target = None \<and> running_proc s = Some p"
  obtains t where "terminate_proc target s = Inr (0, t)" "serves w s t"
proof -
  obtain t where t: "terminate_proc target s = Inr (0, t)" "kinv w t" "rest_same s t"
    using kinv_terminate [OF p target] by (auto simp: ok_iff)
  then have "bus t = bus s" by (simp add: rest_same_def)
  then have "serves w s t" using t by (simp add: serve_defs rest_same_def)
  then show thesis using t(1) that by blast
qed

lemma runs_wait_io:
  assumes s: "kinv w s" and run: "running_proc s = Some r" "r \<noteq> Idle_proc"
    and dev: "io_device w dev_reg sub = Inr (l, d)"
    and turn: "\<And>p. w_for_res s l d = Some p \<Longrightarrow> prio s r \<le> prio s p"
  shows "ok (wait_io w cmd dev_reg sub s) (serves w s)"
proof (rule servesI [OF kinv_wait_io [OF s run dev turn]])
  obtain a where a: "repr s a" "sched_wf a" "dev_inv w s a" using s by (rule kinvE)
  have r: "running a \<noteq> Idle_proc" using run repr_running [OF a(1)] by simp
  show "ok (wait_io w cmd dev_reg sub s) (\<lambda>t. terminals (bus t) = terminals (bus s) \<and> kern.more t = kern.more s)"
  proof (cases "w_for_res s l d")
    case None
    show ?thesis by (rule ok_mono [OF wait_io_idle [OF a r dev None, unfolded Let_def]]) simp
  next
    case (Some p)
    show ?thesis by (rule ok_mono [OF wait_io_queued [OF a r dev Some, unfolded Let_def]]) simp
  qed
qed simp_all

lemma kinv_user: "kinv w s \<Longrightarrow> kinv w (s\<lparr>user_word := f\<rparr>)"
  by (auto elim: kinv_outside)

lemma runs_store_user:
  assumes "kinv w s" and "x \<noteq> 0"
  shows "ok (store_user x v s) (serves w s)"
  using assms kinv_user [of w s] by (simp add: store_user_def int_at_def serve_defs)

lemma runs_getcputime:
  fixes s :: machine
  assumes s: "kinv w s" and p: "a1 \<noteq> 0" "a2 \<noteq> 0" "a3 \<noteq> 0"
  shows "ok (sys_getcputime w a1 a2 a3 p s) (serves w s)"
proof -
  have "read_TOD w s = on_bus (TOD w) s" by (simp add: read_TOD_def on_bus_def)
  moreover have "terminals (snd (TOD w (bus s))) = terminals (bus s)" by (simp add: TOD_def)
  ultimately show ?thesis
    unfolding sys_getcputime_def Let_def
    by (simp only:) (intro ok_serves_on_bus s ok_serves runs_store_user p, simp_all)
qed

lemma runs_getpid:
  fixes s :: machine
  assumes s: "kinv w s"
  shows "ok (sys_getpid ly a1 a2 s) (serves w s)"
proof -
  obtain r where r: "running_proc s = Some r" using s by (auto simp: kinv_def repr_def)
  have "ok (andThen (if a1 \<noteq> 0 then store_user a1 (pcb_addr ly r) s else Inr s) (\<lambda>s.
      if a2 \<noteq> 0 then store_user a2 (addr_of ly (p_parent (pcbs s r))) s else Inr s)) (serves w s)"
    by (intro ok_serves ok_serves_If runs_store_user s)
  then show ?thesis by (simp add: sys_getpid_def r)
qed

lemma runs_set_spec:
  fixes s :: machine
  assumes s: "kinv w s" and i: "i < 6"
  shows "ok (set_spec_area p i v s) (serves w s)"
proof -
  let ?t = "upd_pcb p (\<lambda>c. c\<lparr>spec_areas := (spec_areas c)(i := if v = 0 then None else Some v)\<rparr>) s"
  have "kinv w ?t" by (rule kinv_upd_pcb [OF s]) simp_all
  then have "serves w s ?t" by (simp add: serve_defs) (simp add: upd_pcb_def)
  then show ?thesis using i by (simp add: set_spec_area_def)
qed

lemma runs_specpassup:
  fixes s :: machine
  assumes s: "kinv w s" and ty: "unat a1 < 3"
    and kill: "\<And>r. running_proc s = Some r \<Longrightarrow> expendable w s r"
  shows "ok (sys_specpassup a1 a2 a3 s) (serves w s)"
proof -
  obtain r where r: "running_proc s = Some r" using s by (auto simp: kinv_def repr_def)
  obtain t where t: "terminate_proc (Some r) s = Inr (0, t)" "serves w s t"
    by (rule runs_terminate [OF s kill [OF r], of "Some r"]) simp_all
  define c where "c = (if a1 = 1 then 2 else if a1 = 2 then 1 else a1)"
  have "unat a1 \<in> {0, 1, 2}" using ty by auto
  then have "word_of_nat (unat a1) \<in> (word_of_nat ` {0, 1, 2} :: u32 set)" by (rule imageI)
  then have "a1 \<in> {0, 1, 2}" by simp
  then have i: "unat (c * 2 + 1) < 6" "unat (c * 2) < 6" by (auto simp: c_def)
  have set: "ok (andThen (set_spec_area r (unat (c * 2 + 1)) a2 s) (set_spec_area r (unat (c * 2)) a3)) (serves w s)"
    by (intro ok_serves runs_set_spec s i)
  show ?thesis
    unfolding sys_specpassup_def c_def [symmetric] Let_def r
    using set t i by (simp add: get_spec_area_def del: ok_andThen)
qed

text \<open>
  What a system call has to ask for: a service that exists, memory that is not NULL, a process, a
  device and an exception type that exist.
\<close>

definition call_valid :: "board \<Rightarrow> layout \<Rightarrow> state_t \<Rightarrow> bool" where
  "call_valid w ly st \<longleftrightarrow>
     (let n = SYSCALL_N st; a1 = SYSCALL_ARG1 st; a2 = SYSCALL_ARG2 st; a3 = SYSCALL_ARG3 st in
      n \<noteq> 0 \<and>
      (n = GETCPUTIME \<longrightarrow> a1 \<noteq> 0 \<and> a2 \<noteq> 0 \<and> a3 \<noteq> 0) \<and>
      (n = CREATEPROCESS \<or> n = VERHOGEN \<or> n = PASSEREN \<longrightarrow> a1 \<noteq> 0) \<and>
      (n = TERMINATEPROCESS \<longrightarrow> \<not> isl (pcb_ptr ly a1)) \<and>
      (n = WAITIO \<longrightarrow> \<not> isl (io_device w a2 a3)) \<and>
      (n = SPECPASSUP \<longrightarrow> unat a1 < 3))"

lemma not_isl: "\<not> isl m \<longleftrightarrow> (\<exists>x. m = Inr x)"
  by (cases m) simp_all

lemma syscall_number_cases:
  assumes "n \<noteq> 0" and "n \<le> SYSTEM_SYSCALL_MAX"
  shows "n \<in> {GETCPUTIME, CREATEPROCESS, TERMINATEPROCESS, VERHOGEN, PASSEREN, WAITIO, SPECPASSUP, GETPID}"
proof -
  have "unat n \<le> 8" using assms(2) by (simp add: SYSTEM_SYSCALL_MAX_def word_le_nat_alt)
  moreover have "unat n \<noteq> 0" using assms(1) by (simp add: unat_eq_zero)
  ultimately have "unat n \<in> {1, 2, 3, 4, 5, 6, 7, 8}" by auto
  then have "word_of_nat (unat n) \<in> (word_of_nat ` {1, 2, 3, 4, 5, 6, 7, 8} :: u32 set)" by (rule imageI)
  then show ?thesis by (simp add: syscall_numbers)
qed

lemma interrupted_more: "kern.more t = kern.more s \<Longrightarrow> interrupted_proc t = interrupted_proc (s :: machine)"
  by (cases t; cases s) simp

lemma serves_interrupted:
  fixes s :: machine
  assumes "serves w s t"
  shows "steady w s t" "interrupted_proc t = interrupted_proc s"
  using assms interrupted_more [of t s] by (simp_all add: serves_def)

lemma steady_set_area: "steady w s t \<Longrightarrow> steady w s (set_area g ty v t)"
  by (simp add: steady_def) (simp add: set_area_def)

lemma return_value_runs:
  assumes "serves w s t"
  shows "ok (return_value (v, t)) (\<lambda>u. steady w s u \<and> interrupted_proc u = interrupted_proc s)"
proof -
  note t = serves_interrupted [OF assms]
  have "interrupted_proc (set_area OLD SYS x t) = interrupted_proc t" for x by (simp add: set_area_def)
  then show ?thesis using steady_set_area [OF t(1)] t(2) by (simp only: return_value_def prod.case ok_simps)
qed

lemma consume_syscall_runs:
  assumes s: "kinv w s" and guard: "call_guard w ly s" and valid: "call_valid w ly (area s OLD SYS)"
    and max: "SYSCALL_N (area s OLD SYS) \<le> SYSTEM_SYSCALL_MAX"
  shows "ok (consume_syscall w ly p s) (\<lambda>t. steady w s t \<and> interrupted_proc t = interrupted_proc s)"
proof -
  let ?st = "area s OLD SYS"
  let ?n = "SYSCALL_N ?st" and ?a1 = "SYSCALL_ARG1 ?st" and ?a2 = "SYSCALL_ARG2 ?st" and ?a3 = "SYSCALL_ARG3 ?st"
  let ?Q = "\<lambda>t. steady w s t \<and> interrupted_proc t = interrupted_proc s"
  have run: "running_proc s \<noteq> Some Idle_proc" using guard by (simp add: call_guard_def Let_def)
  obtain r where r: "running_proc s = Some r" using s by (auto simp: kinv_def repr_def)
  have svc: "ok m (serves w s) \<Longrightarrow> ok m ?Q" for m by (erule ok_mono) (simp add: serves_interrupted)
  note defs = consume_syscall_def Let_def
  have "?n \<noteq> 0" using valid by (simp add: call_valid_def Let_def)
  then consider (time) "?n = GETCPUTIME" | (create) "?n = CREATEPROCESS" | (kill) "?n = TERMINATEPROCESS"
    | (v) "?n = VERHOGEN" | (p) "?n = PASSEREN" | (io) "?n = WAITIO" | (spec) "?n = SPECPASSUP"
    | (pid) "?n = GETPID"
    using syscall_number_cases [OF _ max] by blast
  then show ?thesis
  proof cases
    case time
    then show ?thesis using svc [OF runs_getcputime [OF s, of ?a1 ?a2 ?a3 p]] valid
      by (simp add: defs call_valid_def)
  next
    case create
    then have "?a1 \<noteq> 0" using valid by (simp add: call_valid_def Let_def)
    then obtain ret t where t: "create_process ly ?a1 ?a2 ?a3 s = Inr (ret, t)" "serves w s t"
      by (rule runs_create [OF s])
    then show ?thesis using create return_value_runs [OF t(2), of ret] by (simp add: defs syscall_numbers)
  next
    case kill
    then obtain tg where tg: "pcb_ptr ly ?a1 = Inr tg" using valid by (auto simp: call_valid_def Let_def not_isl)
    have "expendable w s (case tg of None \<Rightarrow> r | Some p \<Rightarrow> p)"
      using guard kill tg r by (auto simp: call_guard_def Let_def call_target_def split: option.splits)
    moreover have "tg = Some (case tg of None \<Rightarrow> r | Some p \<Rightarrow> p) \<or>
        tg = None \<and> running_proc s = Some (case tg of None \<Rightarrow> r | Some p \<Rightarrow> p)" by (cases tg) (simp_all add: r)
    ultimately obtain t where t: "terminate_proc tg s = Inr (0, t)" "serves w s t"
      by (rule runs_terminate [OF s])
    then show ?thesis using kill tg return_value_runs [OF t(2), of 0] by (simp add: defs syscall_numbers)
  next
    case v
    then have "?a1 \<noteq> 0" using valid by (simp add: call_valid_def Let_def)
    then show ?thesis using v svc [OF runs_verhogen [OF s, of ?a1]]
      by (simp add: defs syscall_numbers int_at_User)
  next
    case p
    then have "?a1 \<noteq> 0" using valid by (simp add: call_valid_def Let_def)
    then show ?thesis using p svc [OF runs_passeren [OF s run, of w ?a1]]
      by (simp add: defs syscall_numbers int_at_User)
  next
    case io
    then obtain l d where dev: "io_device w ?a2 ?a3 = Inr (l, d)"
      using valid by (auto simp: call_valid_def Let_def not_isl)
    have "ok (wait_io w ?a1 ?a2 ?a3 s) (serves w s)"
      by (rule runs_wait_io [OF s r _ dev])
        (use guard io dev r run in \<open>auto simp: call_guard_def Let_def\<close>)
    then show ?thesis using io svc by (simp add: defs syscall_numbers)
  next
    case spec
    have "ok (sys_specpassup ?a1 ?a2 ?a3 s) (serves w s)"
      by (rule runs_specpassup [OF s])
        (use guard valid spec in \<open>auto simp: call_guard_def call_valid_def Let_def\<close>)
    then show ?thesis using spec svc by (simp add: defs syscall_numbers)
  next
    case pid
    then show ?thesis using svc [OF runs_getpid [OF s, of ly ?a1 ?a2]] by (simp add: defs syscall_numbers)
  qed
qed

section \<open>The guards at the entry of a handler\<close>

lemma expendable_upd_pcb:
  assumes "expendable w s x" and f: "\<And>c. p_parent (f c) = p_parent c" "\<And>c. p_semkey (f c) = p_semkey c"
    "\<And>c. dev_w_list (f c) = dev_w_list c" "\<And>c. priority (f c) = priority c"
  shows "expendable w (upd_pcb p f s) x"
proof -
  obtain a where a: "repr s a" "sched_wf a" "dev_inv w s a" and x: "x \<in> live a" "x \<in> all_procs"
    and dev: "\<forall>q\<in>(child_rel a)\<^sup>* `` {x}. dev_w_list (tcb a q) = None"
    using assms(1) by (auto simp: expendable_def)
  let ?b = "upd_tcb p f a"
  have "repr (upd_pcb p f s) ?b" using f by (intro upd_pcb_refines [OF a(1), THEN conjunct1]) simp_all
  moreover have "sched_wf ?b" using a(2) f unfolding sched_wf_def by (subst core_cong [where a = a]) simp_all
  moreover have "dev_inv w (upd_pcb p f s) ?b"
    using f by (intro dev_inv_cong [OF a(3)]) (simp_all add: upd_pcb_def)
  moreover have "child_rel ?b = child_rel a" "live ?b = live a"
    by (simp_all add: child_rel_def live_def)
  moreover have "dev_w_list (tcb ?b q) = dev_w_list (tcb a q)" for q using f(3) by (simp add: upd_tcb_def)
  ultimately show ?thesis using x dev unfolding expendable_def by (intro exI [of _ ?b]) simp
qed

lemma expendable_outside:
  fixes s t :: "'a kern_scheme"
  assumes "lh_next t = lh_next s" "lh_prev t = lh_prev s" "s_key t = s_key s"
    "pcbs t = pcbs s" "running_proc t = running_proc s" "w_for_cmd_sem t = w_for_cmd_sem s"
    "w_for_res t = w_for_res s"
  shows "expendable w s x \<Longrightarrow> expendable w t x"
  using repr_same [OF assms(1-5)] assms(6,7) by (simp add: expendable_def dev_inv_def)

lemma expendable_start:
  assumes s: "kinv w s" and t: "start_handler w s = Inr t" and x: "expendable w s x"
  shows "expendable w t x"
proof -
  obtain r where r: "running_proc s = Some r" using s by (auto simp: kinv_def repr_def)
  show ?thesis
    using t [unfolded start_handler_eq [OF r]] x
    by (auto simp: flush_user_time_def read_TOD_def Let_def split: prod.splits
        intro!: expendable_upd_pcb elim!: expendable_outside [rotated -1])
qed

lemma passup_start:
  assumes "kinv w s" and "start_handler w s = Inr t"
  shows "is_passup_set ty p t = is_passup_set ty p s"
  using start_handler_runs [OF assms(1), where p = p] assms(2)
  by (fastforce simp: is_passup_set_def get_spec_area_def)

lemma fault_guard_start:
  assumes "kinv w s" and "start_handler w s = Inr t" and "fault_guard w ty s"
  shows "fault_guard w ty t"
proof -
  have "running_proc t = running_proc s" using start_handler_runs [OF assms(1)] assms(2) by force
  then show ?thesis
    using assms(3) expendable_start [OF assms(1,2)] passup_start [OF assms(1,2)]
    by (auto simp: fault_guard_def)
qed

lemma call_guard_start:
  assumes "kinv w s" and "start_handler w s = Inr t" and "call_guard w ly s"
  shows "call_guard w ly t"
proof -
  obtain r u where u: "start_handler w s = Inr u" "running_proc u = Some r" "running_proc s = Some r"
      "area u = area s" "w_for_res u = w_for_res s" "prio u = prio s"
    by (rule start_handler_runs [OF assms(1)])
  have "u = t" using u(1) assms(2) by simp
  note same = u(2-6) [unfolded this]
  show ?thesis
    using assms(3) same expendable_start [OF assms(1,2)] fault_guard_start [OF assms(1,2)]
    by (auto simp: call_guard_def call_target_def Let_def split: sum.split option.split)
qed

section \<open>Handlers\<close>

lemma is_passup_set_iff:
  "is_passup_set ty p s = Inr True \<longleftrightarrow> (\<exists>n m. get_spec_area p (exc_index ty * 2) s = Inr (Some n) \<and>
    get_spec_area p (exc_index ty * 2 + 1) s = Inr (Some m))"
  by (auto simp: is_passup_set_def get_spec_area_def)

lemma is_passup_set_total:
  assumes "ty \<noteq> INTR"
  obtains b where "is_passup_set ty p s = Inr b"
  using assms by (cases ty) (auto simp: is_passup_set_def get_spec_area_def)

lemma launch_spec_runs:
  fixes s :: machine
  assumes s: "kinv w s" and r: "running_proc s = Some r" and set: "is_passup_set ty r s = Inr True"
  obtains x t where "launch_spec_area ty st s = Inr (x, t)" "steady w s t"
proof -
  obtain n m where a: "get_spec_area r (exc_index ty * 2) u = Inr (Some n)"
      "get_spec_area r (exc_index ty * 2 + 1) u = Inr (Some m)" if "pcbs u = pcbs s" for u :: machine
    using set by (auto simp: is_passup_set_iff get_spec_area_def split: if_splits)
  let ?t = "s\<lparr>user_state := (user_state s)(m := st)\<rparr>"
  have "launch_spec_area ty st s = Inr (user_state ?t n, ?t)"
    using r by (simp add: launch_spec_area_def get_passup_area_def a [simplified] Let_def)
  moreover have "steady w s ?t" using s by (auto simp: steady_def elim: kinv_outside)
  ultimately show thesis by (rule that)
qed

lemma kill_running_runs:
  fixes s :: machine
  assumes s: "kinv w s" and r: "running_proc s = Some r" "interrupted_proc s = Some r" and x: "expendable w s r"
  shows "ok (andThen (terminate_proc (Some r) s) (\<lambda>(_, s). conclude_handler w ty s)) (\<lambda>(st, t). steady w s t)"
proof -
  obtain t where t: "terminate_proc (Some r) s = Inr (0, t)" "serves w s t"
    by (rule runs_terminate [OF s x, of "Some r"]) simp_all
  obtain q where "running_proc t = Some q" using t(2) by (auto simp: serve_defs kinv_def repr_def)
  then show ?thesis
    using conclude_handler_runs [OF steady_kinv [OF serves_interrupted(1) [OF t(2)]], of q r ty] serves_interrupted [OF t(2)]
      steady_trans [of w s t] r(2) t(1)
    by (auto elim!: ok_mono)
qed

lemma ok_steady:
  "steady w s t \<Longrightarrow> ok m (\<lambda>(st, u). steady w t u) \<Longrightarrow> ok m (\<lambda>(st, u). steady w s u)"
  by (auto elim!: ok_mono dest: steady_trans)

lemma handle_passup_runs:
  assumes s: "kinv w s" and guard: "fault_guard w ty s" and ty: "ty \<noteq> INTR"
  shows "ok (handle_passup w ty s) (\<lambda>(st, t). steady w s t)"
proof -
  obtain r s1 where s1: "start_handler w s = Inr s1" "steady w s s1" "running_proc s1 = Some r"
      "interrupted_proc s1 = Some r"
    by (rule start_handler_runs [OF s])
  note g1 = fault_guard_start [OF s s1(1) guard]
  obtain b where b: "is_passup_set ty r s1 = Inr b" by (rule is_passup_set_total [OF ty])
  show ?thesis
  proof (cases b)
    case True
    then have "is_passup_set ty r s1 = Inr True" using b by simp
    then obtain x t where "launch_spec_area ty (area s1 OLD ty) s1 = Inr (x, t)" "steady w s1 t"
      by (rule launch_spec_runs [OF steady_kinv [OF s1(2)] s1(3)])
    then show ?thesis using b True s1(1,3) steady_trans [OF s1(2)] by (simp add: handle_passup_def)
  next
    case False
    then have "expendable w s1 r" using g1 b s1(3) by (auto simp: fault_guard_def)
    then show ?thesis
      using ok_steady [OF s1(2) kill_running_runs [OF steady_kinv [OF s1(2)] s1(3,4)], of ty] b False s1(1,3)
      by (simp add: handle_passup_def del: ok_andThen)
  qed
qed

lemma handle_sysbreak_runs:
  assumes s: "kinv w s" and exc: "get_exccode (hw.truncate w) (area s OLD SYS) = E_SYS"
    and guard: "call_guard w ly s"
    and valid: "SYSCALL_N (area s OLD SYS) \<le> SYSTEM_SYSCALL_MAX \<Longrightarrow> call_valid w ly (area s OLD SYS)"
  shows "ok (handle_sysbreak w ly s) (\<lambda>(st, t). steady w s t)"
proof -
  obtain r s1 where s1: "start_handler w s = Inr s1" "steady w s s1" "running_proc s1 = Some r"
      "interrupted_proc s1 = Some r" "area s1 = area s"
    by (rule start_handler_runs [OF s])
  define s2 where "s2 = set_area OLD SYS (skip_instr w (area s1 OLD SYS)) s1"
  have s2: "steady w s s2" "running_proc s2 = Some r" "interrupted_proc s2 = Some r" "pcbs s2 = pcbs s1"
      "area s2 OLD SYS = skip_instr w (area s OLD SYS)"
    using s1 steady_set_area [OF s1(2)] by (simp_all add: s2_def) (simp_all add: set_area_def)
  note k2 = steady_kinv [OF s2(1)]
  have g2: "call_guard w ly s2"
    using call_guard_start [OF s s1(1) guard] by (simp add: s2_def call_guard_skip)
  have v2: "call_valid w ly (area s2 OLD SYS)" if "SYSCALL_N (area s OLD SYS) \<le> SYSTEM_SYSCALL_MAX"
    using valid [OF that] by (simp add: s2(5) call_valid_def)
  have exc2: "get_exccode (hw.truncate w) (area s2 OLD SYS) = E_SYS" using exc by (simp add: s2(5))
  let ?n = "SYSCALL_N (area s OLD SYS)"
  have n: "SYSCALL_N (area s2 OLD SYS) = ?n" by (simp add: s2(5))
  have eq: "handle_sysbreak w ly s =
      (if ?n > SYSTEM_SYSCALL_MAX then
         andThen (is_passup_set SYS r s2) (\<lambda>set_up.
         if set_up then launch_spec_area SYS (area s2 OLD SYS) (flush_kernel_time w r s2)
         else andThen (terminate_proc (Some r) s2) (\<lambda>(_, s). conclude_handler w SYS s))
       else andThen (consume_syscall w ly r s2) (conclude_handler w SYS))"
    unfolding handle_sysbreak_def s1(1) andThen_simps Let_def s2_def [symmetric]
    using exc2 by (simp add: n s2(3))
  show ?thesis
  proof (cases "?n > SYSTEM_SYSCALL_MAX")
    case True
    obtain b where b: "is_passup_set SYS r s2 = Inr b" by (rule is_passup_set_total [of SYS]) simp
    show ?thesis
    proof (cases b)
      case True
      let ?u = "flush_kernel_time w r s2"
      have u: "kinv w ?u" "running_proc ?u = Some r" "is_passup_set SYS r ?u = Inr True"
        using k2 s2(2) b True kinv_flush(2) [of w s2 w r]
        by (auto simp: flush_kernel_time_def read_TOD_def TOD_def bus_read_def upd_pcb_def
            is_passup_set_def get_spec_area_def)
      have "terminals (bus ?u) = terminals (bus s2)"
        by (simp add: flush_kernel_time_def read_TOD_def TOD_def bus_read_def upd_pcb_def)
      then have "steady w s ?u" using s2(1) u(1) by (simp add: steady_def)
      moreover obtain x t where "launch_spec_area SYS (area s2 OLD SYS) ?u = Inr (x, t)" "steady w ?u t"
        by (rule launch_spec_runs [OF u])
      ultimately show ?thesis using b True \<open>?n > SYSTEM_SYSCALL_MAX\<close> steady_trans [of w s ?u t] by (simp add: eq)
    next
      case False
      then have "expendable w s2 r" using g2 b s2(2) True n by (auto simp: call_guard_def fault_guard_def Let_def)
      then show ?thesis
        using ok_steady [OF s2(1) kill_running_runs [OF k2 s2(2,3)], of SYS] b False True by (simp add: eq del: ok_andThen)
    qed
  next
    case False
    then have m: "?n \<le> SYSTEM_SYSCALL_MAX" by simp
    then obtain u where u: "consume_syscall w ly r s2 = Inr u" "steady w s2 u" "interrupted_proc u = Some r"
      using consume_syscall_runs [OF k2 g2 v2, of r] n s2(3) by (auto simp: ok_iff)
    obtain q where "running_proc u = Some q" using steady_kinv [OF u(2)] by (auto simp: kinv_def repr_def)
    then show ?thesis
      using conclude_handler_runs [OF steady_kinv [OF u(2)] _ u(3), of q SYS] False u(1) steady_trans [OF s2(1)] steady_trans [OF u(2)]
      by (fastforce simp: eq ok_iff)
  qed
qed

section \<open>What the beginning and the end of a handler do to the scheduler\<close>

text \<open>Only times and the saved state of a process change.\<close>

definition quiet :: "(pcb_t \<Rightarrow> pcb_t) \<Rightarrow> bool" where
  "quiet f \<longleftrightarrow> (\<forall>c. p_parent (f c) = p_parent c \<and> p_semkey (f c) = p_semkey c \<and>
     dev_w_list (f c) = dev_w_list c \<and> priority (f c) = priority c \<and>
     original_priority (f c) = original_priority c \<and> spec_areas (f c) = spec_areas c)"

lemma quiet_upd:
  assumes f: "quiet f"
  shows "repr s a \<Longrightarrow> repr (upd_pcb p f s) (upd_tcb p f a)" "sched_wf a \<Longrightarrow> sched_wf (upd_tcb p f a)"
    "live (upd_tcb p f a) = live a" "child_rel (upd_tcb p f a) = child_rel a"
    "dev_w_list (tcb (upd_tcb p f a) x) = dev_w_list (tcb a x)"
proof -
  show "repr s a \<Longrightarrow> repr (upd_pcb p f s) (upd_tcb p f a)"
    using f by (intro upd_pcb_refines [THEN conjunct1]) (simp_all add: quiet_def)
  show "sched_wf a \<Longrightarrow> sched_wf (upd_tcb p f a)"
    using f unfolding sched_wf_def by (subst core_cong [where a = a]) (simp_all add: quiet_def)
qed (use f in \<open>simp_all add: live_def child_rel_def upd_tcb_def quiet_def\<close>)

lemma repr_machine:
  fixes s t :: "'a kern_scheme"
  assumes "repr s a" and "lh_next t = lh_next s" "lh_prev t = lh_prev s" "s_key t = s_key s"
    "pcbs t = pcbs s" "running_proc t = running_proc s"
  shows "repr t a"
  using repr_same [OF assms(2-6)] assms(1) by blast

lemma start_handler_refines:
  fixes s :: machine
  assumes r: "repr s a"
  obtains t f where "start_handler w s = Inr t" "quiet f" "repr t (upd_tcb (running a) f a)"
    "interrupted_proc t = Some (running a)" "area t = area s"
    "\<And>c. p_s (f c) = p_s c"
proof -
  let ?u = "s\<lparr>bus := (bus s)\<lparr>now := Suc (now (bus s))\<rparr>,
    int_timer_cache := min (env w (BUS_REG_TIMER w) (now (bus s))) (clock_ticks_per_time_slice s),
    interrupted_proc := Some (running a)\<rparr>"
  let ?n = "tod_at w ?u" and ?v = "snd (read_TOD w ?u)"
  let ?f = "\<lambda>c. c\<lparr>user_timer := user_timer c + (?n - tod_cache c), tod_cache := ?n\<rparr>"
  have v: "flush_user_time w (running a) ?u = upd_pcb (running a) ?f ?v"
    by (simp add: flush_user_time_def read_TOD_def TOD_def bus_read_def tod_at_def upd_pcb_def)
  have q: "quiet ?f" by (simp add: quiet_def)
  have v': "repr ?v a" by (rule repr_machine [OF r]) (simp_all add: read_TOD_def TOD_def bus_read_def)
  show thesis
  proof (rule that [OF _ q quiet_upd(1) [OF q v']])
    show "start_handler w s = Inr (upd_pcb (running a) ?f ?v)"
      using start_handler_eq [OF repr_running [OF r]] v by simp
  qed (simp_all add: upd_pcb_def read_TOD_def TOD_def bus_read_def)
qed

lemma conclude_handler_switch:
  fixes s :: machine
  assumes r: "repr s a" and i: "interrupted_proc s = Some i" "i \<noteq> running a" "i \<noteq> Idle_proc"
  shows "ok (conclude_handler w ty s) (\<lambda>(st, t). \<exists>f. quiet f \<and> (\<forall>c. p_s (f c) = p_s c) \<and>
    repr t (upd_tcb i (\<lambda>c. c\<lparr>p_s := area s OLD ty\<rparr>) (upd_tcb (running a) f a)) \<and>
    st = p_s (tcb a (running a)))"
proof -
  let ?q = "running a" and ?n = "tod_at w s" and ?g = "\<lambda>c :: pcb_t. c\<lparr>p_s := area s OLD ty\<rparr>"
  let ?f = "\<lambda>c :: pcb_t. c\<lparr>tod_cache := ?n\<rparr>"
  let ?v = "snd (read_TOD w s)"
  let ?u = "reset_int_timer w (upd_pcb ?q ?f ?v)"
  have qf: "quiet ?f" "quiet ?g" by (simp_all add: quiet_def)
  have "repr ?v a" by (rule repr_machine [OF r]) (simp_all add: read_TOD_def TOD_def bus_read_def)
  then have "repr (upd_pcb ?q ?f ?v) (upd_tcb ?q ?f a)" by (rule quiet_upd(1) [OF qf(1)])
  then have "repr ?u (upd_tcb ?q ?f a)"
    by (rule repr_machine) (simp_all add: reset_int_timer_def)
  then have u: "repr (upd_pcb i ?g ?u) (upd_tcb i ?g (upd_tcb ?q ?f a))" by (rule quiet_upd(1) [OF qf(2)])
  have run: "running_proc s = Some ?q" by (rule repr_running [OF r])
  have ps: "p_s (pcbs (upd_pcb i ?g ?u) ?q) = p_s (tcb a ?q)"
    using r i(2) by (simp add: repr_def upd_pcb_def reset_int_timer_def read_TOD_def TOD_def bus_read_def)
  have fl: "flush_reset_time w ?q s = upd_pcb ?q ?f ?v"
    by (simp add: flush_reset_time_def read_TOD_def TOD_def bus_read_def tod_at_def)
  have "conclude_handler w ty s = Inr (p_s (pcbs (upd_pcb i ?g ?u) ?q), upd_pcb i ?g ?u)"
    using i run by (simp add: conclude_handler_def Let_def fl) (simp add: upd_pcb_def reset_int_timer_def read_TOD_def TOD_def bus_read_def)
  then show ?thesis using u ps qf(1) by (auto intro!: exI [of _ ?f])
qed

end
