(* ===== verification/Interrupt_Lines.thy ===== *)
theory Interrupt_Lines
  imports Progress
begin

text \<open>
  What the scan of an interrupt line does to the scheduler: the first process that waits for each device with a
  pending interrupt can run again, and nothing else happens to the queues.
\<close>

section \<open>Processes that are woken\<close>

definition runnable :: "sched \<Rightarrow> pcb set" where
  "runnable a = insert (running a) (set (ready a)) - {Idle_proc}"

definition woken :: "(nat \<times> nat) set \<Rightarrow> sched \<Rightarrow> sched \<Rightarrow> bool" where
  "woken D a b \<longleftrightarrow>
     (\<forall>l d. let q = wait a (Some (Dev_sem l d)) in wait b (Some (Dev_sem l d)) = (if (l, d) \<in> D then tl q else q)) \<and>
     (\<forall>u. wait b (Some (User_int u)) = wait a (Some (User_int u))) \<and>
     runnable b = runnable a \<union> {p. \<exists>l d q. (l, d) \<in> D \<and> wait a (Some (Dev_sem l d)) = p # q} \<and>
     free b = free a"

lemma woken_refl [simp]: "woken {} a a"
  by (simp add: woken_def Let_def)

lemma woken_none: "wait a (Some (Dev_sem l d)) = [] \<Longrightarrow> woken {(l, d)} a a"
  by (auto simp: woken_def Let_def)

lemma woken_trans:
  assumes ab: "woken D a b" and bc: "woken E b c" and "D \<inter> E = {}"
  shows "woken (D \<union> E) a c"
proof -
  have E: "wait b (Some (Dev_sem l d)) = wait a (Some (Dev_sem l d))" if "(l, d) \<in> E" for l d
    using ab that assms(3) by (auto simp: woken_def Let_def)
  have "wait c (Some (Dev_sem l d)) = (if (l, d) \<in> D \<union> E then tl (wait a (Some (Dev_sem l d))) else wait a (Some (Dev_sem l d)))" for l d
    using ab bc assms(3) by (auto simp: woken_def Let_def)
  moreover have "{p. \<exists>l d q. (l, d) \<in> E \<and> wait b (Some (Dev_sem l d)) = p # q} =
      {p. \<exists>l d q. (l, d) \<in> E \<and> wait a (Some (Dev_sem l d)) = p # q}" using E by (metis (lifting))
  ultimately show ?thesis using ab bc by (auto simp: woken_def Let_def)
qed

lemma runnable_simps [simp]: "runnable (upd_tcb x f a) = runnable a" "runnable (a_unblock k p q a) = runnable a"
  by (simp_all add: runnable_def a_unblock_def)

lemma runnable_schedule:
  assumes "p \<noteq> Idle_proc"
  shows "runnable (a_schedule p a) = insert p (runnable a)"
  using assms by (auto simp: runnable_def a_schedule_def a_stop_def a_requeue_def)

lemma woken_done:
  assumes "sched_wf a" and w: "wait a (Some (Dev_sem l d)) = p # q"
  shows "woken {(l, d)} a (a_done_io st l d p q a)"
proof -
  have "placed a {running a}" using assms(1) by (simp add: sched_wf_def core_def)
  then have p: "p \<noteq> Idle_proc" using placed_wait(5) [OF _ w] by (auto simp: all_procs_def)
  have "runnable (a_done_io st l d p q a) = insert p (runnable a)"
    by (simp add: a_done_io_def a_io_next_def a_io_result_def runnable_schedule [OF p] split: list.split)
  moreover have "wait (a_done_io st l d p q a) = (wait a)(Some (Dev_sem l d) := q)"
    by (simp add: a_done_io_def a_io_next_def a_io_result_def a_unblock_def split: list.split)
  moreover have "free (a_done_io st l d p q a) = free a"
    by (simp add: a_done_io_def a_io_next_def a_io_result_def a_unblock_def a_schedule_def a_stop_def a_requeue_def
        split: list.split)
  ultimately show ?thesis using w by (simp add: woken_def)
qed

section \<open>The scan\<close>

text \<open>One step of the invariant of the scan: \<open>a\<close> is the scheduler, and the console takes messages.\<close>

definition scanning :: "board \<Rightarrow> 'a kern_scheme \<Rightarrow> sched \<Rightarrow> bool" where
  "scanning w s a \<longleftrightarrow> repr s a \<and> sched_wf a \<and> dev_inv w s a \<and> console w (bus s)"

lemma scanning_alive: "scanning w s a \<Longrightarrow> alive w s"
  by (auto simp: scanning_def alive_def kinv_def)

lemma done_io_wakes:
  assumes s: "scanning w s a" and l: "l < N_EXT_IL w + 1" and d: "d < N_DEV_PER_IL w"
  shows "ok (done_io w l d s) (\<lambda>t. \<exists>b. scanning w t b \<and> woken {(l, d)} a b)"
proof -
  have dev: "get_dev_w_list w l d = Inr (l, d)" using l d by (simp add: get_dev_w_list_def)
  have a: "repr s a" "sched_wf a" "dev_inv w s a" using s by (simp_all add: scanning_def)
  obtain t where t: "done_io w l d s = Inr t" "console w (bus t)"
    using runs_done_io [OF scanning_alive [OF s] l d] by (auto simp: ok_iff runs_def alive_def)
  show ?thesis
  proof (cases "wait a (Some (Dev_sem l d))")
    case Nil
    then have "w_for_res s l d = None" using dev_invD [OF a(3) dev] by (auto simp: dev_served_def)
    then obtain c where "t = s\<lparr>bus := c\<rparr>" using done_io_message [OF dev _ t(1)] by blast
    then have "scanning w t a" using a t(2) repr_same [of t s a] by (simp add: scanning_def dev_inv_def)
    then show ?thesis using t(1) woken_none [OF Nil] by auto
  next
    case (Cons p q)
    from done_io_total [OF a dev Cons] have "scanning w t (a_done_io (io_status w l d (bus s)) l d p q a)"
      using a t by (simp add: scanning_def)
    then show ?thesis using t(1) woken_done [OF a(2) Cons] by auto
  qed
qed

lemma and_one: "bm AND 1 \<noteq> 0 \<longleftrightarrow> bit bm 0" for bm :: u32
  by (simp add: and_one_eq bit_0 odd_iff_mod_2_eq_one)

lemma consume_line_wakes:
  assumes l: "unat (get_ext_dev_type w (word_of_nat line) 0) < N_EXT_IL w + 1"
  shows "scanning w s a \<Longrightarrow> n + k \<le> N_DEV_PER_IL w \<Longrightarrow> ok (consume_line w line k n bm s) (\<lambda>t. \<exists>b. scanning w t b \<and>
    woken ({unat (get_ext_dev_type w (word_of_nat line) 0)} \<times> {d. n \<le> d \<and> d < n + k \<and> bit bm (d - n)}) a b)"
proof (induction k arbitrary: n bm s a)
  case 0
  have "{d. n \<le> d \<and> d < n + 0 \<and> bit bm (d - n)} = {}" by auto
  then show ?case using 0 by (auto simp only: consume_line.simps ok_simps Sigma_empty2 woken_refl)
next
  case (Suc k)
  let ?l = "unat (get_ext_dev_type w (word_of_nat line) 0)"
  let ?D = "if bit bm 0 then {(?l, n)} else {}" and ?E = "{?l} \<times> {d. Suc n \<le> d \<and> d < Suc n + k \<and> bit (drop_bit 1 bm) (d - Suc n)}"
  have "ok (if bm AND 1 \<noteq> 0 then done_io w ?l n s else Inr s) (\<lambda>t. \<exists>b. scanning w t b \<and> woken ?D a b)"
    using done_io_wakes [OF Suc.prems(1) l, of n] Suc.prems by (auto simp: and_one)
  then obtain u b where u: "(if bm AND 1 \<noteq> 0 then done_io w ?l n s else Inr s) = Inr u" "scanning w u b" "woken ?D a b"
    by (auto simp: ok_iff)
  have D: "?D \<inter> ?E = {}" by auto
  have sum: "?D \<union> ?E = {?l} \<times> {d. n \<le> d \<and> d < n + Suc k \<and> bit bm (d - n)}"
  proof -
    have split: "n \<le> d \<and> d < n + Suc k \<and> bit bm (d - n) \<longleftrightarrow>
        d = n \<and> bit bm 0 \<or> Suc n \<le> d \<and> d < Suc n + k \<and> bit (drop_bit 1 bm) (d - Suc n)" for d
      by (cases "Suc n \<le> d") (auto simp: bit_drop_bit_eq Suc_diff_Suc le_antisym)
    show ?thesis unfolding split by (cases "bit bm 0") (simp_all only: if_True if_False simp_thms, blast+)
  qed
  have "ok (consume_line w line k (Suc n) (drop_bit 1 bm) u) (\<lambda>t. \<exists>c. scanning w t c \<and> woken ?E b c)"
    using Suc.prems(2) by (intro Suc.IH u(2)) simp
  then have "ok (consume_line w line k (Suc n) (drop_bit 1 bm) u) (\<lambda>t. \<exists>c. scanning w t c \<and> woken (?D \<union> ?E) a c)"
    by (rule ok_mono) (use woken_trans [OF u(3) _ D] in blast)
  then show ?case unfolding sum by (simp add: u(1))
qed

end
