(* ===== verification/Abstract_Kernel.thy ===== *)
theory Abstract_Kernel
  imports Context_Switch Interrupt_Lines
begin

text \<open>
  The specification of the whole kernel, and the refinement of the running system to it. The state of the
  specification is the abstract scheduler and the memory of the processes; \<open>a_call\<close> says what each system call
  does to it, \<open>a_handle\<close> what each exception does, and \<open>a_step\<close> adds the processes that run. What a handler reads
  from the hardware, it reads while it runs. The accounts and the saved registers of the processes are left open here: they
  are the subject of \<open>Context_Switch\<close>.
\<close>

section \<open>The specification\<close>

record akernel =
  sch :: sched
  words :: "u32 \<Rightarrow> c_int"
  states :: "u32 \<Rightarrow> state_t"
  clock :: nat

text \<open>What an access to the hardware can read between the accesses \<open>m\<close> and \<open>n\<close> of a run.\<close>

definition samples :: "nat \<Rightarrow> nat \<Rightarrow> (nat \<Rightarrow> 'v) \<Rightarrow> 'v set" where
  "samples m n f = f ` {m..<n}"

text \<open>A process ends with all its descendants.\<close>

definition a_kill :: "pcb \<Rightarrow> sched \<Rightarrow> sched \<Rightarrow> bool" where
  "a_kill p a b \<longleftrightarrow> (\<exists>xs. offspring a p xs \<and> terminated xs a b)"

text \<open>The slot of \<open>spec_areas\<close> for the new area of the exceptions that a process names by a number; the old area's is
  the next one.\<close>

definition spec_slot :: "u32 \<Rightarrow> nat" where
  "spec_slot n = unat ((if n = 1 then 2 else if n = 2 then 1 else n) * 2)"

definition spec_ptr :: "u32 \<Rightarrow> u32 option" where
  "spec_ptr v = (if v = 0 then None else Some v)"

text \<open>The system calls of the running process, whose registers are \<open>st\<close>; \<open>T\<close> are the times at which the clock can be read.\<close>

inductive a_call :: "board \<Rightarrow> layout \<Rightarrow> u32 set \<Rightarrow> state_t \<Rightarrow> akernel \<Rightarrow> akernel \<Rightarrow> bool" for w ly T st k where
  Getcputime: "SYSCALL_N st = GETCPUTIME \<Longrightarrow> n \<in> T \<Longrightarrow> c = tcb (sch k) (running (sch k)) \<Longrightarrow>
    a_call w ly T st k (k\<lparr>words := (words k)(SYSCALL_ARG1 st := user_timer c,
      SYSCALL_ARG2 st := kernel_timer c + (n - tod_cache c), SYSCALL_ARG3 st := n - tod_at_start c)\<rparr>)"
| Create_full: "SYSCALL_N st = CREATEPROCESS \<Longrightarrow> free (sch k) = [] \<Longrightarrow> a_call w ly T st k k"
| Create: "SYSCALL_N st = CREATEPROCESS \<Longrightarrow> free (sch k) = p # q \<Longrightarrow> SYSCALL_ARG1 st \<noteq> 0 \<Longrightarrow>
    a_call w ly T st k (k\<lparr>sch := a_create (states k (SYSCALL_ARG1 st)) (SYSCALL_ARG2 st) (sch k),
      words := if SYSCALL_ARG3 st = 0 then words k else (words k)(SYSCALL_ARG3 st := pcb_addr ly p)\<rparr>)"
| Terminate: "SYSCALL_N st = TERMINATEPROCESS \<Longrightarrow> pcb_ptr ly (SYSCALL_ARG1 st) = Inr tg \<Longrightarrow>
    a_kill (case tg of None \<Rightarrow> running (sch k) | Some p \<Rightarrow> p) (sch k) b \<Longrightarrow> a_call w ly T st k (k\<lparr>sch := b\<rparr>)"
| Verhogen_free: "SYSCALL_N st = VERHOGEN \<Longrightarrow> SYSCALL_ARG1 st = u \<Longrightarrow> u \<noteq> 0 \<Longrightarrow>
    wait (sch k) (Some (User_int u)) = [] \<Longrightarrow> a_call w ly T st k (k\<lparr>words := (words k)(u := words k u + 1)\<rparr>)"
| Verhogen_wake: "SYSCALL_N st = VERHOGEN \<Longrightarrow> SYSCALL_ARG1 st = u \<Longrightarrow> u \<noteq> 0 \<Longrightarrow>
    wait (sch k) (Some (User_int u)) \<noteq> [] \<Longrightarrow> a_call w ly T st k (k\<lparr>sch := a_wake (Some (User_int u)) (sch k)\<rparr>)"
| Passeren_free: "SYSCALL_N st = PASSEREN \<Longrightarrow> SYSCALL_ARG1 st = u \<Longrightarrow> u \<noteq> 0 \<Longrightarrow> 0 \<le> sint (words k u - 1) \<Longrightarrow>
    a_call w ly T st k (k\<lparr>words := (words k)(u := words k u - 1)\<rparr>)"
| Passeren_block: "SYSCALL_N st = PASSEREN \<Longrightarrow> n \<in> T \<Longrightarrow> SYSCALL_ARG1 st = u \<Longrightarrow> u \<noteq> 0 \<Longrightarrow> sint (words k u - 1) < 0 \<Longrightarrow>
    a_call w ly T st k
      (k\<lparr>sch := a_block (Some (User_int u)) (a_flush_kernel n (running (sch k)) (sch k))\<rparr>)"
| Waitio_start: "SYSCALL_N st = WAITIO \<Longrightarrow> n \<in> T \<Longrightarrow> io_device w (SYSCALL_ARG2 st) (SYSCALL_ARG3 st) = Inr (l, d) \<Longrightarrow>
    wait (sch k) (Some (Dev_sem l d)) = [] \<Longrightarrow>
    a_call w ly T st k (k\<lparr>sch := a_flush_kernel n (running (sch k)) (a_wait_ready l d (sch k))\<rparr>)"
| Waitio_queue: "SYSCALL_N st = WAITIO \<Longrightarrow> n \<in> T \<Longrightarrow> io_device w (SYSCALL_ARG2 st) (SYSCALL_ARG3 st) = Inr (l, d) \<Longrightarrow>
    wait (sch k) (Some (Dev_sem l d)) \<noteq> [] \<Longrightarrow>
    a_call w ly T st k (k\<lparr>sch := a_flush_kernel n (running (sch k)) (a_wait_busy l d (sch k))\<rparr>)"
| Specpassup_set: "SYSCALL_N st = SPECPASSUP \<Longrightarrow> i = spec_slot (SYSCALL_ARG1 st) \<Longrightarrow> i < 5 \<Longrightarrow>
    c = tcb (sch k) (running (sch k)) \<Longrightarrow> spec_areas c i = None \<Longrightarrow> spec_areas c (Suc i) = None \<Longrightarrow>
    a_call w ly T st k (k\<lparr>sch := upd_tcb (running (sch k)) (\<lambda>c. c\<lparr>spec_areas :=
      (spec_areas c)(Suc i := spec_ptr (SYSCALL_ARG2 st), i := spec_ptr (SYSCALL_ARG3 st))\<rparr>) (sch k)\<rparr>)"
| Specpassup_again: "SYSCALL_N st = SPECPASSUP \<Longrightarrow> i = spec_slot (SYSCALL_ARG1 st) \<Longrightarrow> i < 6 \<Longrightarrow>
    c = tcb (sch k) (running (sch k)) \<Longrightarrow> spec_areas c i \<noteq> None \<or> spec_areas c (Suc i) \<noteq> None \<Longrightarrow>
    a_kill (running (sch k)) (sch k) b \<Longrightarrow> a_call w ly T st k (k\<lparr>sch := b\<rparr>)"
| Getpid: "SYSCALL_N st = GETPID \<Longrightarrow> c = tcb (sch k) (running (sch k)) \<Longrightarrow>
    m = (if SYSCALL_ARG1 st = 0 then words k else (words k)(SYSCALL_ARG1 st := pcb_addr ly (running (sch k)))) \<Longrightarrow>
    a_call w ly T st k (k\<lparr>words :=
      if SYSCALL_ARG2 st = 0 then m else m(SYSCALL_ARG2 st := addr_of ly (p_parent c))\<rparr>)"

text \<open>
  What an interrupt handler reads from the hardware: whether the interval timer has expired, the bitmap of each line
  of devices (0 when the line has no interrupt), which halves of the terminals have ended an operation, and the
  status of every device that is served, in the order in which they are.
\<close>

record readings =
  expired :: bool
  bitmaps :: "nat \<Rightarrow> u32"
  ended :: "nat \<Rightarrow> nat \<Rightarrow> bool"
  statuses :: "u32 list"

definition set_bits_of :: "u32 \<Rightarrow> nat \<Rightarrow> nat list" where
  "set_bits_of bm n = filter (bit bm) [0..<n]"

definition line_devices :: "board \<Rightarrow> u32 \<Rightarrow> nat \<Rightarrow> (nat \<times> nat) list" where
  "line_devices w bm line =
     map (Pair (unat (get_ext_dev_type w (word_of_nat line) 0))) (set_bits_of bm (N_DEV_PER_IL w))"

definition terminal_halves :: "(nat \<Rightarrow> nat \<Rightarrow> bool) \<Rightarrow> nat \<Rightarrow> (nat \<times> nat) list" where
  "terminal_halves e d = filter (\<lambda>(ty, d). e ty d) [(TERM_RX, d), (TERM_TX, d)]"

definition served_devices :: "board \<Rightarrow> readings \<Rightarrow> (nat \<times> nat) list" where
  "served_devices w rd =
     concat (map (\<lambda>line. line_devices w (bitmaps rd line) line) [N_IL w - N_EXT_IL w..<IL_TERMINAL w]) @
     concat (map (terminal_halves (ended rd)) (set_bits_of (bitmaps rd (IL_TERMINAL w)) (N_DEV_PER_IL w)))"

definition line_bitmap :: "board \<Rightarrow> nat \<Rightarrow> nat \<Rightarrow> u32" where
  "line_bitmap w line i =
     (if is_interrupt_pending (hw.truncate w) (board_target w) (cause_env w i) line \<noteq> 0
      then env w (CDEV_BITMAP_ADDR w line) (Suc i) else 0)"

definition status_at :: "board \<Rightarrow> nat \<Rightarrow> u32 \<Rightarrow> nat \<Rightarrow> u32" where
  "status_at w l reg = env w (if l \<noteq> TERM_TX then reg_status reg else reg_transm_status reg)"

definition term_done :: "board \<Rightarrow> nat \<Rightarrow> nat \<Rightarrow> nat \<Rightarrow> bool" where
  "term_done w l d i \<longleftrightarrow> status_at w l (DEV_REG_ADDR w (IL_TERMINAL w) d) i AND DEV_STATUS_MASK = TERM_ST_DONE"

definition read_during :: "board \<Rightarrow> nat \<Rightarrow> nat \<Rightarrow> readings \<Rightarrow> bool" where
  "read_during w m n rd \<longleftrightarrow>
     expired rd \<in> samples m n (\<lambda>i. is_interrupt_pending (hw.truncate w) (board_target w) (cause_env w i) 2 \<noteq> 0) \<and>
     (\<forall>line \<in> insert (IL_TERMINAL w) {N_IL w - N_EXT_IL w..<IL_TERMINAL w}. bitmaps rd line \<in> samples m n (line_bitmap w line)) \<and>
     (\<forall>d \<in> set (set_bits_of (bitmaps rd (IL_TERMINAL w)) (N_DEV_PER_IL w)). \<forall>l \<in> {TERM_RX, TERM_TX}.
        ended rd l d \<in> samples m n (term_done w l d)) \<and>
     list_all2 (\<lambda>(l, d) st. st \<in> samples m n (status_at w l (io_reg w l d))) (served_devices w rd) (statuses rd)"

definition a_serve :: "(nat \<times> nat) \<times> u32 \<Rightarrow> sched \<Rightarrow> sched" where
  "a_serve x a =
     (case x of ((l, d), st) \<Rightarrow> case wait a (Some (Dev_sem l d)) of
        [] \<Rightarrow> a | p # q \<Rightarrow> a_done_io st l d p q a)"

definition a_interrupt :: "board \<Rightarrow> readings \<Rightarrow> sched \<Rightarrow> sched" where
  "a_interrupt w rd a =
     fold a_serve (zip (served_devices w rd) (statuses rd)) (if expired rd then a_time_slice a else a)"

text \<open>The exceptions that a process can handle itself, and whether it has declared areas for them.\<close>

definition traps :: "board \<Rightarrow> exc_type \<Rightarrow> state_t \<Rightarrow> bool" where
  "traps w ty st \<longleftrightarrow>
     ty \<in> {TLB, PRG} \<or> ty = SYS \<and> get_exccode (hw.truncate w) st = E_SYS \<and> SYSCALL_N st > SYSTEM_SYSCALL_MAX"

definition breaks :: "board \<Rightarrow> exc_type \<Rightarrow> state_t \<Rightarrow> bool" where
  "breaks w ty st \<longleftrightarrow> ty = SYS \<and> get_exccode (hw.truncate w) st = E_BP"

definition declares :: "sched \<Rightarrow> exc_type \<Rightarrow> bool" where
  "declares a ty \<longleftrightarrow> 
     spec_areas (tcb a (running a)) (exc_index ty * 2 + age_index OLD) \<noteq> None \<and>
     spec_areas (tcb a (running a)) (exc_index ty * 2 + age_index NEW) \<noteq> None"

text \<open>The handler of an exception that runs from the access \<open>m\<close> to the hardware to the access \<open>n\<close>.\<close>

inductive a_handle :: "board \<Rightarrow> layout \<Rightarrow> exc_type \<Rightarrow> state_t \<Rightarrow> nat \<Rightarrow> nat \<Rightarrow> akernel \<Rightarrow> akernel \<Rightarrow> bool"
  for w ly ty st m n k where
  Interrupted: "ty = INTR \<Longrightarrow> read_during w m n rd \<Longrightarrow>
    a_handle w ly ty st m n k (k\<lparr>sch := a_interrupt w rd (sch k)\<rparr>)"
| Called: "ty = SYS \<Longrightarrow> get_exccode (hw.truncate w) st = E_SYS \<Longrightarrow> SYSCALL_N st \<le> SYSTEM_SYSCALL_MAX \<Longrightarrow>
    a_call w ly (samples m n (env w (BUS_REG_TOD_LO w))) st k k' \<Longrightarrow> a_handle w ly ty st m n k k'"
| Passed_up: "traps w ty st \<or> breaks w ty st \<Longrightarrow> declares (sch k) ty \<Longrightarrow>
    spec_areas (tcb (sch k) (running (sch k))) (exc_index ty * 2 + age_index OLD) = Some a \<Longrightarrow>
    a_handle w ly ty st m n k (k\<lparr>states := (states k)(a := entry_state w ty st)\<rparr>)"
| Killed: "traps w ty st \<Longrightarrow> \<not> declares (sch k) ty \<Longrightarrow> a_kill (running (sch k)) (sch k) b \<Longrightarrow>
    a_handle w ly ty st m n k (k\<lparr>sch := b\<rparr>)"

text \<open>The parts of a PCB that are not left open.\<close>

definition same_pcb :: "pcb_t \<Rightarrow> pcb_t \<Rightarrow> bool" where
  "same_pcb c d \<longleftrightarrow> p_parent d = p_parent c \<and> p_semkey d = p_semkey c \<and> dev_w_list d = dev_w_list c \<and>
     priority d = priority c \<and> original_priority d = original_priority c \<and> spec_areas d = spec_areas c"

definition same_sched :: "sched \<Rightarrow> sched \<Rightarrow> bool" where
  "same_sched a b \<longleftrightarrow> b = a\<lparr>tcb := tcb b\<rparr> \<and> (\<forall>q. same_pcb (tcb a q) (tcb b q))"

text \<open>An exception, in a state in which the process that it interrupts has the registers \<open>st\<close>.\<close>

definition a_exception :: "board \<Rightarrow> layout \<Rightarrow> exc_type \<Rightarrow> state_t \<Rightarrow> akernel \<Rightarrow> akernel \<Rightarrow> bool" where
  "a_exception w ly ty st k k' \<longleftrightarrow>
     (\<exists>a k1. same_sched (sch k) a \<and> a_handle w ly ty st (clock k) (clock k') (k\<lparr>sch := a\<rparr>) k1 \<and>
        same_sched (sch k1) (sch k') \<and> words k' = words k1 \<and> states k' = states k1)"

inductive a_step :: "board \<Rightarrow> layout \<Rightarrow> akernel \<Rightarrow> akernel \<Rightarrow> bool" for w ly where
  A_user: "a_step w ly k (k\<lparr>words := f, states := g\<rparr>)"
| A_exception: "a_exception w ly ty st k k' \<Longrightarrow> a_step w ly k k'"

section \<open>The representation\<close>

definition rep :: "machine \<Rightarrow> akernel \<Rightarrow> bool" where
  "rep s k \<longleftrightarrow> repr s (sch k) \<and> user_word s = words k \<and> user_state s = states k"

definition represents :: "board \<Rightarrow> machine \<Rightarrow> akernel \<Rightarrow> bool" where
  "represents w s k \<longleftrightarrow> kinv w s \<and> rep s k \<and> now (bus s) = clock k"

text \<open>The memory also determines the children of the PCBs in use, so each representation is well-formed.\<close>

lemma kids_unique:
  assumes "repr s a" and "repr s b" and "p \<in> live a"
  shows "kids b p = kids a p"
proof -
  have "live b = live a" using repr_unique [OF assms(1,2)] by (simp add: live_def)
  then have n: "node_rep s p (kids a p)" "node_rep s p (kids b p)"
    using assms by (auto simp: repr_def tree_rep_def)
  show ?thesis
  proof (cases "kids a p")
    case Nil
    then show ?thesis using n by (auto simp: node_rep_def split: list.splits)
  next
    case (Cons c ds)
    then obtain es where es: "kids b p = c # es" "dll s (P_sib c) (map P_sib es)" "dll s (P_sib c) (map P_sib ds)"
      using n by (auto simp: node_rep_def split: list.splits)
    have "es = ds" using dll_unique [OF es(2,3)] by (simp add: inj_map_eq_map inj_def)
    then show ?thesis using Cons es(1) by simp
  qed
qed

lemma kinv_repr:
  assumes "kinv w s" and r: "repr s a"
  shows "sched_wf a" "dev_inv w s a"
proof -
  obtain b where b: "repr s b" "sched_wf b" "dev_inv w s b" using assms(1) by (rule kinvE)
  note u = repr_unique [OF b(1) r]
  show "dev_inv w s a" by (rule dev_inv_cong [OF b(3)]) (simp_all add: u)
  have live: "live a = live b" by (simp add: live_def u)
  have "child_rel a = child_rel b" using kids_unique [OF b(1) r] by (auto simp: child_rel_def live)
  then have "tree_ok a = tree_ok b" by (simp add: tree_ok_def live u)
  moreover have "placed a U = placed b U" "sem_ok a = sem_ok b" "dev_ok a = dev_ok b" "a_prio a = a_prio b" for U
    by (simp_all add: placed_def sem_ok_def dev_ok_def a_prio_def u fun_eq_iff)
  ultimately show "sched_wf a" using b(2) by (simp add: sched_wf_def core_def u)
qed

text \<open>Operations that the specification does not see.\<close>

definition silent :: "'a kern_scheme \<Rightarrow> 'a kern_scheme \<Rightarrow> bool" where
  "silent s t \<longleftrightarrow> lh_next t = lh_next s \<and> lh_prev t = lh_prev s \<and> s_key t = s_key s \<and>
     running_proc t = running_proc s \<and> now (bus s) \<le> now (bus t) \<and> (\<forall>q. same_pcb (pcbs s q) (pcbs t q))"

lemma silent_refl [simp]: "silent s s"
  by (simp add: silent_def same_pcb_def)

lemma silent_trans: "silent s t \<Longrightarrow> silent t u \<Longrightarrow> silent s u"
  by (simp add: silent_def same_pcb_def)

lemma same_sched_refl [simp]: "same_sched a a"
  by (simp add: same_sched_def same_pcb_def)

lemma same_sched_trans: "same_sched a b \<Longrightarrow> same_sched b c \<Longrightarrow> same_sched a c"
  by (cases a; cases b; cases c) (auto simp: same_sched_def same_pcb_def)

lemma silent_repr:
  assumes "silent s t" and r: "repr s a"
  obtains b where "repr t b" "same_sched a b"
proof -
  let ?b = "a\<lparr>tcb := pcbs t\<rparr>"
  have p: "pcbs s = tcb a" using r by (simp add: repr_def)
  have "asl t sched_heads (own_queues a) (wait a)"
    by (rule asl_same_queues [of s]) (use assms in \<open>auto simp: repr_def same_queues_def silent_def same_pcb_def\<close>)
  moreover have "tree_rep t (live a) (kids a) = tree_rep s (live a) (kids a)"
    by (rule tree_rep_frame) (use assms in \<open>simp_all add: silent_def same_pcb_def\<close>)
  moreover have "own_queues ?b = own_queues a" "live ?b = live a" by (simp_all add: own_queues_def live_def fun_eq_iff)
  ultimately have "repr t ?b" using assms by (simp add: repr_def silent_def)
  moreover have "same_sched a ?b" using assms p by (simp add: same_sched_def silent_def)
  ultimately show ?thesis by (rule that)
qed

section \<open>Accesses to the hardware\<close>

lemma samplesI: "v = f i \<Longrightarrow> m \<le> i \<Longrightarrow> i < n \<Longrightarrow> v \<in> samples m n f"
  by (auto simp: samples_def)

lemma samples_mono: "v \<in> samples m n f \<Longrightarrow> m' \<le> m \<Longrightarrow> n \<le> n' \<Longrightarrow> v \<in> samples m' n' f"
  by (auto simp: samples_def)

lemma now_get_status: "get_status w l reg b = (st, c) \<Longrightarrow> st = status_at w l reg (now b) \<and> now c = Suc (now b)"
  by (auto simp: get_status_def bus_read_def status_at_def split: if_splits)

lemma now_send [simp]: "now (send_command l c reg b) = Suc (now b)"
  by (simp add: send_command_def)

lemma now_TOD: "TOD w b = (v, c) \<Longrightarrow> now c = Suc (now b)" "get_INTERVAL_TIMER w b = (v, c) \<Longrightarrow> now c = Suc (now b)"
  "now (set_INTERVAL_TIMER w x b) = Suc (now b)"
  by (auto simp: TOD_def get_INTERVAL_TIMER_def set_INTERVAL_TIMER_def bus_read_def)

lemma now_busy_wait:
  assumes "\<And>b. now b \<le> now (snd (status b))" and "busy_wait status b = Some r"
  shows "now b \<le> now (snd r)"
proof -
  have "(\<forall>b. now b \<le> now (snd (status b))) \<longrightarrow> now b \<le> now (snd r)"
  proof (rule busy_wait.raw_induct [where P = "\<lambda>status b r. (\<forall>b. now b \<le> now (snd (status b))) \<longrightarrow> now b \<le> now (snd r)"])
    fix f :: "(bus \<Rightarrow> u32 \<times> bus) \<Rightarrow> bus \<Rightarrow> (u32 \<times> bus) option" and status b r
    assume IH: "\<And>status b r. f status b = Some r \<Longrightarrow> (\<forall>b. now b \<le> now (snd (status b))) \<longrightarrow> now b \<le> now (snd r)"
      and r: "(case status b of (stat, b) \<Rightarrow> if stat = DEVICE_ST_BUSY then f status b else Some (stat, b)) = Some r"
    show "(\<forall>b. now b \<le> now (snd (status b))) \<longrightarrow> now b \<le> now (snd r)"
    proof
      assume s: "\<forall>b. now b \<le> now (snd (status b))"
      have "now (snd (status b)) \<le> now (snd r)"
        using r IH [of status "snd (status b)" r] s by (auto simp: split_beta split: if_splits)
      then show "now b \<le> now (snd r)" using s le_trans by blast
    qed
  qed (rule assms)
  then show ?thesis using assms(1) by blast
qed

lemma now_term_putchar:
  assumes "term_putchar w reg c b = Inr (r, t)"
  shows "now b \<le> now t"
proof -
  have tx: "now (snd (term_tx_status w reg b)) = Suc (now b)" for b
    by (simp add: term_tx_status_def bus_read_def)
  have "poll (term_tx_status w reg) b = Inr x \<Longrightarrow> now b \<le> now (snd x)" for b x
    using now_busy_wait [of "term_tx_status w reg"] by (auto simp: poll_def tx split: option.splits)
  from this [of "bus_write a v (snd (term_tx_status w reg b))" for a v] show ?thesis
    using assms tx [of b] by (fastforce simp: term_putchar_def Let_def andThen_eq_Inr split: prod.splits if_splits)
qed

lemma now_term_putstr: "term_putstr w reg str b = Inr t \<Longrightarrow> now b \<le> now t"
proof (induction str arbitrary: b)
  case (Cons c str)
  then obtain r u where "term_putchar w reg c b = Inr (r, u)" "u = t \<or> term_putstr w reg str u = Inr t"
    by (auto simp: andThen_eq_Inr split: if_splits)
  then show ?case using Cons.IH [of u] now_term_putchar le_trans by blast
qed simp

lemma now_addokbuf: "addokbuf w str b = Inr t \<Longrightarrow> now b \<le> now t"
  by (auto simp: addokbuf_def get_terminal_def Let_def andThen_eq_Inr split: if_splits dest!: now_term_putstr)

section \<open>Interrupts\<close>

text \<open>\<open>scans w L s t\<close>: from \<open>s\<close> to \<open>t\<close> the devices \<open>L\<close> are served, one after the other.\<close>

abbreviation status_read :: "board \<Rightarrow> nat \<Rightarrow> nat \<Rightarrow> nat \<times> nat \<Rightarrow> u32 \<Rightarrow> bool" where
  "status_read w m n \<equiv> \<lambda>(l, d) st. st \<in> samples m n (status_at w l (io_reg w l d))"

definition scans :: "board \<Rightarrow> (nat \<times> nat) list \<Rightarrow> machine \<Rightarrow> machine \<Rightarrow> bool" where
  "scans w L s t \<longleftrightarrow> kinv w t \<and> memory_same s t \<and> now (bus s) \<le> now (bus t) \<and>
     (\<forall>a m n. repr s a \<longrightarrow> m < now (bus s) \<longrightarrow> now (bus t) \<le> n \<longrightarrow>
        (\<exists>sts. list_all2 (status_read w m n) L sts \<and> repr t (fold a_serve (zip L sts) a)))"

lemma scansD: "scans w L s t \<Longrightarrow> kinv w t" "scans w L s t \<Longrightarrow> now (bus s) \<le> now (bus t)"
  by (simp_all add: scans_def)

lemma scans_serve:
  "scans w L s t \<Longrightarrow> repr s a \<Longrightarrow> m < now (bus s) \<Longrightarrow> now (bus t) \<le> n \<Longrightarrow>
    \<exists>sts. list_all2 (status_read w m n) L sts \<and> repr t (fold a_serve (zip L sts) a)"
  by (simp only: scans_def)

lemma scans_refl: "kinv w s \<Longrightarrow> scans w [] s s"
  by (simp add: scans_def memory_same_def)

lemma scans_trans:
  assumes "scans w L s t" and "scans w M t u"
  shows "scans w (L @ M) s u"
  unfolding scans_def
proof (intro impI conjI allI)
  show "kinv w u" "memory_same s u" "now (bus s) \<le> now (bus u)" using assms by (auto simp: scans_def memory_same_def)
  fix a m n
  assume a: "repr s a" and m: "m < now (bus s)" and n: "now (bus u) \<le> n"
  have "now (bus t) \<le> n" "m < now (bus t)" using assms m n by (auto simp: scans_def)
  then obtain xs where xs: "list_all2 (status_read w m n) L xs" "repr t (fold a_serve (zip L xs) a)"
    using scans_serve [OF assms(1) a m] by blast
  obtain ys where "list_all2 (status_read w m n) M ys" "repr u (fold a_serve (zip M ys) (fold a_serve (zip L xs) a))"
    using scans_serve [OF assms(2) xs(2) \<open>m < now (bus t)\<close> n] by blast
  then show "\<exists>sts. list_all2 (status_read w m n) (L @ M) sts \<and> repr u (fold a_serve (zip (L @ M) sts) a)"
    using xs(1) by (intro exI [of _ "xs @ ys"]) (auto intro: list_all2_appendI dest: list_all2_lengthD)
qed

lemma scans_on_bus:
  assumes "kinv w s" and "on_bus f s = (v, t)" and "now (bus s) \<le> now (snd (f (bus s)))"
  shows "scans w [] s t"
  using assms kinv_on_bus_eq [OF assms(1,2)]
  by (auto simp: scans_def on_bus_def memory_same_def split: prod.splits intro: repr_machine)

lemma scans_done_io:
  assumes s: "kinv w s" and t: "done_io w l d s = Inr t"
  shows "scans w [(l, d)] s t"
proof -
  have kt: "kinv w t" by (rule kinv_done_io_any [OF s t])
  have dev: "get_dev_w_list w l d = Inr (l, d)"
    using t by (auto simp: done_io_def andThen_eq_Inr get_dev_w_list_eq)
  have step: "memory_same s t \<and> now (bus s) \<le> now (bus t) \<and> (\<forall>m n. m < now (bus s) \<longrightarrow> now (bus t) \<le> n \<longrightarrow>
      (\<exists>st \<in> samples m n (status_at w l (io_reg w l d)). repr t (a_serve ((l, d), st) a)))" if a: "repr s a" for a
  proof (cases "wait a (Some (Dev_sem l d))")
    case Nil
    then have none: "w_for_res s l d = None" using dev_invD [OF kinv_repr(2) [OF s a] dev] by (auto simp: dev_served_def)
    then have n: "now (bus s) \<le> now (bus t)"
      using t dev by (auto simp: done_io_def andThen_eq_Inr dest: now_addokbuf)
    obtain b where "t = s\<lparr>bus := b\<rparr>" using done_io_message [OF dev none t] by blast
    then have "memory_same s t" "repr t (a_serve ((l, d), st) a)" for st
      using repr_machine [OF a, of t] Nil by (auto simp: memory_same_def a_serve_def)
    moreover have "\<exists>st. st \<in> samples m k (status_at w l (io_reg w l d))" if "m < now (bus s)" "now (bus t) \<le> k" for m k
      using that n by (intro exI [of _ "status_at w l (io_reg w l d) m"] samplesI) auto
    ultimately show ?thesis using n by blast
  next
    case (Cons p q)
    obtain st c where st: "get_status w l (io_reg w l d) (bus s) = (st, c)" by fastforce
    note st' = now_get_status [OF st]
    have b: "repr t (a_done_io st l d p q a)" "memory_same s t" "now (bus t) = Suc (Suc (now (bus s)))"
      using done_io_total [OF a kinv_repr [OF s a] dev Cons] t st st' by (auto simp: io_status_def)
    then have "st \<in> samples m n (status_at w l (io_reg w l d))" if "m < now (bus s)" "now (bus t) \<le> n" for m n
      using that st' by (intro samplesI [of _ _ "now (bus s)"]) auto
    then show ?thesis using b Cons by (auto simp: a_serve_def)
  qed
  have "\<exists>sts. list_all2 (status_read w m n) [(l, d)] sts \<and> repr t (fold a_serve (zip [(l, d)] sts) a)"
    if a: "repr s a" "m < now (bus s)" "now (bus t) \<le> n" for a m n
  proof -
    obtain st where "st \<in> samples m n (status_at w l (io_reg w l d))" "repr t (a_serve ((l, d), st) a)"
      using step [OF a(1)] a(2,3) by blast
    then show ?thesis by (intro exI [of _ "[st]"]) simp
  qed
  moreover have "memory_same s t" "now (bus s) \<le> now (bus t)" using s step by (auto simp: kinv_def)
  ultimately show ?thesis using kt by (simp add: scans_def)
qed

text \<open>The bits of a bitmap from the \<open>n\<close>th device on.\<close>

lemma set_bits_from:
  "filter (\<lambda>d. bit bm (d - n)) [n..<n + Suc k] =
    (if bit bm 0 then [n] else []) @ filter (\<lambda>d. bit (drop_bit 1 bm) (d - Suc n)) [Suc n..<Suc n + k]" for bm :: u32
proof -
  have "[n..<n + Suc k] = n # [Suc n..<Suc n + k]" by (simp add: upt_rec)
  moreover have "filter (\<lambda>d. bit bm (d - n)) [Suc n..<Suc n + k] =
      filter (\<lambda>d. bit (drop_bit 1 bm) (d - Suc n)) [Suc n..<Suc n + k]"
    by (rule filter_cong) (auto simp: bit_drop_bit_eq Suc_diff_Suc)
  ultimately show ?thesis by simp
qed

lemma scans_consume_line:
  "kinv w s \<Longrightarrow> consume_line w line k n bm s = Inr t \<Longrightarrow>
    scans w (map (Pair (unat (get_ext_dev_type w (word_of_nat line) 0))) (filter (\<lambda>d. bit bm (d - n)) [n..<n + k])) s t"
proof (induction k arbitrary: n bm s)
  case (Suc k)
  let ?l = "unat (get_ext_dev_type w (word_of_nat line) 0)"
  obtain u where u: "(if bm AND 1 \<noteq> 0 then done_io w ?l n s else Inr s) = Inr u"
      "consume_line w line k (Suc n) (drop_bit 1 bm) u = Inr t"
    using Suc.prems(2) by (auto simp: andThen_eq_Inr)
  have "scans w (map (Pair ?l) (if bit bm 0 then [n] else [])) s u"
    using u(1) scans_done_io [OF Suc.prems(1)] scans_refl [OF Suc.prems(1)] by (auto simp: and_one split: if_splits)
  from scans_trans [OF this Suc.IH [OF scansD(1) [OF this] u(2)]] show ?case unfolding set_bits_from by (simp only: map_append)
qed (simp add: scans_refl)

text \<open>The bitmap of a line, which is read when the line has an interrupt.\<close>

lemma now_pending: "now (snd (interrupt_pending w line b)) = Suc (now b)"
  by (simp add: interrupt_pending_def)

lemma on_bus_fst: "on_bus f s = (v, t) \<Longrightarrow> v = fst (f (bus s)) \<and> bus t = snd (f (bus s))"
  by (auto simp: on_bus_def split: prod.splits)

lemma scans_bitmap:
  assumes k: "kinv w s" and s1: "on_bus (interrupt_pending w line) s = (pend, s1)"
    and s2: "on_bus (bus_read w (CDEV_BITMAP_ADDR w line)) s1 = (v, s2)"
  shows "scans w [] s (if pend \<noteq> 0 then s2 else s1)" "now (bus s1) = Suc (now (bus s))"
    "(if pend \<noteq> 0 then v else 0) = line_bitmap w line (now (bus s))"
proof -
  note f = on_bus_fst [OF s1] on_bus_fst [OF s2]
  have 1: "scans w [] s s1" by (rule scans_on_bus [OF k s1]) (simp add: now_pending)
  have 2: "scans w [] s1 s2" by (rule scans_on_bus [OF scansD(1) [OF 1] s2]) simp
  show "scans w [] s (if pend \<noteq> 0 then s2 else s1)" using 1 scans_trans [OF 1 2] by simp
  show "now (bus s1) = Suc (now (bus s))" using f by (simp add: now_pending)
  show "(if pend \<noteq> 0 then v else 0) = line_bitmap w line (now (bus s))"
    using f by (simp add: line_bitmap_def interrupt_pending_def)
qed

lemma scans_consume_lines:
  "kinv w s \<Longrightarrow> consume_lines w ls s = Inr t \<Longrightarrow> distinct ls \<Longrightarrow>
    \<exists>bm. scans w (concat (map (\<lambda>line. line_devices w (bm line) line) ls)) s t \<and>
      (\<forall>line \<in> set ls. bm line \<in> samples (now (bus s)) (now (bus t)) (line_bitmap w line))"
proof (induction ls arbitrary: s)
  case Nil
  then show ?case by (simp add: scans_refl)
next
  case (Cons line ls)
  obtain pend s1 where s1: "on_bus (interrupt_pending w line) s = (pend, s1)" by fastforce
  obtain v s2 where s2: "on_bus (bus_read w (CDEV_BITMAP_ADDR w line)) s1 = (v, s2)" by fastforce
  obtain u where u: "(if pend \<noteq> 0 then consume_line w line (N_DEV_PER_IL w) 0 v s2 else Inr s1) = Inr u"
      "consume_lines w ls u = Inr t"
    using Cons.prems(2) by (auto simp: s1 s2 andThen_eq_Inr split: if_splits)
  define b where "b = (if pend \<noteq> 0 then v else 0)"
  note read = scans_bitmap [OF Cons.prems(1) s1 s2, folded b_def]
  have line: "scans w (line_devices w b line) s u"
  proof (cases "pend \<noteq> 0")
    case True
    then have r: "scans w [] s s2" using read(1) by simp
    have "scans w (line_devices w b line) s2 u"
      using True u(1) scans_consume_line [OF scansD(1) [OF r], of line "N_DEV_PER_IL w" 0 v u]
      by (simp add: line_devices_def set_bits_of_def b_def)
    from scans_trans [OF r this] show ?thesis by simp
  next
    case False
    then show ?thesis using u(1) read(1) by (simp add: line_devices_def set_bits_of_def b_def)
  qed
  obtain bm where bm: "scans w (concat (map (\<lambda>line. line_devices w (bm line) line) ls)) u t"
      "\<forall>line \<in> set ls. bm line \<in> samples (now (bus u)) (now (bus t)) (line_bitmap w line)"
    using Cons.IH [OF scansD(1) [OF line] u(2)] Cons.prems(3) by auto
  have all: "scans w (line_devices w b line @ concat (map (\<lambda>line. line_devices w (bm line) line) ls)) s t"
    by (rule scans_trans [OF line bm(1)])
  have eq: "map (\<lambda>line. line_devices w (bm line) line) ls = map (\<lambda>x. line_devices w ((bm(line := b)) x) x) ls"
    using Cons.prems(3) by auto
  have order: "now (bus s) < now (bus t)" "now (bus s) \<le> now (bus u)"
  proof -
    have "Suc (now (bus s)) \<le> now (bus u)"
    proof (cases "pend \<noteq> 0")
      case True
      have "kinv w s2" using True scansD(1) [OF read(1)] by simp
      then have "now (bus s2) \<le> now (bus u)" using True u(1) scansD(2) [OF scans_consume_line] by simp
      then show ?thesis using read(2) on_bus_fst [OF s2] by simp
    next
      case False
      then show ?thesis using u(1) read(2) by simp
    qed
    then show "now (bus s) < now (bus t)" "now (bus s) \<le> now (bus u)" using scansD(2) [OF bm(1)] by simp_all
  qed
  have "b \<in> samples (now (bus s)) (now (bus t)) (line_bitmap w line)"
    using read(3) order(1) by (intro samplesI) auto
  moreover have "\<forall>x \<in> set ls. bm x \<in> samples (now (bus s)) (now (bus t)) (line_bitmap w x)"
    by (intro ballI samples_mono [OF _ order(2) order_refl]) (use bm(2) in blast)
  moreover have "scans w (concat (map (\<lambda>x. line_devices w ((bm(line := b)) x) x) (line # ls))) s t"
    using all unfolding eq by simp
  ultimately show ?case by (intro exI [of _ "bm(line := b)"]) auto
qed

lemma scans_consume_subdev:
  assumes k: "kinv w s" and t: "consume_subdev w ty n s = Inr t"
  shows "\<exists>e \<in> samples (now (bus s)) (now (bus t)) (term_done w ty n). scans w (if e then [(ty, n)] else []) s t"
proof -
  obtain st u where u: "on_bus (get_status w ty (DEV_REG_ADDR w (IL_TERMINAL w) n)) s = (st, u)" by fastforce
  have g: "st = status_at w ty (DEV_REG_ADDR w (IL_TERMINAL w) n) (now (bus s))" "now (bus u) = Suc (now (bus s))"
    using now_get_status [of w ty "DEV_REG_ADDR w (IL_TERMINAL w) n" "bus s"] on_bus_fst [OF u] by (metis prod.collapse)+
  have r: "scans w [] s u"
    by (rule scans_on_bus [OF k u]) (use g(2) on_bus_fst [OF u] in simp)
  define e where "e \<longleftrightarrow> term_done w ty n (now (bus s))"
  have "scans w (if e then [(ty, n)] else []) s t \<and> now (bus u) \<le> now (bus t)"
  proof (cases e)
    case True
    then have "done_io w ty n u = Inr t" using t u g(1) by (simp add: consume_subdev_def e_def term_done_def)
    note d = scans_done_io [OF scansD(1) [OF r] this]
    show ?thesis using scans_trans [OF r d] scansD(2) [OF d] True by simp
  next
    case False
    then show ?thesis using t u r g(1) by (simp add: consume_subdev_def e_def term_done_def)
  qed
  moreover from this have "e \<in> samples (now (bus s)) (now (bus t)) (term_done w ty n)"
    unfolding e_def using g(2) by (intro samplesI) auto
  ultimately show ?thesis by blast
qed

lemma scans_consume_terminals:
  "kinv w s \<Longrightarrow> consume_terminals w k n bm s = Inr t \<Longrightarrow>
    \<exists>e. scans w (concat (map (terminal_halves e) (filter (\<lambda>d. bit bm (d - n)) [n..<n + k]))) s t \<and>
      (\<forall>d \<in> set (filter (\<lambda>d. bit bm (d - n)) [n..<n + k]). \<forall>l \<in> {TERM_RX, TERM_TX}.
        e l d \<in> samples (now (bus s)) (now (bus t)) (term_done w l d))"
proof (induction k arbitrary: n bm s)
  case 0
  then show ?case by (simp add: scans_refl)
next
  case (Suc k)
  obtain u where u: "(if bm AND 1 \<noteq> 0
       then andThen (consume_subdev w TERM_RX n s) (consume_subdev w TERM_TX n) else Inr s) = Inr u"
      "consume_terminals w k (Suc n) (drop_bit 1 bm) u = Inr t"
    using Suc.prems(2) by (auto simp: andThen_eq_Inr)
  let ?ds = "filter (\<lambda>d. bit (drop_bit 1 bm) (d - Suc n)) [Suc n..<Suc n + k]"
  obtain x y where xy: "scans w (if bit bm 0 then (if x then [(TERM_RX, n)] else []) @ (if y then [(TERM_TX, n)] else []) else []) s u"
    "bit bm 0 \<Longrightarrow> x \<in> samples (now (bus s)) (now (bus u)) (term_done w TERM_RX n) \<and>
      y \<in> samples (now (bus s)) (now (bus u)) (term_done w TERM_TX n)"
  proof (cases "bit bm 0")
    case True
    then obtain v where v: "consume_subdev w TERM_RX n s = Inr v" "consume_subdev w TERM_TX n v = Inr u"
      using u(1) by (auto simp: and_one andThen_eq_Inr)
    obtain x where x: "x \<in> samples (now (bus s)) (now (bus v)) (term_done w TERM_RX n)"
        "scans w (if x then [(TERM_RX, n)] else []) s v"
      using scans_consume_subdev [OF Suc.prems(1) v(1)] by blast
    obtain y where y: "y \<in> samples (now (bus v)) (now (bus u)) (term_done w TERM_TX n)"
        "scans w (if y then [(TERM_TX, n)] else []) v u"
      using scans_consume_subdev [OF scansD(1) [OF x(2)] v(2)] by blast
    show ?thesis
      by (rule that [of x y])
        (use True scans_trans [OF x(2) y(2)] samples_mono [OF x(1) order_refl scansD(2) [OF y(2)]]
          samples_mono [OF y(1) scansD(2) [OF x(2)] order_refl] in simp_all)
  next
    case False
    then show ?thesis using u(1) that scans_refl [OF Suc.prems(1)] by (simp add: and_one)
  qed
  obtain e where e: "scans w (concat (map (terminal_halves e) ?ds)) u t"
      "\<forall>d \<in> set ?ds. \<forall>l \<in> {TERM_RX, TERM_TX}. e l d \<in> samples (now (bus u)) (now (bus t)) (term_done w l d)"
    using Suc.IH [OF scansD(1) [OF xy(1)] u(2)] by blast
  define f where "f ty d = (if d = n then (if ty = TERM_RX then x else y) else e ty d)" for ty d
  have "scans w (concat (map (terminal_halves f) (if bit bm 0 then [n] else []))) s u"
    using xy(1) by (simp add: terminal_halves_def f_def dev_types split: if_splits)
  from scans_trans [OF this e(1)]
  have "scans w (concat (map (terminal_halves f) (if bit bm 0 then [n] else [])) @ concat (map (terminal_halves e) ?ds)) s t" .
  moreover have "map (terminal_halves e) ?ds = map (terminal_halves f) ?ds"
    by (rule map_cong) (auto simp: terminal_halves_def f_def)
  moreover have "f l d \<in> samples (now (bus s)) (now (bus t)) (term_done w l d)"
    if "d \<in> set ((if bit bm 0 then [n] else []) @ ?ds)" "l \<in> {TERM_RX, TERM_TX}" for l d
  proof (cases "d = n")
    case True
    then have "bit bm 0" using that(1) by (auto split: if_splits)
    from xy(2) [OF this] show ?thesis
      using that(2) True samples_mono [OF _ order_refl scansD(2) [OF e(1)]] by (auto simp: f_def dev_types)
  next
    case False
    then have "e l d \<in> samples (now (bus u)) (now (bus t)) (term_done w l d)" using that e(2) by (auto split: if_splits)
    from samples_mono [OF this scansD(2) [OF xy(1)] order_refl] show ?thesis using False by (simp add: f_def)
  qed
  ultimately show ?case
    unfolding set_bits_from by (intro exI [of _ f]) (simp only: map_append concat_append, blast)
qed

text \<open>The interrupt line of the terminals.\<close>

lemma scans_terminal_line:
  assumes k: "kinv w s" and s1: "on_bus (interrupt_pending w (IL_TERMINAL w)) s = (pend, s1)"
    and s2: "on_bus (bus_read w (CDEV_BITMAP_ADDR w (IL_TERMINAL w))) s1 = (v, s2)"
    and t: "(if pend \<noteq> 0 then consume_terminals w (N_DEV_PER_IL w) 0 v s2 else Inr s1) = Inr t"
  defines "ds \<equiv> set_bits_of (line_bitmap w (IL_TERMINAL w) (now (bus s))) (N_DEV_PER_IL w)"
  shows "\<exists>e. scans w (concat (map (terminal_halves e) ds)) s t \<and> now (bus s) < now (bus t) \<and>
    (\<forall>d \<in> set ds. \<forall>l \<in> {TERM_RX, TERM_TX}. e l d \<in> samples (now (bus s)) (now (bus t)) (term_done w l d))"
proof (cases "pend \<noteq> 0")
  case True
  note read = scans_bitmap [OF k s1 s2]
  have ds: "ds = set_bits_of v (N_DEV_PER_IL w)" using True read(3) by (simp add: ds_def)
  have r: "scans w [] s s2" using True read(1) by simp
  obtain e where e: "scans w (concat (map (terminal_halves e) ds)) s2 t"
      "\<forall>d \<in> set ds. \<forall>l \<in> {TERM_RX, TERM_TX}. e l d \<in> samples (now (bus s2)) (now (bus t)) (term_done w l d)"
    using True t scans_consume_terminals [OF scansD(1) [OF r], of "N_DEV_PER_IL w" 0 v t] by (auto simp: ds set_bits_of_def)
  have "now (bus s) < now (bus t)" using scansD(2) [OF e(1)] on_bus_fst [OF s2] read(2) by simp
  moreover have "scans w (concat (map (terminal_halves e) ds)) s t" using scans_trans [OF r e(1)] by simp
  moreover have "\<forall>d \<in> set ds. \<forall>l \<in> {TERM_RX, TERM_TX}. e l d \<in> samples (now (bus s)) (now (bus t)) (term_done w l d)"
    by (intro ballI samples_mono [OF _ scansD(2) [OF r] order_refl]) (use e(2) in blast)
  ultimately show ?thesis by blast
next
  case False
  note read = scans_bitmap [OF k s1 s2]
  have "ds = []" using False read(3) by (simp add: ds_def set_bits_of_def)
  then show ?thesis using False t read(1,2) by simp
qed

text \<open>The parts of an interrupt, put together.\<close>

lemma read_duringI:
  assumes t: "timer = is_interrupt_pending (hw.truncate w) (board_target w) (cause_env w m') 2" and m: "m \<le> m'" "m' < i"
    and bm: "\<forall>line \<in> set [N_IL w - N_EXT_IL w..<IL_TERMINAL w]. bm line \<in> samples i j (line_bitmap w line)"
    and c: "c = line_bitmap w (IL_TERMINAL w) j"
    and e: "\<forall>d \<in> set (set_bits_of c (N_DEV_PER_IL w)). \<forall>l \<in> {TERM_RX, TERM_TX}. e l d \<in> samples j n' (term_done w l d)"
    and n: "i \<le> j" "j < n'" "n' \<le> n"
  defines "rd sts \<equiv> \<lparr>expired = (timer \<noteq> 0), bitmaps = bm(IL_TERMINAL w := c), ended = e, statuses = sts\<rparr>"
  assumes sts: "list_all2 (status_read w m n) (served_devices w (rd [])) sts"
  shows "read_during w m n (rd sts)"
  unfolding read_during_def
proof (intro conjI ballI)
  show "expired (rd sts) \<in> samples m n (\<lambda>i. is_interrupt_pending (hw.truncate w) (board_target w) (cause_env w i) 2 \<noteq> 0)"
    using t m n by (intro samplesI [of _ _ m']) (auto simp: rd_def)
  fix line
  assume line: "line \<in> insert (IL_TERMINAL w) {N_IL w - N_EXT_IL w..<IL_TERMINAL w}"
  show "bitmaps (rd sts) line \<in> samples m n (line_bitmap w line)"
  proof (cases "line = IL_TERMINAL w")
    case True
    then show ?thesis using c m n by (intro samplesI [of _ _ j]) (auto simp: rd_def)
  next
    case False
    then have "bm line \<in> samples i j (line_bitmap w line)" using line bm by auto
    then show ?thesis using False m n by (auto simp: rd_def elim!: samples_mono)
  qed
next
  fix d l
  assume "d \<in> set (set_bits_of (bitmaps (rd sts) (IL_TERMINAL w)) (N_DEV_PER_IL w))" "l \<in> {TERM_RX, TERM_TX}"
  then have "e l d \<in> samples j n' (term_done w l d)" using e by (auto simp: rd_def)
  then show "ended (rd sts) l d \<in> samples m n (term_done w l d)" using m n by (auto simp: rd_def elim!: samples_mono)
next
  have "served_devices w (rd sts) = served_devices w (rd [])" by (simp add: served_devices_def rd_def)
  then show "list_all2 (status_read w m n) (served_devices w (rd sts)) (statuses (rd sts))" using sts by (simp add: rd_def)
qed

lemma served_devices_parts:
  "served_devices w \<lparr>expired = x, bitmaps = bm(IL_TERMINAL w := c), ended = e, statuses = sts\<rparr> =
    concat (map (\<lambda>line. line_devices w (bm line) line) [N_IL w - N_EXT_IL w..<IL_TERMINAL w]) @
    concat (map (terminal_halves e) (set_bits_of c (N_DEV_PER_IL w)))"
proof -
  have "map (\<lambda>line. line_devices w ((bm(IL_TERMINAL w := c)) line) line) [N_IL w - N_EXT_IL w..<IL_TERMINAL w] =
      map (\<lambda>line. line_devices w (bm line) line) [N_IL w - N_EXT_IL w..<IL_TERMINAL w]"
    by (rule map_cong) simp_all
  then show ?thesis by (simp only: served_devices_def readings.simps fun_upd_same)
qed

lemma consume_interrupts_refines:
  assumes "kinv w s" and r: "repr s a" and p: "\<And>p. prio s p < 2147483647" and t: "consume_interrupts w s = Inr t"
    and win: "m \<le> now (bus s)" "now (bus t) \<le> n"
  shows "\<exists>rd. read_during w m n rd \<and> repr t (a_interrupt w rd a) \<and> memory_same s t"
proof -
  obtain timer s1 u v pend s2 bm s3
    where s1: "on_bus (interrupt_pending w 2) (set_area OLD INTR (adjust_pc w (area s OLD INTR)) s) = (timer, s1)"
      and u: "(if timer \<noteq> 0 then time_slice_callback s1 else Inr s1) = Inr u"
        "consume_lines w [N_IL w - N_EXT_IL w..<IL_TERMINAL w] u = Inr v"
      and s2: "on_bus (interrupt_pending w (IL_TERMINAL w)) v = (pend, s2)"
      and s3: "on_bus (bus_read w (CDEV_BITMAP_ADDR w (IL_TERMINAL w))) s2 = (bm, s3)"
      and terms: "(if pend \<noteq> 0 then consume_terminals w (N_DEV_PER_IL w) 0 bm s3 else Inr s2) = Inr t"
    using t by (rule consume_interruptsE)
  let ?lines = "[N_IL w - N_EXT_IL w..<IL_TERMINAL w]" and ?a = "if timer \<noteq> 0 then a_time_slice a else a"
  have k1: "kinv w s1" by (rule kinv_on_bus_eq [OF _ s1]) (simp add: assms(1))
  have r1: "repr s1 a" by (rule repr_machine [OF r]) (use s1 in \<open>auto simp: on_bus_def set_area_def split: prod.splits\<close>)
  have m1: "memory_same s s1" using s1 by (auto simp: memory_same_def on_bus_def set_area_def split: prod.splits)
  have b1: "now (bus s1) = Suc (now (bus s))"
      "timer = is_interrupt_pending (hw.truncate w) (board_target w) (cause_env w (now (bus s))) 2"
    using on_bus_fst [OF s1] by (simp_all add: interrupt_pending_def set_area_def)
  have p1: "prio s1 q < 2147483647" for q
    using s1 p by (auto simp: on_bus_def set_area_def prio_def split: prod.splits)
  have ku: "kinv w u" using u(1) k1 kinv_time_slice [OF k1 p1] by (auto split: if_splits simp: ok_iff)
  have "ok (time_slice_callback s1) (\<lambda>t. repr t (a_time_slice a) \<and> rest_same s1 t)"
    by (rule time_slice_refines [OF r1]) (rule running_unqueued [OF kinv_repr(1) [OF k1 r1]])
  then have ru: "repr u ?a" "memory_same s u" "bus u = bus s1"
    using u(1) r1 m1 by (auto simp: memory_same_def rest_same_def split: if_splits)
  obtain f where f: "scans w (concat (map (\<lambda>line. line_devices w (f line) line) ?lines)) u v"
      "\<forall>line \<in> set ?lines. f line \<in> samples (now (bus u)) (now (bus v)) (line_bitmap w line)"
    using scans_consume_lines [OF ku u(2)] by auto
  define c where "c = line_bitmap w (IL_TERMINAL w) (now (bus v))"
  obtain e where e: "scans w (concat (map (terminal_halves e) (set_bits_of c (N_DEV_PER_IL w)))) v t" "now (bus v) < now (bus t)"
      "\<forall>d \<in> set (set_bits_of c (N_DEV_PER_IL w)). \<forall>l \<in> {TERM_RX, TERM_TX}.
        e l d \<in> samples (now (bus v)) (now (bus t)) (term_done w l d)"
    using scans_terminal_line [OF scansD(1) [OF f(1)] s2 s3 terms] by (auto simp: c_def)
  define rd where "rd sts = \<lparr>expired = (timer \<noteq> 0), bitmaps = f(IL_TERMINAL w := c), ended = e, statuses = sts\<rparr>" for sts
  have all: "scans w (served_devices w (rd [])) u t"
    unfolding rd_def served_devices_parts by (rule scans_trans [OF f(1) e(1)])
  obtain sts where sts: "list_all2 (status_read w m n) (served_devices w (rd [])) sts"
      "repr t (fold a_serve (zip (served_devices w (rd [])) sts) ?a)" "memory_same u t"
    using scans_serve [OF all ru(1), of m n] win b1(1) ru(3) all by (auto simp: scans_def)
  have "read_during w m n (rd sts)"
    unfolding rd_def
    by (rule read_duringI [OF b1(2) win(1) _ f(2) c_def e(3) scansD(2) [OF f(1)] e(2) win(2) sts(1) [unfolded rd_def]])
      (simp add: ru(3) b1(1))
  moreover have "a_interrupt w (rd sts) a = fold a_serve (zip (served_devices w (rd [])) sts) ?a"
    unfolding a_interrupt_def rd_def served_devices_parts by simp
  ultimately show ?thesis using sts(2) memory_same_trans [OF ru(2) sts(3)] by metis
qed

section \<open>System calls\<close>

lemma repD: "rep s k \<Longrightarrow> repr s (sch k)" "rep s k \<Longrightarrow> user_word s = words k" "rep s k \<Longrightarrow> user_state s = states k"
  by (simp_all add: rep_def)

lemma rep_machine:
  assumes "rep s k" and "lh_next t = lh_next s" "lh_prev t = lh_prev s" "s_key t = s_key s"
    "pcbs t = pcbs s" "running_proc t = running_proc s" "user_word t = m" "user_state t = user_state s"
  shows "rep t (k\<lparr>words := m\<rparr>)"
  using assms repr_machine [of s "sch k" t] by (simp add: rep_def)

lemma rep_sched: "rep s k \<Longrightarrow> repr t b \<Longrightarrow> memory_same s t \<Longrightarrow> rep t (k\<lparr>sch := b\<rparr>)"
  by (simp add: rep_def memory_same_def)

lemma rep_same:
  assumes "rep s k" and "lh_next t = lh_next s" "lh_prev t = lh_prev s" "s_key t = s_key s"
    "pcbs t = pcbs s" "running_proc t = running_proc s" "memory_same s t"
  shows "rep t k"
  using rep_machine [OF assms(1-6), of "user_word s"] assms(1,7) by (simp add: memory_same_def rep_def)

lemma rep_set_area: "rep s k \<Longrightarrow> rep (set_area g ty st s) k"
  by (rule rep_same) (simp_all add: set_area_def memory_same_def)

lemma kill_refines:
  assumes x: "expendable w s p" and r: "repr s a"
    and target: "target = Some p \<or> target = None \<and> running_proc s = Some p"
    and t: "terminate_proc target s = Inr (x, t)"
  shows "\<exists>b. a_kill p a b \<and> repr t b \<and> memory_same s t"
proof -
  obtain b where b: "repr s b" "p \<in> live b" "p \<in> all_procs" using x by (auto simp: expendable_def)
  have wf: "sched_wf a" using kinv_repr(1) [OF expendable_kinv [OF x] r] .
  have p: "p \<in> live a" using b(2) repr_unique(1) [OF b(1) r] by (simp add: live_def)
  obtain xs where xs: "offspring a p xs" using offspring_exists [of a] wf by (auto simp: sched_wf_def core_def)
  have tgt: "target = Some p \<or> target = None \<and> p = running a" using target repr_running [OF r] by auto
  show ?thesis
    using terminate_refines [OF r wf p b(3) xs tgt] t xs by (auto simp: ok_iff a_kill_def rest_same_def memory_same_def)
qed

lemma terminate_rep:
  assumes guard: "call_guard w ly s" and k: "rep s k" and p: "running_proc s = Some p"
    and n: "SYSCALL_N (area s OLD SYS) = TERMINATEPROCESS" "pcb_ptr ly (SYSCALL_ARG1 (area s OLD SYS)) = Inr tg"
    and t: "terminate_proc tg s = Inr (x, t)"
  shows "\<exists>b. a_kill (case tg of None \<Rightarrow> running (sch k) | Some p \<Rightarrow> p) (sch k) b \<and> rep t (k\<lparr>sch := b\<rparr>)"
proof -
  have pr: "p = running (sch k)" using repr_running [OF repD(1) [OF k]] p by simp
  let ?p = "case tg of None \<Rightarrow> running (sch k) | Some p \<Rightarrow> p"
  have e: "expendable w s ?p"
    using guard n p pr by (auto simp: call_guard_def Let_def call_target_def split: option.splits)
  have "tg = Some ?p \<or> tg = None \<and> running_proc s = Some ?p" using p pr by (cases tg) simp_all
  from kill_refines [OF e repD(1) [OF k] this t] show ?thesis using rep_sched [OF k] by blast
qed

lemma getcputime_refines:
  assumes k: "rep s k" and p: "running_proc s = Some p" and t: "sys_getcputime w x y z p s = Inr t"
    and T: "samples (now (bus s)) (now (bus t)) (env w (BUS_REG_TOD_LO w)) \<subseteq> T"
  shows "\<exists>n \<in> T. let c = tcb (sch k) (running (sch k)) in rep t (k\<lparr>words := (words k)(x := user_timer c,
    y := kernel_timer c + (n - tod_cache c), z := n - tod_at_start c)\<rparr>)"
proof -
  obtain n u where u: "read_TOD w s = (n, u)" by fastforce
  then have e: "pcbs u = pcbs s" "rep u k" using k by (auto simp: read_TOD_def memory_same_def intro: rep_same split: prod.splits)
  let ?c = "tcb (sch k) (running (sch k))"
  have c: "pcbs s p = ?c" using repD(1) [OF k] p by (simp add: repr_def)
  let ?m = "(words k)(x := user_timer ?c, y := kernel_timer ?c + (n - tod_cache ?c), z := n - tod_at_start ?c)"
  have m: "t = u\<lparr>user_word := ?m\<rparr>"
    using t c e by (auto simp: sys_getcputime_def u andThen_eq_Inr store_user_def int_at_def rep_def split: if_splits)
  then have "rep t (k\<lparr>words := ?m\<rparr>)" using rep_machine [OF e(2), of t ?m] by simp
  moreover have "n \<in> T" using u m by (intro subsetD [OF T] samplesI [of _ _ "now (bus s)"]) (auto simp: read_TOD_def TOD_def bus_read_def)
  ultimately show ?thesis unfolding Let_def by blast
qed

lemma create_rep:
  assumes inv: "kinv w s" and k: "rep s k" and t: "create_process ly st pri cpid s = Inr (x, t)"
  shows "free (sch k) = [] \<and> rep t k \<or> (\<exists>p q. free (sch k) = p # q \<and> st \<noteq> 0 \<and>
    rep t (k\<lparr>sch := a_create (states k st) pri (sch k),
      words := if cpid = 0 then words k else (words k)(cpid := pcb_addr ly p)\<rparr>))"
proof (cases "free (sch k)")
  case Nil
  then show ?thesis using create_process_none [OF repD(1) [OF k] Nil] t k by simp
next
  case (Cons p q)
  have wf: "sched_wf (sch k)" by (rule kinv_repr(1) [OF inv repD(1) [OF k]])
  have "st \<noteq> 0"
    using create_process_null [OF repD(1) [OF k], of ly pri cpid] wf Cons t by (auto simp: sched_wf_def)
  from create_refines [OF repD(1) [OF k] wf Cons this, of ly pri cpid] show ?thesis
    using t Cons k \<open>st \<noteq> 0\<close> by (auto simp: rep_def rest_same_def)
qed

lemma verhogen_rep:
  assumes inv: "kinv w s" and k: "rep s k" and t: "verhogen (int_at u) s = Inr t"
  shows "u \<noteq> 0 \<and> (if wait (sch k) (Some (User_int u)) = [] then rep t (k\<lparr>words := (words k)(u := words k u + 1)\<rparr>)
    else rep t (k\<lparr>sch := a_wake (Some (User_int u)) (sch k)\<rparr>))"
proof -
  have u: "u \<noteq> 0" "verhogen (Some (User_int u)) s = Inr t" using t by (auto simp: int_at_def verhogen_def split: if_splits)
  note r = repD(1) [OF k]
  have l: "load_int (Some (User_int u)) s = Inr (words k u)" using k by (simp add: rep_def)
  show ?thesis
  proof (cases "wait (sch k) (Some (User_int u))")
    case Nil
    then show ?thesis using verhogen_free [OF r l Nil] u k by (auto simp: rep_def)
  next
    case (Cons p q)
    have "core (sch k) {running (sch k)}" using kinv_repr(1) [OF inv r] by (simp add: sched_wf_def)
    from verhogen_wake [OF r l this Cons] show ?thesis using u k Cons by (auto simp: rep_def rest_same_def)
  qed
qed

lemma passeren_rep:
  assumes inv: "kinv w s" and run: "running_proc s \<noteq> Some Idle_proc" and k: "rep s k" and t: "passeren w (int_at u) s = Inr t"
    and T: "samples (now (bus s)) (now (bus t)) (env w (BUS_REG_TOD_LO w)) \<subseteq> T"
  shows "u \<noteq> 0 \<and> (if 0 \<le> sint (words k u - 1) then rep t (k\<lparr>words := (words k)(u := words k u - 1)\<rparr>)
    else \<exists>n \<in> T. rep t (k\<lparr>sch := a_block (Some (User_int u)) (a_flush_kernel n (running (sch k)) (sch k))\<rparr>))"
proof -
  have u: "u \<noteq> 0" "passeren w (Some (User_int u)) s = Inr t" using t by (auto simp: int_at_def passeren_def split: if_splits)
  note r = repD(1) [OF k]
  note wf = kinv_repr(1) [OF inv r]
  have l: "load_int (Some (User_int u)) s = Inr (words k u)" using k by (simp add: rep_def)
  have i: "running (sch k) \<noteq> Idle_proc" using run repr_running [OF r] by simp
  show ?thesis
  proof (cases "0 \<le> sint (words k u - 1)")
    case True
    then show ?thesis using passeren_free [OF r l True, of w] u k by (auto simp: rep_def)
  next
    case False
    have n: "sint (words k u - 1) < 0" using False by simp
    have "ok (passeren w (Some (User_int u)) s) (\<lambda>t. repr t (a_block (Some (User_int u))
        (a_flush_kernel (tod_at w s) (running (sch k)) (sch k))) \<and> rest_same (snd (read_TOD w s)) t)"
      by (rule passeren_block [OF r l n running_unqueued [OF wf i] wait_not_full [OF wf i]])
    then have "repr t (a_block (Some (User_int u)) (a_flush_kernel (tod_at w s) (running (sch k)) (sch k)))"
        "memory_same (snd (read_TOD w s)) t" "bus t = bus (snd (read_TOD w s))"
      using u(2) by (simp_all add: rest_same_def memory_same_def)
    moreover have "memory_same s (snd (read_TOD w s))" by (simp add: memory_same_def read_TOD_def split: prod.split)
    ultimately have "rep t (k\<lparr>sch := a_block (Some (User_int u)) (a_flush_kernel (tod_at w s) (running (sch k)) (sch k))\<rparr>)"
      by (intro rep_sched [OF k]) (auto intro: memory_same_trans)
    moreover have "tod_at w s \<in> T"
      using \<open>bus t = bus (snd (read_TOD w s))\<close>
      by (intro subsetD [OF T] samplesI [of _ _ "now (bus s)"]) (simp_all add: tod_at_def read_TOD_def TOD_def bus_read_def)
    ultimately show ?thesis using u(1) False by auto
  qed
qed

lemma wait_io_rep:
  assumes inv: "kinv w s" and run: "running_proc s \<noteq> Some Idle_proc" and k: "rep s k"
    and t: "wait_io w cmd dev_reg sub s = Inr t"
    and T: "samples (now (bus s)) (now (bus t)) (env w (BUS_REG_TOD_LO w)) \<subseteq> T"
  shows "\<exists>l d. \<exists>n \<in> T. io_device w dev_reg sub = Inr (l, d) \<and>
    rep t (k\<lparr>sch := a_flush_kernel n (running (sch k))
      (if wait (sch k) (Some (Dev_sem l d)) = [] then a_wait_ready l d (sch k) else a_wait_busy l d (sch k))\<rparr>)"
proof -
  note r = repD(1) [OF k]
  note wf = kinv_repr [OF inv r]
  have i: "running (sch k) \<noteq> Idle_proc" using run repr_running [OF r] by simp
  obtain l d where dev: "io_device w dev_reg sub = Inr (l, d)"
    using t by (auto simp: wait_io_def io_device_def Let_def andThen_eq_Inr)
  have "get_dev_w_list w l d = Inr (l, d)" using dev by (auto simp: io_device_def get_dev_w_list_def split: if_splits)
  note served = dev_invD [OF wf(2) this] and un = running_unqueued [OF wf(1) i] wait_not_full [OF wf(1) i]
  show ?thesis
  proof (cases "w_for_res s l d")
    case None
    then have n: "wait (sch k) (Some (Dev_sem l d)) = []" "0 \<le> sint (w_for_cmd_sem s l d - 1)"
      using served by (auto simp: dev_served_def)
    let ?n = "env w (BUS_REG_TOD_LO w) (Suc (now (bus s)))"
    have "repr t (a_flush_kernel ?n (running (sch k)) (a_wait_ready l d (sch k)))" "memory_same s t"
        "now (bus t) = Suc (Suc (now (bus s)))"
      using wait_io_ready [OF r dev n(2) un, of cmd] t by simp_all
    moreover from this have "?n \<in> T" by (intro subsetD [OF T] samplesI [of _ _ "Suc (now (bus s))"]) simp_all
    ultimately show ?thesis using dev n(1) rep_sched [OF k] by auto
  next
    case (Some p)
    then have n: "wait (sch k) (Some (Dev_sem l d)) \<noteq> []" "sint (w_for_cmd_sem s l d - 1) < 0"
      using served by (auto simp: dev_served_def)
    have "repr t (a_flush_kernel (tod_at w s) (running (sch k)) (a_wait_busy l d (sch k)))" "memory_same s t"
        "now (bus t) = Suc (now (bus s))"
      using wait_io_busy [OF r dev n(2) un, of cmd] t by (auto simp: rest_same_def memory_same_def read_TOD_def TOD_def bus_read_def)
    moreover from this have "tod_at w s \<in> T"
      by (intro subsetD [OF T] samplesI [of _ _ "now (bus s)"]) (simp_all add: tod_at_def)
    ultimately show ?thesis using dev n(1) rep_sched [OF k] by auto
  qed
qed

lemma getpid_rep:
  assumes k: "rep s k" and t: "sys_getpid ly x y s = Inr t"
  shows "let m = (if x = 0 then words k else (words k)(x := pcb_addr ly (running (sch k))))
    in rep t (k\<lparr>words := if y = 0 then m else m(y := addr_of ly (p_parent (tcb (sch k) (running (sch k)))))\<rparr>)"
proof -
  have e: "running_proc s = Some (running (sch k))" "pcbs s = tcb (sch k)" using repD(1) [OF k] by (simp_all add: repr_def)
  let ?m = "if x = 0 then words k else (words k)(x := pcb_addr ly (running (sch k)))"
  let ?n = "if y = 0 then ?m else ?m(y := addr_of ly (p_parent (tcb (sch k) (running (sch k)))))"
  have "t = s\<lparr>user_word := ?n\<rparr>"
    using t k e by (auto simp: sys_getpid_def andThen_eq_Inr store_user_def int_at_def rep_def split: if_splits)
  then show ?thesis using rep_machine [OF k, of t ?n] by simp
qed

lemma spec_slot_Suc:
  assumes "spec_slot v < 6"
  shows "unat ((if v = 1 then 2 else if v = 2 then 1 else v) * 2 + 1) = Suc (spec_slot v)"
proof -
  have "unat (x + 1) = Suc (unat x)" if "unat x < 6" for x :: u32
    using that by (simp add: unat_word_ariths)
  from this [OF assms [unfolded spec_slot_def]] show ?thesis by (simp only: spec_slot_def)
qed

lemma specpassup_rep:
  assumes inv: "kinv w s" and kill: "\<And>r. running_proc s = Some r \<Longrightarrow> expendable w s r" and k: "rep s k"
    and t: "sys_specpassup x y z s = Inr t"
  defines "i \<equiv> spec_slot x" and "a \<equiv> sch k"
  defines "c \<equiv> tcb a (running a)"
  shows "i < 5 \<and> spec_areas c i = None \<and> spec_areas c (Suc i) = None \<and>
      rep t (k\<lparr>sch := upd_tcb (running a) (\<lambda>c. c\<lparr>spec_areas := (spec_areas c)(Suc i := spec_ptr y, i := spec_ptr z)\<rparr>) a\<rparr>) \<or>
    i < 6 \<and> (spec_areas c i \<noteq> None \<or> spec_areas c (Suc i) \<noteq> None) \<and> (\<exists>b. a_kill (running a) a b \<and> rep t (k\<lparr>sch := b\<rparr>))"
proof -
  have r: "repr s a" using k by (simp add: rep_def a_def)
  have e: "running_proc s = Some (running a)" "pcbs s = tcb a" using r by (simp_all add: repr_def)
  have i: "i < 6" using t by (auto simp: sys_specpassup_def Let_def andThen_eq_Inr get_spec_area_def i_def spec_slot_def split: if_splits)
  note j = spec_slot_Suc [of x, folded i_def, OF i]
  have u: "unat ((if x = 1 then 2 else if x = 2 then 1 else x) * 2) = i" by (simp only: i_def spec_slot_def)
  have eq: "sys_specpassup x y z s =
     (andThen (get_spec_area (running a) i s) (\<lambda>n.
      andThen (if n = None then get_spec_area (running a) (Suc i) s else Inr (Some 0)) (\<lambda>o'.
      if n = None \<and> o' = None
      then andThen (set_spec_area (running a) (Suc i) y s) (set_spec_area (running a) i z)
      else andThen (terminate_proc (Some (running a)) s) (\<lambda>(_, s). Inr s))))"
    unfolding sys_specpassup_def Let_def e(1) j u by simp
  show ?thesis
  proof (cases "spec_areas c i = None \<and> i < 5 \<and> spec_areas c (Suc i) = None")
    case True
    let ?f = "\<lambda>c. c\<lparr>spec_areas := (spec_areas c)(Suc i := spec_ptr y, i := spec_ptr z)\<rparr>"
    have "t = upd_pcb (running a) ?f s"
      using t True i unfolding eq
      by (auto simp: get_spec_area_def set_spec_area_def upd_pcb_def spec_ptr_def e(2) c_def split: if_splits)
    moreover have "repr (upd_pcb (running a) ?f s) (upd_tcb (running a) ?f a) \<and> rest_same s (upd_pcb (running a) ?f s)"
      by (rule upd_pcb_refines [OF r]) simp_all
    ultimately show ?thesis using True k by (auto simp: rep_def rest_same_def)
  next
    case False
    then obtain v where v: "terminate_proc (Some (running a)) s = Inr (v, t)" "spec_areas c i \<noteq> None \<or> spec_areas c (Suc i) \<noteq> None"
      using t i unfolding eq
      by (cases "spec_areas c i"; cases "spec_areas c (Suc i)")
        (auto simp: get_spec_area_def andThen_eq_Inr e(2) c_def split: if_splits)
    from kill_refines [OF kill [OF e(1)] r _ v(1)] show ?thesis using v(2) i rep_sched [OF k] by (auto simp: a_def)
  qed
qed

lemma consume_syscall_refines:
  assumes inv: "kinv w s" and guard: "call_guard w ly s" and k: "rep s k" and p: "running_proc s = Some p"
    and t: "consume_syscall w ly p s = Inr t"
    and T: "samples (now (bus s)) (now (bus t)) (env w (BUS_REG_TOD_LO w)) \<subseteq> T"
  shows "\<exists>k'. a_call w ly T (area s OLD SYS) k k' \<and> rep t k'"
proof -
  let ?st = "area s OLD SYS"
  let ?u = "SYSCALL_ARG1 ?st"
  have run: "running_proc s \<noteq> Some Idle_proc" using guard by (simp add: call_guard_def Let_def)
  have ret: "rep t k'" if "return_value (x, u) = Inr t" "rep u k'" for x u k'
    using that rep_set_area by (auto simp: return_value_def)
  show ?thesis
    using t
  proof (cases rule: consume_syscallE)
    case time
    from getcputime_refines [OF k p time(2) T] show ?thesis unfolding Let_def by (blast intro: Getcputime [OF time(1) _ refl])
  next
    case (create x u)
    from create_rep [OF inv k create(2)] show ?thesis using ret [OF create(3)] create(1) by (blast intro: Create_full Create)
  next
    case (kill tg x u)
    obtain b where "a_kill (case tg of None \<Rightarrow> running (sch k) | Some p \<Rightarrow> p) (sch k) b" "rep u (k\<lparr>sch := b\<rparr>)"
      using terminate_rep [OF guard k p kill(1-3)] by blast
    then show ?thesis using Terminate [OF kill(1,2)] ret [OF kill(4)] by blast
  next
    case v
    note outcome = verhogen_rep [OF inv k v(2)]
    show ?thesis
    proof (cases "wait (sch k) (Some (User_int ?u)) = []")
      case True
      then show ?thesis using outcome Verhogen_free [OF v(1) refl _ True] by auto
    next
      case False
      then show ?thesis using outcome Verhogen_wake [OF v(1) refl _ False] by auto
    qed
  next
    case p
    note outcome = passeren_rep [OF inv run k p(2) T]
    show ?thesis
    proof (cases "0 \<le> sint (words k ?u - 1)")
      case True
      then show ?thesis using outcome Passeren_free [OF p(1) refl _ True] by auto
    next
      case False
      with outcome obtain n where "n \<in> T"
        "rep t (k\<lparr>sch := a_block (Some (User_int ?u)) (a_flush_kernel n (running (sch k)) (sch k))\<rparr>)" by auto
      then show ?thesis using outcome False Passeren_block [OF p(1) _ refl, of n T k w ly] by auto
    qed
  next
    case io
    from wait_io_rep [OF inv run k io(2) T] obtain l d n where n: "n \<in> T"
      and dev: "io_device w (SYSCALL_ARG2 ?st) (SYSCALL_ARG3 ?st) = Inr (l, d)"
      and r: "rep t (k\<lparr>sch := a_flush_kernel n (running (sch k))
        (if wait (sch k) (Some (Dev_sem l d)) = [] then a_wait_ready l d (sch k) else a_wait_busy l d (sch k))\<rparr>)"
      by blast
    show ?thesis
      using r Waitio_start [OF io(1) n dev, of k] Waitio_queue [OF io(1) n dev, of k]
      by (cases "wait (sch k) (Some (Dev_sem l d)) = []") auto
  next
    case spec
    have "expendable w s q" if "running_proc s = Some q" for q
      using guard spec(1) that by (auto simp: call_guard_def Let_def)
    from specpassup_rep [OF inv this k spec(2)] show ?thesis
      using Specpassup_set [OF spec(1) refl _ refl] Specpassup_again [OF spec(1) refl _ refl] by blast
  next
    case pid
    from getpid_rep [OF k pid(2)] show ?thesis unfolding Let_def by (blast intro: Getpid [OF pid(1) refl refl])
  qed
qed

lemma a_call_skip [simp]: "a_call w ly T (skip_instr v st) k k' \<longleftrightarrow> a_call w ly T st k k'"
  by (simp only: a_call.simps skip_instr_same)

section \<open>Exceptions\<close>

lemma rep_silent:
  assumes k: "rep s k" and "silent s t" "memory_same s t"
  obtains b where "rep t (k\<lparr>sch := b\<rparr>)" "same_sched (sch k) b"
proof -
  obtain b where "repr t b" "same_sched (sch k) b" using assms(2) repD(1) [OF k] by (rule silent_repr)
  then show ?thesis using rep_sched [OF k _ assms(3)] by (intro that)
qed

lemma silent_start:
  assumes "start_handler w s = Inr t"
  shows "silent s t"
proof -
  obtain p x u where "running_proc s = Some p" "u = snd (on_bus (get_INTERVAL_TIMER w) s)"
    and t: "t = flush_user_time w p (u\<lparr>int_timer_cache := x, interrupted_proc := Some p\<rparr>)"
    using assms by (rule start_handlerE)
  then show ?thesis
    by (auto simp: silent_def same_pcb_def on_bus_def flush_user_time_def read_TOD_def upd_pcb_def Let_def split: prod.split dest!: now_TOD(1,2))
qed

lemma silent_flush: "silent s (flush_kernel_time w p s)"
  by (auto simp: silent_def same_pcb_def flush_kernel_time_def read_TOD_def upd_pcb_def Let_def split: prod.split dest!: now_TOD(1,2))

lemma silent_conclude:
  assumes "conclude_handler w ty u = Inr (st, t)"
  shows "silent u t"
proof -
  obtain r where "running_proc u = Some r" using assms by (cases "running_proc u") (simp_all add: conclude_handler_def)
  with assms show ?thesis
    by (cases "interrupted_proc u")
      (auto simp: silent_def same_pcb_def conclude_handler_def Let_def flush_kernel_time_def flush_reset_time_def
        reset_int_timer_def read_TOD_def upd_pcb_def now_TOD(3) split: if_splits prod.splits dest!: now_TOD(1))
qed

lemma conclude_memory:
  assumes "conclude_handler w ty u = Inr (st, t)"
  shows "memory_same u t"
proof -
  obtain r where "running_proc u = Some r" using assms by (cases "running_proc u") (simp_all add: conclude_handler_def)
  with assms show ?thesis by (rule conclude_contexts(6))
qed

lemma passup_declares:
  assumes "repr s a" and "ty \<noteq> INTR" and "is_passup_set ty (running a) s = Inr x"
  shows "x \<longleftrightarrow> declares a ty"
proof -
  have "pcbs s = tcb a" using assms(1) by (simp add: repr_def)
  then show ?thesis
    using assms(2,3) by (cases ty) (auto simp: is_passup_set_def get_spec_area_def declares_def)
qed

lemma passing_refines:
  assumes k: "rep s k" and "silent s v" "memory_same s v" and l: "launch_spec_area ty x v = Inr (st, t)"
  shows "\<exists>a u. spec_areas (tcb (sch k) (running (sch k))) (exc_index ty * 2 + age_index OLD) = Some a \<and>
    rep u (k\<lparr>states := (states k)(a := x)\<rparr>) \<and> silent u t \<and> memory_same u t"
proof -
  have v: "running_proc v = Some (running (sch k))" "spec_areas (pcbs v q) = spec_areas (tcb (sch k) q)" for q
    using assms(2) repD(1) [OF k] by (auto simp: silent_def same_pcb_def repr_def)
  obtain a where a: "spec_areas (tcb (sch k) (running (sch k))) (exc_index ty * 2 + age_index OLD) = Some a"
      "t = v\<lparr>user_state := (user_state v)(a := x)\<rparr>"
    using l v by (auto simp: launch_spec_area_def Let_def andThen_eq_Inr get_passup_area_def get_spec_area_def
        split: option.splits if_splits)
  let ?u = "s\<lparr>user_state := (user_state s)(a := x)\<rparr>"
  have "repr ?u (sch k)" by (rule repr_machine [OF repD(1) [OF k]]) simp_all
  then have "rep ?u (k\<lparr>states := (states k)(a := x)\<rparr>)" using k by (simp add: rep_def)
  moreover have "silent ?u t" "memory_same ?u t" using assms(2,3) by (simp_all add: a(2) silent_def memory_same_def)
  ultimately show ?thesis using a(1) by blast
qed

lemma passing_handles:
  assumes "rep s k" and "silent s v" "memory_same s v" and "launch_spec_area ty x v = Inr (st, t)"
    and x: "x = entry_state w ty st0" and "traps w ty st0 \<or> breaks w ty st0" "declares (sch k) ty"
  shows "\<exists>k' u. a_handle w ly ty st0 m n k k' \<and> rep u k' \<and> silent u t \<and> memory_same u t"
  using passing_refines [OF assms(1-4)] a_handle.Passed_up [OF assms(6,7)] unfolding x by blast

text \<open>A handler begins and ends with operations that the specification does not see.\<close>

lemma exceptionI:
  assumes "rep s k" and "now (bus s) = clock k" and s1: "silent s s1" "memory_same s s1"
    and handle: "\<And>k1. rep s1 k1 \<Longrightarrow> same_sched (sch k) (sch k1) \<Longrightarrow>
      \<exists>k2 u. a_handle w ly ty st (clock k) (now (bus t)) k1 k2 \<and> rep u k2 \<and> silent u t \<and> memory_same u t"
  shows "\<exists>k'. a_exception w ly ty st k k' \<and> rep t k' \<and> now (bus t) = clock k'"
proof -
  obtain a where a: "rep s1 (k\<lparr>sch := a\<rparr>)" "same_sched (sch k) a" using assms(1) s1 by (rule rep_silent)
  then obtain k2 u where k2: "a_handle w ly ty st (clock k) (now (bus t)) (k\<lparr>sch := a\<rparr>) k2" "rep u k2" "silent u t" "memory_same u t"
    using handle [OF a(1)] by auto
  from k2(2-4) obtain b where "rep t (k2\<lparr>sch := b\<rparr>)" "same_sched (sch k2) b" by (rule rep_silent)
  then show ?thesis
    using a(2) k2(1) assms(2)
    by (intro exI [of _ "k2\<lparr>sch := b, clock := now (bus t)\<rparr>"]) (auto simp: a_exception_def rep_def)
qed

lemma handle_passup_refines:
  assumes inv: "kinv w s" and k: "rep s k" "now (bus s) = clock k" and s1: "start_handler w s = Inr s1"
    and guard: "fault_guard w ty s1" and t: "handle_passup w ty s = Inr (st, t)" and ty: "ty \<in> {TLB, PRG}"
  shows "\<exists>k'. a_exception w ly ty (area s OLD ty) k k' \<and> rep t k' \<and> now (bus t) = clock k'"
proof (rule exceptionI [OF k silent_start [OF s1] saved_start(4) [OF s1]])
  fix k1
  assume k1: "rep s1 k1"
  let ?r = "running (sch k1)"
  have r: "running_proc s1 = Some ?r" using repr_running [OF repD(1) [OF k1]] by simp
  have traps: "traps w ty (area s OLD ty)" and entry: "area s1 OLD ty = entry_state w ty (area s OLD ty)"
    using ty saved_start(2) [OF s1] by (auto simp: traps_def entry_state_def)
  have dec: "x \<longleftrightarrow> declares (sch k1) ty" if "is_passup_set ty ?r s1 = Inr x" for x
    using passup_declares [OF repD(1) [OF k1] _ that] ty by auto
  show "\<exists>k2 u. a_handle w ly ty (area s OLD ty) (clock k) (now (bus t)) k1 k2 \<and> rep u k2 \<and> silent u t \<and> memory_same u t"
    using t s1 r
  proof (cases rule: handle_passupE)
    case up
    show ?thesis
      by (rule passing_handles [OF k1 silent_refl _ up(2) entry]) (use traps dec [OF up(1)] in \<open>simp_all add: memory_same_def\<close>)
  next
    case (kill x u)
    have "expendable w s1 ?r" using guard r kill(1) by (simp add: fault_guard_def)
    from kill_refines [OF this repD(1) [OF k1] _ kill(2)] obtain b where "a_kill ?r (sch k1) b" "rep u (k1\<lparr>sch := b\<rparr>)"
      using rep_sched [OF k1] by auto
    then show ?thesis
      using Killed [OF traps] dec [OF kill(1)] silent_conclude [OF kill(3)] conclude_memory [OF kill(3)] by blast
  qed
qed

lemma handle_interrupt_refines:
  assumes inv: "kinv w s" and k: "rep s k" "now (bus s) = clock k" and s1: "start_handler w s = Inr s1"
    and p: "\<And>p. prio s1 p < 2147483647" and t: "handle_interrupt w s = Inr (st, t)"
  shows "\<exists>k'. a_exception w ly INTR (area s OLD INTR) k k' \<and> rep t k' \<and> now (bus t) = clock k'"
proof (rule exceptionI [OF k silent_start [OF s1] saved_start(4) [OF s1]])
  fix k1
  assume k1: "rep s1 k1"
  obtain u where u: "consume_interrupts w s1 = Inr u" "conclude_handler w INTR u = Inr (st, t)"
    using t s1 by (auto simp: handle_interrupt_def andThen_eq_Inr)
  have win: "clock k \<le> now (bus s1)" "now (bus u) \<le> now (bus t)"
    using k(2) silent_start [OF s1] silent_conclude [OF u(2)] by (simp_all add: silent_def)
  obtain rd where rd: "read_during w (clock k) (now (bus t)) rd"
      "repr u (a_interrupt w rd (sch k1))" "memory_same s1 u"
    using consume_interrupts_refines [OF kinv_start(1) [OF inv s1] repD(1) [OF k1] p u(1) win] by blast
  show "\<exists>k2 u. a_handle w ly INTR (area s OLD INTR) (clock k) (now (bus t)) k1 k2 \<and> rep u k2 \<and> silent u t \<and> memory_same u t"
    using Interrupted [OF refl rd(1)] rep_sched [OF k1 rd(2,3)] silent_conclude [OF u(2)] conclude_memory [OF u(2)] by blast
qed

lemma handle_sysbreak_refines:
  assumes inv: "kinv w s" and k: "rep s k" "now (bus s) = clock k" and s1: "start_handler w s = Inr s1"
    and guard: "call_guard w ly s1" and t: "handle_sysbreak w ly s = Inr (st, t)"
  shows "\<exists>k'. a_exception w ly SYS (area s OLD SYS) k k' \<and> rep t k' \<and> now (bus t) = clock k'"
proof (rule exceptionI [OF k])
  let ?st = "area s OLD SYS"
  define s2 where "s2 = set_area OLD SYS (skip_instr w (area s1 OLD SYS)) s1"
  have "silent s1 s2" by (simp add: s2_def set_area_def silent_def same_pcb_def)
  with silent_start [OF s1] show s2: "silent s s2" by (rule silent_trans)
  show "memory_same s s2" unfolding s2_def by (rule memory_same_trans [OF saved_start(4) [OF s1] saved_set_area(2)])
  have inv2: "kinv w s2" unfolding s2_def by (rule kinv_set_area [OF kinv_start(1) [OF inv s1]])
  have g2: "call_guard w ly s2" unfolding s2_def using guard by (simp add: call_guard_skip)
  have st: "area s2 OLD SYS = skip_instr w ?st" "entry_state w SYS ?st = skip_instr w ?st"
    using saved_start(2) [OF s1] by (simp_all add: s2_def set_area_def entry_state_def)
  fix k1
  assume k1: "rep s2 k1"
  let ?r = "running (sch k1)"
  have r: "running_proc s2 = Some ?r" using repr_running [OF repD(1) [OF k1]] by simp
  then have ip: "interrupted_proc s1 = Some ?r" using kinv_start(2) [OF inv s1] by (simp add: s2_def set_area_def)
  note dec = passup_declares [OF repD(1) [OF k1], of SYS]
  show "\<exists>k2 u. a_handle w ly SYS ?st (clock k) (now (bus t)) k1 k2 \<and> rep u k2 \<and> silent u t \<and> memory_same u t"
    using t s1 ip s2_def
  proof (cases rule: handle_sysbreakE)
    case up
    show ?thesis
      by (rule passing_handles [OF k1 silent_flush area_flush(6) up(4)]) (use up(1,2) dec [OF _ up(3)] in \<open>simp_all add: st traps_def\<close>)
  next
    case (kill x u)
    then have traps: "traps w SYS ?st" by (simp add: traps_def st)
    have "expendable w s2 ?r" using g2 kill(2,3) r by (simp add: call_guard_def fault_guard_def Let_def)
    from kill_refines [OF this repD(1) [OF k1] _ kill(4)] obtain b where "a_kill ?r (sch k1) b" "rep u (k1\<lparr>sch := b\<rparr>)"
      using rep_sched [OF k1] by auto
    moreover have "\<not> declares (sch k1) SYS" using dec [OF _ kill(3)] by simp
    ultimately show ?thesis using Killed [OF traps] silent_conclude [OF kill(5)] conclude_memory [OF kill(5)] by blast
  next
    case (call u)
    have "samples (now (bus s2)) (now (bus u)) f \<subseteq> samples (clock k) (now (bus t)) f" for f :: "nat \<Rightarrow> u32"
      using k(2) s2 silent_conclude [OF call(4)] by (auto simp: silent_def elim!: samples_mono)
    from consume_syscall_refines [OF inv2 g2 k1 r call(3) this]
    obtain k2 where "a_call w ly (samples (clock k) (now (bus t)) (env w (BUS_REG_TOD_LO w))) ?st k1 k2" "rep u k2"
      by (auto simp: st)
    then have "a_handle w ly SYS ?st (clock k) (now (bus t)) k1 k2"
      by (intro Called) (use call(1,2) in \<open>simp_all add: st\<close>)
    then show ?thesis using \<open>rep u k2\<close> silent_conclude [OF call(4)] conclude_memory [OF call(4)] by blast
  next
    case break
    show ?thesis
      by (rule passing_handles [OF k1 silent_refl _ break(3)])
        (use break(1) dec [OF _ break(2)] in \<open>simp_all add: st breaks_def memory_same_def\<close>)
  qed
qed

lemma handler_refines:
  assumes "represents w s k" and "handler_guard w ly ty s" and "handler w ly ty s = Inr (st, t)"
  shows "\<exists>k'. a_exception w ly ty (area s OLD ty) k k' \<and> represents w t k'"
proof -
  have inv: "kinv w s" and k: "rep s k" "now (bus s) = clock k" using assms(1) by (simp_all add: represents_def)
  obtain s1 where s1: "start_handler w s = Inr s1" using handler_start [OF assms(3)] by blast
  have "\<exists>k'. a_exception w ly ty (area s OLD ty) k k' \<and> rep t k' \<and> now (bus t) = clock k'"
    using assms(2,3) s1 handle_interrupt_refines [OF inv k s1] handle_sysbreak_refines [OF inv k s1]
      handle_passup_refines [OF inv k s1, of TLB] handle_passup_refines [OF inv k s1, of PRG]
    by (cases ty) (auto simp: handler_def handler_guard_def handle_TLB_def handle_trap_def)
  then show ?thesis using kinv_exec [OF inv handler_exec [OF assms(2,3)]] by (auto simp: represents_def)
qed

section \<open>Runs\<close>

text \<open>A concrete transition system, each step of which is one of the abstract system.\<close>

locale simulation =
  fixes cstep :: "'c \<Rightarrow> 'c \<Rightarrow> bool" and astep :: "'a \<Rightarrow> 'a \<Rightarrow> bool" and R :: "'c \<Rightarrow> 'a \<Rightarrow> bool"
  assumes simulates: "R s k \<Longrightarrow> cstep s t \<Longrightarrow> \<exists>k'. astep k k' \<and> R t k'"
begin

lemma simulates_runs:
  assumes "cstep\<^sup>*\<^sup>* s t" and "R s k"
  shows "\<exists>k'. astep\<^sup>*\<^sup>* k k' \<and> R t k'"
  using assms(1)
proof (induction rule: rtranclp_induct)
  case base
  then show ?case using assms(2) by blast
next
  case (step t u)
  then show ?case using simulates by (meson rtranclp.rtrancl_into_rtrancl)
qed

text \<open>So what no run of the abstract system reaches, no run of the concrete one does.\<close>

lemma abstract_invariant:
  assumes "cstep\<^sup>*\<^sup>* s t" and "R s k" and "\<And>k'. astep\<^sup>*\<^sup>* k k' \<Longrightarrow> P k'"
  shows "\<exists>k'. R t k' \<and> P k'"
  using simulates_runs [OF assms(1,2)] assms(3) by blast

end

lemma represents_user:
  assumes "represents w s k"
  shows "represents w (s\<lparr>user_word := f, user_state := g, area := h\<rparr>) (k\<lparr>words := f, states := g\<rparr>)"
proof -
  have "kinv w s" "repr s (sch k)" "now (bus s) = clock k" using assms by (simp_all add: represents_def rep_def)
  then have "kinv w (s\<lparr>user_word := f, user_state := g, area := h\<rparr>)" "repr (s\<lparr>user_word := f, user_state := g, area := h\<rparr>) (sch k)"
    by (auto elim: kinv_outside intro: repr_machine)
  then show ?thesis using assms by (simp add: represents_def rep_def)
qed

lemma exec_refines:
  assumes "represents w s k" and "exec w ly s t"
  shows "\<exists>k'. a_step w ly k k' \<and> represents w t k'"
proof -
  consider (user) f g h where "t = s\<lparr>user_word := f, user_state := g, area := h\<rparr>"
    | (handler) ty st where "handler_guard w ly ty s" "handler w ly ty s = Inr (st, t)"
    using assms(2)
  proof (cases rule: exec.cases)
    case (User f g h)
    then show ?thesis using that(1) by blast
  next
    case (Interrupt s1 st)
    then show ?thesis using that(2) [of INTR] by (simp add: handler_def handler_guard_def)
  next
    case (Syscall s1 st)
    then show ?thesis using that(2) [of SYS] by (simp add: handler_def handler_guard_def)
  next
    case (TLB_miss s1 st)
    then show ?thesis using that(2) [of TLB] by (simp add: handler_def handler_guard_def)
  next
    case (Trap s1 st)
    then show ?thesis using that(2) [of PRG] by (simp add: handler_def handler_guard_def)
  qed
  then show ?thesis
  proof cases
    case user
    then show ?thesis using represents_user [OF assms(1)] a_step.A_user by blast
  next
    case handler
    then show ?thesis using handler_refines [OF assms(1)] a_step.A_exception by blast
  qed
qed

interpretation bikaya: simulation "exec w ly" "a_step w ly" "represents w" for w ly
  by unfold_locales (rule exec_refines)

lemma kinv_represents:
  assumes "kinv w s"
  obtains k where "represents w s k"
proof -
  obtain a where "repr s a" using assms by (rule kinvE)
  with assms show ?thesis
    by (intro that [of "\<lparr>sch = a, words = user_word s, states = user_state s, clock = now (bus s)\<rparr>"]) (simp add: represents_def rep_def)
qed

end
