(* ===== verification/Aging.thy ===== *)
theory Aging
  imports Sched_Refine
begin

text \<open>
  No starvation: a ready process comes to run after a bounded number of time slices, because ready
  processes age and a process that is stopped goes back to its original priority.

  The argument follows one waiting process \<open>x\<close> of priority \<open>P\<close>, where \<open>M\<close> bounds all priorities.
  After \<open>k\<close> slices \<open>x\<close> has priority \<open>P + k\<close> and nobody more than \<open>M + k\<close>. From slice \<open>M - P\<close> on, a
  process that is stopped is queued behind \<open>x\<close>, so every change of the running process brings \<open>x\<close> one
  place forward; and such a change comes within \<open>M - P + 1\<close> slices.
\<close>

section \<open>One time slice\<close>

definition procs :: "pcb set" where
  "procs = insert Idle_proc all_procs"

definition below :: "int \<Rightarrow> nat \<Rightarrow> sched \<Rightarrow> bool" where
  "below M k a \<longleftrightarrow> sched_wf a \<and>
     (\<forall>p\<in>procs. a_prio a p \<le> M + int k \<and> sint (original_priority (tcb a p)) \<le> M)"

definition preempts :: "sched \<Rightarrow> bool" where
  "preempts a \<longleftrightarrow> (case ready a of [] \<Rightarrow> False
     | h # q \<Rightarrow> a_prio (a_raise (set (ready a)) a) (running a) \<le> a_prio (a_raise (set (ready a)) a) h)"

lemma wf_ready:
  assumes "sched_wf a"
  shows "set (ready a) \<subseteq> all_procs" "distinct (ready a)" "running a \<notin> set (ready a)"
    "running a \<in> procs" "by_prio (a_prio a) (ready a)"
  using assms by (auto simp: sched_wf_def core_def placed_def procs_def)

lemma raised_prio:
  assumes "below M k a" and "M + int k < 2147483647"
  shows "a_prio (a_raise (set (ready a)) a) p = (if p \<in> set (ready a) then a_prio a p + 1 else a_prio a p)"
proof -
  have "set (ready a) \<subseteq> procs" using wf_ready(1) [of a] assms(1) by (auto simp: below_def procs_def)
  then have "can_raise a (set (ready a))" using assms by (force simp: can_raise_def below_def)
  then show ?thesis by (simp add: a_prio_raise)
qed

lemma time_slice_keeps:
  "\<not> preempts a \<Longrightarrow> a_time_slice a = a_raise (set (ready a)) a"
  by (auto simp: a_time_slice_def preempts_def Let_def split: list.splits)

lemma time_slice_preempts:
  "preempts a \<Longrightarrow> ready a = h # q \<Longrightarrow>
    a_time_slice a = (a_stop ((a_raise (set (ready a)) a)\<lparr>ready := q\<rparr>))\<lparr>running := h\<rparr>"
  by (auto simp: a_time_slice_def preempts_def Let_def split: list.splits)

text \<open>The priorities after a change: the stopped process has its original one.\<close>

lemma stopped_prio:
  "a_prio (a_stop a) p =
    (if p = running a \<and> p \<noteq> Idle_proc then sint (original_priority (tcb a p)) else a_prio a p)"
  by (simp add: a_stop_def a_requeue_def a_prio_def)

lemma stopped_original: "original_priority (tcb (a_stop a) p) = original_priority (tcb a p)"
  by (simp add: a_stop_def a_requeue_def)

lemma raised_original: "original_priority (tcb (a_raise A a) p) = original_priority (tcb a p)"
  by (simp add: a_raise_def)

lemma below_step:
  assumes b: "below M k a" and M: "M + int k < 2147483647"
  shows "below M (Suc k) (a_time_slice a)"
proof -
  note raised = raised_prio [OF b M]
  have wf: "sched_wf a" using b by (simp add: below_def)
  have sub: "set (ready a) \<subseteq> procs" using wf_ready(1) [OF wf] by (auto simp: procs_def)
  have "can_raise a (set (ready a))" using b M sub by (force simp: can_raise_def below_def)
  then have wf': "sched_wf (a_time_slice a)" by (rule sched_wf_time_slice [OF wf])
  have "a_prio (a_time_slice a) p \<le> M + int (Suc k) \<and> sint (original_priority (tcb (a_time_slice a) p)) \<le> M"
    if p: "p \<in> procs" for p
  proof (cases "preempts a")
    case False
    then show ?thesis using b p by (auto simp: time_slice_keeps raised raised_original below_def)
  next
    case True
    then obtain h q where q: "ready a = h # q" by (auto simp: preempts_def split: list.splits)
    show ?thesis
      unfolding time_slice_preempts [OF True q]
      using b p by (auto simp: stopped_prio stopped_original raised raised_original below_def)
  qed
  then show ?thesis using wf' by (simp add: below_def)
qed

section \<open>One waiting process\<close>

definition waits :: "pcb \<Rightarrow> int \<Rightarrow> nat \<Rightarrow> sched \<Rightarrow> bool" where
  "waits x P k a \<longleftrightarrow> x \<in> set (ready a) \<and> a_prio a x = P + int k"

text \<open>The number of ready processes before \<open>x\<close>, and the measure.\<close>

definition before :: "pcb \<Rightarrow> pcb list \<Rightarrow> nat" where
  "before x q = length (takeWhile (\<lambda>p. p \<noteq> x) q)"

definition remaining :: "nat \<Rightarrow> int \<Rightarrow> pcb \<Rightarrow> nat \<Rightarrow> sched \<Rightarrow> nat" where
  "remaining G P x k a = before x (ready a) * Suc G + nat (a_prio a (running a) - (P + int k))"

lemma before_less: "x \<in> set q \<Longrightarrow> before x q < length q"
  unfolding before_def by (induction q) auto

lemma before_q_insert:
  "by_prio pr q \<Longrightarrow> x \<in> set q \<Longrightarrow> r \<noteq> x \<Longrightarrow> pr r \<le> pr x \<Longrightarrow> before x (q_insert pr r q) = before x q"
  unfolding before_def by (induction q) (auto simp: by_prio_Cons)

lemma head_before: "by_prio pr (h # q) \<Longrightarrow> x \<in> set (h # q) \<Longrightarrow> pr x \<le> pr h"
  by (auto simp: by_prio_Cons)

text \<open>The ready queue after a change of the running process.\<close>

lemma stop_ready:
  "ready (a_stop (a\<lparr>ready := q\<rparr>)) =
    (if running a = Idle_proc then q else q_insert (a_prio (a_stop (a\<lparr>ready := q\<rparr>))) (running a) q)"
  by (auto simp: a_stop_def a_requeue_def a_prio_def intro!: q_insert_cong)

lemma by_prio_plus: "by_prio f q \<Longrightarrow> (\<And>x. x \<in> set q \<Longrightarrow> g x = f x + (1 :: int)) \<Longrightarrow> by_prio g q"
  by (induction q) (auto simp: by_prio_Cons)

lemma waiting_step:
  assumes b: "below M k a" and M: "M + int k < 2147483647" and x: "waits x P k a"
  shows "running (a_time_slice a) = x \<or> waits x P (Suc k) (a_time_slice a)"
proof (cases "preempts a")
  case False
  then show ?thesis using x by (simp add: time_slice_keeps waits_def raised_prio [OF b M])
next
  case True
  then obtain h q where q: "ready a = h # q" by (auto simp: preempts_def split: list.splits)
  have "x \<noteq> running a" using wf_ready(3) [of a] b x by (auto simp: below_def waits_def)
  then show ?thesis
    unfolding time_slice_preempts [OF True q] using x raised_prio [OF b M, of x]
    by (auto simp: waits_def stop_ready stopped_prio q)
qed

lemma remaining_step:
  assumes b: "below M k a" and M: "M + int k < 2147483647" and x: "waits x P k a"
    and late: "M \<le> P + int k"
  shows "running (a_time_slice a) = x \<or>
    remaining (nat (M - P)) P x (Suc k) (a_time_slice a) < remaining (nat (M - P)) P x k a"
proof (cases "preempts a")
  case False
  obtain h q where q: "ready a = h # q" using x by (cases "ready a") (simp_all add: waits_def)
  note raised = raised_prio [OF b M]
  have wf: "sched_wf a" using b by (simp add: below_def)
  have "a_prio a x \<le> a_prio a h"
    using head_before [of "a_prio a" h q x] wf_ready(5) [OF wf] x q by (simp add: waits_def)
  then have "P + int k + 1 \<le> a_prio (a_raise (set (ready a)) a) h"
    using x q raised [of h] by (simp add: waits_def)
  moreover have "a_prio (a_raise (set (ready a)) a) h < a_prio a (running a)"
    using False q wf_ready(3) [OF wf] raised [of "running a"] by (simp add: preempts_def)
  ultimately show ?thesis
    using False wf_ready(3) [OF wf] by (simp add: time_slice_keeps remaining_def raised)
next
  case True
  then obtain h q where q: "ready a = h # q" by (auto simp: preempts_def split: list.splits)
  note raised = raised_prio [OF b M]
  let ?s = "a_stop ((a_raise (set (ready a)) a)\<lparr>ready := q\<rparr>)"
  have wf: "sched_wf a" using b by (simp add: below_def)
  show ?thesis
  proof (cases "h = x")
    case True
    then show ?thesis by (simp add: time_slice_preempts [OF \<open>preempts a\<close> q])
  next
    case False
    then have xq: "x \<in> set q" using x q by (simp add: waits_def)
    have r: "running a \<notin> set (h # q)" "running a \<in> procs" using wf_ready(3,4) [OF wf] q by simp_all
    have prio: "a_prio ?s p = a_prio a p + 1" if "p \<in> set (h # q)" for p
      using that r(1) raised [of p] by (auto simp: stopped_prio q)
    have sorted: "by_prio (a_prio ?s) q"
      by (rule by_prio_plus [of "a_prio a"]) (use wf_ready(5) [OF wf] q prio in \<open>auto simp: by_prio_Cons\<close>)
    have "a_prio ?s (running a) \<le> a_prio ?s x" if "running a \<noteq> Idle_proc"
    proof -
      have "a_prio ?s (running a) \<le> M"
        using b r(2) that by (simp add: stopped_prio raised_original below_def)
      also have "\<dots> \<le> a_prio ?s x" using late x prio [of x] xq by (simp add: waits_def)
      finally show ?thesis .
    qed
    then have "before x (ready ?s) = before x q"
      using before_q_insert [OF sorted xq, of "running a"] r(1) xq by (auto simp: stop_ready)
    moreover have "before x (ready a) = Suc (before x q)" using False q by (simp add: before_def)
    moreover have "h \<in> procs" using wf_ready(1) [OF wf] q by (simp add: procs_def)
    then have "a_prio ?s h \<le> M + int k + 1" using b prio [of h] by (simp add: below_def)
    then have "nat (a_prio ?s h - (P + int (Suc k))) \<le> nat (M - P)" by (intro nat_mono) simp
    ultimately show ?thesis
      by (simp add: time_slice_preempts [OF \<open>preempts a\<close> q] remaining_def)
  qed
qed

section \<open>Many time slices\<close>

definition a_slices :: "nat \<Rightarrow> sched \<Rightarrow> sched" where
  "a_slices n = a_time_slice ^^ n"

lemma a_slices_simps [simp]: "a_slices 0 a = a" "a_slices (Suc n) a = a_slices n (a_time_slice a)"
  by (simp_all add: a_slices_def funpow_swap1)

lemma a_slices_Suc: "a_slices (Suc n) a = a_time_slice (a_slices n a)"
  by (simp add: a_slices_def)

lemma below_slices:
  "below M k a \<Longrightarrow> M + int (k + n) \<le> 2147483647 \<Longrightarrow> below M (k + n) (a_slices n a)"
proof (induction n arbitrary: k a)
  case (Suc n)
  have "below M (Suc k) (a_time_slice a)" by (rule below_step) (use Suc.prems in simp_all)
  from Suc.IH [OF this] show ?case using Suc.prems(2) by simp
qed simp

lemma waits_slices:
  assumes "below M k a" and "waits x P k a" and "M + int (k + n) \<le> 2147483647"
  shows "(\<exists>j. 0 < j \<and> j \<le> n \<and> running (a_slices j a) = x) \<or> waits x P (k + n) (a_slices n a)"
  using assms
proof (induction n arbitrary: k a)
  case (Suc n)
  let ?b = "a_time_slice a"
  have M: "M + int k < 2147483647" using Suc.prems(3) by simp
  have b: "below M (Suc k) ?b" by (rule below_step [OF Suc.prems(1) M])
  from waiting_step [OF Suc.prems(1) M Suc.prems(2)] show ?case
  proof
    assume "running ?b = x"
    then show ?thesis by (intro disjI1 exI [of _ 1]) simp
  next
    assume w: "waits x P (Suc k) ?b"
    have "M + int (Suc k + n) \<le> 2147483647" using Suc.prems(3) by simp
    from Suc.IH [OF b w this] show ?thesis
    proof
      assume "\<exists>j. 0 < j \<and> j \<le> n \<and> running (a_slices j ?b) = x"
      then obtain j where "j \<le> n" "running (a_slices j ?b) = x" by blast
      then show ?thesis by (intro disjI1 exI [of _ "Suc j"]) simp
    qed simp
  qed
qed simp

lemma late_slices:
  assumes "below M k a" and "waits x P k a" and "M \<le> P + int k"
    and "remaining (nat (M - P)) P x k a < n" and "M + int (k + n) \<le> 2147483647"
  shows "\<exists>j. 0 < j \<and> j \<le> n \<and> running (a_slices j a) = x"
  using assms
proof (induction n arbitrary: k a)
  case (Suc n)
  let ?b = "a_time_slice a"
  have M: "M + int k < 2147483647" using Suc.prems(5) by simp
  note step = remaining_step [OF Suc.prems(1) M Suc.prems(2,3)] waiting_step [OF Suc.prems(1) M Suc.prems(2)]
  show ?case
  proof (cases "running ?b = x")
    case True
    then show ?thesis by (intro exI [of _ 1]) simp
  next
    case False
    then have "\<exists>j. 0 < j \<and> j \<le> n \<and> running (a_slices j ?b) = x"
      using step Suc.prems(3-5) by (intro Suc.IH [OF below_step [OF Suc.prems(1) M]]) auto
    then obtain j where "j \<le> n" "running (a_slices j ?b) = x" by blast
    then show ?thesis by (intro exI [of _ "Suc j"]) simp
  qed
qed simp

lemma length_ready:
  assumes "sched_wf a"
  shows "length (ready a) \<le> MAXPROC"
proof -
  have "card (set (ready a)) \<le> card all_procs" using wf_ready(1) [OF assms] by (intro card_mono) auto
  moreover have "card all_procs = MAXPROC" by (simp add: all_procs_def card_image inj_on_def)
  ultimately show ?thesis using distinct_card [OF wf_ready(2) [OF assms]] by simp
qed

text \<open>The bound: \<open>G\<close> is the gap between the highest priority and that of \<open>x\<close>.\<close>

definition patience :: "nat \<Rightarrow> nat" where
  "patience G = G + MAXPROC * Suc G"

lemma comes_to_run:
  assumes b: "below M 0 a" and x: "x \<in> set (ready a)"
    and M: "M + int (patience (nat (M - a_prio a x))) \<le> 2147483647"
  shows "\<exists>j. 0 < j \<and> j \<le> patience (nat (M - a_prio a x)) \<and> running (a_slices j a) = x"
proof -
  let ?P = "a_prio a x" and ?G = "nat (M - a_prio a x)"
  let ?c = "a_slices ?G a"
  have w: "waits x ?P 0 a" using x by (simp add: waits_def)
  have "?G \<le> patience ?G" by (simp add: patience_def)
  then have "int ?G \<le> int (patience ?G)" by (simp only: of_nat_le_iff)
  then have M1: "M + int (0 + ?G) \<le> 2147483647" using M by linarith
  have c: "below M ?G ?c" using below_slices [OF b M1] by simp
  from waits_slices [OF b w M1] show ?thesis
  proof
    assume "\<exists>j. 0 < j \<and> j \<le> ?G \<and> running (a_slices j a) = x"
    then show ?thesis by (auto simp: patience_def intro: trans_le_add1)
  next
    assume "waits x ?P (0 + ?G) ?c"
    then have wc: "waits x ?P ?G ?c" by simp
    have wf: "sched_wf ?c" using c by (simp add: below_def)
    have "x \<in> procs" using wf_ready(1) [of a] b x by (auto simp: below_def procs_def)
    then have le: "?P \<le> M" using b by (force simp: below_def)
    have "a_prio ?c (running ?c) \<le> M + int ?G" using c wf_ready(4) [OF wf] by (simp add: below_def)
    then have "nat (a_prio ?c (running ?c) - (?P + int ?G)) \<le> ?G" by simp
    moreover have "before x (ready ?c) * Suc ?G \<le> (MAXPROC - 1) * Suc ?G"
      using before_less [of x "ready ?c"] length_ready [OF wf] wc by (intro mult_le_mono1) (simp add: waits_def)
    moreover have "(MAXPROC - 1) * Suc ?G + ?G < MAXPROC * Suc ?G" by (simp add: MAXPROC_def)
    ultimately have "remaining ?G ?P x ?G ?c < MAXPROC * Suc ?G"
      unfolding remaining_def by linarith
    from late_slices [OF c wc _ this] obtain j where "0 < j" "j \<le> MAXPROC * Suc ?G" "running (a_slices j ?c) = x"
      using le M by (auto simp: patience_def)
    moreover have "a_slices j ?c = a_slices (?G + j) a" by (simp add: a_slices_def funpow_add add.commute)
    ultimately show ?thesis by (intro exI [of _ "?G + j"]) (simp add: patience_def)
  qed
qed

section \<open>The code\<close>

fun time_slices :: "nat \<Rightarrow> 'a kern_scheme \<Rightarrow> 'a kern_scheme res" where
  "time_slices 0 s = Inr s"
| "time_slices (Suc n) s = andThen (time_slice_callback s) (time_slices n)"

lemma time_slices_refine:
  "repr s a \<Longrightarrow> below M k a \<Longrightarrow> M + int (k + n) \<le> 2147483647 \<Longrightarrow>
    ok (time_slices n s) (\<lambda>t. repr t (a_slices n a))"
proof (induction n arbitrary: k a s)
  case (Suc n)
  have wf: "sched_wf a" using Suc.prems(2) by (simp add: below_def)
  have u: "unqueued (running a) a" if "running a \<noteq> Idle_proc"
    using wf that placed_out [of a "{running a}" "running a"]
    by (simp add: sched_wf_def core_def unqueued_def)
  have b: "below M (Suc k) (a_time_slice a)" by (rule below_step) (use Suc.prems in simp_all)
  obtain t where t: "time_slice_callback s = Inr t" "repr t (a_time_slice a)"
    using time_slice_refines [OF Suc.prems(1) u] by (auto simp: ok_iff)
  have "M + int (Suc k + n) \<le> 2147483647" using Suc.prems(3) by simp
  from Suc.IH [OF t(2) b this] show ?case by (simp add: t(1))
qed simp

end
