(* ===== verification/Sched_Properties.thy ===== *)
theory Sched_Properties
  imports Example_System Aging
begin

text \<open>
  The properties of the scheduler, \<open>scheduler.c\<close>: each operation implements the operation of the
  abstract scheduler \<open>sched\<close> and keeps it well-formed. Each is followed by its application to the
  machine of \<open>Example_System\<close>, where \<open>Pcb 1\<close> runs and \<open>Pcb 0\<close> is ready.
\<close>

lemma sched_wf_running: "sched_wf a \<Longrightarrow> core a {running a}"
  by (simp add: sched_wf_def)

lemma example_wf: "sched_wf example_sched"
  by (rule example_repr(2))

section \<open>Dispatching\<close>

text \<open>C16. \<open>time_slice_callback\<close>: every ready process ages by one; then the first ready process takes the
  processor when its priority is at least the running one's, which goes back to its original priority and
  into the ready queue, else the running process goes on. The processor is also taken on equal priorities, where the comment
  of the code asks for a greater one. The scheduler stays well-formed as long as no priority overflows.\<close>

theorem time_slice_implements:
  assumes r: "repr s a" and wf: "sched_wf a" and p: "\<And>p. p \<in> set (ready a) \<Longrightarrow> a_prio a p < 2147483647"
  shows "ok (time_slice_callback s) (\<lambda>t. repr t (a_time_slice a) \<and> sched_wf (a_time_slice a) \<and> rest_same s t)"
proof -
  have "sched_wf (a_time_slice a)"
    using p by (intro sched_wf_time_slice [OF wf]) (simp add: can_raise_def)
  then show ?thesis
    using time_slice_refines [OF r running_unqueued [OF wf]] by (auto elim!: ok_mono)
qed

text \<open>In the example the ready process ages from priority 1 to 2 and takes the processor.\<close>

lemma time_slice_implements_witness:
  "ok (time_slice_callback example_start) (\<lambda>t. running_proc t = Some (Pcb 0) \<and> prio t (Pcb 0) = 2)"
proof -
  have "ok (time_slice_callback example_start) (\<lambda>t. repr t (a_time_slice example_sched) \<and>
      sched_wf (a_time_slice example_sched) \<and> rest_same example_start t)"
    by (rule time_slice_implements [OF example_repr(1) example_wf]) simp
  moreover have "running (a_time_slice example_sched) = Pcb 0"
    "a_prio (a_time_slice example_sched) (Pcb 0) = 2"
    by (simp_all add: a_time_slice_def a_raise_def a_prio_def a_stop_def a_requeue_def Let_def)
  ultimately show ?thesis by (auto elim!: ok_mono simp: repr_running repr_prio)
qed

text \<open>C17. No starvation: a ready process comes to run after a bounded number of time slices, whatever the
  priorities. With \<open>M\<close> a bound of all priorities and \<open>G\<close> its distance from the priority of the process, the
  bound is \<open>G + MAXPROC * (G + 1)\<close> slices, as long as no priority overflows in that time.\<close>

theorem no_starvation:
  assumes r: "repr s a" and wf: "sched_wf a" and x: "x \<in> set (ready a)"
    and M: "\<And>p. p \<in> insert Idle_proc all_procs \<Longrightarrow>
      a_prio a p \<le> M \<and> sint (original_priority (tcb a p)) \<le> M"
    and bound: "N = nat (M - a_prio a x) + MAXPROC * Suc (nat (M - a_prio a x))"
    and max: "M + int N \<le> 2147483647"
  shows "\<exists>n. 0 < n \<and> n \<le> N \<and> ok (time_slices n s) (\<lambda>t. running_proc t = Some x)"
proof -
  have b: "below M 0 a" using wf M by (simp add: below_def procs_def)
  have N: "N = patience (nat (M - a_prio a x))" using bound by (simp add: patience_def)
  obtain n where n: "0 < n" "n \<le> N" "running (a_slices n a) = x"
    using comes_to_run [OF b x] max unfolding N by blast
  have "M + int (0 + n) \<le> 2147483647" using max n(2) by simp
  from time_slices_refine [OF r b this] have "ok (time_slices n s) (\<lambda>t. running_proc t = Some x)"
    using n(3) by (auto elim!: ok_mono simp: repr_running)
  then show ?thesis using n(1,2) by blast
qed

lemma example_priorities:
  "priority (tcb example_sched p) = (if p = Pcb 0 then 1 else if p = Pcb 1 then 2 else 0)"
  "original_priority (tcb example_sched p) = priority (tcb example_sched p)"
  by (auto simp: example_sched_def a_launch_def a_init_def a_idle_def a_starts_def a_start_def
      a_boot_def a_alloc_def example_procs_def example_proc_def upto_MAXPROC a_requeue_def a_prio_def
      fresh_pcb_def zero_pcb_def populate_fields_def idle_proc_data_def Let_def)

lemma no_starvation_witness:
  "\<exists>n. 0 < n \<and> n \<le> 41 \<and> ok (time_slices n example_start) (\<lambda>t. running_proc t = Some (Pcb 0))"
  by (rule no_starvation [OF example_repr(1) example_wf, where M = 2])
    (auto simp: example_priorities a_prio_def MAXPROC_def)

text \<open>C20. \<open>schedule_proc\<close>: a process that is in no queue takes the processor when its priority is
  greater than the running one's or when the idle process runs, the running one going back to the ready
  queue with its original priority; else it enters the ready queue by priority.\<close>

theorem schedule_implements:
  assumes r: "repr s a" and core: "core a {p, running a}" and p: "p \<in> all_procs" "p \<noteq> running a"
    and run: "running a \<in> insert Idle_proc all_procs"
  shows "ok (schedule_proc p s) (\<lambda>t. repr t (a_schedule p a) \<and> sched_wf (a_schedule p a) \<and> rest_same s t)"
proof -
  have pl: "placed a {p, running a}" using core by (simp add: core_def)
  have "unqueued p a" "unqueued (running a) a"
    using placed_out [OF pl] by (simp_all add: unqueued_def)
  then show ?thesis
    using schedule_refines [OF r] sched_wf_schedule [OF core p run] by (auto elim!: ok_mono)
qed

text \<open>The example machine with \<open>Pcb 2\<close> just allocated, of priority 0.\<close>

lemma schedule_implements_witness:
  "ok (andThen (allocPcb example_start) (\<lambda>(p, s). schedule_proc (Pcb 2) s))
    (\<lambda>t. running_proc t = Some (Pcb 1) \<and> rings t P_next {Ready_queue} (\<lambda>_. [Pcb 0, Pcb 2]))"
proof -
  let ?a = "a_alloc example_sched"
  have core: "core example_sched {Pcb 1}" using example_wf by (simp add: sched_wf_def)
  then have pl: "placed example_sched {Pcb 1}" and tree: "tree_ok example_sched"
    by (simp_all add: core_def)
  obtain t where t: "allocPcb example_start = Inr (Some (Pcb 2), t)" "repr t ?a"
    using alloc_refines [OF example_repr(1) pl _ tree] by (auto simp: ok_iff a_alloc_def)
  have c: "core ?a {Pcb 2, Pcb 1}" using core_alloc(1) [OF core, of "Pcb 2"] by simp
  have a: "running ?a = Pcb 1" "ready ?a = [Pcb 0]" "a_prio ?a (Pcb 0) = 1" "a_prio ?a (Pcb (Suc 0)) = 2"
      "a_prio ?a (Pcb 2) = 0"
    by (simp_all add: a_alloc_def a_prio_def fresh_pcb_def)
  have m: "ok (schedule_proc (Pcb 2) t) (\<lambda>u. repr u (a_schedule (Pcb 2) ?a) \<and>
      sched_wf (a_schedule (Pcb 2) ?a) \<and> rest_same t u)"
    by (rule schedule_implements [OF t(2)]) (use a c in \<open>simp_all add: example_all_procs\<close>)
  have sched: "a_schedule (Pcb 2) ?a = a_requeue (Pcb 2) ?a" using a by (simp add: a_schedule_def)
  have rd: "ready (a_requeue (Pcb 2) ?a) = [Pcb 0, Pcb 2]" "running (a_requeue (Pcb 2) ?a) = Pcb 1"
    using a by (simp_all add: a_requeue_def)
  have "rings u P_next {Ready_queue} (\<lambda>_. [Pcb 0, Pcb 2])" if "repr u (a_requeue (Pcb 2) ?a)" for u :: machine
    using repr_ready(1) [OF that] rd by (simp add: rings_def)
  then show ?thesis
    using m unfolding sched t(1) by (auto elim!: ok_mono simp: repr_running rd)
qed

section \<open>Semaphores\<close>

text \<open>C18. \<open>p\<close> on a semaphore of a process: the counter is decremented and the caller goes on when the
  result is not negative; else the caller, its time brought up to date, blocks on the key and the first
  ready process runs, the idle process when there is none, and the counter is as before the call. The
  branch that finds no free semaphore, a kernel panic, is never taken.\<close>

theorem passeren_implements:
  assumes r: "repr s a" and wf: "sched_wf a" and run: "running a \<noteq> Idle_proc"
  shows "let b = a_block (Some (User_int u)) (a_flush_kernel (tod_at w s) (running a) a) in
    ok (passeren w (Some (User_int u)) s) (\<lambda>t.
    if 0 \<le> sint (user_word s u - 1)
    then repr t a \<and> t = s\<lparr>user_word := (user_word s)(u := user_word s u - 1)\<rparr>
    else repr t b \<and> sched_wf b \<and> user_word t = user_word s)" (is "let b = ?b in ok ?m (?Q b)")
proof (cases "0 \<le> sint (user_word s u - 1)")
  case True
  then show ?thesis
    using passeren_free [OF r, of "Some (User_int u)" "user_word s u" w] by (auto elim!: ok_mono)
next
  case False
  have "sched_wf ?b" by (rule sched_wf_block) (use wf run in simp_all)
  moreover have "ok ?m (\<lambda>t. repr t ?b \<and> rest_same (snd (read_TOD w s)) t)"
    by (rule passeren_block [OF r, of _ "user_word s u"])
      (use False running_unqueued [OF wf run] wait_not_full [OF wf run] in simp_all)
  ultimately show ?thesis
    using False by (auto elim!: ok_mono simp: rest_same_def read_TOD_def split: prod.splits)
qed

lemma passeren_implements_witness:
  "ok (passeren example_board (Some (User_int 64)) example_start) (\<lambda>t.
    running_proc t = Some (Pcb 0) \<and> user_word t = user_word example_start)"
proof -
  let ?b = "a_block (Some (User_int 64)) (a_flush_kernel (tod_at example_board example_start)
    (running example_sched) example_sched)"
  have u: "user_word example_start 64 = 0" by (rule example_words)
  have "running ?b = Pcb 0" by (simp add: a_block_def a_dispatch_def Let_def)
  then show ?thesis
    using passeren_implements [OF example_repr(1) example_wf, of 64 example_board, unfolded Let_def] u
    by (auto elim!: ok_mono simp: repr_running)
qed

text \<open>C19. \<open>v\<close> on a semaphore of a process: with a process blocked on the key, the first one is woken with
  its original priority, those that stay blocked age by one, it is scheduled, and the counter is as before
  the call; with none the counter is incremented.\<close>

theorem verhogen_implements:
  assumes r: "repr s a" and wf: "sched_wf a"
  shows "ok (verhogen (Some (User_int u)) s) (\<lambda>t.
    repr t (a_wake (Some (User_int u)) a) \<and> sched_wf (a_wake (Some (User_int u)) a) \<and>
    user_word t = (if wait a (Some (User_int u)) = []
      then (user_word s)(u := user_word s u + 1) else user_word s))"
proof -
  let ?b = "a_wake (Some (User_int u)) a"
  have wfb: "sched_wf ?b" by (rule sched_wf_wake [OF wf]) simp
  show ?thesis
  proof (cases "wait a (Some (User_int u))")
    case Nil
    then have "?b = a" by (simp add: a_wake_def)
    then show ?thesis
      using verhogen_free [OF r, of "Some (User_int u)" "user_word s u"] Nil wf
      by (auto elim!: ok_mono)
  next
    case (Cons p q)
    have "ok (verhogen (Some (User_int u)) s) (\<lambda>t. repr t ?b \<and> rest_same s t)"
      by (rule verhogen_wake [OF r _ sched_wf_running [OF wf] Cons]) simp
    then show ?thesis using Cons wfb by (auto elim!: ok_mono simp: rest_same_def)
  qed
qed

lemma verhogen_implements_witness:
  "ok (verhogen (Some (User_int 64)) example_start) (\<lambda>t.
    running_proc t = Some (Pcb 1) \<and> user_word t = (user_word example_start)(64 := 1))"
  using verhogen_implements [OF example_repr(1) example_wf, of 64] example_words
  by (auto elim!: ok_mono simp: a_wake_def repr_running)

section \<open>Creation and termination\<close>

text \<open>C21. \<open>create_process\<close>, all branches: without a free PCB it returns -1 and changes nothing; a NULL
  state is a kernel panic; else it returns 0, and the new process, with the given state and priority and
  everything else initial, is the last child of the running process and is scheduled, its identifier
  stored unless the address is NULL.\<close>

theorem create_process_implements:
  assumes r: "repr s a" and wf: "sched_wf a"
  shows "case free a of
      [] \<Rightarrow> create_process ly st pri cpid s = Inr (-1, s)
    | p # q \<Rightarrow>
        if st = 0 then create_process ly st pri cpid s = Inl (Panic '''')
        else ok (create_process ly st pri cpid s) (\<lambda>(ret, t). ret = 0 \<and>
          repr t (a_create (user_state s st) pri a) \<and> sched_wf (a_create (user_state s st) pri a) \<and>
          user_word t = (if cpid \<noteq> 0 then (user_word s)(cpid := pcb_addr ly p) else user_word s))"
proof (cases "free a")
  case Nil
  then show ?thesis using create_process_none [OF r] by simp
next
  case (Cons p q)
  then show ?thesis
    using create_process_null [OF r sched_wf_running [OF wf]] create_refines [OF r wf Cons, of st ly pri cpid]
      sched_wf_create [OF wf, of "user_state s st" pri]
    by (auto elim!: ok_mono simp: rest_same_def)
qed

lemma create_process_implements_witness:
  "ok (create_process example_layout 0x20004000 5 64 example_start) (\<lambda>(ret, t). ret = 0 \<and>
    running_proc t = Some (Pcb 2) \<and> user_word t 64 = example_addr (Pcb 2))"
proof -
  have "running (a_create (user_state example_start 0x20004000) 5 example_sched) = Pcb 2"
    by (simp add: a_create_def a_schedule_def a_prio_def)
  then show ?thesis
    using create_process_implements [OF example_repr(1) example_wf, where st = "0x20004000" and pri = 5
        and ly = example_layout and cpid = 64]
    by (auto elim!: ok_mono simp: repr_running example_layout_def)
qed

text \<open>C12. When no device serves a process or one of its offspring, the set \<open>D\<close> (\<open>dev\<close>: none has a device in \<open>dev_w_list\<close>),
  \<open>terminate_proc\<close> kills exactly \<open>D\<close>: they become free, leave
  every queue, and the order of the others stays; the running process goes on unless it is killed, and
  then the first ready survivor runs, the idle process when there is none; the trees of the survivors
  lose the killed ones. It returns 0, ends whatever the shape of the tree, and never panics. Without the hypothesis the scheduler does
  not stay well-formed: the code leaves a killed process in \<open>w_for_res\<close> of its device.\<close>

theorem terminate_implements:
  fixes s :: "'a kern_scheme"
  assumes r: "repr s a" and wf: "sched_wf a" and p: "p \<in> live a" "p \<in> all_procs"
    and dev: "\<And>q. q \<in> (child_rel a)\<^sup>* `` {p} \<Longrightarrow> dev_w_list (tcb a q) = None"
    and target: "target = Some p \<or> target = None \<and> p = running a"
  shows "let D = (child_rel a)\<^sup>* `` {p} in ok (terminate_proc target s) (\<lambda>(ret, t). ret = 0 \<and> rest_same s t \<and> (\<exists>b. repr t b \<and> sched_wf b \<and>
    set (free b) = D \<union> set (free a) \<and> (\<forall>k. wait b k = filter (\<lambda>x. x \<notin> D) (wait a k)) \<and>
    (if running a \<in> D
     then running b # ready b = filter (\<lambda>x. x \<notin> D) (ready a) \<or>
       running b = Idle_proc \<and> ready b = [] \<and> set (ready a) \<subseteq> D
     else running b = running a \<and> ready b = filter (\<lambda>x. x \<notin> D) (ready a)) \<and>
    (\<forall>x. x \<notin> D \<longrightarrow> tcb b x = tcb a x) \<and> (\<forall>q\<in>live b. set (kids b q) = set (kids a q) - D)))"
proof -
  define D where "D = (child_rel a)\<^sup>* `` {p}"
  have tree: "tree_ok a" using wf by (simp add: sched_wf_def core_def)
  obtain xs where xs: "offspring a p xs" using offspring_exists [OF tree] by blast
  have D: "set xs = D" using offspring_set [OF xs] by (simp add: D_def)
  have dist: "distinct xs"
    by (rule offspring_distinct [of s, OF _ tree xs]) (use r in \<open>simp add: repr_def\<close>)
  have devs: "dev_w_list (tcb a q) = None" if "q \<in> set xs" for q
    using dev that D by (simp add: D_def)
  have rd: "filter (\<lambda>x. x \<notin> D) (ready a) = [] \<longleftrightarrow> set (ready a) \<subseteq> D" by (auto simp: filter_empty_conv)
  show ?thesis
    unfolding Let_def D_def [symmetric]
  proof (rule ok_mono [OF terminate_refines [OF r wf p xs target]], clarify, intro conjI refl exI)
    fix t :: "'a kern_scheme" and b
    assume t: "repr t b" and b: "terminated xs a b"
    show "sched_wf b" by (rule sched_wf_terminated [OF wf p xs dist b devs])
    show "if running a \<in> D
     then running b # ready b = filter (\<lambda>x. x \<notin> D) (ready a) \<or>
       running b = Idle_proc \<and> ready b = [] \<and> set (ready a) \<subseteq> D
     else running b = running a \<and> ready b = filter (\<lambda>x. x \<notin> D) (ready a)"
      using b rd by (auto simp: terminated_def Let_def D split: list.splits)
  qed (auto simp: terminated_def D)
qed

lemma terminate_implements_witness:
  "ok (terminate_proc None example_start) (\<lambda>(ret, t). ret = 0 \<and> running_proc t = Some (Pcb 0))"
proof -
  have D: "(child_rel example_sched)\<^sup>* `` {Pcb 1} = {Pcb 1}"
    by (simp add: child_rel_def)
  show ?thesis
    using terminate_implements [OF example_repr(1) example_wf, of "Pcb 1" None] D
    by (auto elim!: ok_mono simp: example_live example_all_procs repr_running)
qed

end
