(* ===== verification/Io_Properties.thy ===== *)
theory Io_Properties
  imports Sched_Properties Interrupt_Lines
begin

text \<open>
  The properties of device input and output, \<open>interrupts.c\<close>, and of the device coordinates. In
  the example machine \<open>Pcb 1\<close> asks for the first disk, device \<open>(0, 0)\<close>, whose register block is at
  the start of the device registers.
\<close>

section \<open>Waiting for a device\<close>

definition example_disk :: u32 where
  "example_disk = 0x10000050"

lemma example_device: "io_device example_board example_disk 0 = Inr (0, 0)"
  by (simp add: io_device_def example_disk_def GET_DEV_LINE_def GET_DEV_INSTANCE_def get_ext_dev_type_def
      get_dev_w_list_def example_board_def)

lemma example_idle_device:
  assumes "l < 6" and "d < 8"
  shows "w_for_res example_start l d = None"
proof -
  have "dev_served l d (w_for_cmd_sem example_start l d) (w_for_res example_start l d)
      (wait example_sched (Some (Dev_sem l d))) (tcb example_sched)"
    using example_repr(3) assms unfolding dev_inv_def by (simp add: example_board_def)
  then show ?thesis by (simp add: dev_served_def)
qed

text \<open>C22. \<open>wait_io\<close> on a device that serves nobody: the command is written to the device's register, the
  calling process is recorded as the one that waits for the result and blocks on the device's semaphore,
  its time brought up to date, and the first ready process runs; the devices' invariant is kept.\<close>

theorem wait_io_starts:
  assumes "repr s a" and "sched_wf a" and "dev_inv w s a" and "running a \<noteq> Idle_proc"
    and "io_device w dev_reg sub = Inr (l, d)" and "w_for_res s l d = None"
  shows "let b = a_flush_kernel (env w (BUS_REG_TOD_LO w) (Suc (now (bus s)))) (running a) (a_wait_ready l d a)
    in ok (wait_io w cmd dev_reg sub s) (\<lambda>t. repr t b \<and> sched_wf b \<and> dev_inv w t b \<and>
      w_for_res t l d = Some (running a) \<and> bus_log (bus t) = bus_log (send_command l cmd dev_reg (bus s)))"
  using wait_io_idle [OF assms, of cmd] by (auto simp: Let_def elim!: ok_mono)

definition example_waiting_sched :: sched where
  "example_waiting_sched =
     a_flush_kernel (env example_board (BUS_REG_TOD_LO example_board) (Suc (now (bus example_start))))
       (Pcb 1) (a_wait_ready 0 0 example_sched)"

lemma wait_io_starts_witness:
  "ok (wait_io example_board 7 example_disk 0 example_start) (\<lambda>t.
    repr t example_waiting_sched \<and> sched_wf example_waiting_sched \<and>
    dev_inv example_board t example_waiting_sched \<and> w_for_res t 0 0 = Some (Pcb 1) \<and>
    bus_log (bus t) = (example_disk + 4, 7) # bus_log (bus example_start))"
  using wait_io_starts [OF example_repr _ example_device, of 7] example_idle_device
  by (auto elim!: ok_mono simp: Let_def example_waiting_sched_def send_command_def TERM_TX_def reg_command_def)

text \<open>\<open>wait_io\<close> on a device that serves a process: the caller blocks on the device's semaphore and
  no command is written. Its place in the queue is by priority, so the devices' invariant, that the served
  process is the first of its queue, is kept when the caller's priority is at most the served process'.\<close>

lemma wait_io_queues:
  assumes "repr s a" and "sched_wf a" and "dev_inv w s a" and "running a \<noteq> Idle_proc"
    and "io_device w dev_reg sub = Inr (l, d)" and "w_for_res s l d = Some p"
  shows "let b = a_flush_kernel (tod_at w s) (running a) (a_wait_busy l d a)
    in ok (wait_io w cmd dev_reg sub s) (\<lambda>t. repr t b \<and> sched_wf b \<and>
      (a_prio a (running a) \<le> a_prio a p \<longrightarrow> dev_inv w t b) \<and>
      w_for_res t = w_for_res s \<and> bus_log (bus t) = bus_log (bus s))"
  using wait_io_queued [OF assms, of cmd] by (auto simp: Let_def elim!: ok_mono)

text \<open>The machine where \<open>Pcb 1\<close> waits and \<open>Pcb 0\<close> runs.\<close>

definition example_waiting :: machine where
  "example_waiting =
     (case wait_io example_board 7 example_disk 0 example_start of Inr t \<Rightarrow> t | Inl _ \<Rightarrow> example_start)"

lemma example_waiting:
  "repr example_waiting example_waiting_sched" "sched_wf example_waiting_sched"
  "dev_inv example_board example_waiting example_waiting_sched" "w_for_res example_waiting 0 0 = Some (Pcb 1)"
  using wait_io_idle [OF example_repr _ example_device, of 7] example_idle_device [of 0 0]
  by (auto simp: Let_def ok_iff example_waiting_def example_waiting_sched_def)

lemma example_waiting_simps [simp]:
  "running example_waiting_sched = Pcb 0" "ready example_waiting_sched = []"
  "free example_waiting_sched = free example_sched"
  "wait example_waiting_sched (Some (Dev_sem 0 0)) = [Pcb 1]"
  "a_prio example_waiting_sched (Pcb 0) = 1" "a_prio example_waiting_sched (Pcb (Suc 0)) = 2"
  by (simp_all add: example_waiting_sched_def a_flush_kernel_def a_wait_ready_def a_enqueue_def
      a_dispatch_def Let_def a_prio_def)

lemma wait_io_queues_example:
  "ok (wait_io example_board 9 example_disk 0 example_waiting) (\<lambda>t.
    running_proc t = Some Idle_proc \<and> w_for_res t 0 0 = Some (Pcb 1) \<and>
    bus_log (bus t) = bus_log (bus example_waiting))"
proof -
  let ?b = "a_flush_kernel (tod_at example_board example_waiting) (running example_waiting_sched)
    (a_wait_busy 0 0 example_waiting_sched)"
  have "running ?b = Idle_proc" by (simp add: a_wait_busy_def a_enqueue_def a_dispatch_def Let_def)
  then show ?thesis
    using wait_io_queues [OF example_waiting(1-3) _ example_device example_waiting(4), of 9]
    by (auto elim!: ok_mono simp: Let_def repr_running example_waiting(4))
qed

section \<open>The end of an operation\<close>

text \<open>C14. \<open>done_io\<close> under the devices' invariant: the process at the head of the device's queue gets the
  device's status as the result of its system call and is scheduled; the command of the next process in the
  queue is written to the device and that process is recorded, or the interrupt is acknowledged when
  there is none. The recorded process stays at the head of the queue until its own operation ends, where the comment of
  \<open>dev_waiting_list\<close> in \<open>scheduler.h\<close> says that it is removed. The scheduler and the devices stay well-formed.\<close>

theorem done_io_delivers:
  fixes s :: "'a kern_scheme"
  assumes "repr s a" and "sched_wf a" and "dev_inv w s a" and "get_dev_w_list w l d = Inr (l, d)"
    and wait: "wait a (Some (Dev_sem l d)) = p # q"
  shows "ok (done_io w l d s) (\<lambda>t. \<exists>b. repr t b \<and> sched_wf b \<and> dev_inv w t b \<and>
    wait b (Some (Dev_sem l d)) = q \<and> p \<in> insert (running b) (set (ready b)) \<and>
    SYSCALL_RET_REG (p_s (pcbs t p)) = io_status w l d (bus s) \<and>
    w_for_res t l d = (case q of [] \<Rightarrow> None | x # _ \<Rightarrow> Some x) \<and>
    bus t = send_command l (case q of [] \<Rightarrow> DEVICE_CMD_ACK | x # _ \<Rightarrow> SYSCALL_ARG1 (p_s (tcb a x)))
      (io_reg w l d) (snd (get_status w l (io_reg w l d) (bus s))))"
proof (rule ok_mono [OF done_io_total [OF assms]], elim conjE)
  fix t :: "'a kern_scheme"
  let ?b = "a_done_io (io_status w l d (bus s)) l d p q a"
  assume t: "repr t ?b" "sched_wf ?b" "dev_inv w t ?b" and bus: "bus t = send_command l
      (case q of [] \<Rightarrow> DEVICE_CMD_ACK | x # _ \<Rightarrow> SYSCALL_ARG1 (p_s (tcb a x)))
      (io_reg w l d) (snd (get_status w l (io_reg w l d) (bus s)))"
  have w: "wait ?b (Some (Dev_sem l d)) = q"
    by (simp add: a_done_io_def a_io_next_def a_io_result_def split: list.split)
  have p: "p \<in> insert (running ?b) (set (ready ?b))"
    by (auto simp: a_done_io_def a_io_next_def a_io_result_def a_schedule_def a_requeue_def split: list.split)
  have "SYSCALL_RET_REG (p_s (tcb ?b p)) = io_status w l d (bus s)"
    by (simp add: a_done_io_def a_io_next_def a_io_result_def split: list.split)
  moreover have "w_for_res t l d = (case q of [] \<Rightarrow> None | x # _ \<Rightarrow> Some x)"
    using dev_invD [OF t(3) assms(4)] w by (auto simp: dev_served_def)
  ultimately show "\<exists>b. repr t b \<and> sched_wf b \<and> dev_inv w t b \<and>
    wait b (Some (Dev_sem l d)) = q \<and> p \<in> insert (running b) (set (ready b)) \<and>
    SYSCALL_RET_REG (p_s (pcbs t p)) = io_status w l d (bus s) \<and>
    w_for_res t l d = (case q of [] \<Rightarrow> None | x # _ \<Rightarrow> Some x) \<and>
    bus t = send_command l (case q of [] \<Rightarrow> DEVICE_CMD_ACK | x # _ \<Rightarrow> SYSCALL_ARG1 (p_s (tcb a x)))
      (io_reg w l d) (snd (get_status w l (io_reg w l d) (bus s)))"
    using t w p bus by (intro exI [of _ ?b]) (simp add: repr_def)
qed

lemma example_get_dev: "get_dev_w_list example_board 0 0 = Inr (0, 0)"
  by (simp add: get_dev_w_list_def example_board_def)

lemma done_io_delivers_witness:
  "ok (done_io example_board 0 0 example_waiting) (\<lambda>t. w_for_res t 0 0 = None \<and>
    SYSCALL_RET_REG (p_s (pcbs t (Pcb 1))) = io_status example_board 0 0 (bus example_waiting))"
  using done_io_delivers [OF example_waiting(1-3) example_get_dev, of "Pcb 1" "[]"]
  by (auto elim!: ok_mono)

section \<open>The scan of an interrupt line\<close>

text \<open>C15. The scan of the bitmap of an interrupt line: exactly the devices whose bit is set are served, each once. The process at the
  head of the queue of each of them leaves the queue and can run again; the other waiting processes stay
  where they are, no other process becomes runnable, and the scan ends with the scheduler and the devices
  well-formed, also when a device interrupts for which nobody waits: the message of this case needs a terminal whose
  operations end, with whatever result.\<close>

theorem line_scan_serves:
  fixes s :: "'a kern_scheme"
  assumes "repr s a" and "sched_wf a" and "dev_inv w s a" and "console w (bus s)"
    and "unat (get_ext_dev_type w (word_of_nat line) 0) < N_EXT_IL w + 1"
  shows "ok (consume_line w line (N_DEV_PER_IL w) 0 bitmap s) (\<lambda>t. \<exists>b. repr t b \<and> sched_wf b \<and> dev_inv w t b \<and>
    woken ({unat (get_ext_dev_type w (word_of_nat line) 0)} \<times> {d. d < N_DEV_PER_IL w \<and> bit bitmap d}) a b)"
  using consume_line_wakes [OF assms(5), of s a 0 "N_DEV_PER_IL w" bitmap] assms(1-4)
  by (auto simp: scanning_def elim!: ok_mono)

lemma example_waiting_console: "console example_board (bus example_waiting)"
proof -
  have "terminals (bus example_waiting) = terminals (bus example_start)"
    using wait_io_idle [OF example_repr _ example_device, of 7] example_idle_device [of 0 0]
    by (auto simp: Let_def ok_iff example_waiting_def)
  then show ?thesis using example_console(1) console_cong by blast
qed

lemma line_scan_serves_witness:
  "ok (consume_line example_board 3 8 0 1 example_waiting) (\<lambda>t. \<exists>b. repr t b \<and>
    wait b (Some (Dev_sem 0 0)) = [] \<and> runnable b = {Pcb 0, Pcb 1})"
proof -
  have l: "unat (get_ext_dev_type example_board 3 0) = 0"
    by (simp add: get_ext_dev_type_def example_board_def)
  have n: "N_DEV_PER_IL example_board = 8" "N_EXT_IL example_board = 5" by (simp_all add: example_board_def)
  have "woken ({0} \<times> {d. d < 8 \<and> bit (1 :: u32) d}) example_waiting_sched b \<Longrightarrow>
      wait b (Some (Dev_sem 0 0)) = [] \<and> runnable b = {Pcb 0, Pcb 1}" for b
    by (auto simp: woken_def Let_def runnable_def bit_1_iff)
  then show ?thesis
    using line_scan_serves [OF example_waiting(1-3) example_waiting_console, of 3 1] by (auto simp: l n elim!: ok_mono)
qed

section \<open>A lost process\<close>

text \<open>C23. The limit of the previous property: when the process that the device serves is not the first of
  the device's queue, because a process of higher priority came after it, \<open>done_io\<close> takes that other
  process out of the queue and drops it. It is then in no queue, does not run, has no result, and its
  command is never written: the kernel has lost it.\<close>

theorem done_io_loses_waiter:
  fixes s :: "'a kern_scheme"
  assumes r: "repr s a" and wf: "sched_wf a" and dev: "get_dev_w_list w l d = Inr (l, d)"
    and res: "w_for_res s l d = Some p" and wait: "wait a (Some (Dev_sem l d)) = x # q" and x: "x \<noteq> p"
  shows "ok (done_io w l d s) (\<lambda>t. \<exists>b. repr t b \<and> unqueued x b \<and> running b \<noteq> x \<and>
    p_s (pcbs t x) = p_s (pcbs s x) \<and>
    bus_log (bus t) = bus_log (send_command l
      (case q of [] \<Rightarrow> DEVICE_CMD_ACK | y # _ \<Rightarrow> SYSCALL_ARG1 (p_s (tcb a y))) (io_reg w l d) (bus s)))"
proof -
  let ?u = "a_unblock (Some (Dev_sem l d)) x q a" and ?b = "a_io_next l d (a_unblock (Some (Dev_sem l d)) x q a)"
  have core: "core a {running a}" using wf by (simp add: sched_wf_def)
  note lost = done_io_loses [OF r core dev res wait x]
  have "x \<in> blocked (wait a)" using wait by (auto simp: blocked_iff intro: exI [of _ "Some (Dev_sem l d)"])
  then have run: "running ?b \<noteq> x"
    using placed_out(3) [of a "{running a}" "running a"] core lost(3) by (auto simp: core_def)
  have cmd: "io_command (Some (Dev_sem l d)) ?u =
      (case q of [] \<Rightarrow> DEVICE_CMD_ACK | y # _ \<Rightarrow> SYSCALL_ARG1 (p_s (tcb a y)))"
    by (simp add: io_command_def a_unblock_def split: list.split)
  have ps: "p_s (tcb ?b x) = p_s (tcb a x)" by (simp add: a_io_next_def a_unblock_def split: list.split)
  have "p_s (pcbs t x) = p_s (pcbs s x)" if "repr t ?b" for t :: "'a kern_scheme"
    using that r ps by (simp add: repr_def)
  then show ?thesis
    using lost(2) run
    by (intro ok_mono [OF lost(1)] exI [of _ ?b]) (simp add: io_next_outside_def Let_def cmd)
qed

text \<open>
  The example: while \<open>Pcb 1\<close> of priority 2 waits for the disk, \<open>Pcb 0\<close> creates a process of
  priority 5, \<open>Pcb 2\<close>, which asks for the disk too.
\<close>

definition example_created :: machine where
  "example_created =
     (case create_process example_layout 0x20004000 5 0 example_waiting of
        Inr (_, t) \<Rightarrow> t | Inl _ \<Rightarrow> example_waiting)"

definition example_created_sched :: sched where
  "example_created_sched = a_create (user_state example_waiting 0x20004000) 5 example_waiting_sched"

lemma example_created:
  "repr example_created example_created_sched" "sched_wf example_created_sched"
  "w_for_res example_created 0 0 = Some (Pcb 1)" "w_for_cmd_sem example_created 0 0 = 0"
proof -
  have "w_for_cmd_sem example_waiting 0 0 = 0"
    using dev_invD [OF example_waiting(3) example_get_dev] by (simp add: dev_served_def)
  then show "repr example_created example_created_sched" "sched_wf example_created_sched"
    "w_for_res example_created 0 0 = Some (Pcb 1)" "w_for_cmd_sem example_created 0 0 = 0"
    using create_refines [OF example_waiting(1,2), where p = "Pcb 2" and st = "0x20004000" and
        ly = example_layout and pri = 5 and cpid = 0]
      sched_wf_create [OF example_waiting(2), of "user_state example_waiting 0x20004000" 5] example_waiting(4)
    by (auto simp: ok_iff example_created_def example_created_sched_def rest_same_def)
qed

lemma example_created_simps [simp]:
  "running example_created_sched = Pcb 2" "a_prio example_created_sched (Pcb 2) = 5"
  "a_prio example_created_sched (Pcb (Suc 0)) = 2"
  "wait example_created_sched (Some (Dev_sem 0 0)) = [Pcb 1]"
  using example_waiting_simps(5,6)
  by (simp_all add: example_created_sched_def a_create_def a_schedule_def a_stop_def a_requeue_def a_prio_def)

definition example_lost_sched :: sched where
  "example_lost_sched =
     a_flush_kernel (tod_at example_board example_created) (Pcb 2) (a_wait_busy 0 0 example_created_sched)"

lemma example_lost:
  "ok (wait_io example_board 9 example_disk 0 example_created) (\<lambda>t. repr t example_lost_sched \<and>
    sched_wf example_lost_sched \<and> w_for_res t 0 0 = Some (Pcb 1))"
proof -
  have run: "running example_created_sched \<noteq> Idle_proc" by simp
  note un = running_unqueued [OF example_created(2) run] wait_not_full [OF example_created(2) run]
  have "sched_wf example_lost_sched"
    using sched_wf_wait_busy [OF example_created(2) run] by (simp add: example_lost_sched_def)
  moreover have "sint (w_for_cmd_sem example_created 0 0 - 1) < 0" by (simp add: example_created(4))
  moreover have "w_for_res t 0 0 = Some (Pcb 1)"
    if "rest_same (snd (read_TOD example_board example_created)) t" for t :: machine
    using that example_created(3) by (simp add: rest_same_def read_TOD_def split: prod.splits)
  ultimately show ?thesis
    using wait_io_busy [OF example_created(1) example_device _ un, of 9]
    by (auto elim!: ok_mono simp: example_lost_sched_def)
qed

lemma done_io_loses_waiter_witness:
  "ok (andThen (wait_io example_board 9 example_disk 0 example_created) (done_io example_board 0 0))
    (\<lambda>t. \<exists>b. repr t b \<and> unqueued (Pcb 2) b \<and> running b \<noteq> Pcb 2)"
proof -
  have wait: "wait example_lost_sched (Some (Dev_sem 0 0)) = [Pcb 2, Pcb 1]"
    by (simp add: example_lost_sched_def a_wait_busy_def a_enqueue_def Let_def a_flush_kernel_def)
  have "ok (done_io example_board 0 0 t) (\<lambda>t. \<exists>b. repr t b \<and> unqueued (Pcb 2) b \<and> running b \<noteq> Pcb 2)"
    if t: "repr t example_lost_sched" "sched_wf example_lost_sched" "w_for_res t 0 0 = Some (Pcb 1)"
    for t :: machine
    by (rule ok_mono [OF done_io_loses_waiter [OF t(1,2) example_get_dev t(3) wait]]) auto
  then show ?thesis using example_lost by (auto elim!: ok_mono)
qed

end
