(* ===== verification/Terminal_Text.thy ===== *)
theory Terminal_Text
  imports Terminal
begin

text \<open>
  Numbers as text: the conversions of \<open>src/devices/terminal.c\<close>.

  A \<open>char *\<close> into the caller's buffer is an index. \<open>num_to_str_buf\<close> first walks forward to find
  where the text ends and then writes the digits backward, so the two loops must agree on the number
  of digits; the lemmas show that they do, that the text is the one of the reference function
  \<open>base_digits\<close>, and that it reads back as the number. \<open>INT_MIN\<close> has no absolute value in an
  \<open>int\<close>, and \<open>int_to_str\<close> indexes its digits with a negative number for it.
\<close>

section \<open>Operations\<close>

type_synonym cbuf = "nat \<Rightarrow> c_char"

text \<open>A string literal: an array that ends with a null character.\<close>

definition c_literal :: "string \<Rightarrow> c_char list" where
  "c_literal s = c_string s @ [0]"

text \<open>\<open>do { ++p; shifter = shifter/base; } while (shifter);\<close>\<close>

partial_function (option) digits_end :: "u32 \<Rightarrow> u32 \<Rightarrow> nat \<Rightarrow> nat option" where
  "digits_end base shifter p =
     (let p = Suc p; shifter = shifter div base
      in if shifter \<noteq> 0 then digits_end base shifter p else Some p)"

text \<open>
  \<open>do { *--p = digit[i%base]; i = i/base; } while (i);\<close> The remainder and the quotient are those
  of the type of \<open>i\<close>.
\<close>

partial_function (option) put_digits ::
  "(u32 \<Rightarrow> int) \<Rightarrow> (u32 \<Rightarrow> u32) \<Rightarrow> c_char list \<Rightarrow> u32 \<Rightarrow> nat \<Rightarrow> cbuf \<Rightarrow> cbuf res option" where
  "put_digits rem quo digit i p buf =
     (if p = 0 \<or> rem i < 0 \<or> int (length digit) \<le> rem i then Some (Inl OutOfBounds)
      else
        let p = p - 1; buf = buf(p := digit ! nat (rem i)); i = quo i
        in if i \<noteq> 0 then put_digits rem quo digit i p buf else Some (Inr buf))"

definition signed_rem :: "u32 \<Rightarrow> u32 \<Rightarrow> int" where
  "signed_rem base i = sint i smod sint base"

definition signed_quo :: "u32 \<Rightarrow> u32 \<Rightarrow> u32" where
  "signed_quo base i = word_of_int (sint i sdiv sint base)"

definition to_str_buf ::
  "(u32 \<Rightarrow> int) \<Rightarrow> (u32 \<Rightarrow> u32) \<Rightarrow> u32 \<Rightarrow> c_char list \<Rightarrow> u32 \<Rightarrow> nat \<Rightarrow> cbuf \<Rightarrow> (nat \<times> cbuf) res" where
  "to_str_buf rem quo i digit base b buf =
     (if base = 0 then Inl DivByZero
      else
        andThen (returned (map_option Inr (digits_end base i b))) (\<lambda>p.
        andThen (returned (put_digits rem quo digit i p buf)) (\<lambda>buf.
        Inr (p, buf))))"

definition num_to_str_buf :: "u32 \<Rightarrow> c_char list \<Rightarrow> u32 \<Rightarrow> nat \<Rightarrow> cbuf \<Rightarrow> (nat \<times> cbuf) res" where
  "num_to_str_buf i digit base b buf =
     to_str_buf (signed_rem base) (signed_quo base) i digit base b buf"

definition unum_to_str_buf :: "u32 \<Rightarrow> c_char list \<Rightarrow> u32 \<Rightarrow> nat \<Rightarrow> cbuf \<Rightarrow> (nat \<times> cbuf) res" where
  "unum_to_str_buf i digit base b buf =
     to_str_buf (\<lambda>i. uint (i mod base)) (\<lambda>i. i div base) i digit base b buf"

definition minus_char :: c_char where "minus_char = 45"

text \<open>The text is written from index 0 of the caller's buffer.\<close>

definition signed_to_str :: "u32 \<Rightarrow> c_char list \<Rightarrow> u32 \<Rightarrow> cbuf \<Rightarrow> cbuf res" where
  "signed_to_str i digit base buf =
     (let (p, buf, i) = (if sint i < 0 then (1, buf(0 := minus_char), i * -1) else (0, buf, i)) in
      andThen (num_to_str_buf i digit base p buf) (\<lambda>(p, buf). Inr (buf(p := 0))))"

definition int_to_str :: "u32 \<Rightarrow> cbuf \<Rightarrow> cbuf res" where
  "int_to_str i buf = signed_to_str i (c_literal ''0123456789'') 10 buf"

definition int_to_str_binary :: "u32 \<Rightarrow> cbuf \<Rightarrow> cbuf res" where
  "int_to_str_binary i buf = signed_to_str i (c_literal ''01'') 2 buf"

definition uint_to_str :: "u32 \<Rightarrow> cbuf \<Rightarrow> cbuf res" where
  "uint_to_str i buf =
     andThen (unum_to_str_buf i (c_literal ''0123456789'') 10 0 buf) (\<lambda>(p, buf). Inr (buf(p := 0)))"

section \<open>The text of a number\<close>

fun base_digits :: "nat \<Rightarrow> nat \<Rightarrow> nat list" where
  "base_digits base n =
     (if base < 2 \<or> n < base then [n] else base_digits base (n div base) @ [n mod base])"

declare base_digits.simps [simp del]

definition digits_value :: "nat \<Rightarrow> nat list \<Rightarrow> nat" where
  "digits_value base ds = foldl (\<lambda>v d. v * base + d) 0 ds"

lemma base_digits_small: "n < base \<Longrightarrow> base_digits base n = [n]"
  by (simp add: base_digits.simps)

lemma base_digits_big:
  "2 \<le> base \<Longrightarrow> base \<le> n \<Longrightarrow> base_digits base n = base_digits base (n div base) @ [n mod base]"
  by (simp add: base_digits.simps [of base n])

lemma base_digits_not_Nil [simp]: "base_digits base n \<noteq> []"
  by (simp add: base_digits.simps [of base n])

lemma base_digits_value: "2 \<le> base \<Longrightarrow> digits_value base (base_digits base n) = n"
proof (induction n rule: less_induct)
  case (less n)
  show ?case
  proof (cases "n < base")
    case True
    then show ?thesis by (simp add: base_digits_small digits_value_def)
  next
    case False
    then have "digits_value base (base_digits base (n div base)) = n div base"
      using less by simp
    then show ?thesis using False less.prems
      by (simp add: base_digits_big digits_value_def)
  qed
qed

lemma base_digits_less: "2 \<le> base \<Longrightarrow> d \<in> set (base_digits base n) \<Longrightarrow> d < base"
proof (induction n rule: less_induct)
  case (less n)
  show ?case
  proof (cases "n < base")
    case False
    then have "n div base < n" using less.prems by simp
    from less.IH [OF this] show ?thesis using less.prems False by (auto simp: base_digits_big)
  qed (use less.prems in \<open>simp add: base_digits_small\<close>)
qed

text \<open>No leading zero.\<close>

lemma hd_base_digits: "2 \<le> base \<Longrightarrow> 0 < n \<Longrightarrow> 0 < hd (base_digits base n)"
proof (induction n rule: less_induct)
  case (less n)
  show ?case
  proof (cases "n < base")
    case False
    then have "0 < hd (base_digits base (n div base))" using less by (simp add: div_greater_zero_iff)
    then show ?thesis using False less.prems by (simp add: base_digits_big)
  qed (use less.prems in \<open>simp add: base_digits_small\<close>)
qed

lemma length_base_digits: "2 \<le> base \<Longrightarrow> n < base ^ Suc k \<Longrightarrow> length (base_digits base n) \<le> Suc k"
proof (induction k arbitrary: n)
  case 0
  then show ?case by (simp add: base_digits_small)
next
  case (Suc k)
  show ?case
  proof (cases "n < base")
    case False
    have "n div base < base ^ Suc k" using Suc.prems by (simp add: less_mult_imp_div_less mult.commute)
    then show ?thesis using Suc False by (simp add: base_digits_big)
  qed (simp add: base_digits_small)
qed

section \<open>The loops\<close>

lemma digits_end_eq:
  "2 \<le> unat base \<Longrightarrow> digits_end base x p = Some (p + length (base_digits (unat base) (unat x)))"
proof (induction "unat x" arbitrary: x p rule: less_induct)
  case less
  have q: "unat (x div base) = unat x div unat base" by (simp add: unat_div)
  show ?case
  proof (cases "unat x < unat base")
    case True
    then have "x div base = 0" by (metis q div_less unat_eq_zero)
    then show ?thesis using True by (subst digits_end.simps) (simp add: base_digits_small)
  next
    case False
    then have "unat (x div base) \<noteq> 0" using less.prems by (simp add: q div_greater_zero_iff)
    then have nz: "x div base \<noteq> 0" by auto
    have "unat (x div base) < unat x" using False less.prems by (simp add: q)
    note less.hyps [OF this less.prems, of "Suc p"]
    then show ?thesis
      using less.prems False nz by (subst digits_end.simps) (simp add: Let_def base_digits_big q)
  qed
qed

definition write_digits :: "c_char list \<Rightarrow> nat list \<Rightarrow> nat \<Rightarrow> cbuf \<Rightarrow> cbuf" where
  "write_digits digit ds b buf =
     (\<lambda>j. if b \<le> j \<and> j < b + length ds then digit ! (ds ! (j - b)) else buf j)"

lemma write_digits_snoc:
  "write_digits digit ds b (buf(b + length ds := digit ! d)) = write_digits digit (ds @ [d]) b buf"
  by (auto simp: write_digits_def fun_eq_iff nth_append)

lemma put_digits_eq:
  assumes base: "2 \<le> unat base" "unat base \<le> length digit"
    and step: "\<And>x. P x \<Longrightarrow> rem x = int (unat x mod unat base) \<and> quo x = x div base \<and> P (x div base)"
  shows "P x \<Longrightarrow> put_digits rem quo digit x (b + length (base_digits (unat base) (unat x))) buf =
    Some (Inr (write_digits digit (base_digits (unat base) (unat x)) b buf))"
proof (induction "unat x" arbitrary: x buf rule: less_induct)
  case less
  have q: "unat (x div base) = unat x div unat base" by (simp add: unat_div)
  have m: "unat x mod unat base < length digit"
    using base mod_less_divisor [of "unat base" "unat x"] by linarith
  have s: "quo x = x div base" "P (x div base)" using step [OF less.prems] by simp_all
  have r: "\<not> rem x < 0" "\<not> int (length digit) \<le> rem x" "nat (rem x) = unat x mod unat base"
    using step [OF less.prems] m by (simp_all only: nat_int of_nat_le_iff of_nat_less_0_iff not_le not_False_eq_True)
  show ?case
  proof (cases "unat x < unat base")
    case True
    then have z: "x div base = 0" by (metis q div_less unat_eq_zero)
    have "buf(b := digit ! unat x) = write_digits digit [unat x] b buf"
      by (auto simp: write_digits_def fun_eq_iff)
    then show ?thesis using True s r z
      by (subst put_digits.simps) (simp add: base_digits_small Let_def)
  next
    case False
    let ?ds = "base_digits (unat base) (unat x div unat base)"
    have ds: "base_digits (unat base) (unat x) = ?ds @ [unat x mod unat base]"
      using False base by (simp add: base_digits_big)
    have nz: "x div base \<noteq> 0"
      using False base by (metis q div_greater_zero_iff le_less_linear less_le_trans not_gr_zero unat_0 zero_less_numeral)
    have "unat (x div base) < unat x" using False base by (simp add: q)
    from less.hyps [OF this] s(2)
    have "put_digits rem quo digit (x div base) (b + length ?ds) buf' =
        Some (Inr (write_digits digit ?ds b buf'))" for buf'
      by (simp add: q)
    then show ?thesis using s r nz unfolding ds
      by (subst put_digits.simps) (simp add: write_digits_snoc Let_def)
  qed
qed

section \<open>The conversions\<close>

lemma unum_to_str_buf_eq:
  assumes "2 \<le> unat base" and "unat base \<le> length digit"
  shows "unum_to_str_buf i digit base b buf =
    (let ds = base_digits (unat base) (unat i)
     in Inr (b + length ds, write_digits digit ds b buf))"
proof -
  have "put_digits (\<lambda>i. uint (i mod base)) (\<lambda>i. i div base) digit i
      (b + length (base_digits (unat base) (unat i))) buf =
    Some (Inr (write_digits digit (base_digits (unat base) (unat i)) b buf))"
    by (rule put_digits_eq [OF assms, of "\<lambda>_. True"]) (simp_all add: uint_mod of_nat_mod)
  moreover have "base \<noteq> 0" using assms by auto
  ultimately show ?thesis
    by (simp add: unum_to_str_buf_def to_str_buf_def digits_end_eq [OF assms(1)] Let_def)
qed

lemma sint_nonneg:
  assumes "0 \<le> sint (i :: u32)"
  shows "sint i = int (unat i)"
proof -
  have b: "\<not> bit (uint i) 31" using assms bit_last_iff [of i] by (simp add: bit_uint_iff)
  have "uint i = take_bit (Suc 31) (uint i)" 
    using uint_lt2p [of i] by (simp add: take_bit_int_eq_self)
  then have "uint i = take_bit 31 (uint i)" using b by (simp only: take_bit_Suc_from_most) simp
  then show ?thesis using b by (simp add: sint_uint signed_take_bit_eq_if_positive)
qed

lemma unat_less_num: "unat (i :: u32) < numeral k \<longleftrightarrow> uint i < numeral k"
proof -
  have "unat i < numeral k \<longleftrightarrow> int (unat i) < int (numeral k)" by (simp only: of_nat_less_iff)
  then show ?thesis by simp
qed

lemma sint_small:
  assumes "unat (i :: u32) < 2147483648"
  shows "sint i = int (unat i)"
proof -
  have "uint i < 2147483648" using assms by (simp only: unat_less_num)
  moreover have "- 2147483648 \<le> uint i" using uint_ge_0 [of i] by linarith
  ultimately have "signed_take_bit 31 (uint i) = uint i" by (simp add: signed_take_bit_int_eq_self)
  then show ?thesis by (simp add: sint_uint)
qed

lemma sint_less_max: "sint (i :: u32) < 2147483648"
  using sint_lt [of i] by simp

lemma nat_sdiv_smod:
  "int a sdiv int b = int (a div b)" "int a smod int b = int (a mod b)"
  by (cases "a = 0"; cases "b = 0"; simp add: signed_divide_int_def signed_modulo_int_def zdiv_int zmod_int)+

lemma signed_step:
  assumes i: "0 \<le> sint i" and base: "2 \<le> sint base"
  shows "signed_rem base i = int (unat i mod unat base)" "signed_quo base i = i div base"
    "0 \<le> sint (i div base)"
proof -
  have u: "sint i = int (unat i)" "sint base = int (unat base)"
    using sint_nonneg [OF i] sint_nonneg [of base] base by simp_all
  show "signed_rem base i = int (unat i mod unat base)"
    unfolding signed_rem_def u by (rule nat_sdiv_smod)
  have q: "sint i sdiv sint base = int (unat (i div base))"
    unfolding u by (simp only: nat_sdiv_smod unat_div)
  show "signed_quo base i = i div base"
    unfolding signed_quo_def q by simp
  have "unat (i div base) \<le> unat i" by (simp add: unat_div)
  moreover have "unat i < 2147483648"
    using sint_less_max [of i] unfolding u(1) by linarith
  ultimately have "unat (i div base) < 2147483648" by linarith
  then show "0 \<le> sint (i div base)" by (simp only: sint_small)
qed

lemma num_to_str_buf_eq:
  assumes i: "0 \<le> sint i" and base: "2 \<le> sint base" and digit: "unat base \<le> length digit"
  shows "num_to_str_buf i digit base b buf =
    (let ds = base_digits (unat base) (unat i)
     in Inr (b + length ds, write_digits digit ds b buf))"
proof -
  have b: "2 \<le> unat base" using sint_nonneg [of base] base by linarith
  have "put_digits (signed_rem base) (signed_quo base) digit i
      (b + length (base_digits (unat base) (unat i))) buf =
    Some (Inr (write_digits digit (base_digits (unat base) (unat i)) b buf))"
    by (rule put_digits_eq [OF b digit, of "\<lambda>i. 0 \<le> sint i"]) (use signed_step [OF _ base] i in blast)+
  moreover have "base \<noteq> 0" using base by auto
  ultimately show ?thesis
    by (simp add: num_to_str_buf_def to_str_buf_def digits_end_eq [OF b] Let_def)
qed

text \<open>The text of an \<open>int\<close>: a sign and the digits of the absolute value.\<close>

definition signed_text :: "nat \<Rightarrow> u32 \<Rightarrow> nat list" where
  "signed_text base i = base_digits base (nat \<bar>sint i\<bar>)"

definition text_at :: "cbuf \<Rightarrow> nat \<Rightarrow> c_char list \<Rightarrow> bool" where
  "text_at buf b cs \<longleftrightarrow> map buf [b..<b + length cs] = cs \<and> buf (b + length cs) = 0"

text \<open>The characters of a text of digits.\<close>

definition digit_chars :: "c_char list \<Rightarrow> nat list \<Rightarrow> c_char list" where
  "digit_chars digit ds = map (\<lambda>d. digit ! d) ds"

lemma text_write_digits: "text_at ((write_digits digit ds b buf)(b + length ds := 0)) b (digit_chars digit ds)"
  unfolding text_at_def digit_chars_def by (auto simp: write_digits_def intro!: nth_equalityI)

lemma text_behind: "text_at buf (Suc b) cs \<Longrightarrow> buf b = c \<Longrightarrow> text_at buf b (c # cs)"
  by (simp add: text_at_def upt_conv_Cons del: upt_Suc)

definition sign_chars :: "u32 \<Rightarrow> c_char list" where
  "sign_chars i = (if sint i < 0 then [minus_char] else [])"

lemma negate_sint:
  assumes "sint (i :: u32) < 0" and "sint i \<noteq> -2147483648"
  shows "sint (i * -1) = - sint i"
proof -
  have "- 2147483648 \<le> sint i" using sint_ge [of i] by simp
  then have "signed_take_bit 31 (- sint i) = - sint i"
    using assms by (intro signed_take_bit_int_eq_self) simp_all
  moreover have "sint (i * -1) = signed_take_bit 31 (- sint i)" by (simp only: sint_word_mult) simp
  ultimately show ?thesis by simp
qed

lemma signed_to_str_text:
  assumes i: "sint i \<noteq> -2147483648" and base: "2 \<le> sint base" and digit: "unat base \<le> length digit"
  shows "ok (signed_to_str i digit base buf)
    (\<lambda>t. text_at t 0 (sign_chars i @ digit_chars digit (signed_text (unat base) i)))"
proof (cases "sint i < 0")
  case True
  note n = negate_sint [OF True i]
  have pos: "0 \<le> sint (i * -1)" using n True by simp
  have u: "nat \<bar>sint i\<bar> = unat (i * -1)" using sint_nonneg [OF pos] n True by linarith
  let ?ds = "base_digits (unat base) (unat (i * -1))"
  let ?t = "(write_digits digit ?ds 1 (buf(0 := minus_char)))(1 + length ?ds := 0)"
  have "signed_to_str i digit base buf = Inr ?t"
    using num_to_str_buf_eq [OF pos base digit, of 1 "buf(0 := minus_char)"] True
    by (simp add: signed_to_str_def Let_def)
  moreover have "?t 0 = minus_char" by (simp add: write_digits_def)
  then have "text_at ?t 0 (minus_char # digit_chars digit ?ds)"
    using text_write_digits [of digit ?ds 1 "buf(0 := minus_char)"] by (intro text_behind) simp
  ultimately show ?thesis using True u by (simp add: sign_chars_def signed_text_def)
next
  case False
  then have pos: "0 \<le> sint i" by simp
  have u: "nat \<bar>sint i\<bar> = unat i" using sint_nonneg [OF pos] by simp
  show ?thesis
    using num_to_str_buf_eq [OF pos base digit, of 0 buf] False u
      text_write_digits [of digit "base_digits (unat base) (unat i)" 0 buf]
    by (simp add: signed_to_str_def Let_def sign_chars_def signed_text_def)
qed

lemma c_literal_digits [simp]:
  "length (c_literal s) = Suc (length s)"
  by (simp add: c_literal_def c_string_def)

lemma int_to_str_text:
  "sint i \<noteq> -2147483648 \<Longrightarrow> ok (int_to_str i buf)
    (\<lambda>t. text_at t 0 (sign_chars i @ digit_chars (c_literal ''0123456789'') (signed_text 10 i)))"
  unfolding int_to_str_def using signed_to_str_text [of i 10 "c_literal ''0123456789''" buf] by simp

lemma int_to_str_binary_text:
  "sint i \<noteq> -2147483648 \<Longrightarrow> ok (int_to_str_binary i buf)
    (\<lambda>t. text_at t 0 (sign_chars i @ digit_chars (c_literal ''01'') (signed_text 2 i)))"
  unfolding int_to_str_binary_def using signed_to_str_text [of i 2 "c_literal ''01''" buf] by simp

lemma uint_to_str_text:
  "ok (uint_to_str i buf)
    (\<lambda>t. text_at t 0 (digit_chars (c_literal ''0123456789'') (base_digits 10 (unat i))))"
  using unum_to_str_buf_eq [of 10 "c_literal ''0123456789''" i 0 buf]
    text_write_digits [of "c_literal ''0123456789''" "base_digits 10 (unat i)" 0 buf]
  by (simp add: uint_to_str_def Let_def)

text \<open>
  \<open>INT_MIN\<close>: the negation wraps around to the number itself. The quotients of a negative number stay negative until a
  remainder is negative, so in every base a digit is read outside the table.
\<close>

lemma put_digits_negative:
  assumes base: "2 \<le> sint base"
  shows "sint i < 0 \<Longrightarrow> put_digits (signed_rem base) (signed_quo base) digit i p buf = Some (Inl OutOfBounds)"
proof (induction "nat \<bar>sint i\<bar>" arbitrary: i p buf rule: less_induct)
  case less
  let ?b = "sint base" and ?n = "\<bar>sint i\<bar>"
  have n: "0 < ?n" and nb: "?n \<le> 2147483648" using less.prems sint_ge [of i] by simp_all
  have rem: "signed_rem base i = - (?n mod ?b)"
    using less.prems base by (simp add: signed_rem_def signed_modulo_int_def)
  have quo: "signed_quo base i = word_of_int (- (?n div ?b))"
    using less.prems base by (simp add: signed_quo_def signed_divide_int_def)
  show ?case
  proof (cases "?n mod ?b = 0")
    case False
    then have "signed_rem base i < 0" using rem base pos_mod_sign [of ?b ?n] by linarith
    then show ?thesis by (subst put_digits.simps) simp
  next
    case True
    then have "?b * (?n div ?b) = ?n" using mult_div_mod_eq [of ?b ?n] by linarith
    then have "0 < ?b * (?n div ?b)" using n by (simp only:)
    then have q: "0 < ?n div ?b" using base by (simp only: zero_less_mult_iff) linarith
    have l: "?n div ?b < ?n" by (rule int_div_less_self [OF n]) (use base in linarith)
    have "sint (word_of_int (- (?n div ?b)) :: u32) = - (?n div ?b)"
      unfolding sint_sbintrunc' by (rule signed_take_bit_int_eq_self) (use nb q l in simp_all)
    then have s: "sint (signed_quo base i) = - (?n div ?b)"
      by (simp only: quo)
    have "put_digits (signed_rem base) (signed_quo base) digit (signed_quo base i) q c = Some (Inl OutOfBounds)" for q c
      by (rule less.hyps) (use s q l in simp_all)
    moreover have "signed_quo base i \<noteq> 0" using s q by auto
    ultimately show ?thesis by (subst put_digits.simps) (simp add: Let_def)
  qed
qed

lemma signed_to_str_INT_MIN:
  assumes base: "2 \<le> sint base"
  shows "signed_to_str 0x80000000 digit base buf = Inl OutOfBounds"
proof -
  have neg: "sint (0x80000000 :: u32) = -2147483648" by simp
  have "2 \<le> unat base" using sint_nonneg [of base] base by linarith
  from digits_end_eq [OF this, of "0x80000000" 1]
  obtain p where "digits_end base 0x80000000 1 = Some p" by simp
  moreover have "(0x80000000 :: u32) * -1 = 0x80000000" by simp
  moreover have "base \<noteq> 0" using base by auto
  moreover have "put_digits (signed_rem base) (signed_quo base) d 0x80000000 q b = Some (Inl OutOfBounds)" for d q b
    by (rule put_digits_negative [OF base]) (simp add: neg)
  ultimately show ?thesis
    unfolding signed_to_str_def num_to_str_buf_def to_str_buf_def neg by (simp only:) (simp add: returned_def)
qed

section \<open>Reading back\<close>

definition char_value :: "c_char \<Rightarrow> nat" where
  "char_value c = unat c - 48"

text \<open>The value of a decimal text, as C's \<open>strtol\<close> reads it.\<close>

definition text_value :: "c_char list \<Rightarrow> int" where
  "text_value cs =
     (if cs \<noteq> [] \<and> hd cs = minus_char then - int (digits_value 10 (map char_value (tl cs)))
      else int (digits_value 10 (map char_value cs)))"

lemma decimal_digit:
  assumes "d < 10"
  shows "char_value (c_literal ''0123456789'' ! d) = d" "c_literal ''0123456789'' ! d \<noteq> minus_char"
proof -
  have "d \<in> {0, 1, 2, 3, 4, 5, 6, 7, 8, 9}" using assms by auto
  then show "char_value (c_literal ''0123456789'' ! d) = d" "c_literal ''0123456789'' ! d \<noteq> minus_char"
    by (auto simp: c_literal_def c_string_def char_value_def minus_char_def)
qed

lemma digit_chars_value:
  "digits_value 10 (map char_value (digit_chars (c_literal ''0123456789'') (base_digits 10 n))) = n"
proof -
  have "map char_value (digit_chars (c_literal ''0123456789'') ds) = ds" if "\<forall>d\<in>set ds. d < 10" for ds
    using that by (induction ds) (simp_all add: digit_chars_def decimal_digit)
  then show ?thesis using base_digits_less [of 10 _ n] base_digits_value [of 10 n] by simp
qed

lemma decimal_text_value:
  "text_value (digit_chars (c_literal ''0123456789'') (base_digits 10 n)) = int n"
proof -
  have "hd (digit_chars (c_literal ''0123456789'') (base_digits 10 n)) \<noteq> minus_char"
    using base_digits_less [of 10 "hd (base_digits 10 n)" n] decimal_digit(2)
    by (simp add: digit_chars_def hd_map)
  then show ?thesis by (simp add: text_value_def digit_chars_value)
qed

lemma signed_text_value:
  "text_value (sign_chars i @ digit_chars (c_literal ''0123456789'') (signed_text 10 i)) = sint i"
proof (cases "sint i < 0")
  case True
  then show ?thesis
    using digit_chars_value [of "nat \<bar>sint i\<bar>"]
    by (simp add: sign_chars_def signed_text_def text_value_def)
next
  case False
  then show ?thesis
    using decimal_text_value [of "nat \<bar>sint i\<bar>"] by (simp add: sign_chars_def signed_text_def)
qed

end
