(* ===== verification/Utils.thy ===== *)
theory Utils
  imports Prelude
begin

text \<open>
  \<open>memcpy\<close> of \<open>src/utils/utils.c\<close> over a byte memory. (The scheduler's \<open>memcpy\<close> of a whole
  \<open>state_t\<close> is the assignment of a processor state; \<open>set_bits\<close> is in \<open>System\<close>.)
\<close>

type_synonym bytes = "u32 \<Rightarrow> 8 word"

text \<open>\<open>while (bytes) { *(c_dst++) = *(c_src++); --bytes; }\<close>; \<open>n\<close> bytes are left.\<close>

fun memcpy_loop :: "nat \<Rightarrow> u32 \<Rightarrow> u32 \<Rightarrow> bytes \<Rightarrow> bytes" where
  "memcpy_loop 0 c_dst c_src m = m"
| "memcpy_loop (Suc n) c_dst c_src m = memcpy_loop n (c_dst + 1) (c_src + 1) (m(c_dst := m c_src))"

definition memcpy :: "u32 \<Rightarrow> u32 \<Rightarrow> u32 \<Rightarrow> bytes \<Rightarrow> (u32 \<times> bytes) res" where
  "memcpy dst src n m =
     (if src \<noteq> 0 \<and> dst \<noteq> 0 then Inr (dst, memcpy_loop (unat n) dst src m)
      else Inl (Panic ''''))"

text \<open>
  The copy runs forward: it is exact when no byte is written before it is read. That includes
  blocks that do not overlap and a destination below its source.
\<close>

definition copies_forward :: "nat \<Rightarrow> u32 \<Rightarrow> u32 \<Rightarrow> bool" where
  "copies_forward n dst src \<longleftrightarrow>
     (\<forall>j<n. \<forall>i<j. dst + word_of_nat i \<noteq> src + word_of_nat j) \<and>
     (\<forall>j<n. \<forall>i<j. dst + word_of_nat i \<noteq> dst + word_of_nat j)"

lemma copies_forward_Suc:
  assumes "copies_forward (Suc n) dst src"
  shows "copies_forward n (dst + 1) (src + 1)"
    and "j < n \<Longrightarrow> dst \<noteq> src + 1 + word_of_nat j"
    and "j < n \<Longrightarrow> dst \<noteq> dst + 1 + word_of_nat j"
proof -
  have s: "x + 1 + word_of_nat k = x + word_of_nat (Suc k)" for x :: u32 and k by (simp add: ac_simps)
  show "copies_forward n (dst + 1) (src + 1)"
    unfolding copies_forward_def s
  proof (intro conjI allI impI)
    fix j i assume "j < n" "i < j"
    then have "Suc j < Suc n" "Suc i < Suc j" by simp_all
    then show "dst + word_of_nat (Suc i) \<noteq> src + word_of_nat (Suc j)"
        "dst + word_of_nat (Suc i) \<noteq> dst + word_of_nat (Suc j)"
      using assms unfolding copies_forward_def by blast+
  qed
  have "dst + word_of_nat 0 \<noteq> src + word_of_nat (Suc j)" "dst + word_of_nat 0 \<noteq> dst + word_of_nat (Suc j)"
    if "j < n"
  proof -
    have "Suc j < Suc n" "0 < Suc j" using that by simp_all
    then show "dst + word_of_nat 0 \<noteq> src + word_of_nat (Suc j)"
        "dst + word_of_nat 0 \<noteq> dst + word_of_nat (Suc j)"
      using assms unfolding copies_forward_def by blast+
  qed
  then show "j < n \<Longrightarrow> dst \<noteq> src + 1 + word_of_nat j" "j < n \<Longrightarrow> dst \<noteq> dst + 1 + word_of_nat j"
    unfolding s by simp_all
qed

lemma memcpy_loop_outside:
  "(\<And>i. i < n \<Longrightarrow> a \<noteq> dst + word_of_nat i) \<Longrightarrow> memcpy_loop n dst src m a = m a"
proof (induction n arbitrary: dst src m)
  case (Suc n)
  have "a \<noteq> dst + 1 + word_of_nat i" if "i < n" for i
    using Suc.prems [of "Suc i"] that by (simp add: ac_simps)
  moreover have "a \<noteq> dst" using Suc.prems [of 0] by simp
  ultimately show ?case using Suc.IH [of "dst + 1"] by simp
qed simp

lemma memcpy_loop_copies:
  "copies_forward n dst src \<Longrightarrow> i < n \<Longrightarrow>
    memcpy_loop n dst src m (dst + word_of_nat i) = m (src + word_of_nat i)"
proof (induction n arbitrary: dst src m i)
  case (Suc n)
  note f = copies_forward_Suc [OF Suc.prems(1)]
  show ?case
  proof (cases i)
    case 0
    have "memcpy_loop n (dst + 1) (src + 1) (m(dst := m src)) dst = m src"
      using f(3) by (subst memcpy_loop_outside) simp_all
    then show ?thesis using 0 by simp
  next
    case (Suc k)
    then have "memcpy_loop n (dst + 1) (src + 1) (m(dst := m src)) (dst + 1 + word_of_nat k) =
        m (src + 1 + word_of_nat k)"
      using Suc.IH [OF f(1), of k] f(2) [of k] Suc.prems by (auto simp: fun_upd_def)
    then show ?thesis using Suc by (simp add: ac_simps)
  qed
qed simp

lemma memcpy_spec:
  assumes "src \<noteq> 0" "dst \<noteq> 0" and "copies_forward (unat n) dst src"
  shows "ok (memcpy dst src n m) (\<lambda>(d, t). d = dst \<and>
    (\<forall>i<unat n. t (dst + word_of_nat i) = m (src + word_of_nat i)) \<and>
    (\<forall>a. (\<forall>i<unat n. a \<noteq> dst + word_of_nat i) \<longrightarrow> t a = m a))"
  using assms by (auto simp: memcpy_def memcpy_loop_copies memcpy_loop_outside)

lemma memcpy_null: "src = 0 \<or> dst = 0 \<Longrightarrow> memcpy dst src n m = Inl (Panic '''')"
  by (auto simp: memcpy_def)

text \<open>Blocks that lie apart in memory.\<close>

lemma copies_forward_apart:
  assumes "unat dst + n \<le> 2 ^ 32" "unat src + n \<le> 2 ^ 32"
    and "unat dst + n \<le> unat src \<or> unat src + n \<le> unat dst \<or> unat dst \<le> unat src"
  shows "copies_forward n dst src"
proof -
  have u: "unat (x + word_of_nat i) = unat x + i" if "unat x + n \<le> 2 ^ 32" "i < n" for x :: u32 and i
  proof -
    have "i < 2 ^ 32" using that by linarith
    then have "unat (word_of_nat i :: u32) = i" by (simp add: unat_of_nat take_bit_nat_eq_self)
    then show ?thesis using that by (subst unat_plus_if') simp
  qed
  have "dst + word_of_nat i \<noteq> src + word_of_nat j" "dst + word_of_nat i \<noteq> dst + word_of_nat j"
    if "j < n" "i < j" for i j
    using u [OF assms(1), of i] u [OF assms(1), of j] u [OF assms(2), of j] that assms(3) by auto
  then show ?thesis by (auto simp: copies_forward_def)
qed

end
