(* ===== verification/Debug_Log.thy ===== *)
theory Debug_Log
  imports Scheduler Polling Terminal_Text
begin

text \<open>
  The debug build: \<open>src/utils/debug.c\<close>, the macros of \<open>include/utils/debug.h\<close> when \<open>DEBUG\<close> is defined, and
  the dumps of the kernel's queues that they serve, \<open>debug_ready_queue\<close> of \<open>scheduler.c\<close> and \<open>debug_asl\<close> of
  \<open>asl.c\<close>. The lemmas show that the dumps list the queues in their order and that logging changes
  nothing but the bus and its own buffer.

  Each file that includes the header has its own \<open>static char debug_str_buf[256]\<close>: the field
  \<open>debug_str_buf\<close>, indexed by the file.
\<close>

section \<open>State\<close>

datatype c_file = Asl_c | Scheduler_c | Devices_c

record debug_kern = kern +
  debug_str_buf :: "c_file \<Rightarrow> cbuf"

definition DEBUG_STR_BUF_SIZE :: nat where "DEBUG_STR_BUF_SIZE = 256"

section \<open>Operations\<close>

text \<open>\<open>addokbuf\<close> of a string literal and of a buffer, whose text ends at the first null character.\<close>

definition print_ok :: "board \<Rightarrow> string \<Rightarrow> 'a kern_scheme \<Rightarrow> 'a kern_scheme res" where
  "print_ok w strp s = andThen (addokbuf w strp (bus s)) (\<lambda>b. Inr (s\<lparr>bus := b\<rparr>))"

definition buf_text :: "cbuf \<Rightarrow> c_char list res" where
  "buf_text buf =
     (let cs = takeWhile (\<lambda>c. c \<noteq> 0) (map buf [0..<DEBUG_STR_BUF_SIZE])
      in if length cs < DEBUG_STR_BUF_SIZE then Inr cs else Inl OutOfBounds)"

definition print_buf :: "board \<Rightarrow> cbuf \<Rightarrow> 'a kern_scheme \<Rightarrow> 'a kern_scheme res" where
  "print_buf w buf s =
     andThen (buf_text buf) (\<lambda>cs.
     andThen (get_terminal w SYS_TERM (bus s)) (\<lambda>(reg, b).
     andThen (term_putstr w reg cs b) (\<lambda>b. Inr (s\<lparr>bus := b\<rparr>))))"

definition DEBUG_MESSAGE_PREFIX :: string where "DEBUG_MESSAGE_PREFIX = ''> ''"

definition start_log :: "board \<Rightarrow> 'a kern_scheme \<Rightarrow> 'a kern_scheme res" where
  "start_log w s =
     andThen (print_ok w [CHR 0x09] s) (\<lambda>s.
     andThen (print_ok w DEBUG_MESSAGE_PREFIX s) (\<lambda>s.
     print_ok w '''' s))"

definition end_log :: "board \<Rightarrow> 'a kern_scheme \<Rightarrow> 'a kern_scheme res" where
  "end_log w s = print_ok w [CHR 0x0A] s"

definition DEBUG_LOG :: "board \<Rightarrow> string \<Rightarrow> 'a kern_scheme \<Rightarrow> 'a kern_scheme res" where
  "DEBUG_LOG w message s =
     andThen (start_log w s) (\<lambda>s. andThen (print_ok w message s) (end_log w))"

definition DEBUG_SPACING :: "board \<Rightarrow> 'a kern_scheme \<Rightarrow> 'a kern_scheme res" where
  "DEBUG_SPACING w s = andThen (start_log w s) (end_log w)"

text \<open>The three macros for numbers differ in the conversion.\<close>

definition debug_log_number ::
  "(u32 \<Rightarrow> cbuf \<Rightarrow> cbuf res) \<Rightarrow> board \<Rightarrow> c_file \<Rightarrow> string \<Rightarrow> u32 \<Rightarrow> 'a debug_kern_scheme \<Rightarrow> 'a debug_kern_scheme res" where
  "debug_log_number to_str w f description v s =
     andThen (start_log w s) (\<lambda>s.
     andThen (print_ok w description s) (\<lambda>s.
     andThen (to_str v (debug_str_buf s f)) (\<lambda>buf.
     let s = s\<lparr>debug_str_buf := (debug_str_buf s)(f := buf)\<rparr> in
     andThen (print_buf w buf s) (end_log w))))"

definition DEBUG_LOG_INT :: "board \<Rightarrow> c_file \<Rightarrow> string \<Rightarrow> u32 \<Rightarrow> 'a debug_kern_scheme \<Rightarrow> 'a debug_kern_scheme res" where
  "DEBUG_LOG_INT = debug_log_number int_to_str"

definition DEBUG_LOG_UINT :: "board \<Rightarrow> c_file \<Rightarrow> string \<Rightarrow> u32 \<Rightarrow> 'a debug_kern_scheme \<Rightarrow> 'a debug_kern_scheme res" where
  "DEBUG_LOG_UINT = debug_log_number uint_to_str"

definition DEBUG_LOG_BININT :: "board \<Rightarrow> c_file \<Rightarrow> string \<Rightarrow> u32 \<Rightarrow> 'a debug_kern_scheme \<Rightarrow> 'a debug_kern_scheme res" where
  "DEBUG_LOG_BININT = debug_log_number int_to_str_binary"

text \<open>\<open>semd - semd_table\<close> and the dumps.\<close>

definition get_semd_index :: "nat \<Rightarrow> u32" where
  "get_semd_index semd = word_of_nat semd"

definition debug_semd_queue :: "board \<Rightarrow> nat \<Rightarrow> 'a debug_kern_scheme \<Rightarrow> 'a debug_kern_scheme res" where
  "debug_semd_queue w semd s =
     andThen (list_for_each_entry (\<lambda>l s.
         andThen (container_of_p_next l) (\<lambda>q.
         andThen (get_pcb_index q) (\<lambda>i.
         andThen (DEBUG_LOG_INT w Asl_c ''    Proc: '' i s) (\<lambda>s. Inr (None :: unit option, s))))) (S_procQ semd) s)
       (\<lambda>(_, s). Inr s)"

definition debug_asl :: "board \<Rightarrow> 'a debug_kern_scheme \<Rightarrow> 'a debug_kern_scheme res" where
  "debug_asl w s =
     andThen (DEBUG_LOG w ''ASL:'' s) (\<lambda>s.
     andThen (list_for_each_entry (\<lambda>l s.
         andThen (container_of_s_next l) (\<lambda>semd.
         andThen (DEBUG_LOG_INT w Asl_c ''  SEMD: '' (get_semd_index semd) s) (\<lambda>s.
         andThen (debug_semd_queue w semd s) (\<lambda>s. Inr (None :: unit option, s))))) Semd_h s)
       (\<lambda>(_, s). Inr s))"

definition debug_ready_queue :: "board \<Rightarrow> 'a debug_kern_scheme \<Rightarrow> 'a debug_kern_scheme res" where
  "debug_ready_queue w s =
     andThen (DEBUG_LOG w ''Ready queue:'' s) (\<lambda>s.
     andThen (list_for_each_entry (\<lambda>l s.
         andThen (container_of_p_next l) (\<lambda>target_proc.
         andThen (get_proc_index target_proc) (\<lambda>i.
         andThen (DEBUG_LOG_INT w Scheduler_c (CHR 0x09 # ''proc '') i s) (\<lambda>s.
         Inr (None :: unit option, s))))) Ready_queue s)
       (\<lambda>(_, s). Inr s))"

section \<open>Branches of the debug build\<close>

text \<open>
  Under \<open>DEBUG\<close> two operations do more than print: \<open>get_ext_dev_type\<close> checks its line, and \<open>init_scheduler\<close> is given
  ten times the time slice. The messages of the steps of \<open>init_scheduler\<close> are left out here.
\<close>

definition debug_get_ext_dev_type ::
  "board \<Rightarrow> u32 \<Rightarrow> u32 \<Rightarrow> 'a debug_kern_scheme \<Rightarrow> (u32 \<times> 'a debug_kern_scheme) res" where
  "debug_get_ext_dev_type w line subdev s =
     (if line \<ge> word_of_nat (N_IL w) \<or> line < word_of_nat (N_IL w - N_EXT_IL w)
      then andThen (DEBUG_LOG_UINT w Devices_c ''The given line doesn't correspond to an external device: '' line s)
             (\<lambda>s. Inl Halted)
      else Inr (get_ext_dev_type w line subdev, s))"

definition debug_init_scheduler ::
  "board \<Rightarrow> layout \<Rightarrow> proc_init_data list \<Rightarrow> u32 \<Rightarrow> 'a kern_scheme \<Rightarrow> 'a kern_scheme res" where
  "debug_init_scheduler w ly starting_procs time_slice s = init_scheduler w ly starting_procs (time_slice * 10) s"

section \<open>What is printed\<close>

text \<open>The register writes by which the terminal of the messages prints a text.\<close>

definition console_writes :: "board \<Rightarrow> c_char list \<Rightarrow> (u32 \<times> u32) list" where
  "console_writes w cs = concat (map (char_writes w (DEV_REG_ADDR w (IL_TERMINAL w) SYS_TERM)) cs)"

lemma console_writes_append [simp]: "console_writes w (cs @ ds) = console_writes w cs @ console_writes w ds"
  by (simp add: console_writes_def)

lemma console_writes_Nil [simp]: "console_writes w [] = []"
  by (simp add: console_writes_def)

text \<open>From \<open>s\<close> to \<open>t\<close> the kernel changed nothing but the bus and the buffers of the header, and it printed \<open>cs\<close> if
  the terminal took the characters: after an error the driver gives up the rest of a text.\<close>

definition prints :: "board \<Rightarrow> c_char list \<Rightarrow> 'a debug_kern_scheme \<Rightarrow> 'a debug_kern_scheme \<Rightarrow> bool" where
  "prints w cs s t \<longleftrightarrow>
     console w (bus t) \<and>
     (console_accepts w (bus s) \<longrightarrow>
        console_accepts w (bus t) \<and> writes_since (bus s) (bus t) (console_writes w cs)) \<and>
     t = s\<lparr>bus := bus t, debug_str_buf := debug_str_buf t\<rparr>"

lemma prints_trans: 
  assumes "prints w cs s t" and "prints w ds t u"
  shows "prints w (cs @ ds) s u"
proof -
  have "s\<lparr>bus := bus t, debug_str_buf := debug_str_buf t\<rparr>\<lparr>bus := bus u, debug_str_buf := debug_str_buf u\<rparr> =
      s\<lparr>bus := bus u, debug_str_buf := debug_str_buf u\<rparr>"
    by simp
  then show ?thesis using assms unfolding prints_def by (metis console_writes_append writes_since_trans)
qed

lemma prints_console: "prints w cs s t \<Longrightarrow> console w (bus t)"
  by (simp add: prints_def)

lemma prints_refl: "console w (bus s) \<Longrightarrow> prints w [] s s"
  by (simp add: prints_def)

lemma prints_same:
  assumes "prints w cs s t"
  shows "lh_next t = lh_next s" "lh_prev t = lh_prev s" "pcbs t = pcbs s" "s_key t = s_key s"
proof -
  have t: "t = s\<lparr>bus := bus t, debug_str_buf := debug_str_buf t\<rparr>" using assms by (simp add: prints_def)
  show "lh_next t = lh_next s" "lh_prev t = lh_prev s" "pcbs t = pcbs s" "s_key t = s_key s"
    by (subst t, simp)+
qed

text \<open>Printing in sequence.\<close>

lemma ok_prints:
  assumes "ok m (prints w cs s)" and "\<And>t. prints w cs s t \<Longrightarrow> ok (g t) (prints w ds t)"
  shows "ok (andThen m g) (prints w (cs @ ds) s)"
proof -
  obtain t u where "m = Inr t" "prints w cs s t" "g t = Inr u" "prints w ds t u"
    using assms unfolding ok_iff by blast
  then show ?thesis by (auto intro: prints_trans)
qed

section \<open>The messages\<close>

lemma putstr_console:
  assumes "console w b"
  shows "ok (andThen (get_terminal w SYS_TERM b) (\<lambda>(reg, b). term_putstr w reg cs b))
    (\<lambda>c. console w c \<and> (console_accepts w b \<longrightarrow> console_accepts w c \<and> writes_since b c (console_writes w cs)))"
proof -
  let ?reg = "DEV_REG_ADDR w (IL_TERMINAL w) SYS_TERM"
  obtain c where c: "get_terminal w SYS_TERM b = Inr (?reg, c)" "terminals c SYS_TERM = Some ?reg"
      "bus_log c = bus_log b" "now c = now b"
    using assms by (rule console_terminal)
  have "answers w ?reg" using assms by (simp add: console_def Let_def)
  from term_putstr_ends [OF this, of cs c] show ?thesis
    using assms c by (auto simp: console_def Let_def writes_since_def console_writes_def string_sent_def
        console_accepts_def elim!: ok_mono)
qed

lemma print_ok_prints:
  assumes "console w (bus s)"
  shows "ok (print_ok w str s) (prints w (c_string str) s)"
  using putstr_console [OF assms, of "c_string str"]
  by (auto simp: print_ok_def addokbuf_def prints_def ok_iff andThen_eq_Inr)

lemma print_buf_prints:
  assumes "console w (bus s)" and "buf_text buf = Inr cs"
  shows "ok (print_buf w buf s) (prints w cs s)"
  using putstr_console [OF assms(1), of cs] assms(2)
  by (auto simp: print_buf_def prints_def ok_iff andThen_eq_Inr)

lemma buf_text_at:
  assumes "text_at buf 0 cs" and "0 \<notin> set cs" and "length cs < DEBUG_STR_BUF_SIZE"
  shows "buf_text buf = Inr cs"
proof -
  have u: "[0..<DEBUG_STR_BUF_SIZE] = [0..<length cs] @ length cs # [Suc (length cs)..<DEBUG_STR_BUF_SIZE]"
    using upt_add_eq_append [of 0 "length cs" "DEBUG_STR_BUF_SIZE - length cs"] assms(3)
    by (simp add: upt_conv_Cons)
  have "takeWhile (\<lambda>c. c \<noteq> 0) (map buf [0..<DEBUG_STR_BUF_SIZE]) = cs"
  proof -
    have "map buf [0..<DEBUG_STR_BUF_SIZE] = cs @ 0 # map buf [Suc (length cs)..<DEBUG_STR_BUF_SIZE]"
      using assms(1) by (simp add: u text_at_def)
    moreover have "c \<noteq> 0" if "c \<in> set cs" for c using that assms(2) by blast
    ultimately show ?thesis by (simp only: takeWhile_append2) simp
  qed
  then show ?thesis using assms(3) by (simp add: buf_text_def)
qed

text \<open>A line of the log.\<close>

definition log_line :: "c_char list \<Rightarrow> c_char list" where
  "log_line cs = c_string (CHR 0x09 # DEBUG_MESSAGE_PREFIX) @ cs @ c_string [CHR 0x0A]"

lemma start_log_prints:
  assumes "console w (bus s)"
  shows "ok (start_log w s) (prints w (c_string (CHR 0x09 # DEBUG_MESSAGE_PREFIX)) s)"
proof -
  have "ok (start_log w s) (prints w (c_string [CHR 0x09] @ c_string DEBUG_MESSAGE_PREFIX @ c_string '''') s)"
    unfolding start_log_def using assms by (intro ok_prints print_ok_prints) (auto dest: prints_console)
  then show ?thesis by (simp add: c_string_def)
qed

lemma end_log_prints: "console w (bus s) \<Longrightarrow> ok (end_log w s) (prints w (c_string [CHR 0x0A]) s)"
  by (simp only: end_log_def print_ok_prints)

lemma DEBUG_LOG_prints:
  "console w (bus s) \<Longrightarrow> ok (DEBUG_LOG w message s) (prints w (log_line (c_string message)) s)"
  unfolding DEBUG_LOG_def log_line_def
  by (intro ok_prints start_log_prints print_ok_prints end_log_prints) (auto dest: prints_console)

lemma DEBUG_SPACING_prints: "console w (bus s) \<Longrightarrow> ok (DEBUG_SPACING w s) (prints w (log_line []) s)"
  unfolding DEBUG_SPACING_def log_line_def append_Nil
  by (intro ok_prints start_log_prints end_log_prints) (auto dest: prints_console)

lemma debug_log_number_prints:
  assumes "console w (bus s)" and "\<And>buf. ok (to_str v buf) (\<lambda>t. text_at t 0 cs)"
    and "0 \<notin> set cs" and "length cs < DEBUG_STR_BUF_SIZE"
  shows "ok (debug_log_number to_str w f description v s) (prints w (log_line (c_string description @ cs)) s)"
proof -
  have number: "ok (andThen (to_str v (debug_str_buf s f)) (\<lambda>buf.
       let s = s\<lparr>debug_str_buf := (debug_str_buf s)(f := buf)\<rparr> in
       andThen (print_buf w buf s) (end_log w))) (prints w (cs @ c_string [CHR 0x0A]) s)"
    if c: "console w (bus s)" for s :: "'a debug_kern_scheme"
  proof -
    obtain buf where buf: "to_str v (debug_str_buf s f) = Inr buf" "text_at buf 0 cs"
      using assms(2) [of "debug_str_buf s f"] by (auto simp: ok_iff)
    let ?t = "s\<lparr>debug_str_buf := (debug_str_buf s)(f := buf)\<rparr>"
    have s: "prints w [] s ?t" using c by (simp add: prints_def)
    have "ok (andThen (print_buf w buf ?t) (end_log w)) (prints w (cs @ c_string [CHR 0x0A]) ?t)"
      using c buf_text_at [OF buf(2) assms(3,4)]
      by (intro ok_prints print_buf_prints end_log_prints) (auto dest: prints_console)
    then show ?thesis using buf(1) prints_trans [OF s] by (auto simp: Let_def elim!: ok_mono)
  qed
  have "ok (debug_log_number to_str w f description v s)
      (prints w (c_string (CHR 0x09 # DEBUG_MESSAGE_PREFIX) @ c_string description @ cs @ c_string [CHR 0x0A]) s)"
    unfolding debug_log_number_def using assms(1)
    by (intro ok_prints start_log_prints print_ok_prints number) (auto dest: prints_console)
  then show ?thesis by (simp add: log_line_def)
qed

text \<open>The decimal texts.\<close>

definition int_text :: "u32 \<Rightarrow> c_char list" where
  "int_text i = sign_chars i @ digit_chars (c_literal ''0123456789'') (signed_text 10 i)"

definition uint_text :: "u32 \<Rightarrow> c_char list" where
  "uint_text i = digit_chars (c_literal ''0123456789'') (base_digits 10 (unat i))"

lemma literal_nonzero:
  assumes "0 \<notin> set (c_string digits)" and "length digits = b" and "\<And>d. d \<in> set ds \<Longrightarrow> d < b"
  shows "0 \<notin> set (digit_chars (c_literal digits) ds)"
proof -
  have "c_literal digits ! d \<in> set (c_string digits)" if "d < length digits" for d
    using that by (simp add: c_literal_def c_string_def nth_append)
  then show ?thesis using assms by (fastforce simp: digit_chars_def)
qed

lemma decimal_chars: "0 \<notin> set (digit_chars (c_literal ''0123456789'') (base_digits 10 n))"
  by (rule literal_nonzero [where b = 10]) (simp_all add: c_string_def base_digits_less)

lemma length_decimal_chars:
  "n < 4294967296 \<Longrightarrow> length (digit_chars (c_literal ''0123456789'') (base_digits 10 n)) \<le> 10"
  using length_base_digits [of 10 n 9] by (simp add: digit_chars_def)

lemma unat_u32_less: "unat (i :: u32) < 4294967296"
proof -
  have "unat i < 2 ^ LENGTH(32)" by (rule unsigned_less)
  then show ?thesis by simp
qed

lemma int_text_chars: "0 \<notin> set (int_text i)" "length (int_text i) < DEBUG_STR_BUF_SIZE"
proof -
  have "\<bar>sint i\<bar> < 4294967296" using sint_greater_eq [of i] sint_less_max [of i] by simp
  then have n: "nat \<bar>sint i\<bar> < 4294967296" by simp
  show "0 \<notin> set (int_text i)"
    using decimal_chars [of "nat \<bar>sint i\<bar>"] by (simp add: int_text_def sign_chars_def signed_text_def minus_char_def)
  show "length (int_text i) < DEBUG_STR_BUF_SIZE"
    using length_decimal_chars [OF n] by (cases "sint i < 0") (simp_all add: int_text_def sign_chars_def signed_text_def DEBUG_STR_BUF_SIZE_def)
qed

lemma uint_text_chars: "0 \<notin> set (uint_text i)" "length (uint_text i) < DEBUG_STR_BUF_SIZE"
  using decimal_chars [of "unat i"] length_decimal_chars [OF unat_u32_less [of i]]
  by (simp_all add: uint_text_def DEBUG_STR_BUF_SIZE_def)

lemma DEBUG_LOG_INT_prints:
  assumes "console w (bus s)" and "sint v \<noteq> -2147483648"
  shows "ok (DEBUG_LOG_INT w f description v s) (prints w (log_line (c_string description @ int_text v)) s)"
  unfolding DEBUG_LOG_INT_def using assms
  by (intro debug_log_number_prints int_text_chars) (simp_all add: int_to_str_text int_text_def)

lemma DEBUG_LOG_UINT_prints:
  assumes "console w (bus s)"
  shows "ok (DEBUG_LOG_UINT w f description v s) (prints w (log_line (c_string description @ uint_text v)) s)"
  unfolding DEBUG_LOG_UINT_def using assms
  by (intro debug_log_number_prints uint_text_chars) (simp_all add: uint_to_str_text uint_text_def)

text \<open>Every digit of a binary text fits in the buffer: 33 characters at most.\<close>

definition binary_text :: "u32 \<Rightarrow> c_char list" where
  "binary_text i = sign_chars i @ digit_chars (c_literal ''01'') (signed_text 2 i)"

lemma DEBUG_LOG_BININT_prints:
  assumes "console w (bus s)" and "sint v \<noteq> -2147483648"
  shows "ok (DEBUG_LOG_BININT w f description v s) (prints w (log_line (c_string description @ binary_text v)) s)"
  unfolding DEBUG_LOG_BININT_def
proof (rule debug_log_number_prints)
  have "0 \<notin> set (digit_chars (c_literal ''01'') (signed_text 2 v))"
    by (rule literal_nonzero [where b = 2]) (simp_all add: c_string_def base_digits_less signed_text_def)
  then show "0 \<notin> set (binary_text v)" by (simp add: binary_text_def sign_chars_def minus_char_def)
  have "\<bar>sint v\<bar> < 2 ^ Suc 31" using sint_greater_eq [of v] sint_less_max [of v] by simp
  then have "nat \<bar>sint v\<bar> < 2 ^ Suc 31" by simp
  from length_base_digits [OF order_refl this] show "length (binary_text v) < DEBUG_STR_BUF_SIZE"
    by (cases "sint v < 0") (simp_all add: binary_text_def sign_chars_def digit_chars_def signed_text_def DEBUG_STR_BUF_SIZE_def)
qed (use assms in \<open>simp_all add: int_to_str_binary_text binary_text_def\<close>)

section \<open>The checked device type\<close>

text \<open>On the external lines the two builds agree; on every other line the debug build stops, where the release build goes on with
  a number that wrapped around.\<close>

lemma debug_get_ext_dev_type_checks:
  assumes "documented w" and "console w (bus s)"
  shows "debug_get_ext_dev_type w line subdev s =
    (if 3 \<le> line \<and> line < 8 then Inr (get_ext_dev_type w line subdev, s) else Inl Halted)"
proof -
  obtain t where t: "DEBUG_LOG_UINT w Devices_c ''The given line doesn't correspond to an external device: '' line s = Inr t"
    using DEBUG_LOG_UINT_prints [OF assms(2)] unfolding ok_iff by blast
  have "N_IL w = 8" "N_IL w - N_EXT_IL w = 3" using assms(1) by (simp_all add: documented_def)
  then show ?thesis by (auto simp: debug_get_ext_dev_type_def t)
qed

section \<open>The dumps\<close>

text \<open>One line for each element, in the order of the list.\<close>

lemma for_each_prints:
  assumes "dll s h xs" and "console w (bus s)"
    and "\<And>x t cs. x \<in> set xs \<Longrightarrow> prints w cs s t \<Longrightarrow> ok (body x t) (\<lambda>(r, u). r = None \<and> prints w (line x) t u)"
  shows "ok (list_for_each_entry body h s) (\<lambda>(r, t). r = None \<and> prints w (concat (map line xs)) s t)"
proof -
  have "ok (list_for_each_entry body h s) (\<lambda>(r, t). r = None \<and> lh_next t = lh_next s \<and>
      prints w (concat (map line xs)) s t)"
  proof (rule list_for_each_inv [OF assms(1), where I = "\<lambda>ys t. prints w (concat (map line ys)) s t"])
    show "prints w (concat (map line [])) s s" using prints_refl [OF assms(2)] by simp
    show "ok (body x t) (\<lambda>(r, u). r = None \<and> lh_next u = lh_next t \<and> prints w (concat (map line (ys @ [x]))) s u)"
      if "xs = ys @ x # ws" "prints w (concat (map line ys)) s t" for x ys ws t
      using assms(3) [of x "concat (map line ys)" t] that
      by (auto elim!: ok_mono simp: prints_same(1) intro: prints_trans)
  qed
  then show ?thesis by (rule ok_mono) auto
qed

definition pcb_text :: "pcb \<Rightarrow> c_char list" where
  "pcb_text p = int_text (case p of Pcb i \<Rightarrow> word_of_nat i | Idle_proc \<Rightarrow> word_of_nat MAXPROC)"

lemma sint_index: "i \<le> MAXPROC \<Longrightarrow> sint (word_of_nat i :: u32) \<noteq> -2147483648"
proof -
  assume i: "i \<le> MAXPROC"
  then have "unat (word_of_nat i :: u32) = i" by (simp add: unat_of_nat take_bit_nat_eq_self MAXPROC_def)
  then have "sint (word_of_nat i :: u32) = int i"
    using i by (subst sint_small) (simp_all add: MAXPROC_def)
  then show ?thesis by simp
qed

definition queue_lines :: "string \<Rightarrow> pcb list \<Rightarrow> c_char list" where
  "queue_lines description ps = concat (map (\<lambda>p. log_line (c_string description @ pcb_text p)) ps)"

lemma dump_queue:
  assumes ring: "dll s h (map P_next ps)" and con: "console w (bus s)"
    and idx: "\<And>p. p \<in> set ps \<Longrightarrow> \<exists>i. idx p = Inr i \<and> pcb_text p = int_text i \<and> sint i \<noteq> -2147483648"
  shows "ok (andThen (list_for_each_entry (\<lambda>l s.
      andThen (container_of_p_next l) (\<lambda>q. andThen (idx q) (\<lambda>i.
      andThen (DEBUG_LOG_INT w f description i s) (\<lambda>s. Inr (None :: unit option, s))))) h s) (\<lambda>(_, s). Inr s))
    (prints w (queue_lines description ps) s)"
proof -
  let ?line = "\<lambda>l. log_line (c_string description @ (case l of P_next p \<Rightarrow> pcb_text p | _ \<Rightarrow> []))"
  let ?body = "\<lambda>l s. andThen (container_of_p_next l) (\<lambda>q. andThen (idx q) (\<lambda>i.
    andThen (DEBUG_LOG_INT w f description i s) (\<lambda>s. Inr (None :: unit option, s))))"
  have "ok (?body x u) (\<lambda>(r, v). r = None \<and> prints w (?line x) u v)"
    if x: "x \<in> set (map P_next ps)" and u: "prints w cs s u" for x u cs
  proof -
    obtain p where p: "x = P_next p" "p \<in> set ps" using x by auto
    obtain i where "idx p = Inr i" "pcb_text p = int_text i" "sint i \<noteq> -2147483648"
      using idx [OF p(2)] by auto
    then show ?thesis
      using DEBUG_LOG_INT_prints [OF prints_console [OF u], of i f description]
      by (auto simp: p(1) elim!: ok_mono)
  qed
  then have "ok (list_for_each_entry ?body h s)
      (\<lambda>(r, u). r = None \<and> prints w (concat (map ?line (map P_next ps))) s u)"
    by (intro for_each_prints [OF ring con])
  then show ?thesis by (auto elim!: ok_mono simp: comp_def queue_lines_def)
qed

lemma get_pcb_index_text:
  "i < MAXPROC \<Longrightarrow> \<exists>v. get_pcb_index (Pcb i) = Inr v \<and> pcb_text (Pcb i) = int_text v \<and> sint v \<noteq> -2147483648"
  using sint_index [of i] by (simp add: pcb_text_def)

lemma get_proc_index_text:
  "p \<in> insert Idle_proc (Pcb ` {..<MAXPROC}) \<Longrightarrow>
    \<exists>v. get_proc_index p = Inr v \<and> pcb_text p = int_text v \<and> sint v \<noteq> -2147483648"
  using sint_index by (auto simp: pcb_text_def)

lemma debug_ready_queue_prints:
  assumes "rings s P_next K Q" and "Ready_queue \<in> K" and "console w (bus s)"
    and "set (Q Ready_queue) \<subseteq> insert Idle_proc (Pcb ` {..<MAXPROC})"
  shows "ok (debug_ready_queue w s)
    (prints w (log_line (c_string ''Ready queue:'') @ queue_lines (CHR 0x09 # ''proc '') (Q Ready_queue)) s)"
  unfolding debug_ready_queue_def
proof (rule ok_prints [OF DEBUG_LOG_prints [OF assms(3)]], rule dump_queue)
  fix t assume t: "prints w (log_line (c_string ''Ready queue:'')) s t"
  show "dll t Ready_queue (map P_next (Q Ready_queue))"
    using rings_dll [OF assms(1,2)] prints_same(1,2) [OF t] by (simp add: dll_def)
  show "console w (bus t)" by (rule prints_console [OF t])
qed (use assms(4) in \<open>blast intro: get_proc_index_text\<close>)

text \<open>The dump of the semaphores: for each in the order of the list, its descriptor and its queue.\<close>

definition semd_lines :: "(lh \<Rightarrow> pcb list) \<Rightarrow> nat \<Rightarrow> c_char list" where
  "semd_lines Q i =
     log_line (c_string ''  SEMD: '' @ int_text (word_of_nat i)) @ queue_lines ''    Proc: '' (Q (S_procQ i))"

lemma debug_asl_prints:
  assumes inv: "asl_inv s K Q fs acts E" and con: "console w (bus s)"
    and procs: "\<And>i. i \<in> set acts \<Longrightarrow> set (Q (S_procQ i)) \<subseteq> Pcb ` {..<MAXPROC}"
  shows "ok (debug_asl w s) (prints w (log_line (c_string ''ASL:'') @ concat (map (semd_lines Q) acts)) s)"
  unfolding debug_asl_def
proof (rule ok_prints [OF DEBUG_LOG_prints [OF con]])
  note I = asl_invD [OF inv]
  let ?line = "\<lambda>l. case l of S_next i \<Rightarrow> semd_lines Q i | _ \<Rightarrow> []"
  let ?body = "\<lambda>l s. andThen (container_of_s_next l) (\<lambda>semd.
    andThen (DEBUG_LOG_INT w Asl_c ''  SEMD: '' (get_semd_index semd) s) (\<lambda>s.
    andThen (debug_semd_queue w semd s) (\<lambda>s. Inr (None :: unit option, s))))"
  fix t assume t: "prints w (log_line (c_string ''ASL:'')) s t"
  have "ok (?body x u) (\<lambda>(r, v). r = None \<and> prints w (?line x) u v)"
    if x: "x \<in> set (map S_next acts)" and tu: "prints w cs t u" for x u cs
  proof -
    obtain i where i: "x = S_next i" "i \<in> set acts" using x by auto
    then have m: "i < MAXPROC" using I(5) by auto
    note su = prints_trans [OF t tu]
    have q: "ok (debug_semd_queue w i v) (prints w (queue_lines ''    Proc: '' (Q (S_procQ i))) v)"
      if v: "prints w ds u v" for v ds
      unfolding debug_semd_queue_def
    proof (rule dump_queue)
      show "dll v (S_procQ i) (map P_next (Q (S_procQ i)))"
        using rings_dll [OF I(1), of "S_procQ i"] I(3) [of i] m prints_same(1,2) [OF prints_trans [OF su v]]
        by (simp add: dll_def)
      show "console w (bus v)" by (rule prints_console [OF v])
    qed (use procs [OF i(2)] in \<open>auto simp: get_pcb_index_text simp del: get_pcb_index.simps\<close>)
    have "sint (get_semd_index i) \<noteq> -2147483648"
      using sint_index [of i] m by (simp add: get_semd_index_def)
    then have "ok (andThen (DEBUG_LOG_INT w Asl_c ''  SEMD: '' (get_semd_index i) u) (debug_semd_queue w i))
        (prints w (semd_lines Q i) u)"
      unfolding semd_lines_def get_semd_index_def
      by (intro ok_prints DEBUG_LOG_INT_prints prints_console [OF tu] q)
    then show ?thesis by (auto simp: i(1) ok_iff andThen_eq_Inr)
  qed
  moreover have "dll t Semd_h (map S_next acts)"
    using rings_dll [OF I(4) semd_headsI(2)] prints_same(1,2) [OF t] by (simp add: dll_def)
  ultimately have "ok (list_for_each_entry ?body Semd_h t)
      (\<lambda>(r, u). r = None \<and> prints w (concat (map ?line (map S_next acts))) t u)"
    using prints_console [OF t] by (intro for_each_prints) auto
  then show "ok (andThen (list_for_each_entry ?body Semd_h t) (\<lambda>(_, s). Inr s))
      (prints w (concat (map (semd_lines Q) acts)) t)"
    by (auto elim!: ok_mono simp: comp_def)
qed

end
