(* ===== verification/Device_Properties.thy ===== *)
theory Device_Properties
  imports Io_Properties Terminal_Text Utils Debug_Log
begin

text \<open>
  The properties of the device registers (\<open>types.h\<close>, \<open>devices.c\<close>), of the terminal driver
  (\<open>terminal.c\<close>), of the conversions of numbers and of \<open>memcpy\<close>.
\<close>

section \<open>Register addresses\<close>

lemma below_8: "(n :: nat) < 8 \<longleftrightarrow> n \<in> {0, 1, 2, 3, 4, 5, 6, 7}"
  by auto

lemma between_3_7: "3 \<le> n \<and> n \<le> 7 \<longleftrightarrow> (n :: nat) \<in> {3, 4, 5, 6, 7}"
  by auto

lemma documented_coordinates:
  assumes w: "documented w" and l: "3 \<le> l" "l \<le> 7" and d: "d < 8"
  shows "GET_DEV_LINE w (DEV_REG_ADDR w l d) = word_of_nat l"
    "GET_DEV_INSTANCE w (DEV_REG_ADDR w l d) = word_of_nat d"
proof -
  have off: "DEV_REG_ADDR w l d - DEV_REG_START w = word_of_nat (l - 3) * 128 + word_of_nat d * 16"
    using w by (simp add: documented_def)
  have "l \<in> {3, 4, 5, 6, 7}" "d \<in> {0, 1, 2, 3, 4, 5, 6, 7}"
    using l d between_3_7 below_8 by blast+
  then show "GET_DEV_LINE w (DEV_REG_ADDR w l d) = word_of_nat l"
    "GET_DEV_INSTANCE w (DEV_REG_ADDR w l d) = word_of_nat d"
    unfolding GET_DEV_LINE_def GET_DEV_INSTANCE_def off
    using w by (auto simp: documented_def signed_divide_int_def signed_modulo_int_def)
qed

text \<open>C35. Round trip of the device coordinates: the register address of the device of a line gives back,
  by the pointer arithmetic of \<open>GET_DEV_LINE\<close> and \<open>GET_DEV_INSTANCE\<close>, the device type and number that
  name its waiting list, and from these \<open>done_io\<close> computes the same register address.\<close>

theorem device_round_trip:
  assumes w: "documented w" and l: "3 \<le> l" "l \<le> 7" and d: "d < 8" and sub: "sub = 0 \<or> sub = 1"
  shows "\<exists>ty. io_device w (DEV_REG_ADDR w l d) sub = Inr (ty, d) \<and> io_reg w ty d = DEV_REG_ADDR w l d \<and>
    ty = (if l = 7 \<and> sub = 1 then TERM_RX else l - 3)"
proof -
  have "l \<in> {3, 4, 5, 6, 7}" using l between_3_7 by blast
  then have t: "unat (get_ext_dev_type w (word_of_nat l) sub) = (if l = 7 \<and> sub = 1 then TERM_RX else l - 3)"
    using w sub by (auto simp: documented_def get_ext_dev_type_def TERM_RX_def)
  have d': "unat (word_of_nat d :: u32) = d" using d by (simp add: unsigned_of_nat take_bit_eq_mod)
  have "get_ext_dev_line (if l = 7 \<and> sub = 1 then TERM_RX else l - 3) = l"
    using l by (auto simp: get_ext_dev_line_def dev_types)
  moreover have "(if l = 7 \<and> sub = 1 then TERM_RX else l - 3) < N_EXT_IL w + 1" "d < N_DEV_PER_IL w"
    using w l d by (auto simp: documented_def TERM_RX_def)
  ultimately show ?thesis
    by (simp add: io_device_def documented_coordinates [OF w l d] t d' get_dev_w_list_def io_reg_def)
qed

lemma device_round_trip_witness:
  "\<exists>ty. io_device example_board (DEV_REG_ADDR example_board 7 3) 1 = Inr (ty, 3) \<and> ty = TERM_RX"
proof -
  have "documented example_board" by (simp add: documented_def example_board_def)
  from device_round_trip [OF this, of 7 3 1] show ?thesis by auto
qed

section \<open>The terminal\<close>

text \<open>C36. \<open>term_putchar\<close> on every hardware, whatever the status register shows: it refuses the character without a write when the
  transmitter is neither ready nor shows its last transmission; else it writes the command, waits for the first
  status that is not busy, acknowledges it and returns 0 exactly when this status is a transmission; and it loops for ever
  exactly when the transmitter is accepted and then stays busy.\<close>

theorem term_putchar_ends:
  "term_putchar w reg c b =
    (if \<not> tx_idle (tx_stat w reg (now b)) then Inr (-1, b\<lparr>now := Suc (now b)\<rparr>)
     else if \<exists>k. tx_stat w reg (now b + 2 + k) \<noteq> DEVICE_ST_BUSY
     then let m = now b + 2 + (LEAST k. tx_stat w reg (now b + 2 + k) \<noteq> DEVICE_ST_BUSY) in
       Inr (if tx_stat w reg m = TERM_TX_ST_SPECIFIC then 0 else -1,
         b\<lparr>now := m + 2, bus_log := rev (char_writes w reg c) @ bus_log b\<rparr>)
     else Inl Diverge)"
proof (cases "tx_idle (tx_stat w reg (now b))")
  case idle: True
  show ?thesis
  proof (cases "\<exists>k. tx_stat w reg (now b + 2 + k) \<noteq> DEVICE_ST_BUSY")
    case True
    let ?k = "LEAST k. tx_stat w reg (now b + 2 + k) \<noteq> DEVICE_ST_BUSY"
    have "tx_stat w reg (now b + 2 + ?k) \<noteq> DEVICE_ST_BUSY" using True by (rule LeastI_ex)
    moreover have "tx_stat w reg (now b + 2 + j) = DEVICE_ST_BUSY" if "j < ?k" for j
      using not_less_Least [OF that] by simp
    ultimately show ?thesis
      using True idle term_putchar_answered [OF idle, of ?k c] unfolding sent_def Let_def by (simp only: if_False simp_thms if_True)
  next
    case False
    then have "tx_stat w reg k = DEVICE_ST_BUSY" if "now b + 2 \<le> k" for k
      using that le_Suc_ex by blast
    then show ?thesis using idle False term_putchar_diverges [OF idle] by simp
  qed
qed (simp add: term_putchar_refused)

lemma term_putchar_ends_witness:
  "term_putchar example_board 0x10000260 0x48 (bus example_boot) = Inr (0, (bus example_boot)\<lparr>now := 6,
      bus_log := [(0x1000026C, 1), (0x1000026C, 0x4802)]\<rparr>) \<and>
    term_putchar (example_board\<lparr>env := \<lambda>_ n. if n = 0 then 1 else 3\<rparr>) 0x10000260 0x48 (bus example_boot) = Inl Diverge"
proof
  let ?c = "LEAST k. tx_stat example_board 0x10000260 (0 + 2 + k) \<noteq> DEVICE_ST_BUSY"
  have first: "?c = 2"
  proof (rule Least_equality)
    fix k assume "tx_stat example_board 0x10000260 (0 + 2 + k) \<noteq> DEVICE_ST_BUSY"
    moreover have "k = 0 \<or> k = 1 \<or> 2 \<le> k" by auto
    ultimately show "2 \<le> k" by (auto simp: example_tx DEVICE_ST_BUSY_def tx_cycle_def)
  qed (simp add: example_tx DEVICE_ST_BUSY_def tx_cycle_def)
  have idle: "tx_idle (tx_stat example_board 0x10000260 0)" by (simp add: tx_idle_def example_tx DEVICE_ST_READY_def)
  have last: "tx_stat example_board 0x10000260 (0 + 2 + 2) = TERM_TX_ST_SPECIFIC"
    by (simp add: example_tx TERM_TX_ST_SPECIFIC_def tx_cycle_def)
  then have ends: "\<exists>k. tx_stat example_board 0x10000260 (0 + 2 + k) \<noteq> DEVICE_ST_BUSY"
    by (intro exI [of _ 2]) (simp add: TERM_TX_ST_SPECIFIC_def DEVICE_ST_BUSY_def)
  have n: "now (bus example_boot) = 0" "bus_log (bus example_boot) = []" by (simp_all add: example_boot_def)
  have cw: "char_writes example_board 0x10000260 0x48 = [(0x1000026C, 0x4802), (0x1000026C, 1)]"
    by (simp add: char_writes_def reg_transm_command_def promote_char_def example_board_def DEVICE_CMD_ACK_def
        DEVICE_CMD_FUNC_SPECIFIC_def)
  show "term_putchar example_board 0x10000260 0x48 (bus example_boot) = Inr (0, (bus example_boot)\<lparr>now := 6,
      bus_log := [(0x1000026C, 1), (0x1000026C, 0x4802)]\<rparr>)"
    unfolding term_putchar_ends n Let_def first last cw using idle ends by simp
  let ?w = "example_board\<lparr>env := \<lambda>_ n. if n = 0 then 1 else 3\<rparr>"
  have "tx_stat ?w 0x10000260 n = (if n = 0 then DEVICE_ST_READY else DEVICE_ST_BUSY)" for n
    by (simp add: tx_stat_def DEV_STATUS_MASK_def DEVICE_ST_READY_def DEVICE_ST_BUSY_def)
  then show "term_putchar ?w 0x10000260 0x48 (bus example_boot) = Inl Diverge"
    unfolding term_putchar_ends n by (simp add: tx_idle_def)
qed

text \<open>C37. \<open>term_putstr\<close> on a terminal whose operations end, with or without an error: it ends, and what it writes is, for the
  characters up to some position and in their order, the transmit command with the character in its second byte and the
  acknowledgement. It stops before the end of the string only after the transmitter refused a character or showed an
  error for one, it writes nothing when the transmitter is not ready at the start, and it sends the whole string when the terminal
  goes through the documented cycle, ready, busy for some time, transmitted, acknowledged, for each
  character.\<close>

theorem term_putstr_sends:
  assumes "answers w reg"
  shows "ok (term_putstr w reg str b) (\<lambda>t.
    (\<exists>m \<le> length str. writes_since b t (concat (map (char_writes w reg) (take m str))) \<and>
      (m < length str \<longrightarrow> \<not> tx_idle (tx_stat w reg (now t - 1)) \<or>
        0 < m \<and> tx_stat w reg (now t - 2) \<notin> {DEVICE_ST_BUSY, TERM_TX_ST_SPECIFIC})) \<and>
    (\<not> tx_idle (tx_stat w reg (now b)) \<longrightarrow> writes_since b t []) \<and>
    (accepts w reg (now b) \<longrightarrow> writes_since b t (concat (map (char_writes w reg) str))))"
proof (cases str)
  case (Cons c cs)
  then show ?thesis
    by (auto simp only: string_sent_def gave_up_def intro: ok_mono [OF term_putstr_ends [OF assms]])
qed simp

lemma term_putstr_sends_witness:
  "ok (term_putstr example_board 0x10000260 (c_string ''Hi'') (bus example_boot)) (\<lambda>t. bus_log t =
    [(0x1000026C, 1), (0x1000026C, 0x6902), (0x1000026C, 1), (0x1000026C, 0x4802)])"
proof -
  have "answers example_board 0x10000260" "accepts example_board 0x10000260 (now (bus example_boot))"
    by (rule tx_cycle_answers [where n = 0] tx_cycle_accepts, simp add: example_tx example_boot_def)+
  with term_putstr_sends [OF this(1), of "c_string ''Hi''" "bus example_boot"] show ?thesis
    by (auto elim!: ok_mono simp: writes_since_def char_writes_def c_string_def reg_transm_command_def
        promote_char_def example_board_def example_boot_def DEVICE_CMD_ACK_def DEVICE_CMD_FUNC_SPECIFIC_def)
qed

section \<open>Numbers as text\<close>

lemma length_decimal:
  assumes "n < 4294967296"
  shows "length (base_digits 10 n) \<le> 10"
  using length_base_digits [of 10 n 9] assms by simp

text \<open>C38. Round trip: for every \<open>int\<close> except the least, \<open>int_to_str\<close> writes the decimal text of the
  number, at most 11 characters and the terminator, and reading the text as a number gives it back.\<close>

theorem int_to_str_round_trip:
  assumes "sint i \<noteq> -2147483648"
  shows "ok (int_to_str i buf) (\<lambda>t. \<exists>cs. text_at t 0 cs \<and> text_value cs = sint i \<and> length cs \<le> 11)"
proof -
  let ?cs = "sign_chars i @ digit_chars (c_literal ''0123456789'') (signed_text 10 i)"
  have "\<bar>sint i\<bar> < 4294967296" using sint_greater_eq [of i] sint_less_max [of i] by simp
  then have "length (base_digits 10 (nat \<bar>sint i\<bar>)) \<le> 10" by (intro length_decimal) simp
  then have "length ?cs \<le> 11"
    by (cases "sint i < 0") (simp_all add: sign_chars_def digit_chars_def signed_text_def)
  then show ?thesis
    by (intro ok_mono [OF int_to_str_text [OF assms]] exI [of _ ?cs]) (simp add: signed_text_value)
qed

lemma int_to_str_round_trip_witness:
  "ok (int_to_str (-305) (\<lambda>_. 0)) (\<lambda>t. \<exists>cs. text_at t 0 cs \<and> text_value cs = -305 \<and> length cs \<le> 11)"
  using int_to_str_round_trip [of "-305" "\<lambda>_. 0"] by simp

text \<open>C39. The limit of the round trip: the conversions of an \<open>int\<close>, decimal and binary, fail on exactly one number, the least one, whose
  negation overflows to itself, so that a digit is read before the start of the table; on every other number they return, and the
  conversion of an unsigned number always returns.\<close>

theorem int_to_str_fails_iff:
  "(int_to_str i buf = Inl e \<longleftrightarrow> i = 0x80000000 \<and> e = OutOfBounds) \<and>
   (int_to_str_binary i buf = Inl e \<longleftrightarrow> i = 0x80000000 \<and> e = OutOfBounds) \<and>
   uint_to_str i buf \<noteq> Inl e"
proof (cases "i = 0x80000000")
  case True
  then show ?thesis
    using uint_to_str_text [of i buf]
    by (auto simp: int_to_str_def int_to_str_binary_def signed_to_str_INT_MIN ok_iff)
next
  case False
  then have "sint i \<noteq> sint (0x80000000 :: u32)" using signed_word_eqI by blast
  then have i: "sint i \<noteq> -2147483648" by simp
  show ?thesis
    using int_to_str_text [OF i, of buf] int_to_str_binary_text [OF i, of buf] uint_to_str_text [of i buf] False
    by (auto simp: ok_iff)
qed

lemma int_to_str_fails_iff_witness:
  "int_to_str 0x80000000 (\<lambda>_. 0) = Inl OutOfBounds \<and> int_to_str 0x80000001 (\<lambda>_. 0) \<noteq> Inl OutOfBounds"
  using int_to_str_fails_iff [of "0x80000000" "\<lambda>_. 0" OutOfBounds] int_to_str_fails_iff [of "0x80000001" "\<lambda>_. 0" OutOfBounds]
  by simp

text \<open>\<open>uint_to_str\<close> writes the decimal text of every unsigned number, at most 10 characters and the
  terminator.\<close>

theorem uint_to_str_round_trip:
  "ok (uint_to_str i buf) (\<lambda>t. \<exists>cs. text_at t 0 cs \<and> text_value cs = int (unat i) \<and> length cs \<le> 10)"
proof -
  let ?cs = "digit_chars (c_literal ''0123456789'') (base_digits 10 (unat i))"
  have "unat i < 2 ^ LENGTH(32)" by (rule unsigned_less)
  then have "unat i < 4294967296" by simp
  then have "length ?cs \<le> 10" using length_decimal by (simp add: digit_chars_def)
  then show ?thesis
    by (intro ok_mono [OF uint_to_str_text] exI [of _ ?cs])
      (simp only: decimal_text_value simp_thms)
qed

section \<open>Copying\<close>

text \<open>\<open>memcpy\<close> copies the bytes of a source that ends before, or begins at or after, the destination, so
  also an overlapping copy to lower addresses; every other byte of the memory stays and the destination
  is returned. A NULL pointer is a kernel panic.\<close>

theorem memcpy_copies:
  assumes "unat dst + unat n \<le> 2 ^ 32" "unat src + unat n \<le> 2 ^ 32"
    and "unat src + unat n \<le> unat dst \<or> unat dst \<le> unat src"
  shows "if src = 0 \<or> dst = 0 then memcpy dst src n m = Inl (Panic '''')
    else ok (memcpy dst src n m) (\<lambda>(d, t). d = dst \<and>
      (\<forall>i<unat n. t (dst + word_of_nat i) = m (src + word_of_nat i)) \<and>
      (\<forall>a. (\<forall>i<unat n. a \<noteq> dst + word_of_nat i) \<longrightarrow> t a = m a))"
proof (cases "src = 0 \<or> dst = 0")
  case True
  then show ?thesis using memcpy_null by simp
next
  case False
  have "copies_forward (unat n) dst src"
    by (rule copies_forward_apart) (use assms in auto)
  then show ?thesis using False memcpy_spec [of src dst n m] by simp
qed

lemma memcpy_copies_witness:
  "ok (memcpy 100 102 4 (\<lambda>a. ucast a)) (\<lambda>(d, t). d = 100 \<and> (\<forall>i<4. t (100 + word_of_nat i) = ucast (102 + word_of_nat i :: u32)))"
  using memcpy_copies [of 100 4 102 "\<lambda>a. ucast a"] by (auto elim!: ok_mono)

section \<open>The debug build\<close>

text \<open>A state of the release build as one of the debug build.\<close>

definition debug_build :: "(c_file \<Rightarrow> cbuf) \<Rightarrow> 'a kern_scheme \<Rightarrow> debug_kern" where
  "debug_build buf s = kern.extend (kern.truncate s) (debug_kern.fields buf)"

lemma debug_build_simps [simp]:
  "lh_next (debug_build buf s) = lh_next s" "lh_prev (debug_build buf s) = lh_prev s"
  "pcbs (debug_build buf s) = pcbs s" "s_key (debug_build buf s) = s_key s"
  "running_proc (debug_build buf s) = running_proc s" "bus (debug_build buf s) = bus s"
  by (simp_all add: debug_build_def kern.defs debug_kern.defs)



text \<open>The start of the debug build makes the same tables as that of the release build, with ten times the ticks in a time slice.\<close>

lemma debug_init_refines:
  fixes s :: "'a kern_scheme"
  assumes "boot s" and "length ds \<le> MAXPROC"
  shows "ok (debug_init_scheduler w ly ds ts s) (\<lambda>t. tables t (a_init w ly ds (pcbs s)) \<and>
    running_proc t = running_proc s \<and> clock_ticks_per_time_slice t = 10 * (TIME_SCALE w * ts))"
  unfolding debug_init_scheduler_def
  by (rule ok_mono [OF init_refines [OF assms]]) (simp add: rest_same_def init_dev_w_lists_def)





end
