(* ===== verification/Memory_Layout.thy ===== *)
theory Memory_Layout
  imports Handler
begin

text \<open>
  Where the kernel places processor states and stacks in memory: the macro \<open>AREA\<close> of
  \<open>include/core/system/system.h\<close> and the stack pointers that \<open>populate_pcb\<close> (\<open>scheduler.c\<close>) and
  \<open>init_new_area\<close> (\<open>system.c\<close>) choose. The model keeps the exception areas as separate cells (\<open>area\<close> of
  \<open>machine\<close>); the lemmas show that the addresses are indeed apart, and that no two stacks share a
  frame. \<open>AREA_BASE\<close> and \<open>STATE_T_SIZE\<close> are arguments: the first is the RAM's or the vector's base, the
  second 140 on MIPS and a constant of the emulator's headers on ARM.
\<close>

section \<open>Operations\<close>

definition AREA :: "u32 \<Rightarrow> u32 \<Rightarrow> area_age \<Rightarrow> exc_type \<Rightarrow> u32" where
  "AREA AREA_BASE STATE_T_SIZE new_old t =
     AREA_BASE + (7 - word_of_nat (exc_index t) * 2 - word_of_nat (age_index new_old)) * STATE_T_SIZE"

definition mps_STATE_T_SIZE :: u32 where "mps_STATE_T_SIZE = 140"

text \<open>The stack pointer of a state.\<close>

fun stack_pointer :: "state_t \<Rightarrow> u32" where
  "stack_pointer (Uarm s) = arm_sp s"
| "stack_pointer (Umps s) = mps_gpr s reg_sp"

section \<open>Regions of memory\<close>

definition region :: "u32 \<Rightarrow> u32 \<Rightarrow> nat set" where
  "region base n = {unat base..<unat base + unat n}"

text \<open>A stack grows downward from its pointer; the kernel gives each one frame.\<close>

definition stack_frame :: "u32 \<Rightarrow> u32 \<Rightarrow> nat set" where
  "stack_frame sp n = {unat sp - unat n..<unat sp}"

definition area_slot :: "area_age \<Rightarrow> exc_type \<Rightarrow> nat" where
  "area_slot new_old t = 7 - exc_index t * 2 - age_index new_old"

lemma area_slot_less: "area_slot new_old t < 8"
  by (simp add: area_slot_def)

lemma area_slot_inj: "area_slot a t = area_slot b u \<longleftrightarrow> a = b \<and> t = u"
  by (cases a; cases b; cases t; cases u) (simp_all add: area_slot_def)

lemma unat_base_plus:
  assumes "unat b + k * unat (n :: u32) < 2 ^ 32"
  shows "unat (b + word_of_nat k * n) = unat b + k * unat n"
proof -
  have "word_of_nat (unat b + k * unat n) = b + word_of_nat k * n" by simp
  moreover have "unat (word_of_nat (unat b + k * unat n) :: u32) = unat b + k * unat n"
    using assms by (rule unat_word_of_nat)
  ultimately show ?thesis by (simp only:)
qed

lemma AREA_eq: "AREA b n new_old t = b + word_of_nat (area_slot new_old t) * n"
  by (cases new_old; cases t) (simp_all add: AREA_def area_slot_def)

lemma AREA_unat:
  assumes "unat b + 8 * unat n \<le> 2 ^ 32" and "0 < unat n"
  shows "unat (AREA b n new_old t) = unat b + area_slot new_old t * unat n"
proof -
  have "area_slot new_old t * unat n \<le> 7 * unat n"
    using area_slot_less [of new_old t] by (intro mult_le_mono1) simp
  then have "unat b + area_slot new_old t * unat n < 2 ^ 32" using assms by linarith
  then show ?thesis unfolding AREA_eq by (rule unat_base_plus)
qed

lemma slots_apart:
  fixes i j n :: nat
  assumes "i \<noteq> j"
  shows "{b + i * n..<b + i * n + n} \<inter> {b + j * n..<b + j * n + n} = {}"
proof -
  have apart: "{b + i * n..<b + i * n + n} \<inter> {b + j * n..<b + j * n + n} = {}" if "i < j" for i j
  proof -
    have "i * n + n \<le> j * n" using that by (metis Suc_leI add.commute mult_Suc mult_le_mono1)
    then show ?thesis by auto
  qed
  show ?thesis using assms apart [of i j] apart [of j i] by (cases "i < j") (auto simp: Int_commute)
qed

lemma areas_apart:
  assumes "unat b + 8 * unat n \<le> 2 ^ 32" and "(a, t) \<noteq> (a', t')"
  shows "region (AREA b n a t) n \<inter> region (AREA b n a' t') n = {}"
proof (cases "unat n = 0")
  case False
  have "area_slot a t \<noteq> area_slot a' t'" using assms(2) by (simp add: area_slot_inj)
  then show ?thesis
    using slots_apart [of "area_slot a t" "area_slot a' t'" "unat b" "unat n"] assms(1) False
    by (simp add: region_def AREA_unat)
qed (simp add: region_def)

section \<open>Stacks\<close>

lemma stack_pointer_simps [simp]:
  "stack_pointer (set_sp st v) = v" "stack_pointer (set_pc st v) = stack_pointer st"
  "stack_pointer (set_virtual_mem h st v) = stack_pointer st"
  "stack_pointer (set_kernel_mode h st v) = stack_pointer st"
  "stack_pointer (set_interval_timer_interrupts h st v) = stack_pointer st"
  "stack_pointer (set_other_interrupts h st v) = stack_pointer st"
  by (cases st; simp add: arm_set_sp_def mps_set_sp_def arm_set_pc_def mps_set_pc_def arm_set_virtual_mem_def
      mps_set_virtual_mem_def arm_set_kernel_mode_def mps_set_kernel_mode_def arm_set_interval_timer_interrupts_def
      mps_set_interval_timer_interrupts_def arm_set_other_interrupts_def mps_set_other_interrupts_def)+

lemma stack_pointer_populate_mode: "stack_pointer (populate_mode w data st) = stack_pointer st"
  by (cases st) (simp_all add: mps_set_virtual_mem_def arm_set_virtual_mem_def arm_set_kernel_mode_def Let_def)

lemma init_new_area_stack: "stack_pointer (init_new_area h st entry) = RAM_TOP h"
  by (simp add: init_new_area_def Let_def)

text \<open>The place of a process in the order of the stacks: the kernel has the first frame.\<close>

fun stack_slot :: "pcb \<Rightarrow> nat" where
  "stack_slot (Pcb i) = Suc i"
| "stack_slot Idle_proc = Suc MAXPROC"

lemma populate_pcb_stack:
  "ok (populate_pcb w p d s) (\<lambda>t. stack_pointer (p_s (pcbs t p)) = RAM_TOP w - FRAME_SIZE w * word_of_nat (stack_slot p))"
  by (cases p) (simp_all add: populate_pcb_def upd_pcb_def populate_fields_def Let_def stack_pointer_populate_mode add.commute)

lemma unat_top_minus:
  assumes "k * unat (n :: u32) \<le> unat sp"
  shows "unat (sp - n * word_of_nat k) = unat sp - k * unat n"
proof -
  have "word_of_nat (k * unat n) = n * word_of_nat k" by (simp add: mult.commute)
  moreover have "unat sp < 2 ^ LENGTH(32)" by (rule unsigned_less)
  then have "unat (word_of_nat (k * unat n) :: u32) = k * unat n"
    using assms by (intro unat_word_of_nat) simp
  ultimately show ?thesis using assms by (metis unat_sub word_le_nat_alt)
qed

lemma frames_apart:
  fixes i j n sp :: nat
  assumes "i \<noteq> j" and "Suc i * n \<le> sp" and "Suc j * n \<le> sp"
  shows "{sp - i * n - n..<sp - i * n} \<inter> {sp - j * n - n..<sp - j * n} = {}"
proof -
  have apart: "{sp - i * n - n..<sp - i * n} \<inter> {sp - j * n - n..<sp - j * n} = {}"
    if "i < j" "Suc j * n \<le> sp" for i j
  proof -
    have "i * n + n \<le> j * n" using that by (metis Suc_leI add.commute mult_Suc mult_le_mono1)
    then show ?thesis using that(2) by auto
  qed
  show ?thesis using assms apart [of i j] apart [of j i] by (cases "i < j") (auto simp: Int_commute)
qed


lemma stack_frames_apart:
  assumes "i \<noteq> j" and "Suc i * unat n \<le> unat sp" and "Suc j * unat n \<le> unat sp"
  shows "stack_frame (sp - n * word_of_nat i) n \<inter> stack_frame (sp - n * word_of_nat j) n = {}"
  using frames_apart [OF assms(1), of "unat n" "unat sp"] assms(2,3)
  by (simp add: stack_frame_def unat_top_minus)

lemma stack_slot_less: "p \<in> insert Idle_proc (Pcb ` {..<MAXPROC}) \<Longrightarrow> 0 < stack_slot p \<and> stack_slot p \<le> Suc MAXPROC"
  by auto

lemma stack_slot_inj: "p \<in> insert Idle_proc (Pcb ` {..<MAXPROC}) \<Longrightarrow> q \<in> insert Idle_proc (Pcb ` {..<MAXPROC}) \<Longrightarrow>
    stack_slot p = stack_slot q \<Longrightarrow> p = q"
  by auto

text \<open>The frames of the kernel's handlers and of all processes lie below \<open>RAM_TOP\<close>, apart from each other.\<close>

lemma stacks_apart:
  assumes ram: "(MAXPROC + 2) * unat (FRAME_SIZE w) \<le> unat (RAM_TOP w)"
    and p: "p \<in> insert Idle_proc (Pcb ` {..<MAXPROC})" and q: "q \<in> insert Idle_proc (Pcb ` {..<MAXPROC})"
    and "p \<noteq> q"
    and t: "populate_pcb w p d s = Inr t" and u: "populate_pcb w q e s' = Inr u"
  shows "stack_frame (stack_pointer (p_s (pcbs t p))) (FRAME_SIZE w) \<inter>
      stack_frame (stack_pointer (p_s (pcbs u q))) (FRAME_SIZE w) = {}" (is ?procs)
    and "stack_frame (stack_pointer (p_s (pcbs t p))) (FRAME_SIZE w) \<inter>
      stack_frame (stack_pointer (init_new_area (hw.truncate w) st entry)) (FRAME_SIZE w) = {}" (is ?kernel)
proof -
  let ?n = "unat (FRAME_SIZE w)"
  have room: "Suc (stack_slot r) * ?n \<le> unat (RAM_TOP w)" if "r \<in> insert Idle_proc (Pcb ` {..<MAXPROC})" for r
  proof -
    have "Suc (stack_slot r) * ?n \<le> (MAXPROC + 2) * ?n"
      using stack_slot_less [OF that] by (intro mult_le_mono1) simp
    then show ?thesis using ram by linarith
  qed
  have sp: "stack_pointer (p_s (pcbs t p)) = RAM_TOP w - FRAME_SIZE w * word_of_nat (stack_slot p)"
    "stack_pointer (p_s (pcbs u q)) = RAM_TOP w - FRAME_SIZE w * word_of_nat (stack_slot q)"
    using populate_pcb_stack [of w p d s] populate_pcb_stack [of w q e s'] t u by simp_all
  show ?procs
    unfolding sp using room [OF p] room [OF q] stack_slot_inj [OF p q] \<open>p \<noteq> q\<close>
    by (intro stack_frames_apart) auto
  have "stack_frame (RAM_TOP w - FRAME_SIZE w * word_of_nat (stack_slot p)) (FRAME_SIZE w) \<inter>
      stack_frame (RAM_TOP w - FRAME_SIZE w * word_of_nat 0) (FRAME_SIZE w) = {}"
    using room [OF p] room [of Idle_proc] stack_slot_less [OF p] by (intro stack_frames_apart) auto
  then show ?kernel unfolding sp by (simp add: init_new_area_stack hw.defs)
qed

text \<open>The exception areas, when they lie below the frames.\<close>

lemma area_stack_apart:
  fixes top f :: u32
  assumes room: "unat b + 8 * unat n + (MAXPROC + 2) * unat f \<le> unat top" and slot: "k \<le> Suc MAXPROC"
  shows "region (AREA b n age ty) n \<inter> stack_frame (top - f * word_of_nat k) f = {}"
proof (cases "unat n = 0")
  case False
  have "unat top < 2 ^ LENGTH(32)" by (rule unsigned_less)
  then have "unat b + 8 * unat n \<le> 2 ^ 32" using room by simp
  then have a: "unat (AREA b n age ty) = unat b + area_slot age ty * unat n" using False by (intro AREA_unat) simp_all
  have "Suc (area_slot age ty) * unat n \<le> 8 * unat n" using area_slot_less [of age ty] by (intro mult_le_mono1) simp
  then have "unat (AREA b n age ty) + unat n \<le> unat b + 8 * unat n" unfolding a by simp
  moreover have "Suc k * unat f \<le> (MAXPROC + 2) * unat f" using slot by (intro mult_le_mono1) simp
  moreover have "unat (top - f * word_of_nat k) = unat top - k * unat f"
    using calculation(2) room by (intro unat_top_minus) simp
  ultimately show ?thesis using room by (auto simp: region_def stack_frame_def)
qed (simp add: region_def)

end
