(* ===== verification/Kernel_Properties.thy ===== *)
theory Kernel_Properties
  imports Device_Properties Memory_Layout
begin

text \<open>
  The properties of the exception handlers and system calls, \<open>handler.c\<close> and \<open>syscalls.c\<close>.
\<close>

section \<open>Processor time\<close>

text \<open>The time charged to a process, less the time up to which it is charged.\<close>

definition time_balance :: "pcb_t \<Rightarrow> u32" where
  "time_balance c = user_timer c + kernel_timer c - tod_cache c"

text \<open>No processor time is lost or counted twice: bringing a process' user or kernel time up to date
  charges exactly the time since it was last charged, so the sum of both times less the time of the last
  charge never changes, for any process, also when the clock wraps around.\<close>

theorem processor_time_conserved:
  "time_balance (pcbs (flush_user_time w p s) q) = time_balance (pcbs s q) \<and>
   time_balance (pcbs (flush_kernel_time w p s) q) = time_balance (pcbs s q) \<and>
   tod_cache (pcbs (flush_user_time w p s) p) = tod_at w s \<and>
   tod_cache (pcbs (flush_kernel_time w p s) p) = tod_at w s"
  by (simp add: time_balance_def flush_user_time_def flush_kernel_time_def read_TOD_def TOD_def
      bus_read_def tod_at_def Let_def)

section \<open>The beginning and the end of a handler\<close>

lemma upd_pcb_machine [simp]:
  "area (upd_pcb p f s) = area s" "interrupted_proc (upd_pcb p f s) = interrupted_proc s"
  "int_timer_cache (upd_pcb p f s) = int_timer_cache s" "bus (upd_pcb p f t) = bus t"
  "running_proc (upd_pcb p f t) = running_proc t" "user_state (upd_pcb p f t) = user_state t"
  "clock_ticks_per_time_slice (upd_pcb p f t) = clock_ticks_per_time_slice t"
  by (simp_all add: upd_pcb_def)

lemma flush_machine [simp]:
  "area (flush_user_time w p s) = area s" "interrupted_proc (flush_user_time w p s) = interrupted_proc s"
  "running_proc (flush_user_time w p t) = running_proc t" "user_state (flush_user_time w p t) = user_state t"
  by (simp_all add: flush_user_time_def read_TOD_def Let_def split_beta)

lemma start_handler_total:
  assumes "running_proc s = Some p"
  shows "\<exists>t. start_handler w s = Inr t \<and> interrupted_proc t = Some p \<and> running_proc t = Some p \<and>
    area t = area s \<and> user_state t = user_state s"
  using assms by (simp add: start_handler_def on_bus_def get_INTERVAL_TIMER_def bus_read_def Let_def)

text \<open>\<open>conclude_handler\<close>: when the interrupted process still runs, its saved state is resumed, the
  interval timer continues with what was left of the time slice, and its kernel time is brought up to
  date; when another process runs, the interrupted one's state is saved in its PCB (unless it is the idle
  process), the timer starts a new time slice, and the other one's saved state is resumed.\<close>

lemma conclude_handler_resumes:
  assumes "running_proc s = Some r" and "interrupted_proc s = Some i"
  shows "ok (conclude_handler w ty s) (\<lambda>(st, t).
    if i = r
    then st = area s OLD ty \<and> writes_since (bus s) (bus t) [(BUS_REG_TIMER w, int_timer_cache s)] \<and>
      (\<forall>p. p \<noteq> r \<longrightarrow> pcbs t p = pcbs s p) \<and> p_s (pcbs t r) = p_s (pcbs s r)
    else st = p_s (pcbs s r) \<and>
      writes_since (bus s) (bus t) [(BUS_REG_TIMER w, clock_ticks_per_time_slice s)] \<and>
      (i \<noteq> Idle_proc \<longrightarrow> p_s (pcbs t i) = area s OLD ty) \<and>
      (\<forall>p. p \<noteq> r \<longrightarrow> p \<noteq> i \<longrightarrow> pcbs t p = pcbs s p))"
proof (cases "i = r")
  case True
  then show ?thesis
    using assms
    by (simp add: conclude_handler_def flush_kernel_time_def read_TOD_def TOD_def bus_read_def
        set_INTERVAL_TIMER_def bus_write_def writes_since_def Let_def)
next
  case False
  then show ?thesis
    using assms
    by (simp add: conclude_handler_def flush_reset_time_def reset_int_timer_def read_TOD_def TOD_def
        bus_read_def set_INTERVAL_TIMER_def bus_write_def writes_since_def Let_def)
qed

lemma conclude_handler_resumes_example:
  "ok (conclude_handler example_board SYS (example_start\<lparr>interrupted_proc := Some (Pcb 0)\<rparr>)) (\<lambda>(st, t).
    st = p_s (pcbs example_start (Pcb 1)) \<and> p_s (pcbs t (Pcb 0)) = area example_start OLD SYS)"
  by (rule ok_mono [OF conclude_handler_resumes [where r = "Pcb 1" and i = "Pcb 0"]])
    (auto simp: example_tables(4))

section \<open>System calls\<close>

text \<open>C33. A system call with a number of no service stops the kernel, when the number is 0: the check for
  pass-up is only for numbers above the last service, so 0 is not passed up and the process is not
  terminated, but \<open>consume_syscall\<close> panics.\<close>

theorem syscall_zero_panics:
  assumes "start_handler w s = Inr t" and "interrupted_proc t = Some p"
    and "get_exccode (hw.truncate w) (skip_instr w (area t OLD SYS)) = E_SYS"
    and "SYSCALL_N (area t OLD SYS) = 0"
  shows "handle_sysbreak w ly s =
    Inl (Panic ''ERROR: Syscall not recognised. Did you mean syscall number 42?'')"
proof -
  have "SYSCALL_N (skip_instr w (area t OLD SYS)) = 0" using assms(4) by simp
  then show ?thesis
    using assms(1-3)
    by (simp add: handle_sysbreak_def Let_def set_area_def consume_syscall_def syscall_numbers)
qed

definition example_trap :: "u32 \<Rightarrow> machine" where
  "example_trap n =
     example_start\<lparr>area := (\<lambda>_ _. Umps (mps_zero\<lparr>mps_cause := 32, mps_gpr := (\<lambda>r. if r = reg_a0 then n else 0)\<rparr>))\<rparr>"

lemma syscall_zero_panics_witness:
  "handle_sysbreak example_board example_layout (example_trap 0) =
    Inl (Panic ''ERROR: Syscall not recognised. Did you mean syscall number 42?'')"
proof -
  obtain t where t: "start_handler example_board (example_trap 0) = Inr t" "interrupted_proc t = Some (Pcb 1)"
      "area t = area (example_trap 0)"
    using start_handler_total [of "example_trap 0" "Pcb 1" example_board] example_tables(4)
    by (auto simp: example_trap_def)
  show ?thesis
    by (rule syscall_zero_panics [OF t(1,2)])
      (simp_all add: t(3) example_trap_def mps_get_exccode_def example_board_def hw.truncate_def)
qed

text \<open>C32. \<open>SPECPASSUP\<close> does not check the number of the exception type. An unknown one indexes outside of the PCB's
  \<open>spec_areas\<close>, but for the three numbers whose doubled index wraps around into the array: these act as
  the known types 0, 2 and 1.\<close>

theorem specpassup_out_of_bounds:
  assumes "running_proc s = Some p" and "3 \<le> unat type_code"
  shows "sys_specpassup type_code old_area new_area s =
    (if type_code = 0x80000000 then sys_specpassup 0 old_area new_area s
     else if type_code = 0x80000001 then sys_specpassup 2 old_area new_area s
     else if type_code = 0x80000002 then sys_specpassup 1 old_area new_area s
     else Inl OutOfBounds)"
proof (cases "type_code \<in> {0x80000000, 0x80000001, 0x80000002}")
  case True
  then show ?thesis by (auto simp: sys_specpassup_def Let_def cong: if_cong)
next
  case False
  have "unat type_code < 2 ^ LENGTH(32)" by (rule unsigned_less)
  then have less: "unat type_code < 4294967296" by simp
  have eq: "type_code = word_of_nat (unat type_code)" by simp
  have "unat type_code \<notin> {2147483648, 2147483649, 2147483650}" using False eq by (metis insertCI insert_iff of_nat_numeral singletonD)
  then have n: "unat type_code < 2147483648 \<or> 2147483651 \<le> unat type_code" by auto
  have "unat (type_code * 2) = unat type_code * 2 mod 4294967296" by (simp add: unat_word_ariths)
  then have "6 \<le> unat (type_code * 2)" using n assms(2) less by (auto simp: mod_if)
  moreover have "type_code \<noteq> 1" "type_code \<noteq> 2" using assms(2) by auto
  ultimately show ?thesis using assms(1) False by (simp add: sys_specpassup_def get_spec_area_def)
qed

lemma example_spec_areas: "spec_areas (tcb example_sched (Pcb (Suc 0))) = (\<lambda>_. None)"
  by (simp add: example_sched_def a_launch_def a_init_def a_idle_def a_starts_def a_start_def
      a_boot_def a_alloc_def example_procs_def example_proc_def upto_MAXPROC a_requeue_def a_prio_def
      fresh_pcb_def zero_pcb_def populate_fields_def Let_def)

lemma specpassup_out_of_bounds_witness:
  "sys_specpassup 3 64 128 example_start = Inl OutOfBounds \<and>
    sys_specpassup 0x80000001 64 128 example_start = sys_specpassup 2 64 128 example_start"
  using specpassup_out_of_bounds [OF example_tables(4), of 3 64 128]
    specpassup_out_of_bounds [OF example_tables(4), of "0x80000001" 64 128] by simp

text \<open>C31. \<open>SPECPASSUP\<close> and pass-up fit together: after a process declares its two areas for an exception
  type, that type is passed up: the interrupted state is stored at its old area and the state at its new
  area is loaded. The types of the call, 0 system call, 1 TLB, 2 program trap, are those of the handlers.\<close>

theorem specpassup_then_passup:
  assumes run: "running_proc s = Some p" and areas: "spec_areas (pcbs s p) = (\<lambda>_. None)"
    and ty: "(n, ty) \<in> {(0, SYS), (1, TLB), (2, PRG)}" and a: "old_area \<noteq> 0" "new_area \<noteq> 0" "old_area \<noteq> new_area"
  shows "ok (sys_specpassup n old_area new_area s) (\<lambda>t. is_passup_set ty p t = Inr True \<and>
    ok (launch_spec_area ty st t) (\<lambda>(loaded, u). loaded = user_state s new_area \<and>
      user_state u = (user_state s)(old_area := st)))"
proof -
  let ?i = "exc_index ty * 2"
  let ?u = "upd_pcb p (\<lambda>c. c\<lparr>spec_areas := (spec_areas c)(Suc ?i := Some old_area)\<rparr>) s"
  let ?t = "upd_pcb p (\<lambda>c. c\<lparr>spec_areas := (spec_areas c)(?i := Some new_area)\<rparr>) ?u"
  have i: "Suc ?i < 6" using ty by auto
  have code: "unat ((if n = 1 then 2 else if n = 2 then 1 else n) * 2) = ?i"
    "unat ((if n = 1 then 2 else if n = 2 then 1 else n) * 2 + 1) = Suc ?i"
    using ty by auto
  have call: "sys_specpassup n old_area new_area s = Inr ?t"
    unfolding sys_specpassup_def Let_def code
    using run areas i a(1,2) by (simp add: get_spec_area_def set_spec_area_def)
  have area: "get_spec_area p ?i u = Inr (Some new_area)" "get_spec_area p (Suc ?i) u = Inr (Some old_area)"
    if "pcbs u = pcbs ?t" for u :: machine
    using i areas by (simp_all add: get_spec_area_def that)
  have "is_passup_set ty p ?t = Inr True" by (simp add: is_passup_set_def area)
  moreover have "launch_spec_area ty st ?t =
      Inr (user_state s new_area, ?t\<lparr>user_state := (user_state s)(old_area := st)\<rparr>)"
    using a(3) run by (simp add: launch_spec_area_def get_passup_area_def area)
  ultimately show ?thesis by (simp add: call)
qed

lemma specpassup_then_passup_witness:
  "ok (sys_specpassup 1 64 128 example_start) (\<lambda>t. is_passup_set TLB (Pcb 1) t = Inr True)"
  by (rule ok_mono [OF specpassup_then_passup [OF example_tables(4), where n = 1 and ty = TLB and old_area = 64 and new_area = 128 and st = "zero_state TARGET_UMPS"]])
    (simp_all add: example_tables(3) example_spec_areas)

section \<open>Memory layout\<close>

text \<open>C34. No two exception areas overlap, nor do the stacks, nor an area and a stack: when the areas lie below \<open>MAXPROC + 2\<close> frames
  at the top of the RAM, the frame below the stack pointer that \<open>populate_pcb\<close> gives a process, the idle process or one of the table of the
  start, is disjoint from that of every other such process, from the frame of the exception handlers and from every
  area, and so is the frame of the handlers from every area. The stacks of the processes that \<open>CREATEPROCESS\<close> makes are those of
  the state that its caller gives, so nothing is said of them.\<close>

theorem areas_and_stacks_apart:
  assumes room: "unat AREA_BASE + 8 * unat STATE_T_SIZE + (MAXPROC + 2) * unat (FRAME_SIZE w) \<le> unat (RAM_TOP w)"
    and "(age, ty) \<noteq> (age', ty')"
    and p: "p \<in> insert Idle_proc (Pcb ` {..<MAXPROC})" and q: "q \<in> insert Idle_proc (Pcb ` {..<MAXPROC})"
    and "p \<noteq> q"
  shows "let area = (\<lambda>age ty. region (AREA AREA_BASE STATE_T_SIZE age ty) STATE_T_SIZE);
      frame = (\<lambda>st. stack_frame (stack_pointer st) (FRAME_SIZE w));
      kernel = frame (init_new_area (hw.truncate w) area0 entry) in
    area age ty \<inter> area age' ty' = {} \<and> area age ty \<inter> kernel = {} \<and>
    ok (populate_pcb w p d s) (\<lambda>t. ok (populate_pcb w q e t) (\<lambda>u.
      frame (p_s (pcbs u p)) \<inter> frame (p_s (pcbs u q)) = {} \<and> frame (p_s (pcbs u p)) \<inter> kernel = {} \<and>
      area age ty \<inter> frame (p_s (pcbs u p)) = {}))"
proof -
  have "unat (RAM_TOP w) < 2 ^ LENGTH(32)" by (rule unsigned_less)
  then have areas: "unat AREA_BASE + 8 * unat STATE_T_SIZE \<le> 2 ^ 32"
    and ram: "(MAXPROC + 2) * unat (FRAME_SIZE w) \<le> unat (RAM_TOP w)" using room by simp_all
  obtain t where t: "populate_pcb w p d s = Inr t"
    and sp: "stack_pointer (p_s (pcbs t p)) = RAM_TOP w - FRAME_SIZE w * word_of_nat (stack_slot p)"
    using populate_pcb_stack [of w p d s] by (auto simp: ok_iff)
  obtain u where u: "populate_pcb w q e t = Inr u"
    using populate_pcb_stack [of w q e t] by (auto simp: ok_iff)
  have "pcbs u p = pcbs t p"
    using u \<open>p \<noteq> q\<close> by (auto simp: populate_pcb_def andThen_eq_Inr upd_pcb_def)
  moreover have "stack_slot p \<le> Suc MAXPROC" using stack_slot_less [OF p] by simp
  ultimately show ?thesis
    using areas_apart [OF areas assms(2)] stacks_apart [OF ram p q \<open>p \<noteq> q\<close> t u] area_stack_apart [OF room, where age = age and ty = ty]
      area_stack_apart [OF room le0, where age = age and ty = ty]
    by (simp add: t u sp Let_def init_new_area_stack hw.defs)
qed

lemma areas_and_stacks_apart_witness:
  "region (AREA 0x20000000 mps_STATE_T_SIZE NEW SYS) mps_STATE_T_SIZE \<inter>
    stack_frame (stack_pointer (init_new_area (hw.truncate example_board) (zero_state TARGET_UMPS) 0)) (FRAME_SIZE example_board) = {}"
proof -
  have "unat (0x20000000 :: u32) + 8 * unat mps_STATE_T_SIZE + (MAXPROC + 2) * unat (FRAME_SIZE example_board)
      \<le> unat (RAM_TOP example_board)"
    by (simp add: mps_STATE_T_SIZE_def example_board_def MAXPROC_def)
  moreover have "(NEW, SYS) \<noteq> (OLD, INTR)" "Pcb 0 \<noteq> Idle_proc" by simp_all
  moreover have "Pcb 0 \<in> insert Idle_proc (Pcb ` {..<MAXPROC})" "Idle_proc \<in> insert Idle_proc (Pcb ` {..<MAXPROC})"
    by (auto simp: MAXPROC_def)
  ultimately show ?thesis using areas_and_stacks_apart unfolding Let_def by blast
qed

end
