(* ===== verification/Run_Properties.thy ===== *)
theory Run_Properties
  imports Kernel_Properties Progress
begin

text \<open>
  The properties of whole handlers in the running system, \<open>handler.c\<close> with what it calls: they
  always end and load a state, and what an unhandled fault does.
\<close>

section \<open>No handler stops the kernel\<close>

lemma reachable_alive:
  assumes "booted w ly s0" and "(exec w ly)\<^sup>*\<^sup>* s0 s" and "console w (bus s)"
  shows "alive w s"
  using kernel.inv_reachable [OF assms(1,2)] assms(3) by (simp add: alive_def)

text \<open>C7. No interrupt stops the kernel: in every reachable state, on a board whose registers are laid out
  as documented, and whatever interrupts are pending and whatever the devices report, \<open>handle_interrupt\<close> ends by loading a
  state, without panic, bad pointer or endless loop, and the result is again such a state, as long as no priority
  overflows and no operation of the terminal of the messages lasts for ever, whatever its result: the status may be ready, busy
  any number of times, transmitted or an error.\<close>

theorem interrupts_handled:
  assumes "booted w ly s0" and "(exec w ly)\<^sup>*\<^sup>* s0 s" and "documented w" and "console w (bus s)"
    and "\<And>p. prio s p < 2147483647"
  shows "ok (handle_interrupt w s) (\<lambda>(st, t). (exec w ly)\<^sup>*\<^sup>* s0 t \<and> console w (bus t))"
  using handle_interrupt_runs [OF reachable_alive [OF assms(1,2,4)] assms(3,5), of ly] assms(2)
  by (auto elim!: ok_mono simp: alive_def)

lemma interrupts_handled_witness:
  "ok (handle_interrupt example_board example_start) (\<lambda>(st, t).
    (exec example_board example_layout)\<^sup>*\<^sup>* example_start t)"
proof -
  have "prio example_start p < 2147483647" for p
    by (simp add: example_prio a_prio_def example_priorities)
  then show ?thesis
    using interrupts_handled [OF booted_example rtranclp.rtrancl_refl example_console(2,1)]
    by (auto elim!: ok_mono)
qed

text \<open>C9. No fault of a process stops the kernel: in every reachable state the handlers of TLB misses and
  program traps end by loading a state, whether the process has declared areas for the fault or is
  terminated, when the processes that are terminated are not served by a device (\<open>fault_guard\<close>). Nothing is asked of the
  devices: the handlers do not use the terminal.\<close>

theorem faults_handled:
  assumes "booted w ly s0" and "(exec w ly)\<^sup>*\<^sup>* s0 s"
    and "(ty, handler) \<in> {(TLB, handle_TLB), (PRG, handle_trap)}" and "fault_guard w ty s"
  shows "ok (handler w s) (\<lambda>(st, t). (exec w ly)\<^sup>*\<^sup>* s0 t \<and> terminals (bus t) = terminals (bus s))"
proof -
  note s = kernel.inv_reachable [OF assms(1,2)]
  have h: "handler w s = handle_passup w ty s" using assms(3) by (auto simp: handle_TLB_def handle_trap_def)
  have "ok (handle_passup w ty s) (\<lambda>(st, t). steady w s t)"
    by (rule handle_passup_runs [OF s assms(4)]) (use assms(3) in auto)
  then obtain st t where t: "handler w s = Inr (st, t)" "steady w s t" by (auto simp: ok_iff h)
  obtain s1 where s1: "start_handler w s = Inr s1" by (rule start_handler_runs [OF s])
  have "exec w ly s t"
    using assms(3) t(1) exec.TLB_miss [OF s1] exec.Trap [OF s1] fault_guard_start [OF s s1 assms(4)] by auto
  then show ?thesis using assms(2) t by (auto simp: steady_def)
qed

lemma example_expendable: "expendable example_board example_start (Pcb 1)"
  using example_repr by (auto simp: expendable_def example_live example_all_procs intro!: exI [of _ example_sched])

lemma faults_handled_witness:
  "ok (handle_trap example_board example_start) (\<lambda>(st, t).
    (exec example_board example_layout)\<^sup>*\<^sup>* example_start t)"
proof -
  have "fault_guard example_board PRG example_start"
    using example_expendable by (simp add: fault_guard_def example_tables(4))
  from faults_handled [OF booted_example rtranclp.rtrancl_refl _ this, of handle_trap]
  show ?thesis by (auto elim!: ok_mono)
qed

text \<open>C8. No well-formed system call stops the kernel: when a process, not the idle one, makes a call of a service with
  pointers, a process, a device or an exception type that exist (\<open>call_valid\<close>), or one with an unknown
  number, \<open>handle_sysbreak\<close> ends by loading a state. The calls are within the kernel's contract, \<open>call_guard\<close>: a process that may be
  killed by the call (the target of TERMINATEPROCESS, the caller of SPECPASSUP, the caller of an unknown call without areas) exists
  and neither it nor its offspring is served by a device, and a caller of WAITIO on a busy device has no greater
  priority than the process that the device serves. Nothing is asked of the terminal.\<close>

theorem syscalls_handled:
  assumes "booted w ly s0" and "(exec w ly)\<^sup>*\<^sup>* s0 s"
    and "get_exccode (hw.truncate w) (area s OLD SYS) = E_SYS" and "call_guard w ly s"
    and "SYSCALL_N (area s OLD SYS) \<le> SYSTEM_SYSCALL_MAX \<Longrightarrow> call_valid w ly (area s OLD SYS)"
  shows "ok (handle_sysbreak w ly s) (\<lambda>(st, t). (exec w ly)\<^sup>*\<^sup>* s0 t \<and> terminals (bus t) = terminals (bus s))"
proof -
  note s = kernel.inv_reachable [OF assms(1,2)]
  obtain st t where t: "handle_sysbreak w ly s = Inr (st, t)" "steady w s t"
    using handle_sysbreak_runs [OF s assms(3-5)] by (auto simp: ok_iff)
  obtain s1 where s1: "start_handler w s = Inr s1" by (rule start_handler_runs [OF s])
  have "exec w ly s t" by (rule exec.Syscall [OF s1 call_guard_start [OF s s1 assms(4)] t(1)])
  then show ?thesis using assms(2) t by (auto simp: steady_def)
qed

lemma syscalls_handled_witness:
  "ok (handle_sysbreak example_board example_layout (example_trap 8)) (\<lambda>(st, t).
    (exec example_board example_layout)\<^sup>*\<^sup>* example_start t)"
proof -
  have "(exec example_board example_layout)\<^sup>*\<^sup>* example_start (example_trap 8)"
    by (rule r_into_rtranclp)
      (use exec.User [where s = example_start and f = "user_word example_start" and
        g = "user_state example_start" and h = "area (example_trap 8)"] in \<open>simp add: example_trap_def\<close>)
  moreover have "call_guard example_board example_layout (example_trap 8)"
    by (simp add: call_guard_def Let_def example_trap_def syscall_numbers example_tables(4))
  moreover have "call_valid example_board example_layout (area (example_trap 8) OLD SYS)"
    by (simp add: call_valid_def Let_def example_trap_def syscall_numbers)
  moreover have "get_exccode (hw.truncate example_board) (area (example_trap 8) OLD SYS) = E_SYS"
    by (simp add: example_trap_def mps_get_exccode_def example_board_def hw.truncate_def)
  ultimately show ?thesis
    using syscalls_handled [OF booted_example, of "example_trap 8"] by (auto elim!: ok_mono)
qed

section \<open>Faults\<close>

text \<open>The running process is terminated, with its offspring \<open>D\<close>.\<close>

lemma kill_running:
  assumes r: "repr s a" and wf: "sched_wf a" and run: "running a \<noteq> Idle_proc"
    and D: "D = (child_rel a)\<^sup>* `` {running a}" and dev: "\<And>q. q \<in> D \<Longrightarrow> dev_w_list (tcb a q) = None"
    and rd: "rd = filter (\<lambda>x. x \<notin> D) (ready a)"
  obtains t b where "terminate_proc (Some (running a)) s = Inr (0, t)" "rest_same s t" "repr t b" "sched_wf b"
    "set (free b) = D \<union> set (free a)" "running b = (case rd of [] \<Rightarrow> Idle_proc | x # _ \<Rightarrow> x)" "ready b = tl rd"
    "\<forall>k. wait b k = filter (\<lambda>x. x \<notin> D) (wait a k)" "running a \<noteq> running b"
proof -
  have p: "running a \<in> live a" "running a \<in> all_procs"
    using wf run by (auto simp: live_def sched_wf_def core_def placed_def)
  have "tree_ok a" using wf by (simp add: sched_wf_def core_def)
  then obtain xs where xs: "offspring a (running a) xs" using offspring_exists by blast
  have set: "set xs = D" using offspring_set [OF xs] by (simp add: D)
  have dist: "distinct xs"
    by (rule offspring_distinct [of s, OF _ \<open>tree_ok a\<close> xs]) (use r in \<open>simp add: repr_def\<close>)
  obtain t b where t: "terminate_proc (Some (running a)) s = Inr (0, t)" "rest_same s t" "repr t b"
      and b: "terminated xs a b"
    using terminate_refines [OF r wf p xs, of "Some (running a)"] by (auto simp: ok_iff)
  have wfb: "sched_wf b" by (rule sched_wf_terminated [OF wf p xs dist b]) (use dev set in blast)
  have mem: "running a \<in> D" by (auto simp: D)
  have rb: "running b = (case rd of [] \<Rightarrow> Idle_proc | x # _ \<Rightarrow> x)" "ready b = tl rd"
      "set (free b) = D \<union> set (free a)" "\<forall>k. wait b k = filter (\<lambda>x. x \<notin> D) (wait a k)"
    using b mem by (auto simp: terminated_def Let_def set rd)
  have "set rd \<inter> D = {}" by (auto simp: rd)
  then have ne: "running a \<noteq> running b" using rb(1) mem run by (cases rd) auto
  show ?thesis by (rule that [OF t wfb rb(3,1,2,4) ne])
qed

text \<open>The end of a handler after which another process runs.\<close>

lemma conclude_switch_wf:
  assumes "repr t b" and wf: "sched_wf b" and "interrupted_proc t = Some p" and ne: "p \<noteq> running b" "p \<noteq> Idle_proc"
  shows "ok (conclude_handler w ty t) (\<lambda>(st, u). \<exists>c. repr u c \<and> sched_wf c \<and> free c = free b \<and> running c = running b \<and>
    ready c = ready b \<and> wait c = wait b \<and> st = p_s (pcbs u (running c)))"
proof (rule ok_mono [OF conclude_handler_switch [OF assms(1,3) ne]], clarify)
  fix u g
  let ?set = "\<lambda>c. c\<lparr>p_s := area t OLD ty\<rparr>"
  let ?c = "upd_tcb p ?set (upd_tcb (running b) g b)"
  assume g: "quiet g" "\<forall>c. p_s (g c) = p_s c" and u: "repr u ?c"
  have "quiet ?set" by (simp add: quiet_def)
  from quiet_upd(2) [OF this quiet_upd(2) [OF g(1) wf]] have "sched_wf ?c" .
  moreover have "p_s (pcbs u (running b)) = p_s (tcb b (running b))"
    using u g(2) ne by (simp add: repr_def upd_tcb_def)
  ultimately show "\<exists>c. repr u c \<and> sched_wf c \<and> free c = free b \<and> running c = running b \<and>
      ready c = ready b \<and> wait c = wait b \<and> p_s (tcb b (running b)) = p_s (pcbs u (running c))"
    using u by (intro exI [of _ ?c]) simp
qed

text \<open>C11. An unhandled fault: when a process without areas for the fault causes a TLB miss or a program
  trap, and neither it nor one of its offspring, the set \<open>D\<close>, is served by a device (\<open>dev\<close>: none has a device in
  \<open>dev_w_list\<close>), they all become free and leave every queue, the first ready survivor
  runs, the idle process when there is none, and its saved state is the one that is loaded. A process that a
  device serves is left out because the code frees it without telling the device's waiting list, which
  then names a free PCB.\<close>

theorem unhandled_fault_terminates:
  fixes s :: machine
  assumes r: "repr s a" and wf: "sched_wf a" and run: "running a \<noteq> Idle_proc"
    and dev: "\<And>q. q \<in> (child_rel a)\<^sup>* `` {running a} \<Longrightarrow> dev_w_list (tcb a q) = None"
    and h: "(ty, handler) \<in> {(TLB, handle_TLB), (PRG, handle_trap)}"
    and unset: "is_passup_set ty (running a) s = Inr False"
  shows "let D = (child_rel a)\<^sup>* `` {running a}; survivors = filter (\<lambda>x. x \<notin> D) (ready a) in
    ok (handler w s) (\<lambda>(st, t). \<exists>b. repr t b \<and> sched_wf b \<and> set (free b) = D \<union> set (free a) \<and>
      running b = (case survivors of [] \<Rightarrow> Idle_proc | x # _ \<Rightarrow> x) \<and> ready b = tl survivors \<and>
      (\<forall>k. wait b k = filter (\<lambda>x. x \<notin> D) (wait a k)) \<and> st = p_s (pcbs t (running b)))"
proof -
  define D where "D = (child_rel a)\<^sup>* `` {running a}"
  let ?rd = "filter (\<lambda>x. x \<notin> D) (ready a)"
  obtain s1 f where s1: "start_handler w s = Inr s1" "quiet f" "repr s1 (upd_tcb (running a) f a)"
      "interrupted_proc s1 = Some (running a)"
    by (rule start_handler_refines [OF r])
  let ?a = "upd_tcb (running a) f a"
  note q = quiet_upd [OF s1(2)]
  have devs: "dev_w_list (tcb ?a x) = None" if "x \<in> D" for x using dev that unfolding q(5) D_def .
  obtain t b where t: "terminate_proc (Some (running a)) s1 = Inr (0, t)" "rest_same s1 t" "repr t b" "sched_wf b"
      and b: "set (free b) = D \<union> set (free a)" "running b = (case ?rd of [] \<Rightarrow> Idle_proc | x # _ \<Rightarrow> x)" "ready b = tl ?rd"
        "\<forall>k. wait b k = filter (\<lambda>x. x \<notin> D) (wait a k)" "running a \<noteq> running b"
    by (rule kill_running [OF s1(3) q(2) [OF wf], of D ?rd]) (use run devs in \<open>simp_all add: q(4) D_def [symmetric]\<close>)
  have ip: "interrupted_proc t = Some (running a)"
    using t(2) s1(4) interrupted_more [of t s1] by (simp add: rest_same_def)
  have "spec_areas (pcbs s1 x) = spec_areas (pcbs s x)" for x
    using s1(2,3) r by (simp add: repr_def upd_tcb_def quiet_def)
  then have unset1: "is_passup_set ty (running a) s1 = Inr False"
    using unset by (simp only: is_passup_set_def get_spec_area_def)
  have "handler w s = conclude_handler w ty t"
    using h unset1 t(1) s1(1) repr_running [OF s1(3)]
    by (auto simp: handle_TLB_def handle_trap_def handle_passup_def)
  moreover have "ok (conclude_handler w ty t) (\<lambda>(st, u). \<exists>c. repr u c \<and> sched_wf c \<and>
      set (free c) = D \<union> set (free a) \<and> running c = (case ?rd of [] \<Rightarrow> Idle_proc | x # _ \<Rightarrow> x) \<and>
      ready c = tl ?rd \<and> (\<forall>k. wait c k = filter (\<lambda>x. x \<notin> D) (wait a k)) \<and> st = p_s (pcbs u (running c)))"
    by (rule ok_mono [OF conclude_switch_wf [OF t(3,4) ip b(5) run]]) (use b(1-4) in auto)
  ultimately show ?thesis by (simp add: Let_def D_def)
qed

lemma unhandled_fault_terminates_witness:
  "ok (handle_trap example_board example_start) (\<lambda>(st, t). running_proc t = Some (Pcb 0) \<and> st = p_s (pcbs t (Pcb 0)))"
proof -
  have D: "child_rel example_sched = {}" by (simp add: child_rel_def)
  have "is_passup_set PRG (Pcb 1) example_start = Inr False"
    using example_spec_areas by (simp add: is_passup_set_def get_spec_area_def example_tables(3))
  then show ?thesis
    using unhandled_fault_terminates [OF example_repr(1,2), where ty = PRG and handler = handle_trap and w = example_board]
    by (auto elim!: ok_mono simp: repr_running D Let_def)
qed

end
