(* ===== verification/Context_Properties.thy ===== *)
theory Context_Properties
  imports Context_Switch Run_Properties
begin

text \<open>
  The properties of context switches: a process that loses the processor gets back its registers, whatever
  the kernel and the other processes do in between, the kernel writes into no memory that the processes have
  not handed to it and charges each for the time it uses.
\<close>

text \<open>C5. The kernel is transparent to the processes: when an exception of type \<open>ty\<close> takes the processor from the process \<open>p\<close>,
  it runs again, when it does, with the registers it had then, all but the one in which a system
  call returns a value (and the program counter adjusted by the handler on entry), whatever exceptions, system calls of
  other processes and device interrupts there are in between, as long as it is not terminated.\<close>

theorem preempted_resumes:
  assumes "booted w ly s0" and "(exec w ly)\<^sup>*\<^sup>* s0 s"
    and p: "running_proc s = Some p" "p \<noteq> Idle_proc"
    and leave: "handler_guard w ly ty s" "handler w ly ty s = Inr (st, t)" "running_proc t \<noteq> Some p" "allocated t p"
    and "(sleeps w ly p)\<^sup>*\<^sup>* t u"
    and enter: "handler_guard w ly ty' u" "handler w ly ty' u = Inr (st', v)" "running_proc v = Some p"
  shows "context_of st' = context_of (entry_state w ty (area s OLD ty))"
proof -
  have s: "kinv w s" by (rule kernel.inv_reachable [OF assms(1,2)])
  have t: "kinv w t" by (rule kinv_exec [OF s handler_exec [OF leave(1,2)]])
  note u = sleeps_keeps [OF assms(9) t leave(3,4)]
  show ?thesis
    using handler_loads [OF _ enter p(2)] handler_saves [OF s leave(1,2) p leave(3)] u by simp
qed


text \<open>An example: the process 1 creates a process of higher priority, which runs at once and faults.\<close>

definition example_call :: machine where
  "example_call =
     example_start\<lparr>area := (\<lambda>_ _. Umps (mps_zero\<lparr>mps_cause := 32,
       mps_gpr := (\<lambda>_. 0)(reg_a0 := 2, reg_a1 := 64, reg_a2 := 3)\<rparr>))\<rparr>"

lemma example_call_regs:
  "SYSCALL_N (area example_call OLD SYS) = CREATEPROCESS" "SYSCALL_ARG1 (area example_call OLD SYS) = 64"
  "SYSCALL_ARG2 (area example_call OLD SYS) = 3" "SYSCALL_ARG3 (area example_call OLD SYS) = 0"
  "get_exccode (hw.truncate example_board) (area example_call OLD SYS) = E_SYS"
  by (simp_all add: example_call_def syscall_numbers mps_get_exccode_def example_board_def hw.truncate_def)

lemma example_call_repr: "repr example_call example_sched"
  using example_repr(1) by (subst repr_same [of _ example_start]) (simp_all add: example_call_def)

lemma example_call_reached: "(exec example_board example_layout)\<^sup>*\<^sup>* example_start example_call"
  by (rule r_into_rtranclp)
    (use exec.User [where s = example_start and f = "user_word example_start" and g = "user_state example_start" and
      h = "area example_call"] in \<open>simp add: example_call_def\<close>)

lemma example_call_alive: "kinv example_board example_call"
  by (rule kernel.inv_reachable [OF booted_example example_call_reached])

lemma example_call_guard:
  "call_guard example_board example_layout example_call" "handler_guard example_board example_layout SYS example_call"
proof -
  show g: "call_guard example_board example_layout example_call"
    using example_call_regs by (simp add: call_guard_def Let_def syscall_numbers) (simp add: example_call_def example_tables(4))
  show "handler_guard example_board example_layout SYS example_call"
    using call_guard_start [OF example_call_alive _ g] by (simp add: handler_guard_def)
qed

lemma example_call_create:
  fixes x :: state_t
  assumes f: "quiet f"
  defines "b \<equiv> a_create x 3 (upd_tcb (Pcb 1) f example_sched)"
  shows "running b = Pcb 2" "ready b = [Pcb 1, Pcb 0]" "kids b = (\<lambda>_. [])(Pcb 1 := [Pcb 2])"
    "free b = map Pcb [3, 4, 5, 6, 7, 8, 9, 10, 11, 12, 13, 14, 15, 16, 17, 18, 19]"
    "spec_areas (tcb b (Pcb 2)) = (\<lambda>_. None)"
  using f unfolding b_def
  by (simp_all add: a_create_def a_schedule_def a_stop_def a_requeue_def a_prio_def fresh_pcb_def quiet_def fun_eq_iff)

lemma example_call_switches:
  "ok (handler example_board example_layout SYS example_call) (\<lambda>(st, t).
    \<exists>b. repr t b \<and> sched_wf b \<and> running b = Pcb 2 \<and> ready b = [Pcb 1, Pcb 0] \<and> kids b = (\<lambda>_. [])(Pcb 1 := [Pcb 2]) \<and>
      free b = map Pcb [3, 4, 5, 6, 7, 8, 9, 10, 11, 12, 13, 14, 15, 16, 17, 18, 19] \<and>
      spec_areas (tcb b (Pcb 2)) = (\<lambda>_. None))"
proof -
  let ?w = example_board and ?ly = example_layout
  obtain s1 f where s1: "start_handler ?w example_call = Inr s1" and f: "quiet f"
      and r1: "repr s1 (upd_tcb (Pcb 1) f example_sched)" and i1: "interrupted_proc s1 = Some (Pcb 1)"
      and a1: "area s1 = area example_call"
    by (rule start_handler_refines [OF example_call_repr, of ?w]) simp
  let ?a1 = "upd_tcb (Pcb 1) f example_sched"
  define s2 where "s2 = set_area OLD SYS (skip_instr ?w (area s1 OLD SYS)) s1"
  have s2: "repr s2 ?a1" "interrupted_proc s2 = Some (Pcb 1)" "area s2 OLD SYS = skip_instr ?w (area example_call OLD SYS)"
    using r1 i1 a1 by (auto simp: s2_def set_area_def intro: repr_machine)
  have wf1: "sched_wf ?a1" by (rule quiet_upd(2) [OF f example_repr(2)])
  define x where "x = user_state s2 64"
  let ?b = "a_create x 3 ?a1"
  note b = example_call_create [OF f, of x]
  have wfb: "sched_wf ?b" by (rule sched_wf_create [OF wf1])
  obtain t where t: "create_process ?ly 64 3 0 s2 = Inr (0, t)" "repr t ?b" "rest_same s2 t"
    using create_refines [OF s2(1) wf1, of "Pcb 2" _ 64 ?ly 3 0] by (auto simp: ok_iff x_def)
  define t3 where "t3 = set_area OLD SYS (set_SYSCALL_RET_REG 0 (area t OLD SYS)) t"
  have t3: "repr t3 ?b" "interrupted_proc t3 = Some (Pcb 1)"
    using t(2,3) s2(2) interrupted_more [of t s2] by (auto simp: t3_def set_area_def rest_same_def intro: repr_machine)
  have call: "consume_syscall ?w ?ly (Pcb 1) s2 = Inr t3"
    using t(1) example_call_regs by (simp add: consume_syscall_def Let_def s2(3) syscall_numbers return_value_def t3_def)
  have other: "Pcb 1 \<noteq> running ?b" "Pcb 1 \<noteq> Idle_proc" unfolding b by simp_all
  have "handler ?w ?ly SYS example_call = conclude_handler ?w SYS t3"
    using example_call_regs(1,5) s1 call
    by (simp add: handler_def handle_sysbreak_def Let_def s2_def [symmetric] s2 syscall_numbers)
  moreover have "ok (conclude_handler ?w SYS t3) (\<lambda>(st, t).
    \<exists>b. repr t b \<and> sched_wf b \<and> running b = Pcb 2 \<and> ready b = [Pcb 1, Pcb 0] \<and> kids b = (\<lambda>_. [])(Pcb 1 := [Pcb 2]) \<and>
      free b = map Pcb [3, 4, 5, 6, 7, 8, 9, 10, 11, 12, 13, 14, 15, 16, 17, 18, 19] \<and>
      spec_areas (tcb b (Pcb 2)) = (\<lambda>_. None))"
  proof (rule ok_mono [OF conclude_handler_switch [OF t3 other]], clarify)
    fix u g
    let ?set = "\<lambda>c. c\<lparr>p_s := area t3 OLD SYS\<rparr>"
    let ?c = "upd_tcb (Pcb 1) ?set (upd_tcb (running ?b) g ?b)"
    assume g: "quiet g" and u: "repr u ?c"
    have "quiet ?set" by (simp add: quiet_def)
    from quiet_upd(2) [OF this quiet_upd(2) [OF g wfb]] have "sched_wf ?c" .
    then show "\<exists>c. repr u c \<and> sched_wf c \<and> running c = Pcb 2 \<and> ready c = [Pcb 1, Pcb 0] \<and> kids c = (\<lambda>_. [])(Pcb 1 := [Pcb 2]) \<and>
      free c = map Pcb [3, 4, 5, 6, 7, 8, 9, 10, 11, 12, 13, 14, 15, 16, 17, 18, 19] \<and>
      spec_areas (tcb c (Pcb 2)) = (\<lambda>_. None)"
      using u b g by (intro exI [of _ ?c]) (simp add: quiet_def)
  qed
  ultimately show ?thesis by simp
qed

lemma preempted_resumes_witness:
  "\<exists>st t st' v. handler example_board example_layout SYS example_call = Inr (st, t) \<and> running_proc t = Some (Pcb 2) \<and>
    handler example_board example_layout PRG t = Inr (st', v) \<and> running_proc v = Some (Pcb 1) \<and>
    context_of st' = context_of (entry_state example_board SYS (area example_call OLD SYS))"
proof -
  let ?w = example_board and ?ly = example_layout
  obtain st t b where t: "handler ?w ?ly SYS example_call = Inr (st, t)" "repr t b" "sched_wf b" and
      b: "running b = Pcb 2" "ready b = [Pcb 1, Pcb 0]" "kids b = (\<lambda>_. [])(Pcb 1 := [Pcb 2])"
      "free b = map Pcb [3, 4, 5, 6, 7, 8, 9, 10, 11, 12, 13, 14, 15, 16, 17, 18, 19]"
      "spec_areas (tcb b (Pcb 2)) = (\<lambda>_. None)"
    using example_call_switches by (auto simp: ok_iff)
  have D: "(child_rel b)\<^sup>* `` {Pcb 2} = {Pcb 2}"
    by (auto simp: child_rel_def b elim: converse_rtranclE)
  have dev: "dev_w_list (tcb b (Pcb 2)) = None" using running_no_device [OF t(3)] b(1) by simp
  have pass: "is_passup_set PRG (running b) t = Inr False"
    using b t(2) by (simp add: is_passup_set_def get_spec_area_def repr_def)
  have "ok (handle_trap ?w t) (\<lambda>(st, v). \<exists>c. repr v c \<and> running c = Pcb 1)"
    using unhandled_fault_terminates [OF t(2,3) _ _ _ pass, of handle_trap ?w] D dev b
    by (auto simp: Let_def elim!: ok_mono)
  then obtain st' v c where v: "handle_trap ?w t = Inr (st', v)" "repr v c" "running c = Pcb 1"
    by (auto simp: ok_iff)
  have rt: "running_proc t = Some (Pcb 2)" "running_proc v = Some (Pcb 1)" using repr_running t(2) v(2,3) b(1) by fastforce+
  have alive: "kinv ?w t"
    using handle_sysbreak_runs [OF example_call_alive example_call_regs(5) example_call_guard(1)] t(1)
    by (auto simp: handler_def call_valid_def Let_def example_call_regs syscall_numbers steady_def)
  then obtain a where a: "repr t a" "dev_inv ?w t a" by (auto elim: kinvE)
  note same = repr_unique [OF a(1) t(2)]
  have "dev_inv ?w t b" by (rule dev_inv_cong [OF a(2)]) (simp_all add: same)
  moreover have "Pcb 2 \<in> live b" "Pcb 2 \<in> all_procs" by (auto simp: live_def b all_procs_def MAXPROC_def)
  ultimately have "expendable ?w t (Pcb 2)"
    unfolding expendable_def using t(2,3) D dev by (intro exI [of _ b] conjI ballI) simp_all
  then have "fault_guard ?w PRG t" using rt(1) by (simp add: fault_guard_def)
  then have g: "handler_guard ?w ?ly PRG t" using fault_guard_start [OF alive] by (simp add: handler_guard_def)
  have "allocated t (Pcb 1)" by (simp add: allocated_iff [OF t(2)] live_def b(4) all_procs_def MAXPROC_def)
  then have "context_of st' = context_of (entry_state ?w SYS (area example_call OLD SYS))"
    using preempted_resumes [OF booted_example example_call_reached _ _ example_call_guard(2) t(1) _ _ rtranclp.rtrancl_refl g, of "Pcb 1" st' v]
      v(1) rt by (simp add: handler_def example_call_def example_tables(4))
  then show ?thesis using t(1) v(1) rt by (auto simp: handler_def)
qed

section \<open>Memory\<close>

text \<open>C6. The kernel respects the memory of the processes: from a reachable state, a handler writes only the words whose addresses the
  interrupted process itself passes to a system call that stores a result or counts a semaphore, and it stores
  a processor state only in the old area that this process has declared for the exception.\<close>

theorem memory_confined:
  assumes "booted w ly s0" and "(exec w ly)\<^sup>*\<^sup>* s0 s"
    and "handler_guard w ly ty s" and "handler w ly ty s = Inr (st, t)"
  shows "(\<forall>a. a \<notin> asked_writes w ty (area s OLD ty) \<longrightarrow> user_word t a = user_word s a) \<and>
    (\<forall>a. declared_area OLD ty s \<noteq> Some a \<longrightarrow> user_state t a = user_state s a)"
  using handler_memory [OF kernel.inv_reachable [OF assms(1,2)] assms(3,4)] by blast

lemma memory_confined_witness:
  "ok (handler example_board example_layout SYS example_call) (\<lambda>(st, t). running_proc t = Some (Pcb 2) \<and>
    user_word t = user_word example_call \<and> user_state t = user_state example_call)"
proof -
  obtain st t b where t: "handler example_board example_layout SYS example_call = Inr (st, t)" "repr t b" "running b = Pcb 2"
    using example_call_switches by (auto simp: ok_iff)
  have "asked_writes example_board SYS (area example_call OLD SYS) = {}"
    using example_call_regs by (simp add: asked_writes_def call_writes_def syscall_numbers)
  moreover have "declared_area OLD SYS example_call = None"
    by (simp add: declared_area_def example_call_def example_tables(3,4) example_spec_areas)
  ultimately show ?thesis
    using memory_confined [OF booted_example example_call_reached example_call_guard(2) t(1)] t(1) repr_running [OF t(2)] t(3)
    by (simp add: fun_eq_iff)
qed

section \<open>Accounts\<close>

text \<open>C10. Processor time is accounted to the process that uses it. A handler adds to the user time of the interrupted process exactly the
  time from the reading of the clock that the process has on record to its entry, and to its kernel time exactly the
  time from its entry to the next reading it records for it, if any. The process that runs when the handler ends, the interrupted one or another,
  gets on record the clock as the handler reads it at its very end, so that the next entry charges it for
  exactly the time in between; nothing else is added to any process, also when it is woken or
  gets the processor. The exceptions are a TLB miss, a program trap and a breakpoint that are passed up: there the entry stays on
  record, and the time of the handler will count as user time.\<close>

theorem times_charged:
  assumes "booted w ly s0" and "(exec w ly)\<^sup>*\<^sup>* s0 s"
    and "handler_guard w ly ty s" and "handler w ly ty s = Inr (st, t)"
    and "allocated s p" "allocated t p"
  shows "(if running_proc s = Some p
      then user_timer (pcbs t p) = user_timer (pcbs s p) + (entry_tod w s - tod_cache (pcbs s p)) \<and>
        kernel_timer (pcbs t p) - kernel_timer (pcbs s p) = tod_cache (pcbs t p) - entry_tod w s
      else user_timer (pcbs t p) = user_timer (pcbs s p) \<and> kernel_timer (pcbs t p) = kernel_timer (pcbs s p)) \<and>
    (if running_proc t = Some p
      then tod_cache (pcbs t p) = (if uncharged w ty s then entry_tod w s else exit_tod w s t)
      else running_proc s \<noteq> Some p \<longrightarrow> tod_cache (pcbs t p) = tod_cache (pcbs s p))"
proof -
  note s = kernel.inv_reachable [OF assms(1,2)]
  show ?thesis
    using handler_accounts [OF s assms(3-6)] handler_clock [OF s assms(3,4), of p] handler_clock_other [OF s assms(3-6)]
    by (simp only: if_split) blast
qed

lemma times_charged_witness:
  "ok (handler example_board example_layout SYS example_call) (\<lambda>(st, t). running_proc t = Some (Pcb 2) \<and>
    user_timer (pcbs t (Pcb 1)) =
      user_timer (pcbs example_call (Pcb 1)) + (entry_tod example_board example_call - tod_cache (pcbs example_call (Pcb 1))) \<and>
    kernel_timer (pcbs t (Pcb 1)) - kernel_timer (pcbs example_call (Pcb 1)) =
      tod_cache (pcbs t (Pcb 1)) - entry_tod example_board example_call \<and>
    user_timer (pcbs t (Pcb 0)) = user_timer (pcbs example_call (Pcb 0)) \<and>
    tod_cache (pcbs t (Pcb 0)) = tod_cache (pcbs example_call (Pcb 0)))"
proof -
  obtain st t b where t: "handler example_board example_layout SYS example_call = Inr (st, t)" "repr t b" "running b = Pcb 2"
      and free: "free b = map Pcb [3, 4, 5, 6, 7, 8, 9, 10, 11, 12, 13, 14, 15, 16, 17, 18, 19]"
    using example_call_switches by (auto simp: ok_iff)
  have "allocated t (Pcb 0)" "allocated t (Pcb 1)"
    by (simp_all add: allocated_iff [OF t(2)] live_def free all_procs_def MAXPROC_def)
  moreover have "allocated example_call (Pcb 0)" "allocated example_call (Pcb 1)"
    by (simp_all add: allocated_iff [OF example_call_repr] example_live)
  moreover have "running_proc example_call = Some (Pcb 1)" by (simp add: example_call_def example_tables(4))
  moreover have "running_proc t = Some (Pcb 2)" using repr_running [OF t(2)] t(3) by simp
  ultimately show ?thesis
    using times_charged [OF booted_example example_call_reached example_call_guard(2) t(1), of "Pcb 0"]
      times_charged [OF booted_example example_call_reached example_call_guard(2) t(1), of "Pcb 1"] t(1)
    by simp
qed

end
