(* ===== verification/Kernel_Refinement.thy ===== *)
theory Kernel_Refinement
  imports Abstract_Kernel Context_Properties
begin

text \<open>
  The properties of the refinement: the running system does only what the specification \<open>Abstract_Kernel\<close> allows, and
  one consequence that is proved over the specification alone.
\<close>

text \<open>C3. Every exception handler implements the specification: in a state that represents a state \<open>k\<close> of it, what
  the handler of an exception does is what \<open>a_exception\<close> says of the registers with which it was entered. An interrupt
  ends the time slice when the timer has expired and serves exactly the devices that the hardware shows to be pending
  while it is handled, in the order of their lines and numbers; a system call does the one thing that its rule of \<open>a_call\<close>
  says; other exceptions are stored into the declared area or end the process and its descendants.\<close>

theorem handlers_refine:
  assumes "represents w s k" and "handler_guard w ly ty s" and "handler w ly ty s = Inr (st, t)"
  shows "\<exists>k'. a_exception w ly ty (area s OLD ty) k k' \<and> represents w t k'"
  by (rule handler_refines [OF assms])

lemma example_represents:
  "represents example_board example_call
    \<lparr>sch = example_sched, words = user_word example_call, states = user_state example_call, clock = now (bus example_call)\<rparr>"
  using kernel.inv_reachable [OF booted_example example_call_reached] example_call_repr by (simp add: represents_def rep_def)

text \<open>The example's call creates a process, which the specification then runs.\<close>

lemma handlers_refine_witness:
  "\<exists>st t k'. handler example_board example_layout SYS example_call = Inr (st, t) \<and>
    a_exception example_board example_layout SYS (area example_call OLD SYS)
      \<lparr>sch = example_sched, words = user_word example_call, states = user_state example_call, clock = now (bus example_call)\<rparr> k' \<and>
    represents example_board t k' \<and> running (sch k') = Pcb 2 \<and> ready (sch k') = [Pcb 1, Pcb 0]"
proof -
  obtain st t b where t: "handler example_board example_layout SYS example_call = Inr (st, t)"
      and b: "repr t b" "running b = Pcb 2" "ready b = [Pcb 1, Pcb 0]"
    using example_call_switches by (auto simp: ok_iff)
  obtain k' where k: "a_exception example_board example_layout SYS (area example_call OLD SYS)
      \<lparr>sch = example_sched, words = user_word example_call, states = user_state example_call, clock = now (bus example_call)\<rparr> k'"
    "represents example_board t k'"
    using handlers_refine [OF example_represents example_call_guard(2) t] by blast
  have "repr t (sch k')" using k(2) by (simp add: represents_def rep_def)
  from repr_unique(2,4) [OF b(1) this] have "running (sch k') = Pcb 2" "ready (sch k') = [Pcb 1, Pcb 0]" by (simp_all add: b)
  with t k show ?thesis by blast
qed

text \<open>C2. The whole system refines its specification: the state in which \<open>bikaya_launch\<close> ends represents a state of the
  specification, and for every run of the processes and of the exception handlers from there the specification has a run
  from each state represented at the start to one that is represented at the end.\<close>

theorem kernel_refines:
  assumes "booted w ly s0" and "(exec w ly)\<^sup>*\<^sup>* s0 s"
  shows "(\<exists>k0. represents w s0 k0) \<and>
    (\<forall>k0. represents w s0 k0 \<longrightarrow> (\<exists>k. (a_step w ly)\<^sup>*\<^sup>* k0 k \<and> represents w s k))"
proof -
  obtain k0 where "represents w s0 k0" using kinv_represents [OF kernel.inv_initial [OF assms(1)]] by blast
  then show ?thesis using bikaya.simulates_runs [OF assms(2)] by blast
qed

lemma kernel_refines_witness:
  "\<exists>st t. handler example_board example_layout SYS example_call = Inr (st, t) \<and>
    (\<exists>k0 k. represents example_board example_start k0 \<and> (a_step example_board example_layout)\<^sup>*\<^sup>* k0 k \<and>
      represents example_board t k \<and> running (sch k) = Pcb 2)"
proof -
  obtain st t b where t: "handler example_board example_layout SYS example_call = Inr (st, t)"
      and b: "repr t b" "running b = Pcb 2"
    using example_call_switches by (auto simp: ok_iff)
  have "(exec example_board example_layout)\<^sup>*\<^sup>* example_start t"
    using example_call_reached handler_exec [OF example_call_guard(2) t] by (rule rtranclp.rtrancl_into_rtrancl)
  from kernel_refines [OF booted_example this] obtain k0 k where
    k: "represents example_board example_start k0" "(a_step example_board example_layout)\<^sup>*\<^sup>* k0 k" "represents example_board t k"
    by blast
  have "repr t (sch k)" using k(3) by (simp add: represents_def rep_def)
  from repr_unique(4) [OF b(1) this] have "running (sch k) = Pcb 2" by (simp add: b)
  with t k show ?thesis by blast
qed

section \<open>Declared areas\<close>

text \<open>No operation of the specification takes back an area that a process has declared, while the process exists.\<close>

definition areas_stay :: "pcb \<Rightarrow> sched \<Rightarrow> sched \<Rightarrow> bool" where
  "areas_stay p a b \<longleftrightarrow> p \<in> live a \<longrightarrow> p \<in> live b \<longrightarrow> spec_areas (tcb a p) \<subseteq>\<^sub>m spec_areas (tcb b p)"

lemma areas_stay_kept: "spec_areas (tcb b p) = spec_areas (tcb a p) \<Longrightarrow> areas_stay p a b"
  by (simp add: areas_stay_def)

lemma spec_areas_ops [simp]:
  "spec_areas (tcb (a_time_slice a) q) = spec_areas (tcb a q)" "spec_areas (tcb (a_flush_kernel n r a) q) = spec_areas (tcb a q)"
  "spec_areas (tcb (a_block key a) q) = spec_areas (tcb a q)" "spec_areas (tcb (a_wake key a) q) = spec_areas (tcb a q)"
  "spec_areas (tcb (a_wait_ready l d a) q) = spec_areas (tcb a q)" "spec_areas (tcb (a_wait_busy l d a) q) = spec_areas (tcb a q)"
  "spec_areas (tcb (a_serve x a) q) = spec_areas (tcb a q)"
  by (simp_all add: a_stop_def a_requeue_def a_raise_def a_time_slice_def a_flush_kernel_def a_block_def a_wake_def a_wait_ready_def
      a_wait_busy_def a_enqueue_def a_serve_def a_done_io_def a_io_next_def a_io_result_def a_unblock_def a_schedule_def Let_def
      split: list.split prod.split)

lemma spec_areas_interrupt [simp]: "spec_areas (tcb (a_interrupt w rd a) q) = spec_areas (tcb a q)"
proof -
  have "spec_areas (tcb (fold a_serve xs b) q) = spec_areas (tcb b q)" for xs b
    by (induction xs arbitrary: b) simp_all
  then show ?thesis by (simp add: a_interrupt_def)
qed

lemma areas_stay_kill: "a_kill r a b \<Longrightarrow> areas_stay p a b"
proof -
  assume "a_kill r a b"
  then obtain xs where "terminated xs a b" by (auto simp: a_kill_def)
  then have f: "free b = rev xs @ free a" "\<And>x. x \<notin> set xs \<Longrightarrow> tcb b x = tcb a x" by (auto simp: terminated_def)
  then show ?thesis by (cases "p \<in> set xs") (auto simp: areas_stay_def live_def)
qed

lemma areas_stay_create:
  assumes "free a = q # r"
  shows "areas_stay p a (a_create st pri a)"
  using assms by (cases "p = q")
    (simp_all add: areas_stay_def live_def a_create_def a_schedule_def a_stop_def a_requeue_def Let_def)

lemma a_call_areas: "a_call w ly T st k k' \<Longrightarrow> areas_stay p (sch k) (sch k')"
proof (induction rule: a_call.induct)
  case (Specpassup_set i c)
  then show ?case by (auto simp: areas_stay_def map_le_def)
qed (auto intro: areas_stay_kept areas_stay_kill areas_stay_create)

lemma a_exception_areas:
  assumes "a_exception w ly ty st k k'"
  shows "areas_stay p (sch k) (sch k')"
proof -
  obtain a k1 where k: "same_sched (sch k) a" "same_sched (sch k1) (sch k')"
      and h: "a_handle w ly ty st (clock k) (clock k') (k\<lparr>sch := a\<rparr>) k1"
    using assms by (auto simp: a_exception_def)
  have "areas_stay p a (sch k1)"
    using h by (cases rule: a_handle.cases) (auto intro: areas_stay_kept areas_stay_kill dest: a_call_areas)
  moreover have "live b = live a \<and> spec_areas (tcb b p) = spec_areas (tcb a p)" if "same_sched a b" for a b
    using that by (cases a; cases b) (auto simp: same_sched_def same_pcb_def live_def)
  ultimately show ?thesis using k by (simp add: areas_stay_def)
qed

text \<open>C30. The areas that a process has declared for its exceptions are never taken back: from any state of a running
  system, while a process exists, whatever calls, interrupts and faults of all processes follow, each slot of its
  \<open>spec_areas\<close> that is set keeps its address.\<close>

theorem areas_permanent:
  assumes "booted w ly s0" and "(exec w ly)\<^sup>*\<^sup>* s0 s"
    and "(\<lambda>s t. exec w ly s t \<and> allocated t p)\<^sup>*\<^sup>* s t" and p: "allocated s p"
    and a: "spec_areas (pcbs s p) i = Some a"
  shows "spec_areas (pcbs t p) i = Some a"
proof -
  have "kinv w s" by (rule kernel.inv_reachable [OF assms(1,2)])
  have "kinv w t \<and> allocated t p \<and> spec_areas (pcbs t p) i = Some a"
    using assms(3)
  proof (induction rule: rtranclp_induct)
    case base
    then show ?case using \<open>kinv w s\<close> p a by simp
  next
    case (step t u)
    obtain k where k: "represents w t k" using kinv_represents step.IH by blast
    then obtain k' where k': "a_step w ly k k'" "represents w u k'" using bikaya.simulates step.hyps(2) by blast
    have r: "repr t (sch k)" "repr u (sch k')" using k k'(2) by (simp_all add: represents_def rep_def)
    have "areas_stay p (sch k) (sch k')"
      using k'(1) by (cases rule: a_step.cases) (auto intro: areas_stay_kept dest: a_exception_areas)
    then have "spec_areas (pcbs t p) \<subseteq>\<^sub>m spec_areas (pcbs u p)"
      using step.IH step.hyps(2) r by (auto simp: areas_stay_def allocated_iff repr_def)
    then show ?case using step.IH step.hyps(2) kinv_exec by (auto simp: map_le_def dom_def)
  qed
  then show ?thesis by simp
qed

text \<open>An example: the process 1 declares its areas for TLB exceptions, at 64 and 128, and then goes on.\<close>

definition example_declare :: machine where
  "example_declare =
     example_start\<lparr>area := (\<lambda>_ _. Umps (mps_zero\<lparr>mps_cause := 32,
       mps_gpr := (\<lambda>_. 0)(reg_a0 := 7, reg_a1 := 1, reg_a2 := 64, reg_a3 := 128)\<rparr>))\<rparr>"

lemma example_declare_regs:
  "SYSCALL_N (area example_declare OLD SYS) = SPECPASSUP" "SYSCALL_ARG1 (area example_declare OLD SYS) = 1"
  "SYSCALL_ARG2 (area example_declare OLD SYS) = 64" "SYSCALL_ARG3 (area example_declare OLD SYS) = 128"
  "get_exccode (hw.truncate example_board) (area example_declare OLD SYS) = E_SYS"
  by (simp_all add: example_declare_def syscall_numbers mps_get_exccode_def example_board_def hw.truncate_def)

lemma example_declare_reached: "(exec example_board example_layout)\<^sup>*\<^sup>* example_start example_declare"
  by (rule r_into_rtranclp)
    (use exec.User [where s = example_start and f = "user_word example_start" and g = "user_state example_start" and
      h = "area example_declare"] in \<open>simp add: example_declare_def\<close>)

lemma example_declare_repr: "repr example_declare example_sched"
  using example_repr(1) by (subst repr_same [of _ example_start]) (simp_all add: example_declare_def)

lemma example_declare_guard:
  "kinv example_board example_declare" "call_guard example_board example_layout example_declare"
  "handler_guard example_board example_layout SYS example_declare"
proof -
  show a: "kinv example_board example_declare"
    by (rule kernel.inv_reachable [OF booted_example example_declare_reached])
  have "dev_inv example_board example_declare example_sched"
    using example_repr(3) by (simp add: example_declare_def dev_inv_def)
  then have "expendable example_board example_declare (Pcb 1)"
    using example_declare_repr example_repr(2)
    by (auto simp: expendable_def example_live example_all_procs intro!: exI [of _ example_sched])
  moreover have "running_proc example_declare = Some (Pcb 1)" by (simp add: example_declare_def example_tables(4))
  ultimately show g: "call_guard example_board example_layout example_declare"
    using example_declare_regs by (simp add: call_guard_def Let_def syscall_numbers)
  show "handler_guard example_board example_layout SYS example_declare"
    using call_guard_start [OF a _ g] by (simp add: handler_guard_def)
qed

lemma example_declared:
  obtains t where "(exec example_board example_layout)\<^sup>*\<^sup>* example_start t" "allocated t (Pcb 1)"
    "spec_areas (pcbs t (Pcb 1)) 5 = Some 64" "spec_areas (pcbs t (Pcb 1)) 4 = Some 128"
proof -
  let ?w = example_board and ?ly = example_layout and ?st = "area example_declare OLD SYS"
  let ?k = "\<lparr>sch = example_sched, words = user_word example_declare, states = user_state example_declare,
    clock = now (bus example_declare)\<rparr>"
  have "call_valid ?w ?ly ?st" using example_declare_regs by (simp add: call_valid_def Let_def syscall_numbers)
  then obtain st t where t: "handler ?w ?ly SYS example_declare = Inr (st, t)"
    using handle_sysbreak_runs [OF example_declare_guard(1) example_declare_regs(5) example_declare_guard(2)]
    by (auto simp: handler_def ok_iff)
  have "represents ?w example_declare ?k"
    using kernel.inv_reachable [OF booted_example example_declare_reached] example_declare_repr by (simp add: represents_def rep_def)
  from handler_refines [OF this example_declare_guard(3) t] obtain k' where
    k': "a_exception ?w ?ly SYS ?st ?k k'" "represents ?w t k'" by blast
  then obtain a k1 m n where a: "same_sched example_sched a" "same_sched (sch k1) (sch k')"
      and h: "a_handle ?w ?ly SYS ?st m n (?k\<lparr>sch := a\<rparr>) k1"
    by (auto simp: a_exception_def)
  have same: "live c = live b \<and> running c = running b \<and> spec_areas (tcb c p) = spec_areas (tcb b p)" if "same_sched b c" for b c p
    using that by (cases b; cases c) (auto simp: same_sched_def same_pcb_def live_def)
  have slot: "spec_slot 1 = 4" by (simp add: spec_slot_def)
  have r: "running a = Pcb (Suc 0)" "spec_areas (tcb a (Pcb (Suc 0))) = (\<lambda>_. None)"
    using same [OF a(1), of "Pcb 1"] by (simp_all add: example_spec_areas)
  obtain T where "a_call ?w ?ly T ?st (?k\<lparr>sch := a\<rparr>) k1"
    using h by (cases rule: a_handle.cases)
      (auto simp: traps_def breaks_def example_declare_regs syscall_numbers)
  then have k1: "sch k1 = upd_tcb (Pcb 1) (\<lambda>c. c\<lparr>spec_areas := (spec_areas c)(5 := Some 64, 4 := Some 128)\<rparr>) a"
    by (cases rule: a_call.cases)
      (simp_all add: example_declare_regs(1-4) syscall_numbers slot r spec_ptr_def)
  have rt: "repr t (sch k')" using k'(2) by (simp add: represents_def rep_def)
  then have "pcbs t = tcb (sch k')" by (simp add: repr_def)
  moreover have "spec_areas (tcb (sch k') (Pcb 1)) 5 = Some 64" "spec_areas (tcb (sch k') (Pcb 1)) 4 = Some 128"
    using same [OF a(2), of "Pcb 1"] k1 by simp_all
  moreover have "Pcb 1 \<in> live (sch k')"
    using same [OF a(2), of "Pcb 1"] same [OF a(1), of "Pcb 1"] k1 example_live by (simp add: live_def)
  ultimately have "allocated t (Pcb 1)" "spec_areas (pcbs t (Pcb 1)) 5 = Some 64" "spec_areas (pcbs t (Pcb 1)) 4 = Some 128"
    by (simp_all add: allocated_iff [OF rt])
  moreover have "(exec ?w ?ly)\<^sup>*\<^sup>* example_start t"
    using example_declare_reached handler_exec [OF example_declare_guard(3) t] by (rule rtranclp.rtrancl_into_rtrancl)
  ultimately show ?thesis by (intro that)
qed

lemma areas_permanent_witness:
  "\<exists>t. (exec example_board example_layout)\<^sup>*\<^sup>* example_start t \<and>
    (\<forall>f. spec_areas (pcbs (t\<lparr>user_word := f\<rparr>) (Pcb 1)) 5 = Some 64)"
proof -
  obtain t where t: "(exec example_board example_layout)\<^sup>*\<^sup>* example_start t" "allocated t (Pcb 1)"
    "spec_areas (pcbs t (Pcb 1)) 5 = Some 64" by (rule example_declared)
  have "spec_areas (pcbs (t\<lparr>user_word := f\<rparr>) (Pcb 1)) 5 = Some 64" for f
  proof (rule areas_permanent [OF booted_example t(1) _ t(2,3)], rule r_into_rtranclp, rule conjI)
    show "exec example_board example_layout t (t\<lparr>user_word := f\<rparr>)"
      using exec.User [where s = t and f = f and g = "user_state t" and h = "area t"] by simp
    show "allocated (t\<lparr>user_word := f\<rparr>) (Pcb 1)" using t(2) by (simp add: allocated_def dll_def)
  qed
  with t(1) show ?thesis by blast
qed

end
