(* ===== verification/Phase1_Test.thy ===== *)
theory Phase1_Test
  imports Debug_Log Sched_Refine
begin

text \<open>
  The test program of the lists, trees and semaphores, \<open>src/testing/old/p1test_bikaya_v0.c\<close>: the function
  \<open>main\<close>, cut at its comments into one definition for each part. The test calls the operations of
  \<open>pcb.c\<close> and \<open>asl.c\<close> on the memory before any process runs, and stops in \<open>adderrbuf\<close> when one of them returns
  anything unexpected. That it does not is a theorem about the composition of all of them.

  The static variables of the test that matter beyond one part are the record \<open>p1_vars\<close>; \<open>qa\<close> is the list
  head \<open>Proc_list 0\<close>, and \<open>&sem[i]\<close> the address \<open>sem + 4 * i\<close>, where \<open>sem\<close> is a parameter.
\<close>

section \<open>The program\<close>

definition MAX_PCB_PRIORITY :: c_int where "MAX_PCB_PRIORITY = 10"
definition MIN_PCB_PRIORITY :: c_int where "MIN_PCB_PRIORITY = 0"
definition DEFAULT_PCB_PRIORITY :: c_int where "DEFAULT_PCB_PRIORITY = 5"
definition MAXSEM :: nat where "MAXSEM = MAXPROC"

record p1_vars =
  procp :: "nat \<Rightarrow> pcb option"
  maxproc :: "pcb option"
  minproc :: "pcb option"
  proc :: "pcb option"

definition qa :: lh where "qa = Proc_list 0"

definition sem_key :: "u32 \<Rightarrow> nat \<Rightarrow> int_ptr option" where
  "sem_key sem i = Some (User_int (sem + 4 * word_of_nat i))"

text \<open>A message that ends with a newline, and the check \<open>if (c) adderrbuf(msg);\<close>.\<close>

definition say :: "board \<Rightarrow> string \<Rightarrow> 'a kern_scheme \<Rightarrow> 'a kern_scheme res" where
  "say w msg s = print_ok w (msg @ [CHR 0x0A]) s"

definition err_if :: "board \<Rightarrow> bool \<Rightarrow> string \<Rightarrow> 'a kern_scheme \<Rightarrow> 'a kern_scheme res" where
  "err_if w c msg s =
     (if c then andThen (adderrbuf w msg (bus s)) (\<lambda>b. Inr (s\<lparr>bus := b\<rparr>)) else Inr s)"

subsection \<open>Allocation and queues\<close>

fun p1_alloc_all :: "board \<Rightarrow> nat list \<Rightarrow> p1_vars \<Rightarrow> 'a kern_scheme \<Rightarrow> (p1_vars \<times> 'a kern_scheme) res" where
  "p1_alloc_all w [] v s = Inr (v, s)"
| "p1_alloc_all w (i # is) v s =
     andThen (allocPcb s) (\<lambda>(q, s).
     let v = v\<lparr>procp := (procp v)(i := q)\<rparr> in
     andThen (err_if w (q = None) ''allocPcb(): unexpected NULL   '' s) (\<lambda>s.
     p1_alloc_all w is v s))"

fun p1_free_all :: "nat list \<Rightarrow> p1_vars \<Rightarrow> 'a kern_scheme \<Rightarrow> 'a kern_scheme res" where
  "p1_free_all [] v s = Inr s"
| "p1_free_all (i # is) v s =
     andThen (deref (procp v i)) (\<lambda>q. andThen (freePcb q s) (\<lambda>s. p1_free_all is v s))"

fun p1_fill_queue :: "board \<Rightarrow> nat list \<Rightarrow> p1_vars \<Rightarrow> 'a kern_scheme \<Rightarrow> (p1_vars \<times> 'a kern_scheme) res" where
  "p1_fill_queue w [] v s = Inr (v, s)"
| "p1_fill_queue w (i # is) v s =
     andThen (allocPcb s) (\<lambda>(q, s).
     andThen (err_if w (q = None) ''ERROR: allocPcb(): unexpected NULL while insert   '' s) (\<lambda>s.
     andThen (deref q) (\<lambda>q.
     let (pri, v) =
           (if i = 3 then (DEFAULT_PCB_PRIORITY, v\<lparr>proc := Some q\<rparr>)
            else if i = 4 then (MAX_PCB_PRIORITY, v\<lparr>maxproc := Some q\<rparr>)
            else if i = 5 then (MIN_PCB_PRIORITY, v\<lparr>minproc := Some q\<rparr>)
            else (DEFAULT_PCB_PRIORITY, v));
         s = upd_pcb q (\<lambda>c. c\<lparr>priority := pri\<rparr>) s in
     andThen (insertProcQ qa q s) (\<lambda>s. p1_fill_queue w is v s))))"

fun p1_empty_queue :: "board \<Rightarrow> nat \<Rightarrow> 'a kern_scheme \<Rightarrow> 'a kern_scheme res" where
  "p1_empty_queue w 0 s = Inr s"
| "p1_empty_queue w (Suc n) s =
     andThen (removeProcQ qa s) (\<lambda>(q, s).
     andThen (err_if w (q = None) ''removeProcQ(&qa): unexpected NULL   '' s) (\<lambda>s.
     andThen (deref q) (\<lambda>q.
     andThen (freePcb q s) (\<lambda>s. p1_empty_queue w n s))))"

definition p1_alloc_test :: "board \<Rightarrow> p1_vars \<Rightarrow> 'a kern_scheme \<Rightarrow> (p1_vars \<times> 'a kern_scheme) res" where
  "p1_alloc_test w v s =
     andThen (initPcbs s) (\<lambda>s.
     andThen (say w ''Initialized Process Control Blocks   '' s) (\<lambda>s.
     andThen (p1_alloc_all w [0..<MAXPROC] v s) (\<lambda>(v, s).
     andThen (allocPcb s) (\<lambda>(q, s).
     andThen (err_if w (q \<noteq> None) '' ERROR: allocPcb(): allocated more than MAXPROC entries   '' s) (\<lambda>s.
     andThen (say w '' allocPcb test OK   '' s) (\<lambda>s.
     andThen (p1_free_all [10..<MAXPROC] v s) (\<lambda>s.
     andThen (say w '' Added 10 entries to the free PCB list   '' s) (\<lambda>s.
     Inr (v, s)))))))))"

definition p1_insert_test :: "board \<Rightarrow> p1_vars \<Rightarrow> 'a kern_scheme \<Rightarrow> (p1_vars \<times> 'a kern_scheme) res" where
  "p1_insert_test w v s =
     (let s = INIT_LIST_HEAD qa s in
     andThen (err_if w (\<not> emptyProcQ qa s) ''ERROR: emptyProcQ(qa): unexpected FALSE   '' s) (\<lambda>s.
     andThen (say w ''Testing insertProcQ ...   '' s) (\<lambda>s.
     andThen (p1_fill_queue w [0..<10] v s) (\<lambda>(v, s).
     andThen (say w ''Test insertProcQ: OK. Inserted 10 elements '' s) (\<lambda>s.
     andThen (err_if w (emptyProcQ qa s) ''ERROR: emptyProcQ(qa): unexpected TRUE'' s) (\<lambda>s.
     andThen (headProcQ qa s) (\<lambda>q.
     andThen (err_if w (q \<noteq> maxproc v) ''ERROR: headProcQ(qa) failed   '' s) (\<lambda>s.
     Inr (v, s)))))))))"

definition p1_remove_test :: "board \<Rightarrow> p1_vars \<Rightarrow> 'a kern_scheme \<Rightarrow> 'a kern_scheme res" where
  "p1_remove_test w v s =
     andThen (deref (proc v)) (\<lambda>p.
     andThen (outProcQ qa p s) (\<lambda>(q, s).
     andThen (err_if w (q = None \<or> q \<noteq> proc v) ''ERROR: outProcQ(&qa, proc) failed to remove the entry   '' s) (\<lambda>s.
     andThen (deref q) (\<lambda>q.
     andThen (freePcb q s) (\<lambda>s.
     andThen (removeProcQ qa s) (\<lambda>(q, s).
     andThen (err_if w (q = None \<or> q \<noteq> maxproc v)
       ''ERROR: removeProcQ(&qa, midproc) failed to remove the elements in the right order   '' s) (\<lambda>s.
     andThen (deref q) (\<lambda>q.
     andThen (freePcb q s) (\<lambda>s.
     andThen (say w '' Testing removeProcQ ...   '' s) (\<lambda>s.
     andThen (p1_empty_queue w 7 s) (\<lambda>s.
     andThen (removeProcQ qa s) (\<lambda>(q, s).
     andThen (err_if w (q \<noteq> minproc v) ''ERROR: removeProcQ(): failed on last entry   '' s) (\<lambda>s.
     andThen (deref q) (\<lambda>q.
     andThen (freePcb q s) (\<lambda>s.
     andThen (removeProcQ qa s) (\<lambda>(q, s).
     andThen (err_if w (q \<noteq> None) ''ERROR: removeProcQ(&qa): removes too many entries   '' s) (\<lambda>s.
     andThen (err_if w (\<not> emptyProcQ qa s) ''ERROR: emptyProcQ(qa): unexpected FALSE   '' s) (\<lambda>s.
     andThen (say w '' Test insertProcQ(), removeProcQ() and emptyProcQ(): OK   '' s) (\<lambda>s.
     say w '' Test process queues module: OK      '' s)))))))))))))))))))"

subsection \<open>Trees\<close>

definition p1_insertChild :: "p1_vars \<Rightarrow> nat \<Rightarrow> nat \<Rightarrow> 'a kern_scheme \<Rightarrow> 'a kern_scheme res" where
  "p1_insertChild v i j s = insertChild (procp v i) (procp v j) s"

text \<open>\<open>if (emptyChild(procp[i]) == b) adderrbuf(msg);\<close>\<close>

definition p1_emptyChild :: "board \<Rightarrow> p1_vars \<Rightarrow> nat \<Rightarrow> bool \<Rightarrow> string \<Rightarrow> 'a kern_scheme \<Rightarrow> 'a kern_scheme res" where
  "p1_emptyChild w v i b msg s =
     andThen (deref (procp v i)) (\<lambda>p. err_if w (emptyChild p s = b) msg s)"

text \<open>\<open>q = outChild(procp[i]); if (q == NULL || q != procp[i]) adderrbuf(msg);\<close> and the same of
  \<open>removeChild(procp[i])\<close>, whose result should be \<open>procp[j]\<close>.\<close>

definition p1_outChild :: "board \<Rightarrow> p1_vars \<Rightarrow> nat \<Rightarrow> string \<Rightarrow> 'a kern_scheme \<Rightarrow> 'a kern_scheme res" where
  "p1_outChild w v i msg s =
     andThen (deref (procp v i)) (\<lambda>p.
     andThen (outChild p s) (\<lambda>(q, s). err_if w (q = None \<or> q \<noteq> procp v i) msg s))"

definition p1_removeChild ::
  "board \<Rightarrow> p1_vars \<Rightarrow> nat \<Rightarrow> nat \<Rightarrow> string \<Rightarrow> 'a kern_scheme \<Rightarrow> 'a kern_scheme res" where
  "p1_removeChild w v i j msg s =
     andThen (deref (procp v i)) (\<lambda>p.
     andThen (removeChild p s) (\<lambda>(q, s). err_if w (q = None \<or> q \<noteq> procp v j) msg s))"

definition p1_grow_test :: "board \<Rightarrow> p1_vars \<Rightarrow> 'a kern_scheme \<Rightarrow> 'a kern_scheme res" where
  "p1_grow_test w v s =
     andThen (say w '' Testing process trees...'' s) (\<lambda>s.
     andThen (p1_emptyChild w v 2 False ''ERROR: emptyChild: unexpected FALSE   '' s) (\<lambda>s.
     andThen (say w ''Inserting...   '' s) (\<lambda>s.
     andThen (p1_insertChild v 0 1 s) (\<lambda>s.
     andThen (p1_insertChild v 0 2 s) (\<lambda>s.
     andThen (p1_insertChild v 0 3 s) (\<lambda>s.
     andThen (p1_insertChild v 0 7 s) (\<lambda>s.
     andThen (say w ''Inserted 2 children of pcb0  '' s) (\<lambda>s.
     andThen (p1_insertChild v 7 8 s) (\<lambda>s.
     andThen (p1_insertChild v 7 9 s) (\<lambda>s.
     andThen (say w ''Inserted 2 children of pcb7  '' s) (\<lambda>s.
     andThen (p1_emptyChild w v 0 True ''ERROR: emptyChild(procp[0]): unexpected TRUE   '' s) (\<lambda>s.
     p1_emptyChild w v 7 True ''ERROR: emptyChild(procp[0]): unexpected TRUE   '' s))))))))))))"

definition p1_shrink_test :: "board \<Rightarrow> p1_vars \<Rightarrow> 'a kern_scheme \<Rightarrow> 'a kern_scheme res" where
  "p1_shrink_test w v s =
     andThen (p1_outChild w v 1 ''ERROR: outChild(procp[1]) failed '' s) (\<lambda>s.
     andThen (p1_outChild w v 8 ''ERROR: outChild(procp[8]) failed '' s) (\<lambda>s.
     andThen (p1_removeChild w v 0 2 ''ERROR: removeChild(procp[0]) failed '' s) (\<lambda>s.
     andThen (p1_removeChild w v 7 9 ''ERROR: removeChild(procp[7]) failed '' s) (\<lambda>s.
     andThen (p1_removeChild w v 0 3 ''ERROR: removeChild(procp[0]) failed '' s) (\<lambda>s.
     andThen (p1_removeChild w v 0 7 ''ERROR: removeChild(procp[0]) failed '' s) (\<lambda>s.
     andThen (deref (procp v 0)) (\<lambda>p.
     andThen (removeChild p s) (\<lambda>(q, s).
     andThen (err_if w (q \<noteq> None) ''ERROR: removeChild(): removes too many children   '' s) (\<lambda>s.
     andThen (p1_emptyChild w v 0 False ''ERROR: emptyChild(procp[0]): unexpected FALSE   '' s) (\<lambda>s.
     andThen (say w ''Test: insertChild(), removeChild() and emptyChild() OK   '' s) (\<lambda>s.
     andThen (say w ''Testing process tree module OK      '' s) (\<lambda>s.
     p1_free_all [0, 1, 2, 3, 4, 5, 6, 7, 8, 9] v s))))))))))))"

subsection \<open>Semaphores\<close>

text \<open>\<open>procp[i]\<close> is not compared with NULL here.\<close>

fun p1_block_all ::
  "board \<Rightarrow> u32 \<Rightarrow> string \<Rightarrow> nat list \<Rightarrow> p1_vars \<Rightarrow> 'a kern_scheme \<Rightarrow> (p1_vars \<times> 'a kern_scheme) res" where
  "p1_block_all w sem msg [] v s = Inr (v, s)"
| "p1_block_all w sem msg (i # is) v s =
     andThen (allocPcb s) (\<lambda>(q, s).
     let v = v\<lparr>procp := (procp v)(i := q)\<rparr> in
     andThen (deref q) (\<lambda>q.
     andThen (insertBlocked (sem_key sem i) q s) (\<lambda>(full, s).
     andThen (err_if w full msg s) (\<lambda>s.
     p1_block_all w sem msg is v s))))"

fun p1_wake_all :: "board \<Rightarrow> u32 \<Rightarrow> nat list \<Rightarrow> p1_vars \<Rightarrow> 'a kern_scheme \<Rightarrow> 'a kern_scheme res" where
  "p1_wake_all w sem [] v s = Inr s"
| "p1_wake_all w sem (i # is) v s =
     andThen (removeBlocked (sem_key sem i) s) (\<lambda>(q, s).
     andThen (err_if w (q = None) ''ERROR: removeBlocked(): wouldn't remove   '' s) (\<lambda>s.
     andThen (err_if w (q \<noteq> procp v i) ''ERROR: removeBlocked(): removed wrong element   '' s) (\<lambda>s.
     p1_wake_all w sem is v s)))"

text \<open>\<open>if ((headBlocked(&sem[i]) == NULL) == b) adderrbuf(msg);\<close>\<close>

definition p1_headBlocked :: "board \<Rightarrow> u32 \<Rightarrow> nat \<Rightarrow> bool \<Rightarrow> string \<Rightarrow> 'a kern_scheme \<Rightarrow> 'a kern_scheme res" where
  "p1_headBlocked w sem i b msg s =
     andThen (headBlocked (sem_key sem i) s) (\<lambda>q. err_if w ((q = None) = b) msg s)"

definition p1_block_test :: "board \<Rightarrow> u32 \<Rightarrow> p1_vars \<Rightarrow> 'a kern_scheme \<Rightarrow> (p1_vars \<times> 'a kern_scheme) res" where
  "p1_block_test w sem v s =
     andThen (initASL s) (\<lambda>s.
     andThen (say w ''Initializing active semaphore list   '' s) (\<lambda>s.
     andThen (say w '' Test insertBlocked(): test #1 started  '' s) (\<lambda>s.
     andThen (p1_block_all w sem ''ERROR: insertBlocked() test#1: unexpected TRUE   '' [10..<MAXPROC] v s) (\<lambda>(v, s).
     andThen (say w ''Test insertBlocked(): test #2 started  '' s) (\<lambda>s.
     andThen (p1_block_all w sem ''ERROR:insertBlocked() test #2: unexpected TRUE   '' [0..<10] v s) (\<lambda>(v, s).
     andThen (removeBlocked (sem_key sem 11) s) (\<lambda>(p, s).
     andThen (deref p) (\<lambda>p.
     andThen (insertBlocked (sem_key sem 11) p s) (\<lambda>(full, s).
     andThen (err_if w full ''ERROR: removeBlocked(): fails to return to free list   '' s) (\<lambda>s.
     andThen (deref (procp v 9)) (\<lambda>p.
     andThen (insertBlocked (sem_key sem MAXSEM) p s) (\<lambda>(full, s).
     andThen (err_if w (\<not> full) ''ERROR: insertBlocked(): inserted more than MAXPROC   '' s) (\<lambda>s.
     Inr (v, s))))))))))))))"

definition p1_wake_test :: "board \<Rightarrow> u32 \<Rightarrow> p1_vars \<Rightarrow> 'a kern_scheme \<Rightarrow> 'a kern_scheme res" where
  "p1_wake_test w sem v s =
     andThen (say w ''Test removeBlocked(): test started   '' s) (\<lambda>s.
     andThen (p1_wake_all w sem [10..<MAXPROC] v s) (\<lambda>s.
     andThen (removeBlocked (sem_key sem 11) s) (\<lambda>(q, s).
     andThen (err_if w (q \<noteq> None) ''ERROR: removeBlocked(): removed nonexistent blocked proc   '' s) (\<lambda>s.
     andThen (say w ''Test insertBlocked() and removeBlocked() ok   '' s) (\<lambda>s.
     andThen (p1_headBlocked w sem 11 False ''ERROR: headBlocked(): nonNULL for a nonexistent queue   '' s) (\<lambda>s.
     andThen (headBlocked (sem_key sem 9) s) (\<lambda>q.
     andThen (err_if w (q = None) ''ERROR: headBlocked(1): NULL for an existent queue   '' s) (\<lambda>s.
     andThen (err_if w (q \<noteq> procp v 9) ''ERROR: headBlocked(1): wrong process returned   '' s) (\<lambda>s.
     andThen (deref q) (\<lambda>r.
     andThen (outBlocked r s) (\<lambda>(p, s).
     err_if w (p \<noteq> q) ''ERROR: outBlocked(1): couldn't remove from valid queue   '' s)))))))))))"

definition p1_subtree_test :: "board \<Rightarrow> u32 \<Rightarrow> p1_vars \<Rightarrow> 'a kern_scheme \<Rightarrow> 'a kern_scheme res" where
  "p1_subtree_test w sem v s =
     andThen (p1_insertChild v 0 1 s) (\<lambda>s.
     andThen (p1_insertChild v 0 2 s) (\<lambda>s.
     andThen (p1_insertChild v 0 3 s) (\<lambda>s.
     andThen (p1_insertChild v 3 4 s) (\<lambda>s.
     andThen (deref (procp v 0)) (\<lambda>p.
     andThen (outChildBlocked p s) (\<lambda>s.
     andThen (p1_headBlocked w sem 0 False ''ERROR: outChildBlocked(): nonNULL for a nonexistent queue (0)  '' s) (\<lambda>s.
     andThen (p1_headBlocked w sem 1 False ''ERROR: outChildBlocked(): nonNULL for a nonexistent queue (1)  '' s) (\<lambda>s.
     andThen (p1_headBlocked w sem 2 False ''ERROR: outChildBlocked(): nonNULL for a nonexistent queue  (2) '' s) (\<lambda>s.
     andThen (p1_headBlocked w sem 3 False ''ERROR: outChildBlocked(): nonNULL for a nonexistent queue (3)  '' s) (\<lambda>s.
     andThen (p1_headBlocked w sem 4 False ''ERROR: outChildBlocked(): nonNULL for a nonexistent queue (4)  '' s) (\<lambda>s.
     andThen (p1_headBlocked w sem 5 True ''ERROR: outChildBlocked(): NULL for an existent queue  (5) '' s) (\<lambda>s.
     andThen (say w ''Test headBlocked() and outBlocked(): OK   '' s) (\<lambda>s.
     andThen (say w ''ASL module OK   '' s) (\<lambda>s.
     say w ''So Long and Thanks for All the Fish'' s))))))))))))))"

definition p1_start :: p1_vars where
  "p1_start = \<lparr>procp = (\<lambda>_. None), maxproc = None, minproc = None, proc = None\<rparr>"

definition p1test_main :: "board \<Rightarrow> u32 \<Rightarrow> 'a kern_scheme \<Rightarrow> 'a kern_scheme res" where
  "p1test_main w sem s =
     andThen (p1_alloc_test w p1_start s) (\<lambda>(v, s).
     andThen (p1_insert_test w v s) (\<lambda>(v, s).
     andThen (p1_remove_test w v s) (\<lambda>s.
     andThen (p1_grow_test w v s) (\<lambda>s.
     andThen (p1_shrink_test w v s) (\<lambda>s.
     andThen (p1_block_test w sem v s) (\<lambda>(v, s).
     andThen (p1_wake_test w sem v s) (p1_subtree_test w sem v)))))))"

section \<open>The lists and trees\<close>

text \<open>
  \<open>pool w K F Q k pr s\<close>: in the memory \<open>s\<close> the free list is \<open>F\<close> and, when the list head \<open>qa\<close> is
  initialised (\<open>qa \<in> K\<close>), its queue is \<open>Q\<close>; the PCBs that are not free form the trees \<open>k\<close>; \<open>pr\<close> are the
  priorities, and the terminal answers.
\<close>

definition pool_queues :: "pcb list \<Rightarrow> pcb list \<Rightarrow> lh \<Rightarrow> pcb list" where
  "pool_queues F Q h = (if h = PcbFree_h then F else if h = qa then Q else [])"

definition held :: "pcb list \<Rightarrow> pcb set" where
  "held F = Pcb ` {..<MAXPROC} - set F"

definition pool ::
  "board \<Rightarrow> lh set \<Rightarrow> pcb list \<Rightarrow> pcb list \<Rightarrow> (pcb \<Rightarrow> pcb list) \<Rightarrow> (pcb \<Rightarrow> int) \<Rightarrow> 'a kern_scheme \<Rightarrow> bool" where
  "pool w K F Q k pr s \<longleftrightarrow>
     rings s P_next K (pool_queues F Q) \<and> K \<in> {{PcbFree_h}, {PcbFree_h, qa}} \<and>
     tree_rep s (held F) k \<and> prio s = pr \<and> console w (bus s)"

lemma qa_simps [simp]: "qa \<noteq> PcbFree_h" "PcbFree_h \<noteq> qa" "qa \<in> proc_heads" "qa \<notin> range S_procQ" "qa \<noteq> S_procQ i"
  by (auto simp: qa_def)

lemma pool_queues_simps [simp]:
  "pool_queues F Q PcbFree_h = F" "pool_queues F Q qa = Q"
  "(pool_queues F Q)(PcbFree_h := F') = pool_queues F' Q" "(pool_queues F Q)(qa := Q') = pool_queues F Q'"
  by (auto simp: pool_queues_def fun_eq_iff)

lemma poolD:
  assumes "pool w K F Q k pr s"
  shows "rings s P_next K (pool_queues F Q)" "K \<subseteq> proc_heads" "PcbFree_h \<in> K" "tree_rep s (held F) k"
    "prio s = pr" "console w (bus s)" "members K (pool_queues F Q) \<subseteq> set F \<union> set Q" "distinct F"
proof -
  show r: "rings s P_next K (pool_queues F Q)" and "K \<subseteq> proc_heads" and K: "PcbFree_h \<in> K"
    and "tree_rep s (held F) k" "prio s = pr" "console w (bus s)"
    using assms by (auto simp: pool_def)
  show "members K (pool_queues F Q) \<subseteq> set F \<union> set Q" by (auto simp: members_def pool_queues_def split: if_splits)
  show "distinct F" using rings_distinct [OF r K] by simp
qed

text \<open>Changes of the links of the queues, and of the bus.\<close>

lemma pool_links:
  assumes "pool w K F Q k pr s" and "links_only proc_cells s t" and "rings t P_next K (pool_queues F' Q')"
    and "tree_rep s (held F') k"
  shows "pool w K F' Q' k pr t"
proof -
  have "tree_rep t (held F') k = tree_rep s (held F') k"
    by (rule tree_rep_asl_frame [OF links_only_frame_proc [OF assms(2)]]) (simp add: pcbs_links_only [OF assms(2)])
  then show ?thesis
    using assms links_only_same [OF assms(2)] prio_links_only [OF assms(2)]
    by (simp add: pool_def rest_same_def)
qed

lemma pool_bus: "pool w K F Q k pr s \<Longrightarrow> console w b \<Longrightarrow> pool w K F Q k pr (s\<lparr>bus := b\<rparr>)"
proof -
  assume a: "pool w K F Q k pr s" "console w b"
  have "rings (s\<lparr>bus := b\<rparr>) P_next K R = rings s P_next K R" for R by (rule rings_cong) simp_all
  moreover have "tree_rep (s\<lparr>bus := b\<rparr>) A k = tree_rep s A k" for A by (rule tree_rep_frame) simp_all
  moreover have "prio (s\<lparr>bus := b\<rparr>) = prio s" by (simp add: prio_def fun_eq_iff)
  ultimately show ?thesis using a by (simp add: pool_def)
qed

lemma pool_cong: "pool w K F Q k pr s \<Longrightarrow> k = k' \<Longrightarrow> pr = pr' \<Longrightarrow> pool w K F Q k' pr' s"
  by simp

text \<open>The rules of the symbolic execution: each runs one operation of the program.\<close>

lemma pool_say: "pool w K F Q k pr s \<Longrightarrow> (\<And>t. pool w K F Q k pr t \<Longrightarrow> P t) \<Longrightarrow> ok (say w msg s) P"
  using addokbuf_prints [OF poolD(6), of w K F Q k pr s "msg @ [CHR 0x0A]"]
  by (auto simp: say_def print_ok_def ok_iff andThen_eq_Inr intro: pool_bus)

lemma no_err [simp]: "ok (err_if w False msg s) P = P s"
  by (simp add: err_if_def)

lemma tree_rep_subset:
  "tree_rep s A k \<Longrightarrow> B \<subseteq> A \<Longrightarrow> (\<And>x. x \<in> B \<Longrightarrow> set (k x) \<subseteq> B) \<Longrightarrow> tree_rep s B k"
  unfolding tree_rep_def by blast

lemma pool_free:
  assumes pool: "pool w K F Q k pr s" and p: "p \<notin> set F" "p \<notin> set Q" and k: "\<And>x. p \<notin> set (k x)"
    and P: "\<And>t. pool w K (p # F) Q k pr t \<Longrightarrow> P t"
  shows "ok (freePcb p s) P"
proof -
  note I = poolD [OF pool]
  have "tree_rep s (held (p # F)) k"
    using I(4) k by (intro tree_rep_subset [OF I(4)]) (auto simp: held_def tree_rep_def)
  then have "pool w K (p # F) Q k pr t"
    if "rings t P_next K ((pool_queues F Q)(PcbFree_h := p # pool_queues F Q PcbFree_h)) \<and> links_only proc_cells s t" for t
    using that by (intro pool_links [OF pool]) auto
  moreover have "p \<notin> members K (pool_queues F Q)" using I(7) p by auto
  ultimately show ?thesis
    using P by (intro ok_mono [OF freePcb_spec [OF I(1-3), of p]]) blast+
qed

lemma pool_alloc_none:
  "pool w K [] Q k pr s \<Longrightarrow> P (None, s) \<Longrightarrow> ok (allocPcb s) P"
  using allocPcb_Nil [OF poolD(1,3)] by fastforce

lemma pool_alloc:
  assumes pool: "pool w K (p # F) Q k pr s" and p: "p \<in> Pcb ` {..<MAXPROC}"
    and P: "\<And>t. pool w K F Q (k(p := [])) (pr(p := 0)) t \<Longrightarrow> P (Some p, t)"
  shows "ok (allocPcb s) P"
proof -
  note I = poolD [OF pool]
  have "pool w K F Q (k(p := [])) (pr(p := 0)) t"
    if t: "rings t P_next K ((pool_queues (p # F) Q)(PcbFree_h := F))" "pcbs t = (pcbs s)(p := fresh_pcb (pcbs s p))"
      "lh_next t (P_child p) = None" "pcb_only (proc_cells \<union> {P_child p, P_sib p}) {p} s t" for t
  proof -
    have A: "held F = insert p (held (p # F))" "p \<notin> held (p # F)" using I(8) p by (auto simp: held_def)
    have "tree_rep t (held F) (k(p := []))" unfolding A(1) by (rule tree_rep_alloc [OF I(4) A(2) t(2-4)])
    moreover have "prio t = pr(p := 0)" using I(5) t(2) by (auto simp: prio_def fresh_pcb_def fun_eq_iff)
    ultimately show ?thesis using pool t(1) pcb_only_same [OF t(4)] by (simp add: pool_def rest_same_def)
  qed
  then show ?thesis using allocPcb_Cons [OF I(1-3)] P by (fastforce elim!: ok_mono)
qed

lemma pool_init_queue:
  assumes pool: "pool w {PcbFree_h} F Q k pr s"
  shows "pool w {PcbFree_h, qa} F [] k pr (INIT_LIST_HEAD qa s)"
proof -
  note I = poolD [OF pool]
  have "rings s P_next ({PcbFree_h, qa} - {qa}) (pool_queues F Q)" using I(1) by (simp add: insert_Diff_if)
  then have "rings (INIT_LIST_HEAD qa s) P_next {PcbFree_h, qa} ((pool_queues F Q)(qa := []))"
    by (rule procq.INIT_LIST_HEAD_rings) auto
  moreover have l: "links_only proc_cells s (INIT_LIST_HEAD qa s)" by (rule procq.INIT_LIST_HEAD_cells) simp
  have "tree_rep (INIT_LIST_HEAD qa s) (held F) k = tree_rep s (held F) k"
    by (rule tree_rep_asl_frame [OF links_only_frame_proc [OF l]]) (simp add: pcbs_links_only [OF l])
  ultimately show ?thesis
    using pool links_only_same [OF l] prio_links_only [OF l] by (simp add: pool_def rest_same_def)
qed

lemma pool_empty: "pool w {PcbFree_h, qa} F Q k pr s \<Longrightarrow> emptyProcQ qa s \<longleftrightarrow> Q = []"
  using emptyProcQ_iff [OF poolD(1), of w "{PcbFree_h, qa}" F Q k pr s qa] by simp

lemma pool_head:
  "pool w {PcbFree_h, qa} F Q k pr s \<Longrightarrow> P (case Q of [] \<Rightarrow> None | p # _ \<Rightarrow> Some p) \<Longrightarrow> ok (headProcQ qa s) P"
  using headProcQ_eq [OF poolD(1), of w "{PcbFree_h, qa}" F Q k pr s qa] by simp

lemma pool_prio:
  assumes pool: "pool w K F Q k pr s" 
  shows "pool w K F Q k (pr(p := sint v)) (upd_pcb p (\<lambda>c. c\<lparr>priority := v\<rparr>) s)"
proof -
  let ?t = "upd_pcb p (\<lambda>c. c\<lparr>priority := v\<rparr>) s"
  have "tree_rep ?t (held F) k = tree_rep s (held F) k"
    by (rule tree_rep_asl_frame [OF asl_frame_upd(1)]) simp
  moreover have "prio ?t = pr(p := sint v)" using poolD(5) [OF pool] by (auto simp: prio_def fun_eq_iff upd_pcb_def)
  ultimately show ?thesis using pool by (simp add: pool_def) (simp add: upd_pcb_def)
qed

lemma pool_insert:
  assumes pool: "pool w {PcbFree_h, qa} F Q k pr s" and p: "p \<notin> set F" "p \<notin> set Q"
    and P: "\<And>t. pool w {PcbFree_h, qa} F (q_insert pr p Q) k pr t \<Longrightarrow> P t"
  shows "ok (insertProcQ qa p s) P"
proof -
  note I = poolD [OF pool]
  have "p \<notin> members {PcbFree_h, qa} (pool_queues F Q)" using I(7) p by auto
  moreover have "pool w {PcbFree_h, qa} F (q_insert pr p Q) k pr t"
    if "rings t P_next {PcbFree_h, qa} ((pool_queues F Q)(qa := q_insert (prio s) p (pool_queues F Q qa))) \<and>
      links_only proc_cells s t" for t
    using that I(4,5) by (intro pool_links [OF pool]) auto
  ultimately show ?thesis
    using P by (intro ok_mono [OF insertProcQ_spec [OF I(1,2), of qa p]]) blast+
qed

lemma pool_remove_none:
  "pool w {PcbFree_h, qa} F [] k pr s \<Longrightarrow> P (None, s) \<Longrightarrow> ok (removeProcQ qa s) P"
  using removeProcQ_Nil [OF poolD(1), of w "{PcbFree_h, qa}" F "[]" k pr s qa] by simp

lemma pool_remove:
  assumes pool: "pool w {PcbFree_h, qa} F (p # Q) k pr s"
    and P: "\<And>t. pool w {PcbFree_h, qa} F Q k pr t \<Longrightarrow> P (Some p, t)"
  shows "ok (removeProcQ qa s) P"
proof -
  note I = poolD [OF pool]
  have "pool w {PcbFree_h, qa} F Q k pr t"
    if "rings t P_next {PcbFree_h, qa} ((pool_queues F (p # Q))(qa := Q))" "links_only proc_cells s t" for t
    using that I(4) by (intro pool_links [OF pool]) auto
  then show ?thesis
    using P by (intro ok_mono [OF removeProcQ_Cons [OF I(1,2), of qa p Q]]) auto
qed

lemma pool_out:
  assumes pool: "pool w {PcbFree_h, qa} F Q k pr s" and p: "p \<in> set Q"
    and P: "\<And>t. pool w {PcbFree_h, qa} F (remove1 p Q) k pr t \<Longrightarrow> P (Some p, t)"
  shows "ok (outProcQ qa p s) P"
proof -
  note I = poolD [OF pool]
  have "pool w {PcbFree_h, qa} F (remove1 p Q) k pr t"
    if "rings t P_next {PcbFree_h, qa} ((pool_queues F Q)(qa := remove1 p Q))" "links_only proc_cells s t" for t
    using that I(4) by (intro pool_links [OF pool]) auto
  then show ?thesis
    using P p by (intro ok_mono [OF outProcQ_spec [OF I(1,2), of qa p]]) auto
qed

subsection \<open>Trees\<close>

lemma pool_tree:
  assumes pool: "pool w K F Q k pr s" and "pcb_only tree_cells {p} s t" and "prio t p = prio s p"
    and "tree_rep t (held F) k'"
  shows "pool w K F Q k' pr t"
proof -
  note I = poolD [OF pool]
  have "rings t P_next K (pool_queues F Q) = rings s P_next K (pool_queues F Q)"
    by (rule rings_tree_frame [OF assms(2) I(2)])
  moreover have "prio t x = prio s x" for x
    using assms(2,3) by (cases "x = p") (auto simp: pcb_only_def prio_def)
  ultimately show ?thesis
    using pool assms(4) pcb_only_same [OF assms(2)] by (auto simp: pool_def rest_same_def fun_eq_iff)
qed

lemma pool_insertChild:
  assumes pool: "pool w K F Q k pr s" and p: "p \<in> held F" "c \<in> held F" "c \<noteq> p" "k c = []" "\<And>x. c \<notin> set (k x)"
    and P: "\<And>t. pool w K F Q (k(p := k p @ [c])) pr t \<Longrightarrow> P t"
  shows "ok (insertChild (Some p) (Some c) s) P"
proof (rule ok_mono [OF insertChild_spec [OF poolD(4) [OF pool] p(1-3)]])
  fix t
  assume t: "tree_rep t (held F) (k(p := k p @ [c])) \<and> pcb_only tree_cells {c} s t \<and>
    pcbs t c = (pcbs s c)\<lparr>p_parent := Some p\<rparr>"
  show "P t" by (rule P [OF pool_tree [OF pool]]) (use t in \<open>auto simp: prio_def\<close>)
qed (use p(4,5) in auto)

lemma pool_removeChild_none:
  "pool w K F Q k pr s \<Longrightarrow> p \<in> held F \<Longrightarrow> k p = [] \<Longrightarrow> P (None, s) \<Longrightarrow> ok (removeChild p s) P"
  using removeChild_Nil [of s p] tree_rep_node [OF poolD(4), of w K F Q k pr s p] by simp

lemma pool_removeChild:
  assumes pool: "pool w K F Q k pr s" and p: "p \<in> held F" "k p = c # cs"
    and P: "\<And>t. pool w K F Q (k(p := cs)) pr t \<Longrightarrow> P (Some c, t)"
  shows "ok (removeChild p s) P"
proof (rule ok_mono [OF removeChild_Cons [OF poolD(4) [OF pool] p]], clarify)
  fix t
  assume t: "tree_rep t (held F) (k(p := cs))" "pcb_only tree_cells {c} s t" "pcbs t c = (pcbs s c)\<lparr>p_parent := None\<rparr>"
  show "P (Some c, t)" by (rule P [OF pool_tree [OF pool]]) (use t in \<open>auto simp: prio_def\<close>)
qed

lemma pool_outChild:
  assumes pool: "pool w K F Q k pr s" and p: "p \<in> held F" "c \<in> set (k p)"
    and P: "\<And>t. pool w K F Q (k(p := remove1 c (k p))) pr t \<Longrightarrow> P (Some c, t)"
  shows "ok (outChild c s) P"
proof (rule ok_mono [OF outChild_spec [OF poolD(4) [OF pool] p]], clarify)
  fix t v
  assume t: "tree_rep t (held F) (k(p := remove1 c (k p)))" "pcb_only tree_cells {c} s t"
    "pcbs t c = (pcbs s c)\<lparr>p_parent := v\<rparr>"
  show "P (Some c, t)" by (rule P [OF pool_tree [OF pool]]) (use t in \<open>auto simp: prio_def\<close>)
qed

lemma pool_emptyChild: "pool w K F Q k pr s \<Longrightarrow> p \<in> held F \<Longrightarrow> emptyChild p s \<longleftrightarrow> k p = []"
  using node_rep_empty_iff [OF tree_rep_node [OF poolD(4)]] by blast

section \<open>The test of the lists\<close>

lemma pool_init:
  assumes con: "console w (bus s)"
    and P: "\<And>t. pool w {PcbFree_h} (map Pcb [0..<MAXPROC]) [] (\<lambda>_. []) (prio s) t \<Longrightarrow> P t"
  shows "ok (initPcbs s) P"
proof (rule ok_mono [OF initPcbs_spec [where K = "{PcbFree_h}" and Q = "\<lambda>_. []" and s = s]])
  fix t
  assume t: "rings t P_next {PcbFree_h} ((\<lambda>_. [])(PcbFree_h := map Pcb [0..<MAXPROC])) \<and> links_only proc_cells s t"
  have "rings t P_next {PcbFree_h} (pool_queues (map Pcb [0..<MAXPROC]) []) =
      rings t P_next {PcbFree_h} ((\<lambda>_. [])(PcbFree_h := map Pcb [0..<MAXPROC]))"
    by (rule rings_Q_cong) simp
  moreover have "held (map Pcb [0..<MAXPROC]) = {}" by (auto simp: held_def)
  ultimately show "P t"
    using t con links_only_same [of proc_cells s t] prio_links_only [of proc_cells s t]
    by (intro P) (simp add: pool_def tree_rep_def rest_same_def)
qed (auto simp: rings_def members_def)

text \<open>The loops. \<open>procp\<close> after the allocations:\<close>

fun numbered :: "nat list \<Rightarrow> pcb list \<Rightarrow> (nat \<Rightarrow> pcb option) \<Rightarrow> nat \<Rightarrow> pcb option" where
  "numbered (i # is) (p # ps) f = numbered is ps (f(i := Some p))"
| "numbered _ _ f = f"

lemma pool_alloc_all:
  "pool w K (ps @ F) Q (\<lambda>_. []) pr s \<Longrightarrow> length is = length ps \<Longrightarrow> set ps \<subseteq> Pcb ` {..<MAXPROC} \<Longrightarrow>
    (\<And>pr t. pool w K F Q (\<lambda>_. []) pr t \<Longrightarrow> P (v\<lparr>procp := numbered is ps (procp v)\<rparr>, t)) \<Longrightarrow>
    ok (p1_alloc_all w is v s) P"
proof (induction "is" arbitrary: ps pr s v)
  case Nil
  then show ?case by simp
next
  case (Cons i "is")
  then obtain p qs where ps: "ps = p # qs" by (cases ps) auto
  let ?v = "v\<lparr>procp := (procp v)(i := Some p)\<rparr>"
  have pool: "pool w K (p # qs @ F) Q (\<lambda>_. []) pr s" using Cons.prems(1) ps by simp
  have "ok (p1_alloc_all w is ?v t) P" if "pool w K (qs @ F) Q (\<lambda>_. []) pr' t" for pr' t
    by (rule Cons.IH [OF that]) (use Cons.prems(2-4) ps in \<open>simp_all add: fun_upd_def\<close>)
  then show ?case using ps Cons.prems(3) by (auto simp: fun_upd_idem intro!: pool_alloc [OF pool])
qed

lemma pool_free_all:
  "pool w K F Q (\<lambda>_. []) pr s \<Longrightarrow> map (procp v) is = map Some ps \<Longrightarrow> distinct ps \<Longrightarrow>
    set ps \<inter> (set F \<union> set Q) = {} \<Longrightarrow>
    (\<And>t. pool w K (rev ps @ F) Q (\<lambda>_. []) pr t \<Longrightarrow> P t) \<Longrightarrow> ok (p1_free_all is v s) P"
proof (induction "is" arbitrary: ps F s)
  case Nil
  then show ?case by simp
next
  case (Cons i "is")
  then obtain p qs where ps: "ps = p # qs" "procp v i = Some p" by (cases ps) auto
  have "ok (p1_free_all is v t) P" if "pool w K (p # F) Q (\<lambda>_. []) pr t" for t
    by (rule Cons.IH [OF that, of qs]) (use Cons.prems(2-5) ps in auto)
  then show ?case using ps Cons.prems(4) by (auto intro!: pool_free [OF Cons.prems(1)])
qed

lemma pool_empty_queue:
  "pool w {PcbFree_h, qa} F (ps @ Q) (\<lambda>_. []) pr s \<Longrightarrow> distinct (ps @ Q) \<Longrightarrow> set (ps @ Q) \<inter> set F = {} \<Longrightarrow>
    (\<And>t. pool w {PcbFree_h, qa} (rev ps @ F) Q (\<lambda>_. []) pr t \<Longrightarrow> P t) \<Longrightarrow>
    ok (p1_empty_queue w (length ps) s) P"
proof (induction ps arbitrary: F s)
  case Nil
  then show ?case by simp
next
  case (Cons p ps)
  have "ok (p1_empty_queue w (length ps) t) P" if "pool w {PcbFree_h, qa} (p # F) (ps @ Q) (\<lambda>_. []) pr t" for t
    by (rule Cons.IH [OF that]) (use Cons.prems in auto)
  then have "ok (freePcb p t) (\<lambda>s. ok (p1_empty_queue w (length ps) s) P)"
    if "pool w {PcbFree_h, qa} F (ps @ Q) (\<lambda>_. []) pr t" for t
    using Cons.prems by (intro pool_free [OF that]) auto
  then show ?case using Cons.prems(1) by (auto intro!: pool_remove)
qed

lemma nums20: "[0..<MAXPROC] = [0, 1, 2, 3, 4, 5, 6, 7, 8, 9, 10, 11, 12, 13, 14, 15, 16, 17, 18, 19]"
  by (simp add: MAXPROC_def upt_rec)

lemma nums10: "[0..<10] = [0, 1, 2, 3, 4, 5, 6, 7, 8, (9 :: nat)]" "[10..<MAXPROC] = [10, 11, 12, 13, 14, 15, 16, 17, 18, 19]"
  by (simp_all add: MAXPROC_def upt_rec)

text \<open>The PCBs that stay allocated while the test of the queues runs, and the order in which the others are
  free afterwards.\<close>

definition upper :: "pcb list" where "upper = map Pcb [19, 18, 17, 16, 15, 14, 13, 12, 11, 10]"

definition p1_all :: p1_vars where
  "p1_all = p1_start\<lparr>procp := (\<lambda>i. if i < MAXPROC then Some (Pcb i) else None)\<rparr>"

lemma numbered_Pcb: "numbered is (map Pcb is) f = (\<lambda>i. if i \<in> set is then Some (Pcb i) else f i)"
  by (induction "is" arbitrary: f) (auto simp: fun_eq_iff)

lemma p1_alloc_test_ok:
  assumes con: "console w (bus s)"
    and P: "\<And>pr t. pool w {PcbFree_h} upper [] (\<lambda>_. []) pr t \<Longrightarrow> P (p1_all, t)"
  shows "ok (p1_alloc_test w p1_start s) P"
proof -
  have v: "p1_start\<lparr>procp := numbered [0..<MAXPROC] (map Pcb [0..<MAXPROC]) (procp p1_start)\<rparr> = p1_all"
    by (simp only: numbered_Pcb) (auto simp: p1_all_def p1_start_def fun_eq_iff)
  have u: "map (procp p1_all) [10..<MAXPROC] = map Some (rev upper)" "distinct (rev upper)"
    by (simp_all add: nums10 p1_all_def upper_def MAXPROC_def)
  show ?thesis
    unfolding p1_alloc_test_def ok_andThen
    by (rule pool_init [OF con], rule pool_say, assumption,
        rule pool_alloc_all [where ps = "map Pcb [0..<MAXPROC]" and F = "[]"], simp, simp, force,
        simp only: v prod.case ok_andThen, rule pool_alloc_none, assumption,
        simp only: prod.case ok_andThen simp_thms no_err, rule pool_say, assumption,
        rule pool_free_all [OF _ u], assumption, simp, rule pool_say, assumption, simp add: P)
qed

lemma Pcb_less [simp]: "Pcb i \<in> Pcb ` {..<MAXPROC} \<longleftrightarrow> i < MAXPROC"
  by auto

text \<open>The loop that fills the queue: the variables and the queue after it.\<close>

definition fill_turn :: "nat \<Rightarrow> pcb \<Rightarrow> p1_vars \<Rightarrow> c_int \<times> p1_vars" where
  "fill_turn i q v =
     (if i = 3 then (DEFAULT_PCB_PRIORITY, v\<lparr>proc := Some q\<rparr>)
      else if i = 4 then (MAX_PCB_PRIORITY, v\<lparr>maxproc := Some q\<rparr>)
      else if i = 5 then (MIN_PCB_PRIORITY, v\<lparr>minproc := Some q\<rparr>)
      else (DEFAULT_PCB_PRIORITY, v))"

fun filled :: "nat list \<Rightarrow> pcb list \<Rightarrow> (pcb \<Rightarrow> int) \<Rightarrow> p1_vars \<Rightarrow> pcb list \<Rightarrow> p1_vars \<times> pcb list" where
  "filled (i # is) (p # ps) pr v Q =
     (let (pri, v) = fill_turn i p v; pr = pr(p := sint pri) in filled is ps pr v (q_insert pr p Q))"
| "filled _ _ pr v Q = (v, Q)"

lemma pool_fill_queue:
  "pool w {PcbFree_h, qa} (ps @ F) Q (\<lambda>_. []) pr s \<Longrightarrow> length is = length ps \<Longrightarrow> distinct ps \<Longrightarrow>
    set ps \<subseteq> Pcb ` {..<MAXPROC} - set Q \<Longrightarrow>
    (\<And>pr' t. pool w {PcbFree_h, qa} F (snd (filled is ps pr v Q)) (\<lambda>_. []) pr' t \<Longrightarrow> P (fst (filled is ps pr v Q), t)) \<Longrightarrow>
    ok (p1_fill_queue w is v s) P"
proof (induction "is" arbitrary: ps pr s v Q)
  case Nil
  then show ?case by simp
next
  case (Cons i "is")
  then obtain p qs where ps: "ps = p # qs" by (cases ps) auto
  obtain pri u where turn: "fill_turn i p v = (pri, u)" by fastforce
  let ?pr = "pr(p := sint pri)"
  have pool: "pool w {PcbFree_h, qa} (p # qs @ F) Q (\<lambda>_. []) pr s" using Cons.prems(1) ps by simp
  have nF: "p \<notin> set (qs @ F)" using poolD(8) [OF pool] by simp
  have "ok (insertProcQ qa p (upd_pcb p (\<lambda>c. c\<lparr>priority := pri\<rparr>) t)) (\<lambda>s. ok (p1_fill_queue w is u s) P)"
    if "pool w {PcbFree_h, qa} (qs @ F) Q ((\<lambda>_. [])(p := [])) (pr(p := 0)) t" for t
  proof (rule pool_insert)
    show "pool w {PcbFree_h, qa} (qs @ F) Q (\<lambda>_. []) ?pr (upd_pcb p (\<lambda>c. c\<lparr>priority := pri\<rparr>) t)"
      using pool_prio [OF that, of p pri] by (simp add: fun_upd_idem)
    show "ok (p1_fill_queue w is u r) P" if "pool w {PcbFree_h, qa} (qs @ F) (q_insert ?pr p Q) (\<lambda>_. []) ?pr r" for r
      by (rule Cons.IH [OF that]) (use Cons.prems(2-5) ps turn in \<open>auto simp: Let_def fun_upd_def\<close>)
  qed (use nF Cons.prems(4) ps in auto)
  then show ?case
    using turn Cons.prems(4) ps by (auto simp: fill_turn_def [symmetric] intro!: pool_alloc [OF pool])
qed

lemma p1_insert_test_ok:
  assumes pool: "pool w {PcbFree_h} upper [] (\<lambda>_. []) pr s"
    and P: "\<And>v pr t. pool w {PcbFree_h, qa} [] (map Pcb [15, 19, 18, 17, 16, 13, 12, 11, 10, 14]) (\<lambda>_. []) pr t \<Longrightarrow>
      v = p1_all\<lparr>proc := Some (Pcb 16), maxproc := Some (Pcb 15), minproc := Some (Pcb 14)\<rparr> \<Longrightarrow> P (v, t)"
  shows "ok (p1_insert_test w p1_all s) P"
proof -
  let ?Q = "map Pcb [15, 19, 18, 17, 16, 13, 12, 11, 10, 14]"
  let ?v = "p1_all\<lparr>proc := Some (Pcb 16), maxproc := Some (Pcb 15), minproc := Some (Pcb 14)\<rparr>"
  have fill: "filled [0..<10] upper pr p1_all [] = (?v, ?Q)"
    by (simp add: nums10 upper_def fill_turn_def Let_def DEFAULT_PCB_PRIORITY_def MAX_PCB_PRIORITY_def
        MIN_PCB_PRIORITY_def)
  have u: "length [0..<10] = length upper" "distinct upper" "set upper \<subseteq> Pcb ` {..<MAXPROC} - set []"
    by (auto simp: upper_def MAXPROC_def)
  show ?thesis
    unfolding p1_insert_test_def Let_def ok_andThen pool_empty [OF pool_init_queue [OF pool]]
    by (simp only: simp_thms no_err, rule pool_say, rule pool_init_queue, rule pool,
        rule pool_fill_queue [where F = "[]", OF _ u], simp, simp only: fill fst_conv snd_conv prod.case ok_andThen,
        rule pool_say, assumption, simp add: pool_empty, rule pool_head, assumption, simp add: P)
qed

definition p1_filled :: p1_vars where
  "p1_filled = p1_all\<lparr>proc := Some (Pcb 16), maxproc := Some (Pcb 15), minproc := Some (Pcb 14)\<rparr>"

definition upper_after :: "pcb list" where "upper_after = map Pcb [14, 10, 11, 12, 13, 17, 18, 19, 15, 16]"

lemma p1_remove_test_ok:
  fixes s :: "'a kern_scheme"
  assumes pool: "pool w {PcbFree_h, qa} [] (map Pcb [15, 19, 18, 17, 16, 13, 12, 11, 10, 14]) (\<lambda>_. []) pr s"
    and P: "\<And>t. pool w {PcbFree_h, qa} upper_after [] (\<lambda>_. []) pr t \<Longrightarrow> P t"
  shows "ok (p1_remove_test w p1_filled s) P"
proof -
  have v: "proc p1_filled = Some (Pcb 16)" "maxproc p1_filled = Some (Pcb 15)" "minproc p1_filled = Some (Pcb 14)"
    by (simp_all add: p1_filled_def)
  have seven: "length (map Pcb [19, 18, 17, 13, 12, 11, 10]) = 7" by simp
  have empty: "ok (p1_empty_queue w 7 t) R"
    if "pool w {PcbFree_h, qa} (map Pcb [15, 16]) (map Pcb [19, 18, 17, 13, 12, 11, 10, 14]) (\<lambda>_. []) pr t"
      and "\<And>u. pool w {PcbFree_h, qa} (map Pcb [10, 11, 12, 13, 17, 18, 19, 15, 16]) [Pcb 14] (\<lambda>_. []) pr u \<Longrightarrow> R u"
    for t :: "'a kern_scheme" and R
    using pool_empty_queue [of w "map Pcb [15, 16]" "map Pcb [19, 18, 17, 13, 12, 11, 10]" "[Pcb 14]" pr t R, unfolded seven]
      that by (simp del: p1_empty_queue.simps)
  show ?thesis
    unfolding p1_remove_test_def ok_andThen v deref_simps ok_simps
    by (rule pool_out [OF pool], simp, simp, rule pool_free, assumption, simp, simp, simp,
        rule pool_remove, simp, simp, rule pool_free, assumption, simp, simp, simp,
        rule pool_say, assumption, rule empty, simp, simp,
        rule pool_remove, assumption, simp, rule pool_free, assumption, simp, simp, simp,
        rule pool_remove_none, assumption, simp add: pool_empty, rule pool_say, assumption,
        rule pool_say, assumption, simp add: P upper_after_def)
qed

section \<open>The test of the trees\<close>

definition p1_kids :: "pcb \<Rightarrow> pcb list" where
  "p1_kids = (\<lambda>_. [])(Pcb 0 := map Pcb [1, 2, 3, 7], Pcb 7 := map Pcb [8, 9])"

lemma held_upper: "Pcb i \<in> held upper_after \<longleftrightarrow> i < 10"
proof -
  have "set upper_after = Pcb ` {10, 11, 12, 13, 14, 15, 16, 17, 18, 19}" by (auto simp: upper_after_def)
  moreover have "i < MAXPROC \<and> i \<notin> {10, 11, 12, 13, 14, 15, 16, 17, 18, 19} \<longleftrightarrow> i < 10"
    unfolding MAXPROC_def by simp presburger
  ultimately show ?thesis by (auto simp: held_def)
qed

lemma procp_filled: "i < 10 \<Longrightarrow> procp p1_filled i = Some (Pcb i)"
  by (simp add: p1_filled_def p1_all_def MAXPROC_def)

lemma pool_emptyChild_test:
  assumes "pool w K upper_after Q k pr s" and "i < 10 \<and> (k (Pcb i) = []) \<noteq> b" and "P s"
  shows "ok (p1_emptyChild w p1_filled i b msg s) P"
  using assms pool_emptyChild [OF assms(1), of "Pcb i"] by (simp add: p1_emptyChild_def procp_filled held_upper)

lemma pool_insertChild_test:
  assumes "pool w K upper_after Q k pr s"
    and "i < 10 \<and> j < 10 \<and> i \<noteq> j \<and> k (Pcb j) = [] \<and> (\<forall>x. Pcb j \<notin> set (k x))"
    and "\<And>t. pool w K upper_after Q (k(Pcb i := k (Pcb i) @ [Pcb j])) pr t \<Longrightarrow> P t"
  shows "ok (p1_insertChild p1_filled i j s) P"
  using assms(2,3) by (auto simp: p1_insertChild_def procp_filled held_upper intro!: pool_insertChild [OF assms(1)])

lemma pool_outChild_test:
  assumes "pool w K upper_after Q k pr s" and "j < 10 \<and> i < 10 \<and> Pcb i \<in> set (k (Pcb j))"
    and "\<And>t. pool w K upper_after Q (k(Pcb j := remove1 (Pcb i) (k (Pcb j)))) pr t \<Longrightarrow> P t"
  shows "ok (p1_outChild w p1_filled i msg s) P"
  using assms(2,3) by (auto simp: p1_outChild_def procp_filled held_upper intro!: pool_outChild [OF assms(1)])

lemma pool_removeChild_test:
  assumes "pool w K upper_after Q k pr s" and "i < 10 \<and> j < 10 \<and> k (Pcb i) \<noteq> [] \<and> hd (k (Pcb i)) = Pcb j"
    and "\<And>t. pool w K upper_after Q (k(Pcb i := tl (k (Pcb i)))) pr t \<Longrightarrow> P t"
  shows "ok (p1_removeChild w p1_filled i j msg s) P"
proof -
  have k: "k (Pcb i) = Pcb j # tl (k (Pcb i))" using assms(2) by (metis list.collapse)
  show ?thesis
    using assms(2,3)
    by (auto simp: p1_removeChild_def procp_filled held_upper intro!: pool_removeChild [OF assms(1) _ k])
qed

lemma p1_grow_test_ok:
  assumes pool: "pool w K upper_after Q (\<lambda>_. []) pr s"
    and P: "\<And>t. pool w K upper_after Q p1_kids pr t \<Longrightarrow> P t"
  shows "ok (p1_grow_test w p1_filled s) P"
  unfolding p1_grow_test_def ok_andThen
  by (rule pool_say [OF pool], rule pool_emptyChild_test, assumption, simp, rule pool_say, assumption,
      (rule pool_insertChild_test, assumption, simp)+, rule pool_say, assumption,
      (rule pool_insertChild_test, assumption, simp)+, rule pool_say, assumption,
      (rule pool_emptyChild_test, assumption, simp)+, rule P, erule pool_cong,
      simp_all add: p1_kids_def fun_eq_iff)

lemma p1_shrink_test_ok:
  assumes pool: "pool w {PcbFree_h, qa} upper_after [] p1_kids pr s"
    and P: "\<And>t. pool w {PcbFree_h, qa} (map Pcb [9, 8, 7, 6, 5, 4, 3, 2, 1, 0] @ upper_after) [] (\<lambda>_. []) pr t \<Longrightarrow> P t"
  shows "ok (p1_shrink_test w p1_filled s) P"
proof -
  have k: "p1_kids(Pcb 0 := [], Pcb 7 := []) = (\<lambda>_. [])" by (simp add: p1_kids_def fun_eq_iff)
  have v: "map (procp p1_filled) [0, 1, 2, 3, 4, 5, 6, 7, 8, 9] = map Some (map Pcb [0, 1, 2, 3, 4, 5, 6, 7, 8, 9])"
    by (simp add: procp_filled)
  show ?thesis
    unfolding p1_shrink_test_def ok_andThen
    by (rule pool_outChild_test [OF pool, of 0], simp add: p1_kids_def,
        rule pool_outChild_test [where j = 7], assumption, simp add: p1_kids_def,
        (rule pool_removeChild_test, assumption, simp add: p1_kids_def)+,
        simp only: procp_filled zero_less_numeral deref_simps ok_simps, rule pool_removeChild_none, assumption,
        simp add: held_upper, simp add: p1_kids_def, simp only: prod.case not_True_eq_False simp_thms ok_andThen no_err,
        rule pool_emptyChild_test, assumption, simp add: p1_kids_def, rule pool_say, assumption, rule pool_say, assumption,
        rule pool_free_all [OF _ v], erule pool_cong, simp add: p1_kids_def fun_eq_iff, simp, simp,
        simp add: upper_after_def, simp add: P)
qed

end
