(* ===== verification/Phase1_Asl_Test.thy ===== *)
theory Phase1_Asl_Test
  imports Phase1_Test Asl_Tree Example_System
begin

text \<open>
  The second half of the test program of \<open>Phase1_Test\<close>, the active semaphore list, and the theorem that the whole
  program passes. The proof executes the program symbolically: a predicate says what the memory holds, and one
  rule for each operation of \<open>asl.c\<close> changes it.
\<close>

section \<open>The semaphores\<close>

text \<open>
  Every semaphore of the test has at most one blocked process: \<open>m i\<close> for \<open>sem[i]\<close>.
\<close>

definition sem_queues :: "u32 \<Rightarrow> (nat \<Rightarrow> pcb option) \<Rightarrow> int_ptr option \<Rightarrow> pcb list" where
  "sem_queues sem m key =
     (case List.find (\<lambda>i. sem_key sem i = key) [0..<Suc MAXSEM] of
        None \<Rightarrow> [] | Some i \<Rightarrow> (case m i of None \<Rightarrow> [] | Some p \<Rightarrow> [p]))"

definition in_use :: "(nat \<Rightarrow> pcb option) \<Rightarrow> nat set" where
  "in_use m = {i. i \<le> MAXSEM \<and> m i \<noteq> None}"

lemma sem_key_eq: "i \<le> MAXSEM \<Longrightarrow> j \<le> MAXSEM \<Longrightarrow> sem_key sem i = sem_key sem j \<longleftrightarrow> i = j"
proof -
  assume ij: "i \<le> MAXSEM" "j \<le> MAXSEM"
  have u: "unat (4 * word_of_nat n :: u32) = 4 * n" if "n \<le> MAXSEM" for n
  proof -
    have "unat (word_of_nat (4 * n) :: u32) = 4 * n"
      using that by (intro unat_word_of_nat) (simp add: MAXSEM_def MAXPROC_def)
    moreover have "word_of_nat (4 * n) = (4 * word_of_nat n :: u32)" by simp
    ultimately show ?thesis by (simp only:)
  qed
  show ?thesis
  proof
    assume "sem_key sem i = sem_key sem j"
    then have "4 * word_of_nat i = (4 * word_of_nat j :: u32)" by (simp only: sem_key_def option.inject int_ptr.inject add_left_cancel)
    then have "unat (4 * word_of_nat i :: u32) = unat (4 * word_of_nat j :: u32)" by (simp only:)
    then show "i = j" unfolding u [OF ij(1)] u [OF ij(2)] by simp
  qed simp
qed

lemma find_sem_key: "i \<le> MAXSEM \<Longrightarrow> List.find (\<lambda>j. sem_key sem j = sem_key sem i) [0..<Suc MAXSEM] = Some i"
proof -
  assume i: "i \<le> MAXSEM"
  then have "List.find (\<lambda>j. sem_key sem j = sem_key sem i) [0..<Suc MAXSEM] = List.find (\<lambda>j. j = i) [0..<Suc MAXSEM]"
    by (intro find_cong) (auto simp: sem_key_eq)
  then show ?thesis using i by (simp add: find_eq_mem del: upt_Suc)
qed

lemma sem_queues_key [simp]:
  "i \<le> MAXSEM \<Longrightarrow> sem_queues sem m (sem_key sem i) = (case m i of None \<Rightarrow> [] | Some p \<Rightarrow> [p])"
  by (simp add: sem_queues_def find_sem_key del: upt_Suc)

lemma sem_queues_upd:
  assumes i: "i \<le> MAXSEM"
  shows "(sem_queues sem m)(sem_key sem i := case v of None \<Rightarrow> [] | Some p \<Rightarrow> [p]) = sem_queues sem (m(i := v))"
proof
  fix key
  show "((sem_queues sem m)(sem_key sem i := case v of None \<Rightarrow> [] | Some p \<Rightarrow> [p])) key = sem_queues sem (m(i := v)) key"
  proof (cases "key = sem_key sem i")
    case False
    then have "List.find (\<lambda>j. sem_key sem j = key) [0..<Suc MAXSEM] \<noteq> Some i" by (auto dest: find_SomeD)
    then show ?thesis using False by (auto simp: sem_queues_def split: option.splits simp del: upt_Suc)
  qed (use i in simp)
qed

lemma sem_queues_mem: "p \<in> set (sem_queues sem m key) \<longleftrightarrow> (\<exists>i\<le>MAXSEM. key = sem_key sem i \<and> m i = Some p)"
proof
  assume "p \<in> set (sem_queues sem m key)"
  then obtain i where i: "List.find (\<lambda>i. sem_key sem i = key) [0..<Suc MAXSEM] = Some i" "m i = Some p"
    by (cases "List.find (\<lambda>i. sem_key sem i = key) [0..<Suc MAXSEM]")
      (auto simp: sem_queues_def split: option.splits simp del: upt_Suc)
  show "\<exists>i\<le>MAXSEM. key = sem_key sem i \<and> m i = Some p"
    using find_SomeD [OF i(1)] i(2) by (intro exI [of _ i]) (auto simp del: upt_Suc)
qed auto

lemma blocked_sem_queues: "p \<in> blocked (sem_queues sem m) \<longleftrightarrow> (\<exists>i\<le>MAXSEM. m i = Some p)"
  by (auto simp: blocked_iff sem_queues_mem)

lemma sem_queues_full: "asl_full (sem_queues sem m) \<longleftrightarrow> card (in_use m) = MAXPROC"
proof -
  have "{key. sem_queues sem m key \<noteq> []} = sem_key sem ` in_use m"
  proof (intro set_eqI iffI)
    fix key assume "key \<in> {key. sem_queues sem m key \<noteq> []}"
    then obtain p where "p \<in> set (sem_queues sem m key)" by (cases "sem_queues sem m key") auto
    then show "key \<in> sem_key sem ` in_use m" by (auto simp: sem_queues_mem in_use_def)
  qed (auto simp: in_use_def)
  moreover have "inj_on (sem_key sem) (in_use m)" by (auto simp: inj_on_def in_use_def sem_key_eq)
  ultimately show ?thesis by (simp add: asl_full_def card_image)
qed

text \<open>\<open>sems w sem F m k s\<close>: the memory of the second half of the test, with the free list \<open>F\<close> and the trees \<open>k\<close>.\<close>

definition p1_heads :: "lh set" where "p1_heads = {PcbFree_h, qa} \<union> S_procQ ` {..<MAXPROC}"

definition sems ::
  "board \<Rightarrow> u32 \<Rightarrow> pcb list \<Rightarrow> (nat \<Rightarrow> pcb option) \<Rightarrow> (pcb \<Rightarrow> pcb list) \<Rightarrow> 'a kern_scheme \<Rightarrow> bool" where
  "sems w sem F m k s \<longleftrightarrow>
     asl s p1_heads (pool_queues F []) (sem_queues sem m) \<and> tree_rep s (held F) k \<and> console w (bus s)"

lemma p1_own [simp]: "own_members p1_heads (pool_queues F Q) = set F \<union> set Q"
  by (auto simp: own_members_def members_def p1_heads_def pool_queues_def)

lemma p1_heads_simps [simp]: "PcbFree_h \<in> p1_heads"
  by (simp add: p1_heads_def)

lemma semsD:
  assumes "sems w sem F m k s"
  shows "asl s p1_heads (pool_queues F []) (sem_queues sem m)" "tree_rep s (held F) k" "console w (bus s)"
    "p \<in> set F \<Longrightarrow> i \<le> MAXSEM \<Longrightarrow> m i \<noteq> Some p" "distinct F"
proof -
  show asl: "asl s p1_heads (pool_queues F []) (sem_queues sem m)" and "tree_rep s (held F) k" "console w (bus s)"
    using assms by (simp_all add: sems_def)
  show "p \<in> set F \<Longrightarrow> i \<le> MAXSEM \<Longrightarrow> m i \<noteq> Some p"
    using asl_disjoint_own [OF asl] blocked_sem_queues [of p sem m] by auto
  show "distinct F" using rings_distinct [OF asl_rings [OF asl], of PcbFree_h] by auto
qed

lemma sems_frame:
  assumes "sems w sem F m k s" and "asl_frame s t" and "asl t p1_heads (pool_queues F []) (sem_queues sem m')"
    and "\<And>x. p_parent (pcbs t x) = p_parent (pcbs s x)"
  shows "sems w sem F m' k t"
proof -
  have "tree_rep t (held F) k = tree_rep s (held F) k" by (rule tree_rep_asl_frame [OF assms(2,4)])
  then show ?thesis using assms(1,3) asl_frame_same [OF assms(2)] by (simp add: sems_def rest_same_def)
qed

lemma sems_init:
  assumes pool: "pool w {PcbFree_h, qa} F [] k pr s" and P: "\<And>t. sems w sem F (\<lambda>_. None) k t \<Longrightarrow> P t"
  shows "ok (initASL s) P"
proof -
  note I = poolD [OF pool]
  have "sems w sem F (\<lambda>_. None) k t"
    if t: "asl t ({PcbFree_h, qa} \<union> S_procQ ` {..<MAXPROC}) (pool_queues F []) (\<lambda>_. [])" "pcbs t = pcbs s" "asl_frame s t" for t
  proof -
    have "tree_rep t (held F) k = tree_rep s (held F) k" by (rule tree_rep_asl_frame [OF t(3)]) (simp add: t(2))
    moreover have "sem_queues sem (\<lambda>_. None) = (\<lambda>_. [])" by (auto simp: sem_queues_def split: option.split)
    ultimately show ?thesis using t(1) I(4,6) asl_frame_same [OF t(3)] by (simp add: sems_def p1_heads_def rest_same_def)
  qed
  then show ?thesis using P by (intro ok_mono [OF initASL_spec [OF I(1,2)]]) auto
qed

lemma sems_bus:
  assumes "sems w sem F m k s" and "console w b"
  shows "sems w sem F m k (s\<lparr>bus := b\<rparr>)"
proof -
  have "asl (s\<lparr>bus := b\<rparr>) p1_heads (pool_queues F []) (sem_queues sem m)"
    by (rule asl_same_queues [OF semsD(1) [OF assms(1)]]) (simp_all add: same_queues_def)
  moreover have "tree_rep (s\<lparr>bus := b\<rparr>) (held F) k = tree_rep s (held F) k" by (rule tree_rep_frame) simp_all
  ultimately show ?thesis using assms by (simp add: sems_def)
qed

lemma sems_say: "sems w sem F m k s \<Longrightarrow> (\<And>t. sems w sem F m k t \<Longrightarrow> P t) \<Longrightarrow> ok (say w msg s) P"
  using addokbuf_prints [OF semsD(3), of w sem F m k s "msg @ [CHR 0x0A]"]
  by (auto simp: say_def print_ok_def ok_iff andThen_eq_Inr intro: sems_bus)

lemma sems_head:
  "sems w sem F m k s \<Longrightarrow> i \<le> MAXSEM \<Longrightarrow> P (m i) \<Longrightarrow> ok (headBlocked (sem_key sem i) s) P"
  using headBlocked_eq [OF semsD(1), of w sem F m k s "sem_key sem i"] by (cases "m i") simp_all

lemma sems_insert:
  assumes s: "sems w sem F m k s" and i: "i \<le> MAXSEM" "m i = None" and p: "p \<notin> set F" "\<And>j. j \<le> MAXSEM \<Longrightarrow> m j \<noteq> Some p"
    and free: "card (in_use m) < MAXPROC" and P: "\<And>t. sems w sem F (m(i := Some p)) k t \<Longrightarrow> P (False, t)"
  shows "ok (insertBlocked (sem_key sem i) p s) P"
proof -
  note I = semsD [OF s]
  have "p \<notin> own_members p1_heads (pool_queues F [])" "p \<notin> blocked (sem_queues sem m)"
    using p by (auto simp: blocked_sem_queues)
  from insertBlocked_spec [OF I(1) this, of "sem_key sem i"] show ?thesis
  proof (rule ok_mono, clarify)
    fix full t
    assume "insert_result (sem_key sem i) p (q_insert (prio s) p (sem_queues sem m (sem_key sem i))) p1_heads
      (pool_queues F []) (sem_queues sem m) s full t"
    then have t: "\<not> full" "asl t p1_heads (pool_queues F []) (sem_queues sem (m(i := Some p)))" "asl_frame s t"
        "pcbs t = (pcbs s)(p := (pcbs s p)\<lparr>p_semkey := sem_key sem i\<rparr>)"
      using free i sem_queues_upd [OF i(1), of sem m "Some p"]
      by (auto simp: insert_result_def sem_queues_full)
    have "sems w sem F (m(i := Some p)) k t" by (rule sems_frame [OF s t(3,2)]) (simp add: t(4))
    then show "P (full, t)" using P t(1) by simp
  qed
qed

lemma sems_insert_full:
  assumes s: "sems w sem F m k s" and i: "i \<le> MAXSEM" "m i = None" and full: "card (in_use m) = MAXPROC"
    and P: "P (True, s)"
  shows "ok (insertBlocked (sem_key sem i) p s) P"
proof -
  obtain Q fs acts where inv: "asl_inv s p1_heads Q fs acts {}" and W: "sem_queues sem m = waiting s Q acts"
    using semsD(1) [OF s] by (rule aslE)
  have "fs = []" using sem_queues_full [of sem m] full asl_full_iff [OF inv] W by simp
  moreover have "waiting s Q acts (sem_key sem i) = []" using i by (simp flip: W)
  ultimately have "getSemd_or_free (sem_key sem i) p s = Inr (None, s)" using getSemd_or_free_full inv by blast
  then show ?thesis using P by (simp add: insertBlocked_def)
qed

lemma sems_remove_none:
  "sems w sem F m k s \<Longrightarrow> i \<le> MAXSEM \<Longrightarrow> m i = None \<Longrightarrow> P (None, s) \<Longrightarrow> ok (removeBlocked (sem_key sem i) s) P"
  using removeBlocked_spec [OF semsD(1), of w sem F m k s "sem_key sem i"] by (auto elim!: ok_mono)

lemma sems_removed:
  assumes s: "sems w sem F m k s" and i: "i \<le> MAXSEM" "m i = Some p"
    and r: "remove_result (sem_key sem i) p p1_heads (pool_queues F []) (sem_queues sem m) s t"
  shows "sems w sem F (m(i := None)) k t"
  using r i sem_queues_upd [OF i(1), of sem m None] by (intro sems_frame [OF s, of t]) (auto simp: remove_result_def)

lemma sems_remove:
  assumes s: "sems w sem F m k s" and i: "i \<le> MAXSEM" "m i = Some p"
    and P: "\<And>t. sems w sem F (m(i := None)) k t \<Longrightarrow> P (Some p, t)"
  shows "ok (removeBlocked (sem_key sem i) s) P"
  using removeBlocked_spec [OF semsD(1) [OF s], of "sem_key sem i"] i sems_removed [OF s i] P
  by (auto elim!: ok_mono)

lemma sems_out:
  assumes s: "sems w sem F m k s" and i: "i \<le> MAXSEM" "m i = Some p"
    and P: "\<And>t. sems w sem F (m(i := None)) k t \<Longrightarrow> P (Some p, t)"
  shows "ok (outBlocked p s) P"
proof -
  have mem: "p \<in> set (sem_queues sem m (sem_key sem i))" using i by simp
  have "sem_key sem i = p_semkey (pcbs s p)" by (rule asl_semkey [OF semsD(1) [OF s] mem, symmetric])
  from outBlocked_spec [OF semsD(1) [OF s] this] show ?thesis
    using mem sems_removed [OF s i] P by (auto elim!: ok_mono)
qed

lemma sems_alloc:
  assumes s: "sems w sem (p # F) m k s" and p: "p \<in> Pcb ` {..<MAXPROC}"
    and P: "\<And>t. sems w sem F m (k(p := [])) t \<Longrightarrow> P (Some p, t)"
  shows "ok (allocPcb s) P"
proof -
  note I = semsD [OF s]
  have A: "held F = insert p (held (p # F))" "p \<notin> held (p # F)" using I(5) p by (auto simp: held_def)
  have "sems w sem F m (k(p := [])) t"
    if t: "asl t p1_heads ((pool_queues (p # F) [])(PcbFree_h := F)) (sem_queues sem m)"
      "pcbs t = (pcbs s)(p := fresh_pcb (pcbs s p))" "lh_next t (P_child p) = None"
      "pcb_only (proc_cells \<union> {P_child p, P_sib p}) {p} s t" for t
    using t(1) I(3) pcb_only_same [OF t(4)] tree_rep_alloc [OF I(2) A(2) t(2-4)]
    by (simp add: sems_def rest_same_def A(1))
  then show ?thesis using allocPcb_asl [OF I(1) p1_heads_simps, of p F] P by (fastforce elim!: ok_mono)
qed

lemma sems_insertChild:
  assumes s: "sems w sem F m k s" and p: "p \<in> held F" "c \<in> held F" "c \<noteq> p" "k c = []" "\<And>x. c \<notin> set (k x)"
    and P: "\<And>t. sems w sem F m (k(p := k p @ [c])) t \<Longrightarrow> P t"
  shows "ok (insertChild (Some p) (Some c) s) P"
proof (rule ok_mono [OF insertChild_spec [OF semsD(2) [OF s] p(1-3)]])
  fix t
  assume t: "tree_rep t (held F) (k(p := k p @ [c])) \<and> pcb_only tree_cells {c} s t \<and>
    pcbs t c = (pcbs s c)\<lparr>p_parent := Some p\<rparr>"
  then have "p_semkey (pcbs t x) = p_semkey (pcbs s x)" for x by (cases "x = c") (auto simp: pcb_only_def)
  then have "asl t p1_heads (pool_queues F []) (sem_queues sem m)"
    using t by (intro asl_same_queues [OF semsD(1) [OF s] pcb_only_same_queues]) auto
  then show "P t" using t semsD(3) [OF s] pcb_only_same [of tree_cells "{c}" s t] by (intro P) (simp add: sems_def rest_same_def)
qed (use p(4,5) in auto)

lemma sems_outChildBlocked:
  assumes s: "sems w sem F m k s" and p: "p \<in> held F" "subtree k p xs"
    and P: "\<And>t. sems w sem F (\<lambda>i. if m i \<in> Some ` set xs then None else m i) k t \<Longrightarrow> P t"
  shows "ok (outChildBlocked p s) P"
proof (rule ok_mono [OF outChildBlocked_spec [OF semsD(1,2) [OF s] p]])
  fix t
  assume t: "unblocked xs p1_heads (pool_queues F []) (sem_queues sem m) s t"
  have "(\<lambda>key. filter (\<lambda>x. x \<notin> set xs) (sem_queues sem m key)) =
      sem_queues sem (\<lambda>i. if m i \<in> Some ` set xs then None else m i)"
    by (auto simp: sem_queues_def fun_eq_iff split: option.split)
  then have "asl t p1_heads (pool_queues F []) (sem_queues sem (\<lambda>i. if m i \<in> Some ` set xs then None else m i))"
    "asl_frame s t" using t by (simp_all add: unblocked_def)
  then show "P t" using t by (intro P sems_frame [OF s]) (auto simp: unblocked_def)
qed

subsection \<open>The loops\<close>

lemma in_use_upd: "i \<le> MAXSEM \<Longrightarrow> m i = None \<Longrightarrow> card (in_use (m(i := Some p))) = Suc (card (in_use m))"
proof -
  assume "i \<le> MAXSEM" "m i = None"
  then have "in_use (m(i := Some p)) = insert i (in_use m)" "i \<notin> in_use m" by (auto simp: in_use_def)
  moreover have "finite (in_use m)" by (simp add: in_use_def)
  ultimately show ?thesis by simp
qed

lemma sems_block_all:
  fixes s :: "'a kern_scheme"
  shows "sems w sem (ps @ F) m (\<lambda>_. []) s \<Longrightarrow> length is = length ps \<Longrightarrow> set ps \<subseteq> Pcb ` {..<MAXPROC} \<Longrightarrow> distinct is \<Longrightarrow>
    (\<And>i. i \<in> set is \<Longrightarrow> i \<le> MAXSEM \<and> m i = None) \<Longrightarrow> card (in_use m) + length is \<le> MAXPROC \<Longrightarrow>
    (\<And>t. sems w sem F (numbered is ps m) (\<lambda>_. []) t \<Longrightarrow> P (v\<lparr>procp := numbered is ps (procp v)\<rparr>, t)) \<Longrightarrow>
    ok (p1_block_all w sem msg is v s) P"
proof (induction "is" arbitrary: ps m s v)
  case Nil
  then show ?case by simp
next
  case (Cons i "is")
  then obtain p qs where ps: "ps = p # qs" by (cases ps) auto
  let ?v = "v\<lparr>procp := (procp v)(i := Some p)\<rparr>"
  have s: "sems w sem (p # qs @ F) m (\<lambda>_. []) s" using Cons.prems(1) ps by simp
  have i: "i \<le> MAXSEM" "m i = None" using Cons.prems(5) by simp_all
  have new: "p \<notin> set (qs @ F)" "\<And>j. j \<le> MAXSEM \<Longrightarrow> m j \<noteq> Some p" using semsD(4,5) [OF s] by auto
  have "ok (insertBlocked (sem_key sem i) p t) (\<lambda>(full, s). ok (err_if w full msg s) (\<lambda>s. ok (p1_block_all w sem msg is ?v s) P))"
    if t: "sems w sem (qs @ F) m (\<lambda>_. []) t" for t :: "'a kern_scheme"
  proof (rule sems_insert [OF t i new])
    fix u :: "'a kern_scheme"
    assume "sems w sem (qs @ F) (m(i := Some p)) (\<lambda>_. []) u"
    then have "ok (p1_block_all w sem msg is ?v u) P"
      by (rule Cons.IH) (use Cons.prems(2-7) ps in_use_upd [where m = m and p = p, OF i] in \<open>auto simp: fun_upd_def\<close>)
    then show "case (False, u) of (full, s) \<Rightarrow> ok (err_if w full msg s) (\<lambda>s. ok (p1_block_all w sem msg is ?v s) P)"
      by simp
  qed (use Cons.prems(6) in auto)
  then show ?case using ps Cons.prems(3) by (auto simp: ok_case_prod fun_upd_idem intro!: sems_alloc [OF s])
qed

lemma sems_wake_all:
  fixes s :: "'a kern_scheme"
  shows "sems w sem F m k s \<Longrightarrow> distinct is \<Longrightarrow> (\<And>i. i \<in> set is \<Longrightarrow> i \<le> MAXSEM \<and> procp v i = m i \<and> m i \<noteq> None) \<Longrightarrow>
    (\<And>t. sems w sem F (\<lambda>i. if i \<in> set is then None else m i) k t \<Longrightarrow> P t) \<Longrightarrow> ok (p1_wake_all w sem is v s) P"
proof (induction "is" arbitrary: m s)
  case Nil
  then show ?case by simp
next
  case (Cons i "is")
  have "i \<le> MAXSEM \<and> procp v i = m i \<and> m i \<noteq> None" by (rule Cons.prems(3)) simp
  then obtain p where i: "i \<le> MAXSEM" "m i = Some p" "procp v i = Some p" by (metis not_None_eq)
  have "ok (p1_wake_all w sem is v t) P" if "sems w sem F (m(i := None)) k t" for t :: "'a kern_scheme"
  proof (rule Cons.IH [OF that])
    fix u :: "'a kern_scheme"
    assume "sems w sem F (\<lambda>j. if j \<in> set is then None else (m(i := None)) j) k u"
    moreover have "(\<lambda>j. if j \<in> set is then None else (m(i := None)) j) = (\<lambda>j. if j \<in> set (i # is) then None else m j)"
      by auto
    ultimately show "P u" using Cons.prems(4) by simp
  qed (use Cons.prems(2,3) in auto)
  then show ?case by (auto simp: i intro!: sems_remove [OF Cons.prems(1) i(1,2)])
qed

section \<open>The test of the semaphores\<close>

definition p1_blocked :: p1_vars where
  "p1_blocked = p1_filled\<lparr>procp := 
     (\<lambda>i. if i < 10 then Some (upper_after ! i) else if i < MAXPROC then Some (Pcb (19 - i)) else None)\<rparr>"

definition lower :: "pcb list" where "lower = map Pcb [9, 8, 7, 6, 5, 4, 3, 2, 1, 0]"

lemma numbered_lower:
  "numbered [10..<MAXPROC] lower f = (\<lambda>i. if 10 \<le> i \<and> i < MAXPROC then Some (Pcb (19 - i)) else f i)"
proof
  fix i
  show "numbered [10..<MAXPROC] lower f i = (if 10 \<le> i \<and> i < MAXPROC then Some (Pcb (19 - i)) else f i)"
    by (cases "i < MAXPROC")
      (auto simp: nums10 lower_def MAXPROC_def fun_upd_def eval_nat_numeral less_Suc_eq)
qed

lemma numbered_all:
  "numbered [0..<10] upper_after (numbered [10..<MAXPROC] lower f) = (\<lambda>i. if i < MAXPROC then procp p1_blocked i else f i)"
proof
  fix i
  show "numbered [0..<10] upper_after (numbered [10..<MAXPROC] lower f) i = (if i < MAXPROC then procp p1_blocked i else f i)"
  by (cases "i < MAXPROC")
    (auto simp: nums10 upper_after_def lower_def p1_blocked_def MAXPROC_def fun_upd_def eval_nat_numeral less_Suc_eq)
qed

lemma in_use_lower: "card (in_use (numbered [10..<MAXPROC] lower (\<lambda>_. None))) = 10"
proof -
  have "in_use (numbered [10..<MAXPROC] lower (\<lambda>_. None)) = {10..<MAXPROC}"
    by (auto simp: in_use_def numbered_lower MAXSEM_def)
  then show ?thesis by (simp add: MAXPROC_def)
qed

lemma in_use_blocked: "in_use (procp p1_blocked) = {..<MAXPROC}"
  by (auto simp: in_use_def p1_blocked_def MAXSEM_def MAXPROC_def split: if_splits)

lemma p1_block_test_ok:
  assumes pool: "pool w {PcbFree_h, qa} (lower @ upper_after) [] (\<lambda>_. []) pr s"
    and P: "\<And>t. sems w sem [] (procp p1_blocked) (\<lambda>_. []) t \<Longrightarrow> P (p1_blocked, t)"
  shows "ok (p1_block_test w sem p1_filled s) P"
proof -
  let ?m = "numbered [10..<MAXPROC] lower (\<lambda>_. None)" and ?v = "p1_filled\<lparr>procp := numbered [10..<MAXPROC] lower (procp p1_filled)\<rparr>"
  have m: "numbered [0..<10] upper_after ?m = procp p1_blocked"
    unfolding numbered_all by (auto simp: p1_blocked_def MAXPROC_def fun_eq_iff)
  have v: "?v\<lparr>procp := numbered [0..<10] upper_after (procp ?v)\<rparr> = p1_blocked"
    by (simp add: numbered_all) (auto simp: p1_blocked_def p1_filled_def p1_all_def p1_start_def MAXPROC_def fun_eq_iff)
  have b11: "procp p1_blocked 11 = Some (Pcb 8)" "procp p1_blocked 9 = Some (Pcb 16)" "procp p1_blocked MAXSEM = None"
    by (simp_all add: p1_blocked_def upper_after_def MAXPROC_def MAXSEM_def)
  have n8: "((procp p1_blocked)(11 := None)) j \<noteq> Some (Pcb 8)" for j
    by (auto simp: p1_blocked_def upper_after_def MAXPROC_def eval_nat_numeral less_Suc_eq)
  have m11: "(procp p1_blocked)(11 := None, 11 \<mapsto> Pcb 8) = procp p1_blocked" using b11(1) by auto
  have "in_use ((procp p1_blocked)(11 := None)) = {..<MAXPROC} - {11}"
    using in_use_blocked by (auto simp: in_use_def)
  then have card11: "card (in_use ((procp p1_blocked)(11 := None))) < MAXPROC" by (simp add: MAXPROC_def)
  have L: "length [10..<MAXPROC] = length lower" "set lower \<subseteq> Pcb ` {..<MAXPROC}" "distinct [10..<MAXPROC]"
    "i \<in> set [10..<MAXPROC] \<Longrightarrow> i \<le> MAXSEM \<and> None = None" "card (in_use (\<lambda>_. None)) + length [10..<MAXPROC] \<le> MAXPROC" for i
    by (auto simp: lower_def MAXPROC_def MAXSEM_def in_use_def)
  have U: "length [0..<10] = length upper_after" "set upper_after \<subseteq> Pcb ` {..<MAXPROC}" "distinct [0..<10]"
    "i \<in> set [0..<10] \<Longrightarrow> i \<le> MAXSEM \<and> ?m i = None" "card (in_use ?m) + length [0..<10] \<le> MAXPROC" for i
    unfolding in_use_lower unfolding numbered_lower by (auto simp: upper_after_def MAXPROC_def MAXSEM_def)
  show ?thesis
    unfolding p1_block_test_def ok_andThen
    by (rule sems_init [OF pool], rule sems_say, assumption, rule sems_say, assumption,
        rule sems_block_all [OF _ L], assumption, assumption, simp only: prod.case ok_andThen, rule sems_say, assumption,
        rule sems_block_all [where F = "[]", OF _ U], simp, assumption, simp only: m v prod.case ok_andThen,
        rule sems_remove, assumption, simp add: MAXSEM_def MAXPROC_def, rule b11,
        simp only: prod.case deref_simps ok_simps ok_andThen,
        rule sems_insert, assumption, simp add: MAXSEM_def MAXPROC_def, simp, simp, rule n8, rule card11,
        simp only: m11 prod.case simp_thms no_err b11 deref_simps ok_simps ok_andThen,
        rule sems_insert_full, assumption, simp, rule b11, simp add: in_use_blocked, simp add: P)
qed


lemma p1_wake_test_ok:
  assumes s: "sems w sem [] (procp p1_blocked) k s"
    and P: "\<And>t. sems w sem [] (\<lambda>i. if i < 9 then Some (upper_after ! i) else None) k t \<Longrightarrow> P t"
  shows "ok (p1_wake_test w sem p1_blocked s) P"
proof -
  have b9: "procp p1_blocked 9 = Some (Pcb 16)"
    by (simp add: p1_blocked_def upper_after_def)
  have m: "(\<lambda>i. if i \<in> set [10..<MAXPROC] then None else procp p1_blocked i) = (\<lambda>i. if i < 10 then Some (upper_after ! i) else None)"
    unfolding set_upt atLeastLessThan_iff by (auto simp: p1_blocked_def MAXPROC_def fun_eq_iff)
  have m9: "(\<lambda>i. if i < 10 then Some (upper_after ! i) else None)(9 := None) = (\<lambda>i. if i < 9 then Some (upper_after ! i) else None)"
    by (auto simp: fun_eq_iff)
  have nine: "upper_after ! 9 = Pcb 16" by (simp add: upper_after_def)
  have L: "i \<in> set [10..<MAXPROC] \<Longrightarrow> i \<le> MAXSEM \<and> procp p1_blocked i = procp p1_blocked i \<and> procp p1_blocked i \<noteq> None" for i
    by (auto simp: p1_blocked_def MAXSEM_def MAXPROC_def)
  have max: "11 \<le> MAXSEM" "9 \<le> MAXSEM" by (simp_all add: MAXSEM_def MAXPROC_def)
  show ?thesis
    unfolding p1_wake_test_def p1_headBlocked_def ok_andThen b9
    by (rule sems_say [OF s], rule sems_wake_all, assumption, simp, erule L, simp only: m,
        rule sems_remove_none, assumption, rule max, simp, simp only: prod.case simp_thms no_err ok_andThen,
        rule sems_say, assumption, rule sems_head, assumption, rule max, simp,
        rule sems_head, assumption, rule max(2), simp add: nine,
        rule sems_out, assumption, rule max(2), simp add: nine, simp only: m9, simp add: P)
qed

definition p1_tree :: "pcb \<Rightarrow> pcb list" where
  "p1_tree = (\<lambda>_. [])(Pcb 14 := map Pcb [10, 11, 12], Pcb 12 := [Pcb 13])"

lemma p1_subtree: "subtree p1_tree (Pcb 14) (map Pcb [14, 10, 11, 12, 13])"
proof -
  have leaf: "subtree p1_tree (Pcb i) [Pcb i]" if "i \<noteq> 14 \<and> i \<noteq> 12" for i
    using that by (auto simp: p1_tree_def intro!: subtree_forest.intros)
  note sub = forest_Cons [OF leaf]
  have "forest p1_tree [Pcb 13] ([Pcb 13] @ [])" by (rule sub, simp, rule forest_Nil)
  then have t12: "subtree p1_tree (Pcb 12) [Pcb 12, Pcb 13]" by (intro subtree) (simp add: p1_tree_def)
  have "forest p1_tree [Pcb 10, Pcb 11, Pcb 12] ([Pcb 10] @ [Pcb 11] @ [Pcb 12, Pcb 13] @ [])"
    by (rule sub, simp, rule sub, simp, rule forest_Cons [OF t12], rule forest_Nil)
  then show ?thesis by (auto simp: p1_tree_def intro: subtree)
qed

lemma held_all: "Pcb i \<in> held [] \<longleftrightarrow> i < MAXPROC"
  by (auto simp: held_def)

lemma sems_insertChild_test:
  assumes "sems w sem [] m k s"
    and "i < 9 \<and> j < 9 \<and> i \<noteq> j \<and> k (upper_after ! j) = [] \<and> (\<forall>x. upper_after ! j \<notin> set (k x))"
    and "\<And>t. sems w sem [] m (k(upper_after ! i := k (upper_after ! i) @ [upper_after ! j])) t \<Longrightarrow> P t"
  shows "ok (p1_insertChild p1_blocked i j s) P"
proof -
  have "upper_after ! i \<in> held []" "upper_after ! j \<in> held []" "upper_after ! i \<noteq> upper_after ! j"
    using assms(2) by (auto simp: upper_after_def held_all MAXPROC_def eval_nat_numeral less_Suc_eq)
  then show ?thesis using assms(2,3)
    by (auto simp: p1_insertChild_def p1_blocked_def intro!: sems_insertChild [OF assms(1)])
qed

lemma sems_head_test:
  assumes "sems w sem [] m k s" and "i \<le> 9 \<and> (m i = None) \<noteq> b" and "P s"
  shows "ok (p1_headBlocked w sem i b msg s) P"
  using assms(2,3)
  by (auto simp: p1_headBlocked_def MAXSEM_def MAXPROC_def intro!: sems_head [OF assms(1)])

definition p1_left :: "nat \<Rightarrow> pcb option" where
  "p1_left i = (if i = 5 then Some (Pcb 17) else if i = 6 then Some (Pcb 18) else if i = 7 then Some (Pcb 19)
     else if i = 8 then Some (Pcb 15) else None)"

lemma p1_left: 
  "(\<lambda>i. if (if i < 9 then Some (upper_after ! i) else None) \<in> Some ` set (map Pcb [14, 10, 11, 12, 13]) then None
     else if i < 9 then Some (upper_after ! i) else None) = p1_left" (is "?f = _")
proof
  fix i
  show "?f i = p1_left i"
    by (cases "i < 9") (auto simp: p1_left_def upper_after_def eval_nat_numeral less_Suc_eq)
qed

lemma p1_subtree_test_ok:
  fixes s :: "'a kern_scheme"
  assumes s: "sems w sem [] (\<lambda>i. if i < 9 then Some (upper_after ! i) else None) (\<lambda>_. []) s"
    and P: "\<And>t. sems w sem [] p1_left p1_tree t \<Longrightarrow> P t"
  shows "ok (p1_subtree_test w sem p1_blocked s) P"
proof -
  let ?m = "\<lambda>i. if i < 9 then Some (upper_after ! i) else None"
  have up: "upper_after ! 0 = Pcb 14" "upper_after ! 1 = Pcb 10" "upper_after ! Suc 0 = Pcb 10" "upper_after ! 2 = Pcb 11"
    "upper_after ! 3 = Pcb 12" "upper_after ! 4 = Pcb 13"
    by (simp_all add: upper_after_def)
  have b0: "procp p1_blocked 0 = Some (Pcb 14)" by (simp add: p1_blocked_def up)
  have out: "ok (outChildBlocked (Pcb 14) t) R"
    if "sems w sem [] ?m ((\<lambda>_. [])(Pcb 14 := [Pcb 10, Pcb 11, Pcb 12], Pcb 12 := [Pcb 13])) t"
      and "\<And>u. sems w sem [] p1_left p1_tree u \<Longrightarrow> R u" for t :: "'a kern_scheme" and R
    using sems_outChildBlocked [OF _ _ p1_subtree, of w sem "[]" ?m t R, unfolded p1_left] that
    by (simp add: p1_tree_def held_all MAXPROC_def)
  show ?thesis
    unfolding p1_subtree_test_def ok_andThen b0 deref_simps ok_simps
    by (rule sems_insertChild_test [OF s], simp add: up, (rule sems_insertChild_test, assumption, simp add: up)+,
        rule out, simp add: up, (rule sems_head_test, assumption, simp add: p1_left_def)+,
        (rule sems_say, assumption)+, erule P)
qed

section \<open>The whole test\<close>

text \<open>C25. On a terminal that answers and in any memory, the test program of the queues, trees and semaphores runs
  to its end: no call of \<open>pcb.c\<close> or \<open>asl.c\<close> returns anything but what it expects (it would panic), none follows
  a wild pointer or loops for ever. In the end the semaphores 5 to 8 have the one process each that the test
  leaves, and all others none.\<close>

theorem p1_test_passes:
  fixes s :: "'a kern_scheme"
  assumes con: "console w (bus s)"
  shows "ok (p1test_main w sem s) (\<lambda>t. console w (bus t) \<and>
    (\<forall>i \<le> MAXSEM. headBlocked (sem_key sem i) t = Inr (p1_left i)))"
proof -
  have "ok (p1test_main w sem s) (\<lambda>t. sems w sem [] p1_left p1_tree t)"
    unfolding p1test_main_def ok_andThen
    by (rule p1_alloc_test_ok [OF con], simp only: prod.case ok_andThen, rule p1_insert_test_ok, assumption,
        simp only: p1_filled_def [symmetric] prod.case ok_andThen, rule p1_remove_test_ok, assumption,
        rule p1_grow_test_ok, assumption, rule p1_shrink_test_ok, assumption,
        rule p1_block_test_ok, simp add: lower_def, simp only: prod.case ok_andThen,
        rule p1_wake_test_ok, assumption, rule p1_subtree_test_ok)
  then show ?thesis
  proof (rule ok_mono)
    fix t :: "'a kern_scheme"
    assume t: "sems w sem [] p1_left p1_tree t"
    have "headBlocked (sem_key sem i) t = Inr (p1_left i)" if "i \<le> MAXSEM" for i
      using sems_head [OF t that, of "\<lambda>q. q = p1_left i"] by (auto simp: ok_iff)
    then show "console w (bus t) \<and> (\<forall>i \<le> MAXSEM. headBlocked (sem_key sem i) t = Inr (p1_left i))"
      using semsD(3) [OF t] by blast
  qed
qed

lemma p1_test_passes_witness:
  "ok (p1test_main example_board 0x20000 example_boot) (\<lambda>t. console example_board (bus t) \<and>
    (\<forall>i \<le> MAXSEM. headBlocked (sem_key 0x20000 i) t = Inr (p1_left i)))"
  by (rule p1_test_passes) (rule example_console(3))

end
