(* ===== verification/Spec2Isabelle.thy ===== *)
theory Spec2Isabelle
  imports Queue_Properties Kernel_Refinement Phase1_Asl_Test
begin

text \<open>
  BiKaya, a multitasking kernel for the emulated machines uMPS2 and uARM: processes with priorities,
  semaphores, system calls, device input and output. This is the root of its verification library.

  \<^bold>\<open>The parts of the program and their theories\<close> (paths under \<open>src/\<close>)

  \<^item> \<open>Prelude\<close>: results. A routine that the kernel stops in (\<open>PANIC\<close>, \<open>adderrbuf\<close>), that reads through
    NULL or a pointer to no object, indexes out of bounds, divides by zero or loops for ever has the
    value \<open>Inl\<close> of the reason; else \<open>Inr\<close> of its value and the new state. \<open>ok m Q\<close> says that \<open>m\<close> ends
    without an error in a value with \<open>Q\<close>: every theorem with \<open>ok\<close> is one of total correctness.
  \<^item> \<open>Listx\<close>: \<open>include/utils/listx.h\<close>, doubly linked lists in a memory of next and previous pointers.
    The names of the list heads are a datatype (\<open>lh\<close>), so \<open>container_of\<close> is a partial inverse.
    \<open>dll\<close> and \<open>rings\<close> say which lists a memory holds; the locale \<open>list_family\<close> is the contract of a
    family of disjoint lists of one kind of element, interpreted for processes and semaphores.
  \<^item> \<open>Pcb\<close>, \<open>Pcb_Tree\<close>: \<open>core/processes/pcb.c\<close>, allocation, priority queues and the tree of processes.
  \<^item> \<open>Asl\<close>: \<open>core/processes/asl.c\<close>, the active semaphore list; \<open>asl s K R W\<close> relates the memory to the
    queue \<open>W key\<close> of every semaphore key. \<open>Asl_Tree\<close>: its recursion over the tree of processes.
  \<^item> \<open>Proc_Queue\<close>: the contract of a priority queue as the locale \<open>proc_queue\<close>, with the theorem that
    emptying a queue sorts; interpreted for the queues in memory.
  \<^item> \<open>System\<close>: \<open>core/system/*\<close>, the processor states of both targets. \<open>Bus\<close>, \<open>Devices\<close>, \<open>Terminal\<close>,
    \<open>Polling\<close>, \<open>Terminal_Text\<close>: device registers, \<open>devices.c\<close>, \<open>terminal.c\<close>, \<open>printer.c\<close>. What the hardware
    answers is the function \<open>env\<close> of the parameter \<open>board\<close>, by register and number of the bus access;
    what the kernel writes is logged. The constants of the emulators' headers, which are not part
    of the sources, are the other fields of \<open>board\<close>. \<open>Utils\<close>: \<open>utils/utils.c\<close>. \<open>Debug_Log\<close>: the debug build, \<open>utils/debug.c\<close>, the
    macros of \<open>debug.h\<close>, the dumps of the ready queue and the semaphores, and the branches under \<open>DEBUG\<close> of
    \<open>get_ext_dev_type\<close> and \<open>init_scheduler\<close>; elsewhere \<open>DEBUG_LOG\<close> is empty.
  \<^item> \<open>Scheduler\<close>: \<open>core/processes/scheduler.c\<close>. \<open>Sched_Spec\<close> is the abstract scheduler: a record of lists
    with an operation for each of the code's and the well-formedness \<open>sched_wf\<close>. \<open>Sched_Refine\<close>,
    \<open>Sched_Init\<close>, \<open>Sched_Kill\<close> and \<open>Sched_Io\<close> prove that the code implements it: \<open>repr s a\<close> says that
    the memory \<open>s\<close> represents \<open>a\<close>, and each operation takes a represented state to the represented result.
  \<^item> \<open>Interrupts\<close>, \<open>Handler\<close>: \<open>core/exceptions/*\<close> and \<open>bikaya.c\<close>, \<open>main.c\<close>. The state \<open>machine\<close> extends
    the scheduler's by the exception areas. \<open>LDST\<close>, which resumes a processor state, is the value returned.
    \<open>Memory_Layout\<close>: where the exception areas and the stacks lie.
  \<^item> \<open>Kernel\<close>: \<open>kinv\<close>, the invariant of the whole kernel, kept by every service. \<open>System_Run\<close>: \<open>exec\<close>, the
    steps of the running system (exceptions, and processes writing their memory), with the invariant
    for every reachable state by the locale \<open>invariant_system\<close>. \<open>Progress\<close>: the handlers always end;
    \<open>serves\<close> is what a service keeps. Only the handler of interrupts prints: for it \<open>alive\<close> adds to \<open>kinv\<close> that
    the terminal of the messages answers (\<open>console\<close>).
  \<^item> \<open>Interrupt_Lines\<close>: what the scan of an interrupt line does to the queues (\<open>woken\<close>).
  \<^item> \<open>Context_Switch\<close>: the registers, the memory and the accounts of time of the processes through a run. The memory
    of the kernel determines the abstract scheduler (\<open>repr_unique\<close>); no operation changes the saved registers of a
    process but those that interrupt, create or free it, nor the memory of the processes but where they ask for it,
    nor the times charged to any but the interrupted one; the process that runs when a handler ends has on record the last
    reading of the clock (\<open>exit_tod\<close>). \<open>handler\<close> is the handler of each exception,
    \<open>handler_guard\<close> the guard that \<open>exec\<close> puts on it.
  \<^item> \<open>Abstract_Kernel\<close>: the specification of the whole kernel and the refinement to it. \<open>akernel\<close> is the abstract
    scheduler with the memory of the processes and a clock that counts the accesses to the hardware; \<open>a_call\<close> has one rule for each
    outcome of a system call, \<open>a_handle\<close> one for each kind of exception, \<open>a_step\<close> is a step of the system. What a
    handler reads from the hardware must be what the hardware shows at some access during the handler (\<open>samples\<close>).
    The accounts of time and the saved registers are left open (\<open>same_sched\<close>), as are the commands written to the devices. The
    locale \<open>simulation\<close> is interpreted for \<open>exec\<close>, \<open>a_step\<close> and \<open>represents\<close>.
  \<^item> \<open>Aging\<close>: the run of time slices alone; the measure by which a ready process comes to run.
  \<^item> \<open>Phase1_Test\<close>, \<open>Phase1_Asl_Test\<close>: \<open>testing/old/p1test_bikaya_v0.c\<close>, the test program of \<open>pcb.c\<close> and \<open>asl.c\<close>
    on the memory before any process runs, executed symbolically.
  \<^item> \<open>Example_System\<close>: a concrete board and boot to which the properties are applied.
  \<^item> \<open>Queue_Properties\<close>, \<open>Sched_Properties\<close>, \<open>Io_Properties\<close>, \<open>Device_Properties\<close>,
    \<open>Kernel_Properties\<close>, \<open>Run_Properties\<close>, \<open>Context_Properties\<close>, \<open>Kernel_Refinement\<close>, \<open>Phase1_Asl_Test\<close> and this theory state the
    properties (C1, C2, ...), each followed by its application to a concrete state.

  \<^bold>\<open>Parameters and bounds\<close>

  \<^item> A C \<open>int\<close> or pointer passed by a process is a 32 bit word; priorities, counters and times wrap around.
    The well-formedness after a time slice needs that no priority overflows, which is stated.
  \<^item> The addresses of PCBs as processes see them are the parameter \<open>layout\<close>.
  \<^item> The memory is three separate maps: the kernel's tables, the words (\<open>user_word\<close>) and the processor states (\<open>user_state\<close>)
    of the processes. So a pointer that a process passes to a system call never reaches the kernel's data, nor a word the inside of a
    state. The emulated machines do not enforce this: it is an assumption on the processes.
  \<^item> The status of the transmitter of a terminal is free. Two properties of it are named hypotheses where they are needed: \<open>answers\<close>, no
    operation lasts for ever, whatever its result, and \<open>accepts\<close>, the transmitter goes through the documented
    cycle for each character (ready, busy some number of times, transmitted, and ready again after the acknowledgement). The
    first is enough for the kernel's messages and the tests to end, the second says that the characters come out. The terminal of
    \<open>Example_System\<close> follows the cycle.
  \<^item> \<open>for_each\<close>, \<open>remove_walk\<close>, \<open>outChildBlocked_walk\<close> and the polling and digit loops are
    \<open>partial_function\<close>s; that they end is proved, from the shape of the lists, of the tree or of the
    number, and for polling from the device's answers.
  \<^item> \<open>exec\<close> excludes by its guards what the kernel does not survive: an overflow of a priority, a system
    call while the idle process runs, the termination of a process that a device serves, and a
    \<open>WAITIO\<close> by which a process overtakes the one that is served. \<open>done_io_loses_waiter\<close> shows
    what happens without the last one, \<open>alloc_keeps_dev_w_list\<close> is the start of the third.

  \<^bold>\<open>Where the code and its comments differ\<close>

  The theorems are about the code. \<open>done_io\<close> leaves the next process at the head of the device's queue, where \<open>scheduler.h\<close> says that it is
  removed; \<open>time_slice_callback\<close> preempts also on equal priority, where its comment asks for a greater one; the
  messages go to the terminal \<open>SYS_TERM = 1\<close>, where the comments and the README say terminal 0; \<open>outChild\<close> resets \<open>p_parent\<close> only of a
  first child; the time of a handler that passes up a TLB miss, a trap or a breakpoint is not charged as
  kernel time.

  \<^bold>\<open>Not modelled\<close>

  \<^item> The messages at the single steps of the kernel in the debug build, and what they cost in time. The rest of the development is
    the release build.

  \<^item> The output of \<open>adderrbuf\<close> before \<open>PANIC\<close> where another routine calls it: the message is the reason of
    the error. \<open>adderrbuf\<close> itself, with its output, is modelled in \<open>Terminal\<close>.
  \<^item> The other programs under \<open>testing\<close>, which run as processes.
  \<^item> The execution of the processes, beyond that they may write their memory and the exception areas.
\<close>

section \<open>The start of the system\<close>

text \<open>The ready queue after \<open>init_scheduler\<close>, as a sort of the table of processes to start.\<close>

lemma init_ready_sorted:
  fixes s :: "'a kern_scheme"
  assumes boot: "boot s" and len: "length ds \<le> MAXPROC"
  shows "ready (a_init w ly ds (pcbs s)) = map Pcb (sort_key (\<lambda>i. - sint (init_priority (ds ! i))) [0..<length ds])"
    and "free (a_init w ly ds (pcbs s)) = map Pcb [length ds..<MAXPROC]"
proof -
  let ?a = "a_init w ly ds (pcbs s)"
  let ?b = "a_boot (pcbs s)" and ?c = "a_starts w ds (a_boot (pcbs s))"
  let ?ps = "map Pcb [0..<length ds]"
  have free: "free ?b = map Pcb [0..<MAXPROC]" and ready: "ready ?b = []" by (simp_all add: a_boot_def)
  have l: "length ds \<le> length (free ?b)" using len by (simp add: free)
  have core: "core ?b {}" by (rule core_boot [OF boot])
  note facts = a_starts_facts [OF core l, of w]
  have take: "take (length ds) (free ?b) = ?ps" using len by (simp add: free take_map)
  have pr: "a_prio ?c (Pcb i) = sint (init_priority (ds ! i))" if "i < length ds" for i
    using facts that len by (simp add: a_prio_def free)
  have core': "core ?c {}" by (rule core_starts [OF core l])
  have "ready ?c = sort_key (\<lambda>p. - a_prio ?c p) ?ps"
  proof (rule sym, rule properties_for_sort_key)
    have "distinct (ready ?c)" using core' by (simp add: core_def placed_def)
    moreover have "set (ready ?c) = set ?ps" using facts take ready by simp
    moreover have "distinct ?ps" by (simp add: distinct_map inj_on_def)
    ultimately show "mset (ready ?c) = mset ?ps"
      by (simp only: set_eq_iff_mset_eq_distinct [symmetric])
    show "filter (\<lambda>x. - a_prio ?c k = - a_prio ?c x) (ready ?c) =
        filter (\<lambda>x. - a_prio ?c k = - a_prio ?c x) ?ps" if "k \<in> set (ready ?c)" for k
      using a_starts_stable [OF core l, of w "a_prio ?c k"] take ready
      by (simp add: eq_commute [of "a_prio ?c k"])
    show "sorted (map (\<lambda>p. - a_prio ?c p) (ready ?c))"
      using core' by (simp add: core_def by_prio_sorted)
  qed
  also have "\<dots> = map Pcb (sort_key (\<lambda>i. - a_prio ?c (Pcb i)) [0..<length ds])"
    by (rule sort_key_map)
  also have "sort_key (\<lambda>i. - a_prio ?c (Pcb i)) [0..<length ds] =
      sort_key (\<lambda>i. - sint (init_priority (ds ! i))) [0..<length ds]"
    by (rule sort_key_cong) (simp_all add: pr)
  finally show "ready ?a = map Pcb (sort_key (\<lambda>i. - sint (init_priority (ds ! i))) [0..<length ds])"
    by (simp add: a_init_def a_idle_def)
  show "free ?a = map Pcb [length ds..<MAXPROC]"
    using facts len by (simp add: a_init_def a_idle_def free drop_map)
qed

text \<open>C13. The launch of the system with a table of 1 to \<open>MAXPROC\<close> processes ends without an error, and in
  the abstract state that the machine then represents: the running process followed by the ready queue is
  the table sorted by decreasing priority, in table order among equals; the other PCBs are free; nobody
  is blocked; every device is idle; and the state that is loaded is that of the running process.\<close>

theorem launch_starts_all:
  fixes s :: machine
  assumes boot: "boot s" and len: "length ds \<le> MAXPROC" and ne: "ds \<noteq> []"
  shows "ok (bikaya_launch w ly h ds ts s) (\<lambda>(st, t). \<exists>a. repr t a \<and> sched_wf a \<and> dev_inv w t a \<and>
    running a # ready a = map Pcb (sort_key (\<lambda>i. - sint (init_priority (ds ! i))) [0..<length ds]) \<and>
    free a = map Pcb [length ds..<MAXPROC] \<and> wait a = (\<lambda>_. []) \<and> st = p_s (pcbs t (running a)))"
proof -
  let ?i = "a_init w ly ds (pcbs s)" and ?a = "a_booted w ly ds s"
  obtain p q where q: "ready ?i = p # q" using a_init_ready [OF boot len ne] by blast
  have a: "running ?a # ready ?a = ready ?i" "free ?a = free ?i" "wait ?a = (\<lambda>_. [])"
    "p_s (tcb ?i (hd (ready ?i))) = p_s (tcb ?a (running ?a))"
    using a_init_wait [OF boot len, of w ly] by (simp_all add: a_booted_def a_launch_def q)
  show ?thesis
  proof (rule ok_mono [OF boot_refines [OF boot len ne, of w ly h ts]], clarify)
    fix t :: machine
    assume "repr t ?a" "sched_wf ?a" "dev_inv w t ?a"
    then show "\<exists>a. repr t a \<and> sched_wf a \<and> dev_inv w t a \<and>
        running a # ready a = map Pcb (sort_key (\<lambda>i. - sint (init_priority (ds ! i))) [0..<length ds]) \<and>
        free a = map Pcb [length ds..<MAXPROC] \<and> wait a = (\<lambda>_. []) \<and>
        p_s (tcb ?i (hd (ready ?i))) = p_s (pcbs t (running a))"
      unfolding a(4) using a(1-3) init_ready_sorted [OF boot len, of w ly]
      by (intro exI [of _ ?a]) (simp add: repr_def)
  qed
qed

lemma launch_starts_all_witness:
  "ok (bikaya_launch example_board example_layout example_handlers
      [example_proc 0x20002000 1, example_proc 0x20003000 2, example_proc 0x20004000 1] 3000 example_boot)
    (\<lambda>(st, t). \<exists>a. repr t a \<and> running a = Pcb 1 \<and> ready a = [Pcb 0, Pcb 2])"
  by (rule ok_mono [OF launch_starts_all [OF boot_example]])
    (auto simp: MAXPROC_def example_proc_def upt_rec)

text \<open>The launch stops the kernel with its message exactly at the bounds of the table: with no process
  to start, and with more than \<open>MAXPROC\<close>.\<close>

lemma launch_errors:
  fixes s :: machine
  assumes boot: "boot s" and bounds: "ds = [] \<or> MAXPROC < length ds"
  shows "bikaya_launch w ly h ds ts s = Inl (Panic
    (if ds = [] then ''Impossible to launch the system, no processes in the ready queue''
     else ''ERROR: The maximum number of processes has been reached!''))"
proof -
  obtain f where f: "initialize_new_areas w h s = s\<lparr>area := f\<rparr>" using initialize_new_areas_eq by blast
  have b: "boot (s\<lparr>area := f\<rparr>)" using boot by (simp add: boot_def)
  show ?thesis
  proof (cases "ds = []")
    case True
    obtain t where t: "init_scheduler w ly ds ts (s\<lparr>area := f\<rparr>) = Inr t" "tables t (a_init w ly ds (pcbs s))"
      using init_refines [OF b, of ds w ly ts] True by (auto simp: ok_iff)
    have "ready (a_init w ly ds (pcbs s)) = []"
      using init_ready_sorted(1) [OF boot, of ds w ly] True by simp
    then show ?thesis using launch_none [OF t(2)] True t(1) f by (simp add: bikaya_launch_def)
  next
    case False
    then show ?thesis
      using init_too_many [OF b, of ds w ly ts] bounds f by (simp add: bikaya_launch_def)
  qed
qed

lemma launch_errors_example:
  "bikaya_launch example_board example_layout example_handlers (replicate 21 (example_proc 0 1)) 3000 example_boot =
    Inl (Panic ''ERROR: The maximum number of processes has been reached!'')"
proof -
  have "replicate 21 (example_proc 0 1) = [] \<or> MAXPROC < length (replicate 21 (example_proc 0 1))"
    by (simp add: MAXPROC_def)
  from launch_errors [OF boot_example this] show ?thesis by simp
qed

section \<open>The running system\<close>

text \<open>C1. The invariant of the system: from the launch on, through every sequence of interrupts, system
  calls, TLB misses, traps and actions of the processes in which no priority overflows and no process is
  killed while a device serves it, the machine represents a well-formed abstract scheduler, and every
  device either is idle, with nobody waiting, or serves the first process of its queue.\<close>

theorem run_invariant:
  assumes "booted w ly s" and "(exec w ly)\<^sup>*\<^sup>* s t"
  shows "\<exists>a. repr t a \<and> sched_wf a \<and> dev_inv w t a"
  using kernel.inv_reachable [OF assms] by (simp add: kinv_def)

lemma example_steps:
  "(exec example_board example_layout)\<^sup>*\<^sup>* example_start
    (example_start\<lparr>user_word := (\<lambda>_. 7), user_state := (\<lambda>_. zero_state TARGET_UMPS), area := (\<lambda>_ _. zero_state TARGET_UMPS)\<rparr>)"
  by (rule r_into_rtranclp) (rule exec.User)

lemma run_invariant_witness:
  "\<exists>t a. (exec example_board example_layout)\<^sup>*\<^sup>* example_start t \<and> user_word t 4 = 7 \<and> repr t a \<and> sched_wf a"
proof -
  let ?t = "example_start\<lparr>user_word := (\<lambda>_. 7), user_state := (\<lambda>_. zero_state TARGET_UMPS), area := (\<lambda>_ _. zero_state TARGET_UMPS)\<rparr>"
  obtain a where "repr ?t a" "sched_wf a"
    using run_invariant [OF booted_example example_steps] by blast
  then show ?thesis using example_steps by (intro exI [of _ ?t] exI [of _ a]) simp
qed

text \<open>C4. No process is lost and none is twice in the system's tables: in every reachable state each of the
  \<open>MAXPROC\<close> PCBs is in exactly one place, once: the free list, the ready queue, the queue of one
  semaphore, or the processor.\<close>

theorem process_accounting:
  assumes "booted w ly s" and "(exec w ly)\<^sup>*\<^sup>* s t"
  shows "\<exists>a. repr t a \<and> (\<forall>i<MAXPROC.
    count_list (free a) (Pcb i) + count_list (ready a) (Pcb i) +
    card {k. Pcb i \<in> set (wait a k)} + of_bool (running a = Pcb i) = 1) \<and>
    (\<forall>k. distinct (wait a k))"
proof -
  obtain a where a: "repr t a" "sched_wf a" using kernel.inv_reachable [OF assms] by (auto simp: kinv_def)
  then have pl: "placed a {running a}" by (simp add: sched_wf_def core_def)
  have one: "count_list (free a) p + count_list (ready a) p + card {k. p \<in> set (wait a k)} +
      of_bool (running a = p) = 1" if p: "p \<in> all_procs" for p
  proof -
    have c: "count_list (free a) p = of_bool (p \<in> set (free a))" "count_list (ready a) p = of_bool (p \<in> set (ready a))"
      using pl by (simp_all add: placed_def count_list_distinct)
    have w: "card {k. p \<in> set (wait a k)} = of_bool (p \<in> blocked (wait a))"
    proof (cases "p \<in> blocked (wait a)")
      case True
      then obtain k where k: "p \<in> set (wait a k)" by (auto simp: blocked_iff)
      have "{k. p \<in> set (wait a k)} = {k}" using k pl unfolding placed_def by blast
      then show ?thesis using True by simp
    qed (simp add: blocked_iff)
    show ?thesis unfolding c w using p pl unfolding placed_def by (auto simp: set_eq_iff)
  qed
  have "distinct (wait a k)" for k using pl by (simp add: placed_def)
  then show ?thesis using a(1) one by (intro exI [of _ a]) (auto simp: all_procs_def)
qed

lemma process_accounting_witness:
  "\<exists>a. repr example_start a \<and> (\<forall>i<MAXPROC.
    count_list (free a) (Pcb i) + count_list (ready a) (Pcb i) +
    card {k. Pcb i \<in> set (wait a k)} + of_bool (running a = Pcb i) = 1)"
  using process_accounting [OF booted_example rtranclp.rtrancl_refl] by blast

end
